(* ===== verification/Prelude.thy ===== *)
theory Prelude
  imports Main "HOL-Library.Word" "HOL-Library.AList" "HOL-Library.List_Lexorder"
begin

text \<open>
  What every component of the model shares: the names of Go's machine types, the 64-bit
  wrap-around of \<open>time.Duration\<close> products, strings as lists of runes, and generic lemmas on
  lists and association lists.
\<close>

unbundle bit_operations_syntax

named_theorems go_simps \<open>equations of the Go primitives used by several components\<close>
named_theorems inv_intros \<open>introduction rules of the components' invariants\<close>

section \<open>Machine types\<close>

text \<open>
  A byte is an 8-bit word and a PCM sample a 16-bit word, read as signed by \<open>sint\<close>. A
  \<open>time.Duration\<close> is a count of nanoseconds. Sums and differences of durations are kept exact
  (they would need 292 years of source clock to wrap); every product goes through \<open>wrap64\<close>,
  because a product with a sample rate or a character count reaches the 64-bit limit far earlier.
\<close>

type_synonym byte = "8 word"
type_synonym sample = "16 word"
type_synonym duration = int

definition wrap64 :: "int \<Rightarrow> int" where
  "wrap64 x = (x + 2 ^ 63) mod 2 ^ 64 - 2 ^ 63"

definition in_int64 :: "int \<Rightarrow> bool" where
  "in_int64 x \<longleftrightarrow> - (2 ^ 63) \<le> x \<and> x < 2 ^ 63"

lemma wrap64_id [go_simps]: "in_int64 x \<Longrightarrow> wrap64 x = x"
  by (simp add: wrap64_def in_int64_def)

lemma wrap64_in_int64: "in_int64 (wrap64 x)"
proof -
  have "0 \<le> (x + 2 ^ 63) mod 2 ^ 64" and "(x + 2 ^ 63) mod 2 ^ 64 < (2 :: int) ^ 64"
    by simp_all
  then show ?thesis by (simp add: wrap64_def in_int64_def)
qed

text \<open>Go's integer division truncates toward zero.\<close>

definition go_div :: "int \<Rightarrow> int \<Rightarrow> int" where
  "go_div a b = sgn a * sgn b * (\<bar>a\<bar> div \<bar>b\<bar>)"

definition go_mod :: "int \<Rightarrow> int \<Rightarrow> int" where
  "go_mod a b = a - b * go_div a b"

lemma go_div_nonneg [go_simps]: "0 \<le> a \<Longrightarrow> 0 < b \<Longrightarrow> go_div a b = a div b"
  by (cases "a = 0") (simp_all add: go_div_def)

lemma go_mod_nonneg [go_simps]: "0 \<le> a \<Longrightarrow> 0 < b \<Longrightarrow> go_mod a b = a mod b"
  by (simp add: go_mod_def go_div_nonneg minus_mult_div_eq_mod)

abbreviation millisecond :: duration where "millisecond \<equiv> 1000000"
abbreviation second :: duration where "second \<equiv> 1000000000"
abbreviation minute :: duration where "minute \<equiv> 60000000000"
abbreviation hour :: duration where "hour \<equiv> 3600000000000"

lemma div_floor: "0 < h \<Longrightarrow> d div h * h \<le> d \<and> d < (d div h + 1) * h" for d h :: int
proof -
  assume "0 < h"
  then have "0 \<le> d mod h" "d mod h < h" by simp_all
  then show ?thesis unfolding distrib_right mult_1 using div_mult_mod_eq [of d h] by linarith
qed

section \<open>Strings\<close>

text \<open>
  A Go string is valid UTF-8 everywhere the modelled code receives one (gRPC, JSON and YAML
  reject anything else), so it is represented by its runes. \<open>blen\<close> is Go's \<open>len\<close>: the number of
  UTF-8 bytes. \<open>str\<close> writes an ASCII literal.
\<close>

type_synonym rune = int
type_synonym gostr = "rune list"

definition str :: "string \<Rightarrow> gostr" where
  "str cs = map of_char cs"

definition utf8_len :: "rune \<Rightarrow> nat" where
  "utf8_len r = (if r < 128 then 1 else if r < 2048 then 2 else if r < 65536 then 3 else 4)"

definition blen :: "gostr \<Rightarrow> nat" where
  "blen s = sum_list (map utf8_len s)"

lemma utf8_len_pos: "0 < utf8_len r"
  by (simp add: utf8_len_def)

lemma blen_simps [simp]:
  "blen [] = 0"
  "blen (r # s) = utf8_len r + blen s"
  "blen (s @ t) = blen s + blen t"
  by (simp_all add: blen_def)

lemma length_le_blen: "length s \<le> blen s"
proof (induction s)
  case Nil
  then show ?case by simp
next
  case (Cons r s)
  then show ?case using utf8_len_pos [of r] by simp
qed

lemma blen_ascii: "\<forall>r \<in> set s. r < 128 \<Longrightarrow> blen s = length s"
  by (induction s) (simp_all add: utf8_len_def)

text \<open>The UTF-8 bytes of a string, where the code hashes or writes them.\<close>

definition utf8_rune :: "rune \<Rightarrow> byte list" where
  "utf8_rune r =
     (if r < 128 then [word_of_int r]
      else if r < 2048 then [word_of_int (192 + r div 64), word_of_int (128 + r mod 64)]
      else if r < 65536
      then [word_of_int (224 + r div 4096), word_of_int (128 + r div 64 mod 64), word_of_int (128 + r mod 64)]
      else [word_of_int (240 + r div 262144), word_of_int (128 + r div 4096 mod 64),
            word_of_int (128 + r div 64 mod 64), word_of_int (128 + r mod 64)])"

definition utf8 :: "gostr \<Rightarrow> byte list" where
  "utf8 s = concat (map utf8_rune s)"

lemma length_utf8: "length (utf8 s) = blen s"
  by (induction s) (simp_all add: utf8_def utf8_rune_def utf8_len_def)

text \<open>\<open>unicode.IsSpace\<close>: the White Space runes, in full.\<close>

definition is_space :: "rune \<Rightarrow> bool" where
  "is_space r \<longleftrightarrow> (9 \<le> r \<and> r \<le> 13) \<or> r = 32 \<or> r = 133 \<or> r = 160 \<or> r = 5760
     \<or> (8192 \<le> r \<and> r \<le> 8202) \<or> r = 8232 \<or> r = 8233 \<or> r = 8239 \<or> r = 8287 \<or> r = 12288"

definition trim_left :: "(rune \<Rightarrow> bool) \<Rightarrow> gostr \<Rightarrow> gostr" where
  "trim_left p s = dropWhile p s"

definition trim_func :: "(rune \<Rightarrow> bool) \<Rightarrow> gostr \<Rightarrow> gostr" where
  "trim_func p s = rev (dropWhile p (rev (dropWhile p s)))"

definition trim_space :: "gostr \<Rightarrow> gostr" where
  "trim_space s = trim_func is_space s"

text \<open>\<open>strings.Fields\<close>: the maximal runs of runes that are not white space.\<close>

fun fields_acc :: "gostr \<Rightarrow> gostr \<Rightarrow> gostr list" where
  "fields_acc cur [] = (if cur = [] then [] else [cur])"
| "fields_acc cur (r # rs) =
     (if is_space r then (if cur = [] then fields_acc [] rs else cur # fields_acc [] rs)
      else fields_acc (cur @ [r]) rs)"

definition str_fields :: "gostr \<Rightarrow> gostr list" where
  "str_fields s = fields_acc [] s"

text \<open>\<open>strings.Join\<close>.\<close>

fun join :: "gostr \<Rightarrow> gostr list \<Rightarrow> gostr" where
  "join sep [] = []"
| "join sep [x] = x"
| "join sep (x # y # xs) = x @ sep @ join sep (y # xs)"

text \<open>\<open>strings.Cut\<close> around the first occurrence of a separator.\<close>

fun cut_at :: "gostr \<Rightarrow> gostr \<Rightarrow> gostr \<Rightarrow> (gostr \<times> gostr) option" where
  "cut_at sep pre s =
     (if take (length sep) s = sep then Some (pre, drop (length sep) s)
      else (case s of [] \<Rightarrow> None | r # rs \<Rightarrow> cut_at sep (pre @ [r]) rs))"

declare cut_at.simps [simp del]

definition str_cut :: "gostr \<Rightarrow> gostr \<Rightarrow> gostr \<times> gostr \<times> bool" where
  "str_cut s sep = (case cut_at sep [] s of
     Some (a, b) \<Rightarrow> (a, b, True) | None \<Rightarrow> (s, [], False))"

lemma cut_at_first: "sep \<notin> set a \<Longrightarrow> cut_at [sep] pre (a @ sep # b) = Some (pre @ a, b)"
  by (induction a arbitrary: pre) (simp_all add: cut_at.simps)

lemma str_cut_first: "sep \<notin> set a \<Longrightarrow> str_cut (a @ sep # b) [sep] = (a, b, True)"
  by (simp add: str_cut_def cut_at_first)

lemma cut_at_none: "sep \<notin> set a \<Longrightarrow> cut_at [sep] pre a = None"
  by (induction a arbitrary: pre) (simp_all add: cut_at.simps)

lemma str_cut_none: "sep \<notin> set a \<Longrightarrow> str_cut a [sep] = (a, [], False)"
  by (simp add: str_cut_def cut_at_none)

lemma cut_at_Some: "cut_at [sep] pre s = Some (a, b) \<Longrightarrow> \<exists>a'. a = pre @ a' \<and> sep \<notin> set a' \<and> s = a' @ sep # b"
proof (induction s arbitrary: pre)
  case (Cons r rs)
  show ?case
  proof (cases "r = sep")
    case True
    then show ?thesis using Cons.prems by (simp add: cut_at.simps [of _ _ "_ # _"])
  next
    case False
    then have "cut_at [sep] (pre @ [r]) rs = Some (a, b)" using Cons.prems by (simp add: cut_at.simps [of _ _ "_ # _"])
    from Cons.IH [OF this] obtain a' where "a = (pre @ [r]) @ a'" "sep \<notin> set a'" "rs = a' @ sep # b" by blast
    then show ?thesis using False by (intro exI [of _ "r # a'"]) simp
  qed
qed (simp add: cut_at.simps)

lemma str_cut_cases:
  obtains (cut) a b where "str_cut s [sep] = (a, b, True)" "sep \<notin> set a" "s = a @ sep # b"
  | (whole) "str_cut s [sep] = (s, [], False)" "sep \<notin> set s"
proof (cases "sep \<in> set s")
  case True
  then obtain a b where "s = a @ sep # b" "sep \<notin> set a" using split_list_first [of sep s] by blast
  then show ?thesis using cut str_cut_first by blast
next
  case False
  then show ?thesis using whole str_cut_none by blast
qed

definition has_prefix :: "gostr \<Rightarrow> gostr \<Rightarrow> bool" where
  "has_prefix s p \<longleftrightarrow> take (length p) s = p"

lemma fields_acc_no_empty: "[] \<notin> set (fields_acc cur s)"
  by (induction cur s rule: fields_acc.induct) auto

lemma fields_nonempty: "w \<in> set (str_fields s) \<Longrightarrow> w \<noteq> []"
  using fields_acc_no_empty by (auto simp: str_fields_def)

lemma concat_fields_acc:
  "\<forall>r \<in> set cur. \<not> is_space r \<Longrightarrow> concat (fields_acc cur s) = cur @ filter (\<lambda>r. \<not> is_space r) s"
  by (induction cur s rule: fields_acc.induct) auto

lemma fields_no_space: "w \<in> set (str_fields s) \<Longrightarrow> r \<in> set w \<Longrightarrow> \<not> is_space r"
proof -
  assume "w \<in> set (str_fields s)" and "r \<in> set w"
  then have "r \<in> set (concat (str_fields s))" by auto
  then show ?thesis by (auto simp: str_fields_def concat_fields_acc)
qed

lemma concat_fields: "concat (str_fields s) = filter (\<lambda>r. \<not> is_space r) s"
  by (simp add: str_fields_def concat_fields_acc)

lemma set_dropWhile_subset: "set (dropWhile p s) \<subseteq> set s"
  by (induction s) auto

lemma set_trim_func: "set (trim_func p s) \<subseteq> set s"
  using set_dropWhile_subset [of p "rev (dropWhile p s)"] set_dropWhile_subset [of p s]
  by (auto simp: trim_func_def)

text \<open>\<open>strings.Split\<close> around a one-rune separator; it never returns the empty list.\<close>

fun split_acc :: "rune \<Rightarrow> gostr \<Rightarrow> gostr \<Rightarrow> gostr list" where
  "split_acc sep cur [] = [cur]"
| "split_acc sep cur (r # rs) = (if r = sep then cur # split_acc sep [] rs else split_acc sep (cur @ [r]) rs)"

definition str_split :: "rune \<Rightarrow> gostr \<Rightarrow> gostr list" where
  "str_split sep s = split_acc sep [] s"

lemma split_acc_no_sep: "sep \<notin> set s \<Longrightarrow> split_acc sep cur s = [cur @ s]"
  by (induction sep cur s rule: split_acc.induct) auto

lemma split_acc_append:
  "sep \<notin> set s \<Longrightarrow> split_acc sep cur (s @ sep # t) = (cur @ s) # split_acc sep [] t"
  by (induction s arbitrary: cur) auto

text \<open>
  The Unicode tables behind \<open>unicode.IsPunct\<close>, \<open>strings.ToLower\<close>, \<open>strings.ToUpper\<close> and
  \<open>strings.EqualFold\<close> are an argument of the definitions that use them. \<open>unicode_ok\<close> states what the
  language parser needs of them: ASCII letters map as ASCII does, and no rune has a lowercase
  ASCII letter as its upper case.
\<close>

record unicode =
  u_is_punct :: "rune \<Rightarrow> bool"
  u_to_lower :: "rune \<Rightarrow> rune"
  u_to_upper :: "rune \<Rightarrow> rune"
  u_fold :: "rune \<Rightarrow> rune"

definition is_lower_ascii :: "rune \<Rightarrow> bool" where
  "is_lower_ascii r \<longleftrightarrow> 97 \<le> r \<and> r \<le> 122"

definition is_upper_ascii :: "rune \<Rightarrow> bool" where
  "is_upper_ascii r \<longleftrightarrow> 65 \<le> r \<and> r \<le> 90"

definition ascii_tables :: unicode where
  "ascii_tables =
     \<lparr>u_is_punct = (\<lambda>r. r \<in> set (str ''!\"#%&'()*,-./:;?@[]_{}'') \<or> r = 92),
      u_to_lower = (\<lambda>r. if is_upper_ascii r then r + 32 else r),
      u_to_upper = (\<lambda>r. if is_lower_ascii r then r - 32 else r),
      u_fold = (\<lambda>r. if is_upper_ascii r then r + 32 else r)\<rparr>"

definition unicode_ok :: "unicode \<Rightarrow> bool" where
  "unicode_ok u \<longleftrightarrow>
     (\<forall>r. is_lower_ascii r \<longrightarrow> u_to_lower u r = r) \<and>
     (\<forall>r. is_upper_ascii r \<longrightarrow> u_to_upper u r = r) \<and>
     (\<forall>r. \<not> is_lower_ascii (u_to_upper u r))"

lemma ascii_tables_ok: "unicode_ok ascii_tables"
  by (auto simp: unicode_ok_def ascii_tables_def is_lower_ascii_def is_upper_ascii_def)

definition EqualFold :: "unicode \<Rightarrow> gostr \<Rightarrow> gostr \<Rightarrow> bool" where
  "EqualFold u s t \<longleftrightarrow> map (u_fold u) s = map (u_fold u) t"

definition ToLower :: "unicode \<Rightarrow> gostr \<Rightarrow> gostr" where
  "ToLower u s = map (u_to_lower u) s"

definition ToUpper :: "unicode \<Rightarrow> gostr \<Rightarrow> gostr" where
  "ToUpper u s = map (u_to_upper u) s"

lemma EqualFold_length: "EqualFold u s t \<Longrightarrow> length s = length t"
  unfolding EqualFold_def by (metis length_map)

lemma EqualFold_refl [simp]: "EqualFold u s s"
  by (simp add: EqualFold_def)

lemma trim_func_id: "s \<noteq> [] \<Longrightarrow> \<not> p (hd s) \<Longrightarrow> \<not> p (last s) \<Longrightarrow> trim_func p s = s"
proof -
  assume s: "s \<noteq> []" "\<not> p (hd s)" "\<not> p (last s)"
  have id: "xs \<noteq> [] \<Longrightarrow> \<not> p (hd xs) \<Longrightarrow> dropWhile p xs = xs" for xs by (cases xs) auto
  from s have "dropWhile p (rev s) = rev s" by (intro id) (auto simp: hd_rev)
  with id [OF s(1,2)] show ?thesis by (simp add: trim_func_def)
qed

section \<open>Lists and association lists\<close>

lemma dropWhile_all_iff: "dropWhile p xs = [] \<longleftrightarrow> (\<forall>x \<in> set xs. p x)"
  by (induction xs) auto

lemma length_filter_neq:
  "distinct xs \<Longrightarrow> c \<in> set xs \<Longrightarrow> length xs = Suc (length (filter (\<lambda>x. x \<noteq> c) xs))"
proof (induction xs)
  case Nil
  then show ?case by simp
next
  case (Cons x xs)
  have "filter (\<lambda>x. x \<noteq> c) xs = xs" if "c \<notin> set xs"
    by (rule filter_True) (use that in auto)
  with Cons show ?case by (cases "x = c") simp_all
qed

lemma map_of_update [simp]: "map_of (AList.update k v al) = (map_of al)(k \<mapsto> v)"
  by (rule update_conv')

lemma map_of_delete [simp]: "map_of (AList.delete k al) = (map_of al)(k := None)"
  by (rule delete_conv')

lemma length_update_fresh:
  "k \<notin> fst ` set al \<Longrightarrow> length (AList.update k v al) = Suc (length al)"
  by (induction al) auto

lemma length_update_present:
  "k \<in> fst ` set al \<Longrightarrow> length (AList.update k v al) = length al"
  by (induction al) auto

lemma set_update_subset: "set (AList.update k v al) \<subseteq> insert (k, v) (set al)"
  by (induction al) auto

lemma keys_update: "map fst (AList.update k v al) =
    (if k \<in> fst ` set al then map fst al else map fst al @ [k])"
  by (induction al) auto

lemma keys_delete: "map fst (AList.delete k al) = filter (\<lambda>x. x \<noteq> k) (map fst al)"
  by (induction al) (auto simp: AList.delete_eq)

lemma map_of_Some_key: "map_of al k = Some v \<Longrightarrow> k \<in> fst ` set al"
  by (force dest: map_of_SomeD)

section \<open>Slices\<close>

text \<open>Go's \<open>xs[i]\<close> and \<open>xs[lo:hi]\<close>: out of range is a panic, the value \<open>None\<close>.\<close>

definition index :: "'a list \<Rightarrow> nat \<Rightarrow> 'a option" where
  "index xs i = (if i < length xs then Some (xs ! i) else None)"

definition slice :: "'a list \<Rightarrow> nat \<Rightarrow> nat \<Rightarrow> 'a list option" where
  "slice xs lo hi = (if lo \<le> hi \<and> hi \<le> length xs then Some (take (hi - lo) (drop lo xs)) else None)"

lemma index_Some [simp]: "i < length xs \<Longrightarrow> index xs i = Some (xs ! i)"
  by (simp add: index_def)

lemma slice_Some [simp]: "lo \<le> hi \<Longrightarrow> hi \<le> length xs \<Longrightarrow> slice xs lo hi = Some (take (hi - lo) (drop lo xs))"
  by (simp add: slice_def)

lemma take_drop_split:
  assumes "a \<le> b" "b \<le> c"
  shows "take (c - a) (drop a xs) = take (b - a) (drop a xs) @ take (c - b) (drop b xs)"
proof -
  have "take (c - a) (drop a xs) = take ((b - a) + (c - b)) (drop a xs)" using assms by simp
  also have "\<dots> = take (b - a) (drop a xs) @ take (c - b) (drop (b - a) (drop a xs))" by (rule take_add)
  finally show ?thesis using assms by simp
qed

end
