(* ===== verification/Floats.thy ===== *)
theory Floats
  imports Complex_Main
begin

text \<open>
  \<open>float64\<close> values are rationals; the rounding of each operation is an argument of the definitions that
  compute with them. \<open>ieee\<close> states what the lemmas use of it: it is monotone, keeps the integers of 53
  bits and errs upward by a relative \<open>2^-53\<close> at most away from the subnormal and overflowing values.
\<close>

text \<open>The conversion of a float to an integer type truncates.\<close>

definition trunc_rat :: "rat \<Rightarrow> int" where
  "trunc_rat x = (if 0 \<le> x then \<lfloor>x\<rfloor> else \<lceil>x\<rceil>)"

definition ieee :: "(rat \<Rightarrow> rat) \<Rightarrow> bool" where
  "ieee rnd \<longleftrightarrow> (\<forall>x y. x \<le> y \<longrightarrow> rnd x \<le> rnd y) \<and> (\<forall>n. \<bar>n\<bar> \<le> 2 ^ 53 \<longrightarrow> rnd (of_int n) = of_int n) \<and>
     (\<forall>x. 1 / 2 ^ 1000 \<le> x \<and> x \<le> 2 ^ 1000 \<longrightarrow> rnd x \<le> x * (1 + 1 / 2 ^ 53))"

lemma ieee_id: "ieee (\<lambda>x. x)"
  by (auto simp: ieee_def field_simps)

lemma ieee_nonneg: "ieee rnd \<Longrightarrow> 0 \<le> x \<Longrightarrow> 0 \<le> rnd x"
proof -
  assume a: "ieee rnd" "0 \<le> x"
  have "rnd (of_int 0) = of_int 0" using a(1) unfolding ieee_def by (metis abs_zero zero_le_power zero_le_numeral)
  then show ?thesis using a unfolding ieee_def by force
qed

lemma trunc_rat_bounds: "0 \<le> x \<Longrightarrow> 0 \<le> trunc_rat x \<and> of_int (trunc_rat x) \<le> x"
  by (simp add: trunc_rat_def)

end
