(* ===== verification/Fmt.thy ===== *)
theory Fmt
  imports Prelude
begin

text \<open>
  The pieces of \<open>fmt\<close> and \<open>strconv\<close> the renderers use: decimal integers, zero padded fields, and
  their reading.
\<close>

function digits :: "int \<Rightarrow> gostr" where
  "digits n = (if n < 10 then [48 + n] else digits (n div 10) @ [48 + n mod 10])"
  by auto
termination by (relation "measure nat") auto

declare digits.simps [simp del]

text \<open>\<open>%d\<close> and \<open>%0wd\<close>: the sign counts into the width.\<close>

definition itoa :: "int \<Rightarrow> gostr" where
  "itoa n = (if n < 0 then 45 # digits (- n) else digits n)"

definition pad0 :: "nat \<Rightarrow> int \<Rightarrow> gostr" where
  "pad0 w n =
     (if n < 0 then 45 # replicate (w - 1 - length (digits (- n))) 48 @ digits (- n)
      else replicate (w - length (digits n)) 48 @ digits n)"

definition is_digit :: "rune \<Rightarrow> bool" where
  "is_digit r \<longleftrightarrow> 48 \<le> r \<and> r \<le> 57"

definition number :: "gostr \<Rightarrow> int" where
  "number s = foldl (\<lambda>n r. 10 * n + (r - 48)) 0 s"

lemma digits_nonempty: "digits n \<noteq> []"
  by (subst digits.simps) simp

lemma digits_are_digits: "0 \<le> n \<Longrightarrow> r \<in> set (digits n) \<Longrightarrow> is_digit r"
proof (induction n rule: digits.induct)
  case (1 n)
  then show ?case
    by (subst (asm) (2) digits.simps) (auto simp: is_digit_def split: if_splits)
qed

lemma number_append: "number (s @ [r]) = 10 * number s + (r - 48)"
  by (simp add: number_def)

lemma number_digits: "0 \<le> n \<Longrightarrow> number (digits n) = n"
proof (induction n rule: digits.induct)
  case (1 n)
  then show ?case
    by (subst digits.simps) (auto simp: number_append, simp add: number_def)
qed

lemma number_zeros: "number (replicate k 48 @ s) = number s"
  by (induction k) (simp_all add: number_def)

lemma number_pad0: "0 \<le> n \<Longrightarrow> number (pad0 w n) = n"
  by (simp add: pad0_def number_zeros number_digits)

lemma pad0_nonempty: "pad0 w n \<noteq> []"
  by (simp add: pad0_def digits_nonempty)

lemma pad0_digits: "0 \<le> n \<Longrightarrow> r \<in> set (pad0 w n) \<Longrightarrow> is_digit r"
  using digits_are_digits [of n r] by (auto simp: pad0_def is_digit_def split: if_splits)

lemma pad0_no: "0 \<le> n \<Longrightarrow> \<not> is_digit r \<Longrightarrow> r \<notin> set (pad0 w n)"
  using pad0_digits by blast

lemma length_pad0: "0 \<le> n \<Longrightarrow> w \<le> length (pad0 w n)"
  by (simp add: pad0_def)

end
