(* ===== verification/Pcm.thy ===== *)
theory Pcm
  imports Prelude
begin

text \<open>
  \<^verbatim>\<open>internal/core/pipeline/pcm.go\<close> and the sample/duration conversions of
  \<^verbatim>\<open>internal/core/pipeline/track.go\<close>: PCM coding in the canonical format (16 kHz mono,
  little-endian signed 16-bit). The encoder is the unrolled one of the source, four samples per
  64-bit store; the lemmas show that it equals the bytewise encoding and that decoding inverts it.
\<close>

section \<open>The time base\<close>

abbreviation SampleRate :: int where "SampleRate \<equiv> 16000"

definition SamplePeriod :: duration where
  "SamplePeriod = go_div second SampleRate"

definition samplesFor :: "duration \<Rightarrow> int" where
  "samplesFor d = (if d < 0 then 0 else go_div (wrap64 (d * SampleRate)) second)"

definition durationFor :: "int \<Rightarrow> duration" where
  "durationFor n = go_div (wrap64 (n * second)) SampleRate"

text \<open>\<open>None\<close> is the panic. The conversion to \<open>int\<close> is the identity on the 64-bit platforms the
  program is built for, but is kept as the code has it.\<close>

definition SamplesInQuantum :: "duration \<Rightarrow> int option" where
  "SamplesInQuantum quantum =
     (if quantum \<le> 0 \<or> go_mod quantum SamplePeriod \<noteq> 0 then None
      else let samples64 = go_div quantum SamplePeriod; samples = wrap64 samples64
           in if samples \<noteq> samples64 then None else Some samples)"

lemma SamplePeriod_eq [go_simps]: "SamplePeriod = 62500"
  by (simp add: SamplePeriod_def go_div_def)

text \<open>Beyond 160 hours of audio the product in the conversions would wrap.\<close>

definition max_span :: duration where
  "max_span = 576460752303423"

definition max_samples :: int where
  "max_samples = 9223372036"

lemma samplesFor_exact [go_simps]:
  "0 \<le> d \<Longrightarrow> d \<le> max_span \<Longrightarrow> samplesFor d = d div 62500"
proof -
  assume d: "0 \<le> d" "d \<le> max_span"
  then have "wrap64 (d * 16000) = d * 16000"
    by (intro wrap64_id) (simp add: in_int64_def max_span_def)
  moreover have "d * 16000 div 1000000000 = d div 62500"
    using div_mult_mult2 [of 16000 d 62500] by simp
  ultimately show ?thesis using d by (simp add: samplesFor_def go_div_nonneg)
qed

lemma samplesFor_neg [go_simps]: "d < 0 \<Longrightarrow> samplesFor d = 0"
  by (simp add: samplesFor_def)

lemma durationFor_exact [go_simps]:
  "0 \<le> n \<Longrightarrow> n \<le> max_samples \<Longrightarrow> durationFor n = n * 62500"
proof -
  assume n: "0 \<le> n" "n \<le> max_samples"
  then have "wrap64 (n * 1000000000) = n * 1000000000"
    by (intro wrap64_id) (simp add: in_int64_def max_samples_def)
  moreover have "n * 1000000000 div 16000 = n * 62500"
    using div_mult_mult1 [of 16000 "n * 62500" 1] by simp
  ultimately show ?thesis using n by (simp add: durationFor_def go_div_nonneg)
qed

lemma samplesFor_0 [simp]: "samplesFor 0 = 0"
  by (simp add: samplesFor_def wrap64_id in_int64_def go_div_def)

lemma durationFor_0 [simp]: "durationFor 0 = 0"
  by (simp add: durationFor_def wrap64_id in_int64_def go_div_def)

text \<open>Arithmetic of the sample grid: one sample lasts 62500 ns.\<close>

lemma sample_div_bound: "d div 62500 \<le> n \<Longrightarrow> d < n * 62500 + 62500" for d n :: int
  using div_mult_mod_eq [of d 62500] pos_mod_bound [of 62500 d] pos_mod_sign [of 62500 d] by linarith

lemma sample_div_less: "d < n * 62500 \<Longrightarrow> d div 62500 < n" for d n :: int
  using div_mult_mod_eq [of d 62500] pos_mod_bound [of 62500 d] pos_mod_sign [of 62500 d] by linarith

lemma sample_div_ge: "n * 62500 \<le> d \<Longrightarrow> n \<le> d div 62500" for d n :: int
  using div_mult_mod_eq [of d 62500] pos_mod_bound [of 62500 d] pos_mod_sign [of 62500 d] by linarith

lemma sample_div_le: "n \<le> d div 62500 \<Longrightarrow> n * 62500 \<le> d" for d n :: int
  using div_mult_mod_eq [of d 62500] pos_mod_sign [of 62500 d] by linarith

lemma sample_div_shift: "(d + n * 62500) div 62500 = d div 62500 + n" for d n :: int
  by simp

section \<open>Peak\<close>

definition PeakS16 :: "sample list \<Rightarrow> int" where
  "PeakS16 samples =
     fold (\<lambda>s peak. max peak (let magnitude = sint s in if magnitude < 0 then - magnitude else magnitude))
       samples 0"

section \<open>Decoding\<close>

definition le16 :: "byte \<Rightarrow> byte \<Rightarrow> sample" where
  "le16 lo hi = ucast lo OR push_bit 8 (ucast hi)"

definition DecodeS16LE :: "sample list \<Rightarrow> byte list \<Rightarrow> sample list \<times> nat" where
  "DecodeS16LE dst src =
     (let n = min (length src div 2) (length dst)
      in (fold (\<lambda>i d. d[i := le16 (src ! (i * 2)) (src ! (i * 2 + 1))]) [0..<n] dst, n))"

section \<open>Encoding\<close>

text \<open>\<open>binary.LittleEndian\<close> stores at an offset of a byte slice.\<close>

definition put_bytes :: "byte list \<Rightarrow> nat \<Rightarrow> byte list \<Rightarrow> byte list" where
  "put_bytes dst off bs = take off dst @ bs @ drop (off + length bs) dst"

definition le_bytes16 :: "sample \<Rightarrow> byte list" where
  "le_bytes16 s = [ucast s, ucast (drop_bit 8 s)]"

definition le_bytes64 :: "64 word \<Rightarrow> byte list" where
  "le_bytes64 v = map (\<lambda>k. ucast (drop_bit (8 * k) v)) [0, 1, 2, 3, 4, 5, 6, 7]"

definition pack4 :: "sample \<Rightarrow> sample \<Rightarrow> sample \<Rightarrow> sample \<Rightarrow> 64 word" where
  "pack4 a b c d = ucast a OR push_bit 16 (ucast b) OR push_bit 32 (ucast c) OR push_bit 48 (ucast d)"

function encode_quads :: "byte list \<Rightarrow> sample list \<Rightarrow> nat \<Rightarrow> byte list \<times> nat" where
  "encode_quads dst samples i =
     (if i + 4 \<le> length samples
      then encode_quads (put_bytes dst (i * 2)
             (le_bytes64 (pack4 (samples ! i) (samples ! (i + 1)) (samples ! (i + 2)) (samples ! (i + 3)))))
             samples (i + 4)
      else (dst, i))"
  by pat_completeness auto
termination
  by (relation "measure (\<lambda>(dst, samples, i). length samples - i)") auto

function encode_tail :: "byte list \<Rightarrow> sample list \<Rightarrow> nat \<Rightarrow> byte list" where
  "encode_tail dst samples i =
     (if i < length samples
      then encode_tail (put_bytes dst (i * 2) (le_bytes16 (samples ! i))) samples (i + 1)
      else dst)"
  by pat_completeness auto
termination
  by (relation "measure (\<lambda>(dst, samples, i). length samples - i)") auto

declare encode_quads.simps [simp del] encode_tail.simps [simp del]

definition encodeS16LE :: "byte list \<Rightarrow> sample list \<Rightarrow> byte list" where
  "encodeS16LE dst samples =
     (case encode_quads dst samples 0 of (dst', i) \<Rightarrow> encode_tail dst' samples i)"

definition EncodeS16LE :: "sample list \<Rightarrow> byte list" where
  "EncodeS16LE samples = encodeS16LE (replicate (length samples * 2) 0) samples"

text \<open>A byte slice with the spare capacity behind it, whose stale contents a reslice exposes.\<close>

record bslice =
  sdata :: "byte list"
  spare :: "byte list"

definition AppendS16LE :: "bslice \<Rightarrow> sample list \<Rightarrow> bslice" where
  "AppendS16LE dst samples =
     (let start = length (sdata dst); encodedLen = length samples * 2;
          dst' = (if length (spare dst) < encodedLen
                  then \<lparr>sdata = sdata dst @ replicate encodedLen 0, spare = []\<rparr>
                  else \<lparr>sdata = sdata dst @ take encodedLen (spare dst),
                        spare = drop encodedLen (spare dst)\<rparr>)
      in dst'\<lparr>sdata := take start (sdata dst') @ encodeS16LE (drop start (sdata dst')) samples\<rparr>)"

section \<open>The unrolled encoder equals the bytewise one\<close>

definition encode_spec :: "sample list \<Rightarrow> byte list" where
  "encode_spec samples = concat (map le_bytes16 samples)"

lemma length_encode_spec [simp]: "length (encode_spec samples) = 2 * length samples"
  by (induction samples) (simp_all add: encode_spec_def le_bytes16_def)

lemma length_put_bytes [simp]:
  "off + length bs \<le> length dst \<Longrightarrow> length (put_bytes dst off bs) = length dst"
  by (simp add: put_bytes_def)

lemma length_le_bytes [simp]: "length (le_bytes16 s) = 2" "length (le_bytes64 v) = 8"
  by (simp_all add: le_bytes16_def le_bytes64_def)

lemma le_bytes64_pack4:
  "le_bytes64 (pack4 a b c d) = le_bytes16 a @ le_bytes16 b @ le_bytes16 c @ le_bytes16 d"
  unfolding le_bytes64_def pack4_def le_bytes16_def
  by (simp, intro conjI; rule bit_word_eqI; auto simp: bit_simps dest: bit_imp_le_length)

lemma le_bytes16_le16: "le_bytes16 (le16 lo hi) = [lo, hi]"
  unfolding le_bytes16_def le16_def
  by (simp, intro conjI; rule bit_word_eqI; auto simp: bit_simps dest: bit_imp_le_length)

lemma le16_le_bytes16: "le16 (ucast s) (ucast (drop_bit 8 s)) = s"
  unfolding le16_def by (rule bit_word_eqI) (auto simp: bit_simps)

lemma encode_spec_simps [simp]:
  "encode_spec [] = []"
  "encode_spec (s # ss) = le_bytes16 s @ encode_spec ss"
  "encode_spec (xs @ ys) = encode_spec xs @ encode_spec ys"
  by (simp_all add: encode_spec_def)

text \<open>A write behind an encoded prefix extends the prefix.\<close>

lemma put_bytes_extend:
  assumes "dst = pre @ rest" and "length pre = off" and "length bs \<le> length rest"
  shows "put_bytes dst off bs = (pre @ bs) @ drop (length bs) rest"
  using assms by (simp add: put_bytes_def)

lemma take_4_drop:
  "i + 4 \<le> length xs \<Longrightarrow>
    take (i + 4) xs = take i xs @ [xs ! i, xs ! (i + 1), xs ! (i + 2), xs ! (i + 3)]"
  by (simp add: take_Suc_conv_app_nth numeral_eq_Suc)

lemma encode_tail_correct:
  "dst = encode_spec (take i samples) @ rest \<Longrightarrow> i \<le> length samples \<Longrightarrow>
    length rest = 2 * (length samples - i) \<Longrightarrow> encode_tail dst samples i = encode_spec samples"
proof (induction dst samples i arbitrary: rest rule: encode_tail.induct)
  case (1 dst samples i)
  show ?case
  proof (cases "i < length samples")
    case False
    with "1.prems" show ?thesis by (subst encode_tail.simps) simp
  next
    case True
    let ?bs = "le_bytes16 (samples ! i)"
    have "put_bytes dst (i * 2) ?bs = encode_spec (take (i + 1) samples) @ drop 2 rest"
      using "1.prems" True
      by (subst put_bytes_extend [of dst "encode_spec (take i samples)" rest])
        (auto simp: take_Suc_conv_app_nth)
    moreover have "length (drop 2 rest) = 2 * (length samples - (i + 1))"
      using "1.prems" True by simp
    ultimately have "encode_tail (put_bytes dst (i * 2) ?bs) samples (i + 1) = encode_spec samples"
      using "1.IH" [OF True] True by simp
    with True show ?thesis by (simp add: encode_tail.simps [of dst samples i])
  qed
qed

lemma encode_quads_correct:
  "dst = encode_spec (take i samples) @ rest \<Longrightarrow> i \<le> length samples \<Longrightarrow>
    length rest = 2 * (length samples - i) \<Longrightarrow>
    (case encode_quads dst samples i of (dst', j) \<Rightarrow> encode_tail dst' samples j) = encode_spec samples"
proof (induction dst samples i arbitrary: rest rule: encode_quads.induct)
  case (1 dst samples i)
  show ?case
  proof (cases "i + 4 \<le> length samples")
    case False
    with encode_tail_correct [OF "1.prems"] show ?thesis
      by (simp add: encode_quads.simps [of dst samples i])
  next
    case True
    let ?bs = "le_bytes64 (pack4 (samples ! i) (samples ! (i + 1)) (samples ! (i + 2)) (samples ! (i + 3)))"
    have "put_bytes dst (i * 2) ?bs = encode_spec (take (i + 4) samples) @ drop 8 rest"
      using "1.prems" True take_4_drop [OF True]
      by (subst put_bytes_extend [of dst "encode_spec (take i samples)" rest])
        (auto simp: le_bytes64_pack4)
    moreover have "length (drop 8 rest) = 2 * (length samples - (i + 4))"
      using "1.prems" True by simp
    ultimately show ?thesis
      using "1.IH" [OF True] True by (simp add: encode_quads.simps [of dst samples i])
  qed
qed

lemma encodeS16LE_eq:
  "length dst = 2 * length samples \<Longrightarrow> encodeS16LE dst samples = encode_spec samples"
  unfolding encodeS16LE_def by (rule encode_quads_correct [where rest = dst]) simp_all

lemma EncodeS16LE_eq: "EncodeS16LE samples = encode_spec samples"
  by (simp add: EncodeS16LE_def encodeS16LE_eq)

section \<open>Decoding inverts encoding\<close>

lemma fold_update_upt:
  "n \<le> length dst \<Longrightarrow> fold (\<lambda>i d. d[i := f i]) [0..<n] dst = map f [0..<n] @ drop n dst"
proof (induction n)
  case 0
  then show ?case by simp
next
  case (Suc n)
  then show ?case
    by (simp add: list_update_append) (metis Cons_nth_drop_Suc Suc_le_eq list_update_code(2))
qed

lemma DecodeS16LE_eq:
  "DecodeS16LE dst src =
    (let n = min (length src div 2) (length dst)
     in (map (\<lambda>i. le16 (src ! (i * 2)) (src ! (i * 2 + 1))) [0..<n] @ drop n dst, n))"
  by (simp add: DecodeS16LE_def fold_update_upt Let_def)

lemma encode_spec_nth:
  "i < length samples \<Longrightarrow>
    encode_spec samples ! (i * 2) = ucast (samples ! i) \<and>
    encode_spec samples ! Suc (i * 2) = ucast (drop_bit 8 (samples ! i))"
proof (induction samples arbitrary: i)
  case Nil
  then show ?case by simp
next
  case (Cons s ss)
  then show ?case by (cases i) (auto simp: le_bytes16_def)
qed

lemma decode_encode_spec:
  "length dst = length samples \<Longrightarrow> DecodeS16LE dst (encode_spec samples) = (samples, length samples)"
  by (auto simp: DecodeS16LE_eq Let_def encode_spec_nth le16_le_bytes16 intro!: nth_equalityI)

lemma le_bytes16_inj_decode:
  "even (length src) \<Longrightarrow> length dst = length src div 2 \<Longrightarrow>
    encode_spec (fst (DecodeS16LE dst src)) = src"
proof (induction src arbitrary: dst rule: induct_list012)
  case 1
  then show ?case by (simp add: DecodeS16LE_eq)
next
  case (2 x)
  then show ?case by simp
next
  case (3 lo hi src)
  define dst' where "dst' = tl dst"
  have len: "length dst' = length src div 2" "even (length src)"
    using "3.prems" by (simp_all add: dst'_def)
  have "fst (DecodeS16LE dst (lo # hi # src)) = le16 lo hi # fst (DecodeS16LE dst' src)"
    using "3.prems" len
    by (simp add: DecodeS16LE_eq Let_def upt_conv_Cons map_Suc_upt [symmetric] del: upt_Suc)
  then show ?case using "3.IH"(1) [OF len(2,1)] by (simp add: le_bytes16_le16)
qed

lemma AppendS16LE_data:
  "sdata (AppendS16LE dst samples) = sdata dst @ encode_spec samples"
  by (simp add: AppendS16LE_def Let_def encodeS16LE_eq)

lemma PeakS16_fold:
  "fold (\<lambda>s peak. max peak (let magnitude = sint s in if magnitude < 0 then - magnitude else magnitude)) xs p
    = fold max (map (\<lambda>s. \<bar>sint s\<bar>) xs) p"
  for p :: int and xs :: "sample list"
proof (induction xs arbitrary: p)
  case Nil
  then show ?case by simp
next
  case (Cons s xs)
  then show ?case by (simp add: abs_if max.commute)
qed

lemma PeakS16_Max: "PeakS16 xs = Max (insert 0 ((\<lambda>s. \<bar>sint s\<bar>) ` set xs))"
proof -
  have "PeakS16 xs = fold max (map (\<lambda>s. \<bar>sint s\<bar>) xs) 0"
    unfolding PeakS16_def by (rule PeakS16_fold)
  then show ?thesis by (simp add: Max.set_eq_fold [symmetric])
qed

lemma sint_sample_range: "- 32768 \<le> sint s" "sint s \<le> 32767" for s :: sample
  using sint_greater_eq [of s] sint_less [of s] by simp_all

section \<open>Properties\<close>

text \<open>The unrolled encoder, four samples per 64-bit store, writes exactly the little-endian bytes
  of each sample in order.\<close>

lemma encode_is_bytewise: "EncodeS16LE samples = concat (map le_bytes16 samples)"
  by (simp add: EncodeS16LE_eq encode_spec_def)

text \<open>Decoding what the encoder wrote gives back every sample, and encoding what the decoder read
  gives back every byte of an even-length payload.\<close>

lemma pcm_roundtrip:
  "DecodeS16LE (replicate (length samples) 0) (EncodeS16LE samples) = (samples, length samples) \<and>
   (even (length src) \<longrightarrow> EncodeS16LE (fst (DecodeS16LE (replicate (length src div 2) 0) src)) = src)"
  by (simp add: EncodeS16LE_eq decode_encode_spec le_bytes16_inj_decode)

lemma pcm_roundtrip_witness:
  "DecodeS16LE (replicate 2 0) (EncodeS16LE [1, - 2]) = ([1, - 2], 2) \<and>
   EncodeS16LE (fst (DecodeS16LE (replicate 1 0) [7, 200])) = [7, 200]"
  using pcm_roundtrip [of "[1, - 2]" "[7, 200]"] by (simp add: numeral_eq_Suc)

text \<open>Appending encoded samples to a slice keeps its bytes and adds the encoding, whatever stale
  bytes the reused capacity holds.\<close>

lemma append_keeps_prefix:
  "sdata (AppendS16LE dst samples) = sdata dst @ concat (map le_bytes16 samples)"
  by (simp add: AppendS16LE_data encode_spec_def)

text \<open>The peak is the largest magnitude of the chunk (0 for an empty one) and the magnitude 32768
  of the most negative sample is reported without wrapping.\<close>

lemma peak_is_max_magnitude:
  "PeakS16 samples = Max (insert 0 ((\<lambda>s. \<bar>sint s\<bar>) ` set samples)) \<and>
   0 \<le> PeakS16 samples \<and> PeakS16 samples \<le> 32768 \<and> PeakS16 [- 32768] = 32768"
proof -
  have "x \<le> 32768" if "x \<in> insert 0 ((\<lambda>s. \<bar>sint s\<bar>) ` set samples)" for x :: int
  proof -
    have "\<bar>sint s\<bar> \<le> 32768" for s :: sample using sint_sample_range [of s] by arith
    with that show ?thesis by auto
  qed
  moreover have "PeakS16 [- 32768] = 32768" by (simp add: PeakS16_def)
  ultimately show ?thesis unfolding PeakS16_Max by simp
qed

end
