(* ===== verification/Playout.thy ===== *)
theory Playout
  imports Pcm
begin

text \<open>
  \<^verbatim>\<open>internal/core/pipeline/playout.go\<close>: the consumer group of one template and the contract of a
  playout cursor. The contract is the locale \<open>playout_cursor\<close>; \<open>VoiceQueue\<close> and \<open>Mixer\<close> interpret
  it on their own cursors.
\<close>

section \<open>Pull results\<close>

datatype PullStatus = PullPending | PullReady | PullEOF

text \<open>\<open>core.PCM\<close>; the rate and the channel count are the constants 16000 and 1 wherever the modelled
  code builds one.\<close>

record PCM =
  Data :: "sample list"
  PTS :: duration

definition no_pcm :: PCM where
  "no_pcm = \<lparr>Data = [], PTS = 0\<rparr>"

section \<open>The consumer group\<close>

text \<open>\<open>g_done\<close> says that the channel is closed; closing it twice panics (\<open>None\<close>).\<close>

record playoutGroup =
  g_active :: int
  g_sealed :: bool
  g_done :: bool

definition newPlayoutGroup :: playoutGroup where
  "newPlayoutGroup = \<lparr>g_active = 0, g_sealed = False, g_done = False\<rparr>"

definition close_done :: "playoutGroup \<Rightarrow> playoutGroup option" where
  "close_done g = (if g_done g then None else Some (g\<lparr>g_done := True\<rparr>))"

definition group_acquire :: "playoutGroup \<Rightarrow> bool \<times> playoutGroup" where
  "group_acquire g =
     (if g_sealed g then (False, g) else (True, g\<lparr>g_active := g_active g + 1\<rparr>))"

definition group_release :: "playoutGroup \<Rightarrow> playoutGroup option" where
  "group_release g =
     (let g' = g\<lparr>g_active := g_active g - 1\<rparr>
      in if g_sealed g' \<and> g_active g' = 0 then close_done g' else Some g')"

text \<open>The part of \<open>wait\<close> under the lock; the caller then blocks until \<open>g_done\<close> or cancellation.\<close>

definition group_seal :: "playoutGroup \<Rightarrow> playoutGroup option" where
  "group_seal g =
     (if \<not> g_sealed g
      then let g' = g\<lparr>g_sealed := True\<rparr> in if g_active g' = 0 then close_done g' else Some g'
      else Some g)"

datatype wait_result = WaitCanceled | WaitDone | WaitBlocked

definition group_wait_outcome :: "bool \<Rightarrow> playoutGroup \<Rightarrow> wait_result" where
  "group_wait_outcome ctx_done g =
     (if g_done g then WaitDone else if ctx_done then WaitCanceled else WaitBlocked)"

definition group_inv :: "nat \<Rightarrow> playoutGroup \<Rightarrow> bool" where
  "group_inv n g \<longleftrightarrow> g_active g = int n \<and> (g_done g \<longleftrightarrow> g_sealed g \<and> n = 0)"

lemma group_inv_new: "group_inv 0 newPlayoutGroup"
  by (simp add: group_inv_def newPlayoutGroup_def)

lemma group_acquire_inv:
  "group_inv n g \<Longrightarrow> group_acquire g = (ok, g') \<Longrightarrow> group_inv (if ok then Suc n else n) g'"
  by (auto simp: group_inv_def group_acquire_def split: if_splits)

lemma group_acquire_ok: "fst (group_acquire g) \<longleftrightarrow> \<not> g_sealed g"
  by (simp add: group_acquire_def)

lemma group_acquire_sealed [simp]: "g_sealed (snd (group_acquire g)) = g_sealed g"
  by (simp add: group_acquire_def)

lemma group_release_inv:
  "group_inv (Suc n) g \<Longrightarrow> \<exists>g'. group_release g = Some g' \<and> group_inv n g' \<and> g_sealed g' = g_sealed g"
  by (auto simp: group_inv_def group_release_def close_done_def Let_def)

lemma group_seal_inv:
  "group_inv n g \<Longrightarrow> \<exists>g'. group_seal g = Some g' \<and> group_inv n g' \<and> g_sealed g'"
  by (auto simp: group_inv_def group_seal_def close_done_def Let_def)

section \<open>The contract of a cursor\<close>

text \<open>
  A cursor is a state machine whose pulls alternate with steps of its environment (producers, other
  cursors, trimming). \<open>next_pts\<close> is the earliest instant the next ready window may carry, \<open>None\<close>
  before the cursor has started. The provider promises that a ready window is full, that it starts
  no earlier than \<open>next_pts\<close>, and that nothing moves \<open>next_pts\<close> backward. A sink pulls at most the 160
  hours below which the 64-bit products do not wrap.
\<close>

definition not_before :: "duration option \<Rightarrow> duration option \<Rightarrow> bool" where
  "not_before a b \<longleftrightarrow> (case a of None \<Rightarrow> True | Some x \<Rightarrow> (case b of None \<Rightarrow> False | Some y \<Rightarrow> x \<le> y))"

lemma not_before_refl [simp]: "not_before a a"
  by (simp add: not_before_def split: option.split)

lemma not_before_trans: "not_before a b \<Longrightarrow> not_before b c \<Longrightarrow> not_before a c"
  by (auto simp: not_before_def split: option.splits)

lemma not_before_Some [simp]: "not_before (Some x) (Some y) \<longleftrightarrow> x \<le> y" "not_before None b"
  by (simp_all add: not_before_def)

text \<open>A schedule: the environment moves to a new state, or the sink pulls a window of \<open>n\<close> samples.\<close>

datatype 's cursor_event = Env 's | Pull nat

locale playout_cursor =
  fixes inv :: "'s \<Rightarrow> bool"
    and next_into :: "nat \<Rightarrow> 's \<Rightarrow> PCM \<times> PullStatus \<times> 's"
    and env_step :: "'s \<Rightarrow> 's \<Rightarrow> bool"
    and next_pts :: "'s \<Rightarrow> duration option"
  assumes inv_next: "inv s \<Longrightarrow> inv (snd (snd (next_into n s)))"
    and inv_env: "inv s \<Longrightarrow> env_step s s' \<Longrightarrow> inv s'"
    and env_keeps_pts: "inv s \<Longrightarrow> env_step s s' \<Longrightarrow> not_before (next_pts s) (next_pts s')"
    and pull_keeps_pts: "inv s \<Longrightarrow> int n \<le> max_samples \<Longrightarrow> next_into n s = (p, st, s') \<Longrightarrow> not_before (next_pts s) (next_pts s')"
    and ready_full: "inv s \<Longrightarrow> next_into n s = (p, PullReady, s') \<Longrightarrow> length (Data p) = n"
    and ready_pts: "inv s \<Longrightarrow> int n \<le> max_samples \<Longrightarrow> next_into n s = (p, PullReady, s') \<Longrightarrow>
      not_before (next_pts s) (Some (PTS p)) \<and> not_before (Some (PTS p)) (next_pts s')"
begin

fun ready_windows :: "'s \<Rightarrow> 's cursor_event list \<Rightarrow> PCM list" where
  "ready_windows s [] = []"
| "ready_windows s (Env s' # es) = ready_windows s' es"
| "ready_windows s (Pull n # es) =
     (case next_into n s of (p, st, s') \<Rightarrow>
        if st = PullReady then p # ready_windows s' es else ready_windows s' es)"

fun legal :: "'s \<Rightarrow> 's cursor_event list \<Rightarrow> bool" where
  "legal s [] \<longleftrightarrow> True"
| "legal s (Env s' # es) \<longleftrightarrow> env_step s s' \<and> legal s' es"
| "legal s (Pull n # es) \<longleftrightarrow> int n \<le> max_samples \<and> legal (snd (snd (next_into n s))) es"

lemma windows_not_before:
  "inv s \<Longrightarrow> legal s es \<Longrightarrow> p \<in> set (ready_windows s es) \<Longrightarrow> not_before (next_pts s) (Some (PTS p))"
proof (induction s es rule: ready_windows.induct)
  case (1 s)
  then show ?case by simp
next
  case (2 s s' es)
  then show ?case
    using inv_env env_keeps_pts not_before_trans by (metis legal.simps(2) ready_windows.simps(2))
next
  case (3 s n es)
  obtain q st s' where nx: "next_into n s = (q, st, s')" by (cases "next_into n s")
  have n: "int n \<le> max_samples" using "3.prems"(2) by simp
  have s': "inv s'" "legal s' es" "not_before (next_pts s) (next_pts s')"
    using inv_next [OF "3.prems"(1), of n] "3.prems"(2) pull_keeps_pts [OF "3.prems"(1) n nx]
    by (simp_all add: nx)
  have later: "not_before (next_pts s) (Some (PTS p))" if "p \<in> set (ready_windows s' es)"
    using "3.IH" nx s' that not_before_trans by metis
  show ?case
    using "3.prems" nx later ready_pts [OF "3.prems"(1) n] by (auto split: if_splits)
qed

text \<open>The timestamps of the ready windows never decrease, whatever the environment does between two
  pulls.\<close>

lemma pts_never_decreases:
  "inv s \<Longrightarrow> legal s es \<Longrightarrow> sorted (map PTS (ready_windows s es))"
proof (induction s es rule: ready_windows.induct)
  case (1 s)
  then show ?case by simp
next
  case (2 s s' es)
  then show ?case using inv_env by simp
next
  case (3 s n es)
  obtain q st s' where nx: "next_into n s = (q, st, s')" by (cases "next_into n s")
  have s': "inv s'" "legal s' es"
    using inv_next [OF "3.prems"(1), of n] "3.prems"(2) by (simp_all add: nx)
  have tail: "sorted (map PTS (ready_windows s' es))"
    using "3.IH" nx s' by metis
  have "PTS q \<le> PTS p" if "st = PullReady" "p \<in> set (ready_windows s' es)" for p
  proof -
    have "not_before (Some (PTS q)) (next_pts s')"
      using ready_pts [OF "3.prems"(1)] "3.prems"(2) nx that(1) by auto
    from not_before_trans [OF this windows_not_before [OF s' that(2)]] show ?thesis by simp
  qed
  with tail nx show ?case by auto
qed

lemma windows_full:
  "inv s \<Longrightarrow> legal s es \<Longrightarrow> \<forall>n. Pull n \<in> set es \<longrightarrow> n = k \<Longrightarrow>
    p \<in> set (ready_windows s es) \<Longrightarrow> length (Data p) = k"
proof (induction s es rule: ready_windows.induct)
  case (3 s n es)
  obtain q st s' where nx: "next_into n s = (q, st, s')" by (cases "next_into n s")
  have "inv s'" "legal s' es"
    using inv_next [OF "3.prems"(1), of n] "3.prems"(2) by (simp_all add: nx)
  with "3.IH" "3.prems" nx ready_full [OF "3.prems"(1)] show ?case
    by (auto split: if_splits)
qed (auto simp: inv_env)

end

end
