(* ===== verification/Track.thy ===== *)
theory Track
  imports Playout
begin

text \<open>
  \<^verbatim>\<open>internal/core/pipeline/track.go\<close>: the timeline on which one language's dubbed audio (or the bed)
  is laid. Every method of the source holds the track's mutex for its whole body, so it is one
  function here; the reading of the clock is the argument \<open>now\<close>. Offsets and drops that the code
  computes as \<open>int\<close> stay integers, and slices are taken at their \<open>nat\<close> value.
\<close>

section \<open>State and operations\<close>

definition trackKeep :: duration where "trackKeep = 30 * second"
definition trackSlack :: duration where "trackSlack = 15 * second"
definition playoutCushion :: duration where "playoutCushion = 300 * millisecond"

text \<open>\<open>t_buf\<close> is \<open>None\<close> for the nil slice: the first append that places a sample anchors the clock.\<close>

record track =
  t_anchoredAt :: int
  t_buf :: "sample list option"
  t_base :: duration
  t_first :: duration
  t_floor :: duration
  t_delay :: duration
  t_consumers :: int
  t_configured :: bool
  t_finished :: bool

definition NewTrack :: track where
  "NewTrack = \<lparr>t_anchoredAt = 0, t_buf = None, t_base = 0, t_first = 0, t_floor = 0, t_delay = 0,
     t_consumers = 0, t_configured = False, t_finished = False\<rparr>"

definition buf_list :: "track \<Rightarrow> sample list" where
  "buf_list t = (case t_buf t of None \<Rightarrow> [] | Some b \<Rightarrow> b)"

definition blen_of :: "track \<Rightarrow> int" where
  "blen_of t = int (length (buf_list t))"

definition trim_cut :: "int \<Rightarrow> track \<Rightarrow> track" where
  "trim_cut keep t =
     (let dropped = blen_of t - keep
      in t\<lparr>t_base := t_base t + durationFor dropped, t_buf := Some (drop (nat dropped) (buf_list t))\<rparr>)"

definition trim :: "track \<Rightarrow> track" where
  "trim t =
     (let keep = samplesFor (trackKeep + t_delay t); slack = samplesFor trackSlack
      in if blen_of t \<le> keep + slack then t
         else if t_consumers t > 0 \<and> t_floor t > 0 \<and> t_floor t \<ge> t_base t
         then let played = samplesFor (t_floor t - t_base t); keep' = max keep (blen_of t - played)
              in if blen_of t \<le> keep' + slack then t else trim_cut keep' t
         else trim_cut keep t)"

definition Append :: "int \<Rightarrow> duration \<Rightarrow> sample list \<Rightarrow> track \<Rightarrow> duration \<times> track" where
  "Append now at0 samples t =
     (let at = max at0 (t_floor t);
          t1 = (if t_buf t = None then t\<lparr>t_base := at, t_first := at, t_anchoredAt := now\<rparr> else t);
          offset = max (samplesFor (at - t_base t1)) (blen_of t1);
          grow = offset + int (length samples);
          b = (if grow > blen_of t1 then buf_list t1 @ replicate (nat (grow - blen_of t1)) 0
               else buf_list t1);
          t2 = (if grow > blen_of t1 then t1\<lparr>t_buf := Some b\<rparr> else t1);
          t3 = (if t_buf t2 = None then t2
                else t2\<lparr>t_buf := Some (take (nat offset) b @ samples @ drop (nat offset + length samples) b)\<rparr>);
          placedAt = t_base t1 + durationFor offset
      in (placedAt, trim t3))"

definition reserve :: "duration \<Rightarrow> track \<Rightarrow> track" where
  "reserve until t = t\<lparr>t_floor := max (t_floor t) until\<rparr>"

definition acquirePlayout :: "track \<Rightarrow> track" where
  "acquirePlayout t = t\<lparr>t_consumers := t_consumers t + 1\<rparr>"

definition releasePlayout :: "track \<Rightarrow> track" where
  "releasePlayout t = t\<lparr>t_consumers := t_consumers t - 1\<rparr>"

definition ConfigurePlayout :: "duration \<Rightarrow> track \<Rightarrow> track" where
  "ConfigurePlayout delay t = t\<lparr>t_delay := max delay 0, t_configured := True\<rparr>"

definition Finish :: "track \<Rightarrow> track" where
  "Finish t = t\<lparr>t_finished := True\<rparr>"

definition dueEdge :: "int \<Rightarrow> track \<Rightarrow> duration option" where
  "dueEdge now t =
     (if t_buf t = None \<or> \<not> t_configured t then None
      else Some (t_first t + (now - t_anchoredAt t) - t_delay t))"

definition track_end :: "track \<Rightarrow> duration" where
  "track_end t = (if t_buf t = None then 0 else t_base t + durationFor (blen_of t))"

definition ready :: "int \<Rightarrow> duration \<Rightarrow> nat \<Rightarrow> duration \<Rightarrow> track \<Rightarrow> bool" where
  "ready now from n tailEnd t =
     (if t_buf t = None then False
      else if \<not> t_configured t then True
      else let due = t_anchoredAt t + (t_delay t + from - t_first t) in
        if now < due then False
        else let e0 = t_base t + durationFor (blen_of t); e = (if t_finished t then max e0 tailEnd else e0) in
          if from \<ge> e then False
          else if \<not> t_finished t \<and> from + durationFor (int n) + max (t_delay t) playoutCushion > e then False
          else True)"

definition Start :: "track \<Rightarrow> duration option" where
  "Start t = (if t_buf t = None then None else Some (t_base t))"

text \<open>\<open>copy\<close> into a cleared window: what does not fit is cut, what is missing stays silent.\<close>

definition copy_at :: "nat \<Rightarrow> nat \<Rightarrow> sample list \<Rightarrow> sample list" where
  "copy_at n lead src =
     (let body = take (n - lead) src in replicate lead 0 @ body @ replicate (n - lead - length body) 0)"

definition Window :: "duration \<Rightarrow> nat \<Rightarrow> track \<Rightarrow> sample list" where
  "Window from n t =
     (case t_buf t of
        None \<Rightarrow> replicate n 0
      | Some b \<Rightarrow>
          (let offset = samplesFor (from - t_base t) in
           if from < t_base t
           then let lead = samplesFor (t_base t - from)
                in if lead \<ge> int n then replicate n 0
                   else copy_at n (nat lead) (take (min (length b) (n - nat lead)) b)
           else if offset \<ge> int (length b) then replicate n 0
           else copy_at n 0 (drop (nat offset) b)))"

section \<open>What an append does to the buffer\<close>

text \<open>
  A track is sound when its delay is not negative and a nil buffer has never been advanced. The
  bound is the 160 hours beyond which the 64-bit products wrap; the retention window is a minute
  and a half at most.
\<close>

definition track_inv :: "track \<Rightarrow> bool" where
  "track_inv t \<longleftrightarrow> 0 \<le> t_delay t \<and> t_delay t \<le> 60 * second \<and> 0 \<le> t_consumers t"

definition fits :: "duration \<Rightarrow> sample list \<Rightarrow> track \<Rightarrow> bool" where
  "fits at samples t \<longleftrightarrow>
     (t_buf t \<noteq> None \<longrightarrow> max at (t_floor t) - t_base t \<le> max_span) \<and>
     max ((max at (t_floor t) - t_base t) div 62500) (blen_of t) + int (length samples) \<le> max_samples"

definition gap_of :: "duration \<Rightarrow> track \<Rightarrow> nat" where
  "gap_of at t = (if t_buf t = None then 0
     else nat (samplesFor (max at (t_floor t) - t_base t) - blen_of t))"

definition anchor_of :: "duration \<Rightarrow> track \<Rightarrow> duration" where
  "anchor_of at t = (if t_buf t = None then max at (t_floor t) else t_base t)"

text \<open>The untrimmed result: what was there, silence up to the instant, then the take.\<close>

definition append_raw :: "int \<Rightarrow> duration \<Rightarrow> sample list \<Rightarrow> track \<Rightarrow> track" where
  "append_raw now at samples t =
     t\<lparr>t_base := anchor_of at t,
       t_first := (if t_buf t = None then max at (t_floor t) else t_first t),
       t_anchoredAt := (if t_buf t = None then now else t_anchoredAt t),
       t_buf := (if t_buf t = None \<and> samples = [] then None
                 else Some (buf_list t @ replicate (gap_of at t) 0 @ samples))\<rparr>"

lemma copy_grown:
  "take (length b + g) (b @ replicate (g + m) 0) @ samples @ drop (length b + g + m) (b @ replicate (g + m) 0)
     = b @ replicate g 0 @ samples"
  by (simp add: min_def)

lemma Append_raw_None:
  assumes "t_buf t = None"
  shows "Append now at samples t =
     (anchor_of at t + durationFor (blen_of t + int (gap_of at t)), trim (append_raw now at samples t))"
  using assms
  by (cases t) (simp add: Append_def append_raw_def anchor_of_def gap_of_def blen_of_def buf_list_def Let_def)

lemma Append_raw_Some:
  assumes t: "t_buf t = Some b"
  shows "Append now at samples t =
     (anchor_of at t + durationFor (blen_of t + int (gap_of at t)), trim (append_raw now at samples t))"
proof -
  define g where "g = gap_of at t"
  define m where "m = length samples"
  have off: "max (samplesFor (max at (t_floor t) - t_base t)) (int (length b)) = int (length b + g)"
    by (simp add: g_def gap_of_def t blen_of_def buf_list_def max_def)
  have grown: "(int (length b + g) + int m > int (length b)) = (g + m \<noteq> 0)"
    "nat (int (length b + g) + int m - int (length b)) = g + m" by auto
  have raw: "append_raw now at samples t = t\<lparr>t_buf := Some (b @ replicate g 0 @ samples)\<rparr>"
    using t by (cases t) (simp add: append_raw_def anchor_of_def buf_list_def g_def)
  have nn: "nat (int (length b + g)) = length b + g" by simp
  show ?thesis
  proof (cases "g + m = 0")
    case True
    then have z: "g = 0" "samples = []" by (simp_all add: m_def)
    have "max (samplesFor (max at (t_floor t) - t_base t)) (int (length b)) = int (length b)"
      using off z(1) by simp
    then show ?thesis
      unfolding raw g_def [symmetric] using t z
      by (simp add: Append_def anchor_of_def blen_of_def buf_list_def Let_def)
  next
    case False
    show ?thesis
      unfolding raw g_def [symmetric] Append_def
      using t False copy_grown [of b g m samples]
      by (simp add: anchor_of_def blen_of_def buf_list_def Let_def off m_def [symmetric] grown nn
          del: of_nat_add take_append drop_append) simp
  qed
qed

lemma Append_raw:
  "Append now at samples t =
     (anchor_of at t + durationFor (blen_of t + int (gap_of at t)), trim (append_raw now at samples t))"
  by (cases "t_buf t") (simp_all only: Append_raw_None Append_raw_Some)

lemma buf_append_raw:
  "buf_list (append_raw now at samples t) = buf_list t @ replicate (gap_of at t) 0 @ samples"
  by (auto simp: append_raw_def buf_list_def gap_of_def split: option.split)

text \<open>Trimming only drops a prefix and moves the base across exactly the dropped samples.\<close>

lemma trim_cases:
  obtains "trim t = t"
  | keep where "trim t = trim_cut keep t" "samplesFor (trackKeep + t_delay t) \<le> keep"
      "keep < blen_of t"
      "t_consumers t > 0 \<and> t_floor t > 0 \<and> t_floor t \<ge> t_base t \<longrightarrow>
        blen_of t - keep \<le> samplesFor (t_floor t - t_base t)"
proof (cases "trim t = t")
  case True
  then show ?thesis by (rule that(1))
next
  case False
  have "0 \<le> samplesFor trackSlack"
    by (simp add: samplesFor_def trackSlack_def wrap64_id in_int64_def go_div_def)
  with False show ?thesis
    by (cases "t_consumers t > 0 \<and> t_floor t > 0 \<and> t_floor t \<ge> t_base t")
      (rule that(2) [of "if t_consumers t > 0 \<and> t_floor t > 0 \<and> t_floor t \<ge> t_base t
          then max (samplesFor (trackKeep + t_delay t)) (blen_of t - samplesFor (t_floor t - t_base t))
          else samplesFor (trackKeep + t_delay t)"];
        auto simp: trim_def Let_def split: if_splits)+
qed

lemma samplesFor_keep:
  "track_inv t \<Longrightarrow> samplesFor (trackKeep + t_delay t) = (trackKeep + t_delay t) div 62500"
  by (rule samplesFor_exact) (simp_all add: track_inv_def trackKeep_def max_span_def)

lemma samplesFor_slack: "samplesFor trackSlack = 240000"
  by (simp add: samplesFor_def trackSlack_def wrap64_id in_int64_def go_div_def)

lemma trim_frame [simp]:
  "t_floor (trim t) = t_floor t" "t_delay (trim t) = t_delay t" "t_first (trim t) = t_first t"
  "t_consumers (trim t) = t_consumers t" "t_configured (trim t) = t_configured t"
  "t_finished (trim t) = t_finished t" "t_anchoredAt (trim t) = t_anchoredAt t"
  by (simp_all add: trim_def trim_cut_def Let_def)

lemma trim_buf: "t_buf t \<noteq> None \<Longrightarrow> t_buf (trim t) \<noteq> None"
  by (simp add: trim_def trim_cut_def Let_def)

lemma trim_prefix:
  assumes inv: "track_inv t" and len: "blen_of t \<le> max_samples"
  shows "\<exists>k \<le> length (buf_list t). buf_list (trim t) = drop k (buf_list t) \<and>
    t_base (trim t) = t_base t + int k * 62500 \<and> (t_buf (trim t) = None \<longleftrightarrow> t_buf t = None)"
proof (rule trim_cases [of t])
  assume "trim t = t"
  then show ?thesis by (intro exI [of _ 0]) simp
next
  fix keep
  assume t: "trim t = trim_cut keep t" and keep: "samplesFor (trackKeep + t_delay t) \<le> keep" "keep < blen_of t"
  have pos: "0 \<le> keep"
    using keep(1) samplesFor_keep [OF inv] inv
      pos_imp_zdiv_nonneg_iff [of 62500 "trackKeep + t_delay t"]
    by (simp add: track_inv_def trackKeep_def)
  have buf: "t_buf t \<noteq> None"
    using keep(2) pos by (cases "t_buf t") (simp_all add: blen_of_def buf_list_def)
  have d: "durationFor (blen_of t - keep) = (blen_of t - keep) * 62500"
    by (rule durationFor_exact) (use keep pos len in auto)
  show ?thesis
    by (intro exI [of _ "nat (blen_of t - keep)"])
      (use t keep pos d buf in \<open>auto simp: trim_cut_def Let_def buf_list_def blen_of_def nat_le_iff\<close>)
qed

section \<open>Appends keep what was placed\<close>

text \<open>The sample that covers an instant; before the base and behind the end there is silence.\<close>

definition at_time :: "track \<Rightarrow> duration \<Rightarrow> sample" where
  "at_time t x =
     (if x < t_base t then 0
      else let i = nat ((x - t_base t) div 62500) in if i < length (buf_list t) then buf_list t ! i else 0)"

lemma gap_of_eq:
  assumes "fits at samples t" and "t_buf t \<noteq> None" and "t_base t \<le> max at (t_floor t)"
  shows "gap_of at t = nat ((max at (t_floor t) - t_base t) div 62500 - blen_of t)"
  using assms samplesFor_exact [of "max at (t_floor t) - t_base t"]
  by (cases "t_buf t") (simp_all add: gap_of_def fits_def)

lemma gap_of_past:
  "t_buf t \<noteq> None \<Longrightarrow> max at (t_floor t) < t_base t \<Longrightarrow> gap_of at t = 0"
  by (simp add: gap_of_def samplesFor_neg blen_of_def)

lemma blen_of_nonneg [simp]: "0 \<le> blen_of t"
  by (simp add: blen_of_def)

lemma raw_length:
  assumes f: "fits at samples t"
  shows "blen_of t + int (gap_of at t) + int (length samples) \<le> max_samples"
proof (cases "t_buf t = None")
  case True
  then show ?thesis using f by (simp add: gap_of_def fits_def max_def split: if_splits)
next
  case False
  show ?thesis
  proof (cases "t_base t \<le> max at (t_floor t)")
    case True
    then show ?thesis using f gap_of_eq [OF f False True] by (simp add: fits_def max_def split: if_splits)
  next
    case past: False
    then show ?thesis using f gap_of_past [OF False, of at] by (simp add: fits_def max_def split: if_splits)
  qed
qed

lemma blen_append_raw:
  "blen_of (append_raw now at samples t) = blen_of t + int (gap_of at t) + int (length samples)"
  by (simp add: blen_of_def buf_append_raw)

lemma append_raw_frame [simp]:
  "t_floor (append_raw now at samples t) = t_floor t" "t_delay (append_raw now at samples t) = t_delay t"
  "t_consumers (append_raw now at samples t) = t_consumers t"
  "t_base (append_raw now at samples t) = anchor_of at t"
  by (simp_all add: append_raw_def)

lemma track_inv_append_raw: "track_inv (append_raw now at samples t) = track_inv t"
  by (simp add: track_inv_def)

lemma Append_effect:
  assumes inv: "track_inv t" and f: "fits at samples t" and ap: "Append now at samples t = (placed, t')"
  shows "\<exists>k \<le> length (buf_list t @ replicate (gap_of at t) 0 @ samples).
      buf_list t' = drop k (buf_list t @ replicate (gap_of at t) 0 @ samples) \<and>
      t_base t' = anchor_of at t + int k * 62500 \<and>
      placed = anchor_of at t + (blen_of t + int (gap_of at t)) * 62500"
proof -
  let ?r = "append_raw now at samples t"
  have len: "blen_of ?r \<le> max_samples"
    using raw_length [OF f] by (simp add: blen_append_raw)
  have t': "t' = trim ?r" and pl: "placed = anchor_of at t + durationFor (blen_of t + int (gap_of at t))"
    using ap by (simp_all add: Append_raw)
  have "durationFor (blen_of t + int (gap_of at t)) = (blen_of t + int (gap_of at t)) * 62500"
    by (rule durationFor_exact) (use raw_length [OF f] in auto)
  with trim_prefix [of ?r] inv len show ?thesis
    by (auto simp: t' pl buf_append_raw track_inv_append_raw)
qed

lemma at_time_drop:
  assumes "buf_list t' = drop k b" and "t_base t' = a + int k * 62500" and "t_base t' \<le> x"
  shows "at_time t' x = (let i = nat ((x - a) div 62500) in if i < length b then b ! i else 0)"
proof -
  have eq: "(x - t_base t') div 62500 = (x - a) div 62500 - int k"
    using div_mult_self1 [of 62500 "x - a" "- int k"] assms(2) by (simp add: algebra_simps)
  have "int k \<le> (x - a) div 62500"
    using assms(2,3) by (simp add: zdiv_mono1 [of "int k * 62500" "x - a" 62500, simplified])
  then have "nat ((x - t_base t') div 62500) + k = nat ((x - a) div 62500)"
    by (simp add: eq nat_diff_distrib' flip: nat_int_add)
  with assms show ?thesis
    by (auto simp: at_time_def Let_def nth_drop less_diff_conv add.commute)
qed

lemma placed_index:
  "nat ((a + (l + int g) * 62500 + int i * 62500 - a) div 62500) = nat (l + int g + int i)"
proof -
  have "a + (l + int g) * 62500 + int i * 62500 - a = (l + int g + int i) * 62500"
    by (simp add: algebra_simps)
  then show ?thesis by (simp only: nonzero_mult_div_cancel_right zero_neq_numeral not_False_eq_True)
qed

lemma Append_keeps:
  assumes inv: "track_inv t" and f: "fits at samples t" and ap: "Append now at samples t = (placed, t')"
    and x: "t_base t' \<le> x"
  shows "t_buf t \<noteq> None \<Longrightarrow> x < t_base t + blen_of t * 62500 \<Longrightarrow> t_base t \<le> x \<Longrightarrow> at_time t' x = at_time t x"
proof -
  assume b: "t_buf t \<noteq> None" and old: "x < t_base t + blen_of t * 62500" "t_base t \<le> x"
  obtain k where k: "buf_list t' = drop k (buf_list t @ replicate (gap_of at t) 0 @ samples)"
      "t_base t' = t_base t + int k * 62500"
    using Append_effect [OF inv f ap] b by (auto simp: anchor_of_def)
  have "(x - t_base t) div 62500 < blen_of t"
    using old by (simp add: div_less_iff_less_mult mult.commute)
  then have i: "nat ((x - t_base t) div 62500) < length (buf_list t)"
    using old by (simp add: blen_of_def nat_less_iff pos_imp_zdiv_nonneg_iff)
  show ?thesis
    using at_time_drop [OF k x] i old by (simp add: at_time_def Let_def nth_append)
qed

lemma Append_places:
  assumes inv: "track_inv t" and f: "fits at samples t" and ap: "Append now at samples t = (placed, t')"
    and i: "i < length samples" and kept: "t_base t' \<le> placed + int i * 62500"
  shows "at_time t' (placed + int i * 62500) = samples ! i"
proof -
  obtain k where k: "buf_list t' = drop k (buf_list t @ replicate (gap_of at t) 0 @ samples)"
      "t_base t' = anchor_of at t + int k * 62500"
      and pl: "placed = anchor_of at t + (blen_of t + int (gap_of at t)) * 62500"
    using Append_effect [OF inv f ap] by auto
  have "nat ((placed + int i * 62500 - anchor_of at t) div 62500) = length (buf_list t) + gap_of at t + i"
    using placed_index [of "anchor_of at t" "blen_of t" "gap_of at t" i]
    by (simp add: pl blen_of_def nat_add_distrib)
  with at_time_drop [OF k kept] i show ?thesis
    by (simp add: Let_def nth_append)
qed

lemma Append_not_early:
  assumes f: "fits at samples t" and ap: "Append now at samples t = (placed, t')" and inv: "track_inv t"
  shows "max at (t_floor t) < placed + 62500"
proof -
  have pl: "placed = anchor_of at t + (blen_of t + int (gap_of at t)) * 62500"
    using Append_effect [OF inv f ap] by auto
  show ?thesis
  proof (cases "t_buf t = None")
    case True
    then show ?thesis by (simp add: pl anchor_of_def gap_of_def blen_of_def buf_list_def)
  next
    case False
    then obtain b where b: "t_buf t = Some b" by blast
    let ?d = "max at (t_floor t) - t_base t"
    show ?thesis
    proof (cases "0 \<le> ?d")
      case True
      then have "?d div 62500 \<le> blen_of t + int (gap_of at t)"
        using gap_of_eq [OF f False] by simp
      then have "?d < (blen_of t + int (gap_of at t)) * 62500 + 62500"
        by (rule sample_div_bound)
      with b have "max at (t_floor t) - anchor_of at t < placed - anchor_of at t + 62500"
        unfolding pl by (simp add: anchor_of_def del: max_less_iff_conj)
      then show ?thesis by linarith
    next
      case past: False
      have "0 \<le> (blen_of t + int (gap_of at t)) * 62500" by simp
      with past have "max at (t_floor t) < t_base t + (blen_of t + int (gap_of at t)) * 62500"
        by linarith
      with b show ?thesis by (simp add: pl anchor_of_def del: max_less_iff_conj)
    qed
  qed
qed

section \<open>Windows\<close>

lemma length_copy_at [simp]: "lead \<le> n \<Longrightarrow> length (copy_at n lead src) = n"
  by (simp add: copy_at_def Let_def)

lemma length_Window [simp]: "length (Window from n t) = n"
  by (cases "t_buf t") (simp_all add: Window_def Let_def nat_le_iff)

lemma Window_nth:
  assumes "t_buf t = Some b" and c: "t_base t \<le> c" "c - t_base t \<le> max_span" and i: "i < n"
  shows "Window c n t ! i = at_time t (c + int i * 62500)"
proof -
  have off: "samplesFor (c - t_base t) = (c - t_base t) div 62500"
    by (rule samplesFor_exact) (use c in auto)
  have pos: "0 \<le> (c - t_base t) div 62500"
    using c by (simp add: pos_imp_zdiv_nonneg_iff)
  have "c + int i * 62500 - t_base t = (c - t_base t) + int i * 62500" by simp
  then have idx: "(c + int i * 62500 - t_base t) div 62500 = (c - t_base t) div 62500 + int i"
    by (simp only: sample_div_shift)
  have nidx: "nat ((c - t_base t) div 62500 + int i) = nat ((c - t_base t) div 62500) + i"
    using pos by (simp add: nat_add_distrib)
  have notbefore: "\<not> c + int i * 62500 < t_base t" using c by simp
  have win: "Window c n t = (if (c - t_base t) div 62500 \<ge> int (length b) then replicate n 0
      else copy_at n 0 (drop (nat ((c - t_base t) div 62500)) b))"
    using assms(1) c by (simp add: Window_def off)
  show ?thesis
    unfolding win at_time_def Let_def idx nidx using notbefore assms(1) i pos
    by (auto simp: buf_list_def copy_at_def Let_def nth_append less_diff_conv add.commute)
qed

lemma Append_gap:
  assumes inv: "track_inv t" and f: "fits at samples t" and ap: "Append now at samples t = (placed, t')"
    and x: "t_base t' \<le> x"
    and gap: "blen_of t \<le> (x - anchor_of at t) div 62500"
      "(x - anchor_of at t) div 62500 < blen_of t + int (gap_of at t)"
  shows "at_time t' x = 0"
proof -
  obtain k where k: "buf_list t' = drop k (buf_list t @ replicate (gap_of at t) 0 @ samples)"
      "t_base t' = anchor_of at t + int k * 62500"
    using Append_effect [OF inv f ap] by auto
  have "length (buf_list t) \<le> nat ((x - anchor_of at t) div 62500)"
    and "nat ((x - anchor_of at t) div 62500) < length (buf_list t) + gap_of at t"
    using gap by (simp_all add: blen_of_def)
  moreover from this have "nat ((x - anchor_of at t) div 62500) - length (buf_list t) < gap_of at t"
    by linarith
  ultimately show ?thesis
    using at_time_drop [OF k x] by (simp add: Let_def nth_append)
qed

lemma reserve_simps [simp]:
  "t_floor (reserve u t) = max (t_floor t) u" "t_buf (reserve u t) = t_buf t"
  "t_base (reserve u t) = t_base t" "t_delay (reserve u t) = t_delay t"
  "t_consumers (reserve u t) = t_consumers t" "track_inv (reserve u t) = track_inv t"
  by (simp_all add: reserve_def track_inv_def)

lemma reserve_buffer [simp]:
  "buf_list (reserve u t) = buf_list t" "blen_of (reserve u t) = blen_of t"
  "at_time (reserve u t) x = at_time t x"
proof -
  show b: "buf_list (reserve u t) = buf_list t" by (simp add: buf_list_def)
  show "blen_of (reserve u t) = blen_of t" by (simp add: blen_of_def b)
  show "at_time (reserve u t) x = at_time t x" by (simp add: at_time_def b Let_def)
qed

lemma Window_reserve [simp]: "Window c n (reserve u t) = Window c n t"
  by (cases "t_buf t") (simp_all add: Window_def Let_def)

lemma Window_final_nth:
  assumes inv: "track_inv t" and f: "fits at samples t" and ap: "Append now at samples t = (placed, t')"
    and b: "t_buf t = Some b" and rendered: "c + int n * 62500 \<le> t_floor t"
    and kept: "t_base t' \<le> c" and i: "i < n"
  shows "at_time t' (c + int i * 62500) = at_time t (c + int i * 62500)"
proof -
  let ?x = "c + int i * 62500"
  obtain k where base': "t_base t' = t_base t + int k * 62500"
    using Append_effect [OF inv f ap] b by (auto simp: anchor_of_def)
  have x: "t_base t' \<le> ?x" "t_base t \<le> ?x" using kept base' by auto
  show ?thesis
  proof (cases "(?x - t_base t) div 62500 < blen_of t")
    case True
    then have "?x < t_base t + blen_of t * 62500"
      using sample_div_bound [of "?x - t_base t" "blen_of t - 1"] by simp
    then show ?thesis using Append_keeps [OF inv f ap x(1)] b x(2) by simp
  next
    case False
    have "int i * 62500 + 62500 \<le> int n * 62500" using i by simp
    then have late: "?x + 62500 \<le> t_floor t" using rendered by linarith
    then have fl: "t_base t \<le> max at (t_floor t)" using x(2) by (simp add: le_max_iff_disj)
    from late have "?x + 62500 \<le> max at (t_floor t)" by (simp add: le_max_iff_disj)
    then have "(?x - t_base t) div 62500 + 1 \<le> (max at (t_floor t) - t_base t) div 62500"
      using zdiv_mono1 [of "(?x - t_base t) + 1 * 62500" "max at (t_floor t) - t_base t" 62500]
      by (simp only: sample_div_shift)
    then have "(?x - t_base t) div 62500 < blen_of t + int (gap_of at t)"
      using gap_of_eq [OF f _ fl] b by simp
    then have "at_time t' ?x = 0"
      using Append_gap [OF inv f ap x(1)] False b by (simp add: anchor_of_def)
    moreover have "at_time t ?x = 0"
      using False x(2) by (auto simp: at_time_def Let_def blen_of_def)
    ultimately show ?thesis by simp
  qed
qed

lemma Window_before_base:
  assumes "c + int n * 62500 \<le> t_base t" and "t_base t - c \<le> max_span"
  shows "Window c n t = replicate n 0"
proof -
  have c: "0 \<le> t_base t - c" using assms(1) by linarith
  have "int n \<le> (t_base t - c) div 62500"
    by (rule sample_div_ge) (use assms(1) in linarith)
  with samplesFor_exact [OF c assms(2)] have lead: "int n \<le> samplesFor (t_base t - c)" by simp
  show ?thesis
  proof (cases "c < t_base t")
    case True
    with lead show ?thesis by (cases "t_buf t") (simp_all add: Window_def)
  next
    case False
    then have "n = 0" using assms(1) by auto
    then show ?thesis by (simp add: length_0_conv [symmetric] del: length_0_conv)
  qed
qed

lemma Window_final:
  assumes inv: "track_inv t" and n: "int n \<le> max_samples"
    and f: "fits at samples t" and ap: "Append now at samples t = (placed, t')"
    and reserved: "c + durationFor (int n) \<le> t_floor t"
    and near: "c - t_base t \<le> max_span" "t_base t' - c \<le> max_span"
    and kept: "t_buf t = None \<or> t_base t' \<le> c"
  shows "Window c n t' = Window c n t"
proof -
  have dn: "durationFor (int n) = int n * 62500" by (rule durationFor_exact) (use n in auto)
  obtain k where k: "t_base t' = anchor_of at t + int k * 62500"
    using Append_effect [OF inv f ap] by auto
  show ?thesis
  proof (cases "t_buf t")
    case None
    have "c + int n * 62500 \<le> max at (t_floor t)" using reserved dn by (simp add: le_max_iff_disj)
    then have "c + int n * 62500 \<le> t_base t'" using k None by (simp add: anchor_of_def del: max.bounded_iff)
    then have "Window c n t' = replicate n 0" by (rule Window_before_base) (rule near)
    with None show ?thesis by (simp add: Window_def)
  next
    case (Some b)
    have base: "t_base t \<le> t_base t'" using k Some by (simp add: anchor_of_def)
    have c: "t_base t' \<le> c" using kept Some by simp
    have nth: "Window c n t' ! i = Window c n t ! i" if i: "i < n" for i
    proof -
      have same: "at_time t' (c + int i * 62500) = at_time t (c + int i * 62500)"
        using Window_final_nth [OF inv f ap Some _ c i] reserved dn by simp
      have "t' = trim (append_raw now at samples t)" using ap by (simp add: Append_raw)
      moreover have "t_buf (append_raw now at samples t) \<noteq> None" using Some by (simp add: append_raw_def)
      ultimately have "t_buf t' \<noteq> None" using trim_buf by simp
      then obtain b' where "t_buf t' = Some b'" by blast
      then have "Window c n t' ! i = at_time t' (c + int i * 62500)"
        by (rule Window_nth) (use c base near(1) i in auto)
      moreover have "Window c n t ! i = at_time t (c + int i * 62500)"
        by (rule Window_nth [OF Some]) (use c base near(1) i in auto)
      ultimately show ?thesis using same by simp
    qed
    show ?thesis by (rule nth_equalityI) (use nth in auto)
  qed
qed

section \<open>Trimming\<close>

lemma trim_respects_fence:
  assumes inv: "track_inv t" and len: "blen_of t \<le> max_samples"
    and fence: "t_consumers t > 0" "t_floor t > 0" "t_base t \<le> t_floor t" "t_floor t - t_base t \<le> max_span"
  shows "t_base (trim t) \<le> t_floor t"
proof (rule trim_cases [of t])
  assume "trim t = t"
  then show ?thesis using fence by simp
next
  fix keep
  assume t: "trim t = trim_cut keep t" "samplesFor (trackKeep + t_delay t) \<le> keep" "keep < blen_of t"
    and played: "t_consumers t > 0 \<and> t_floor t > 0 \<and> t_floor t \<ge> t_base t \<longrightarrow>
        blen_of t - keep \<le> samplesFor (t_floor t - t_base t)"
  have pos: "0 \<le> keep"
    using t(2) samplesFor_keep [OF inv] inv pos_imp_zdiv_nonneg_iff [of 62500 "trackKeep + t_delay t"]
    by (simp add: track_inv_def trackKeep_def)
  have "blen_of t - keep \<le> (t_floor t - t_base t) div 62500"
    using played fence samplesFor_exact [of "t_floor t - t_base t"] by simp
  then have "(blen_of t - keep) * 62500 \<le> t_floor t - t_base t"
    by (rule sample_div_le)
  moreover have "durationFor (blen_of t - keep) = (blen_of t - keep) * 62500"
    by (rule durationFor_exact) (use t pos len in auto)
  ultimately show ?thesis by (simp add: t(1) trim_cut_def Let_def)
qed

lemma trim_bounded:
  assumes inv: "track_inv t" and free: "t_consumers t = 0"
  shows "blen_of (trim t) \<le> samplesFor (trackKeep + t_delay t) + samplesFor trackSlack"
proof -
  let ?keep = "samplesFor (trackKeep + t_delay t)"
  have pos: "0 \<le> ?keep"
    using samplesFor_keep [OF inv] inv pos_imp_zdiv_nonneg_iff [of 62500 "trackKeep + t_delay t"]
    by (simp add: track_inv_def trackKeep_def)
  show ?thesis
  proof (cases "blen_of t \<le> ?keep + samplesFor trackSlack")
    case True
    then show ?thesis by (simp add: trim_def Let_def)
  next
    case False
    then have "trim t = trim_cut ?keep t" using free by (simp add: trim_def Let_def)
    then have "blen_of (trim t) = ?keep"
      using False pos samplesFor_slack by (simp add: blen_of_def buf_list_def trim_cut_def Let_def)
    then show ?thesis by (simp add: samplesFor_slack)
  qed
qed

section \<open>Properties\<close>

text \<open>C6: an append spills right instead of overwriting: every instant already placed and still
  retained keeps its sample, the take is readable from the returned instant on, and it is placed no
  earlier than asked (and than the reserved floor), to within the sample that covers it.\<close>

theorem append_never_overwrites:
  assumes inv: "track_inv t" and f: "fits at samples t" and ap: "Append now at samples t = (placed, t')"
  shows "(\<forall>x. t_base t' \<le> x \<and> t_base t \<le> x \<and> x < t_base t + blen_of t * 62500 \<longrightarrow>
            at_time t' x = at_time t x) \<and>
         (\<forall>i<length samples. t_base t' \<le> placed + int i * 62500 \<longrightarrow>
            at_time t' (placed + int i * 62500) = samples ! i) \<and>
         max at (t_floor t) < placed + 62500"
proof (intro conjI allI impI)
  fix x assume x: "t_base t' \<le> x \<and> t_base t \<le> x \<and> x < t_base t + blen_of t * 62500"
  then have "t_buf t \<noteq> None" by (cases "t_buf t") (auto simp: blen_of_def buf_list_def)
  with x show "at_time t' x = at_time t x" using Append_keeps [OF inv f ap] by blast
next
  fix i assume "i < length samples" and "t_base t' \<le> placed + int i * 62500"
  then show "at_time t' (placed + int i * 62500) = samples ! i" by (rule Append_places [OF inv f ap])
next
  show "max at (t_floor t) < placed + 62500" by (rule Append_not_early [OF f ap inv])
qed

theorem append_never_overwrites_witness:
  "at_time (snd (Append 0 62500 [9] (NewTrack\<lparr>t_buf := Some [5, 6]\<rparr>))) 62500 = 6 \<and>
   at_time (snd (Append 0 62500 [9] (NewTrack\<lparr>t_buf := Some [5, 6]\<rparr>))) 125000 = 9"
proof -
  let ?t = "NewTrack\<lparr>t_buf := Some [5, 6]\<rparr>"
  let ?u = "NewTrack\<lparr>t_buf := Some [5, 6, 9]\<rparr>"
  have pre: "track_inv ?t" "fits 62500 [9] ?t" and ap: "Append 0 62500 [9] ?t = (125000, ?u)"
    by code_simp+
  have shape: "t_base ?t = 0" "t_base ?u = 0" "blen_of ?t = 2" and old: "at_time ?t 62500 = 6"
    by code_simp+
  note facts = append_never_overwrites [OF pre ap, unfolded shape]
  have "at_time ?u 62500 = 6" using facts old by simp
  moreover have "at_time ?u 125000 = 9" using facts by auto
  ultimately show ?thesis by (simp only: ap snd_conv simp_thms)
qed





text \<open>With no consumer registered the retained audio is bounded by the retention window, the
  session delay and the slack, after every append and whatever its length.\<close>

lemma track_memory_bounded:
  assumes "track_inv t" and "t_consumers t = 0" and "Append now at samples t = (placed, t')"
  shows "blen_of t' \<le> samplesFor (trackKeep + t_delay t) + samplesFor trackSlack"
proof -
  have "t' = trim (append_raw now at samples t)" using assms(3) by (simp add: Append_raw)
  then show ?thesis
    using trim_bounded [of "append_raw now at samples t"] assms(1,2) by (simp add: track_inv_append_raw)
qed

lemma track_memory_bounded_witness:
  "\<exists>b. length b = 960000 \<and> blen_of (snd (Append 0 0 b NewTrack)) \<le> 720000"
proof -
  obtain b :: "sample list" where b: "length b = 960000" using Ex_list_of_length by blast
  have pre: "track_inv NewTrack" "t_consumers NewTrack = 0"
    and bound: "samplesFor (trackKeep + t_delay NewTrack) + samplesFor trackSlack = 720000"
    by code_simp+
  have "Append 0 0 b NewTrack = (fst (Append 0 0 b NewTrack), snd (Append 0 0 b NewTrack))" by simp
  from track_memory_bounded [OF pre this] b bound show ?thesis by auto
qed

end
