(* ===== verification/VoiceQueue.thy ===== *)
theory VoiceQueue
  imports Playout
begin

text \<open>
  \<^verbatim>\<open>internal/core/pipeline/voicequeue.go\<close>: the call-dub playout, a FIFO of ready takes with one read
  head per cursor. Every method holds the queue's mutex, so each is one step of the state. Cursors
  are numbered; \<open>q_cursors\<close> lists the keys of the source's cursor set (its order is immaterial: it
  is only folded with \<open>min\<close>), and \<open>q_cur\<close> holds the cursor objects, registered or not.
\<close>

section \<open>State and operations\<close>

record voiceCursor =
  vc_head :: int
  vc_registered :: bool
  vc_accepted :: bool
  vc_released :: bool

definition newVoiceCursor :: voiceCursor where
  "newVoiceCursor = \<lparr>vc_head = 0, vc_registered = False, vc_accepted = False, vc_released = False\<rparr>"

record voiceQueue =
  q_cursors :: "nat list"
  q_cur :: "nat \<Rightarrow> voiceCursor"
  q_group :: playoutGroup
  q_buf :: "sample list"
  q_clock :: duration
  q_maxLead :: int
  q_finished :: bool

definition NewVoiceQueue :: "duration \<Rightarrow> voiceQueue" where
  "NewVoiceQueue lead =
     \<lparr>q_cursors = [], q_cur = (\<lambda>_. newVoiceCursor), q_group = newPlayoutGroup, q_buf = [], q_clock = 0,
      q_maxLead = samplesFor (max lead 0), q_finished = False\<rparr>"

definition qlen :: "voiceQueue \<Rightarrow> int" where
  "qlen q = int (length (q_buf q))"

definition consumedLocked :: "voiceQueue \<Rightarrow> int" where
  "consumedLocked q =
     (if q_cursors q = [] then 0
      else fold (\<lambda>c consumed. min consumed (vc_head (q_cur q c))) (q_cursors q) (qlen q))"

definition discardLocked :: "int \<Rightarrow> voiceQueue \<Rightarrow> voiceQueue" where
  "discardLocked n q =
     q\<lparr>q_buf := drop (nat n) (q_buf q),
       q_clock := q_clock q + durationFor n,
       q_cur := (\<lambda>c. if c \<in> set (q_cursors q)
                     then (q_cur q c)\<lparr>vc_head := max 0 (vc_head (q_cur q c) - n)\<rparr> else q_cur q c)\<rparr>"

definition vq_Append :: "duration \<Rightarrow> sample list \<Rightarrow> voiceQueue \<Rightarrow> duration \<times> voiceQueue" where
  "vq_Append at samples q =
     (let dropped = consumedLocked q;
          q1 = (if dropped > 0 then discardLocked dropped q else q);
          q2 = q1\<lparr>q_buf := q_buf q1 @ samples\<rparr>;
          q3 = (if q_maxLead q2 > 0 \<and> qlen q2 > q_maxLead q2 then discardLocked (qlen q2 - q_maxLead q2) q2 else q2)
      in (q_clock q3 + durationFor (qlen q3), q3))"

definition vq_Finish :: "voiceQueue \<Rightarrow> voiceQueue" where
  "vq_Finish q = q\<lparr>q_finished := True\<rparr>"

definition set_cur :: "nat \<Rightarrow> voiceCursor \<Rightarrow> voiceQueue \<Rightarrow> voiceQueue" where
  "set_cur c v q = q\<lparr>q_cur := (q_cur q)(c := v)\<rparr>"

definition vc_beginLocked :: "nat \<Rightarrow> voiceQueue \<Rightarrow> bool \<times> voiceQueue" where
  "vc_beginLocked c q =
     (let q' = (if \<not> vc_registered (q_cur q c)
                then let (ok, g) = group_acquire (q_group q);
                         q1 = set_cur c ((q_cur q c)\<lparr>vc_registered := True, vc_accepted := ok\<rparr>) (q\<lparr>q_group := g\<rparr>)
                     in if ok then q1\<lparr>q_cursors := List.insert c (q_cursors q1)\<rparr> else q1
                else q)
      in (vc_accepted (q_cur q' c) \<and> \<not> vc_released (q_cur q' c), q'))"

definition vc_NextInto :: "nat \<Rightarrow> nat \<Rightarrow> voiceQueue \<Rightarrow> PCM \<times> PullStatus \<times> voiceQueue" where
  "vc_NextInto c len_dst q0 =
     (case vc_beginLocked c q0 of (ok, q) \<Rightarrow>
        if \<not> ok then (no_pcm, PullEOF, q)
        else let head = vc_head (q_cur q c); pending = qlen q - head in
          if pending \<le> 0 then (no_pcm, if q_finished q then PullEOF else PullPending, q)
          else let pts = q_clock q + durationFor head;
                   n = min pending (int len_dst);
                   out = take (nat n) (drop (nat head) (q_buf q)) @ replicate (len_dst - nat n) 0
               in (\<lparr>Data = out, PTS = pts\<rparr>, PullReady,
                   set_cur c ((q_cur q c)\<lparr>vc_head := head + n\<rparr>) q))"

text \<open>\<open>None\<close> is the panic of a second close of the group's channel.\<close>

definition vc_ReleasePlayout :: "nat \<Rightarrow> voiceQueue \<Rightarrow> voiceQueue option" where
  "vc_ReleasePlayout c q =
     (let v = q_cur q c in
      if \<not> vc_registered v \<or> \<not> vc_accepted v \<or> vc_released v then Some q
      else let q' = (set_cur c (v\<lparr>vc_released := True\<rparr>) q)\<lparr>q_cursors := filter (\<lambda>x. x \<noteq> c) (q_cursors q)\<rparr>
           in map_option (\<lambda>g. q'\<lparr>q_group := g\<rparr>) (group_release (q_group q')))"

definition vq_Seal :: "voiceQueue \<Rightarrow> voiceQueue option" where
  "vq_Seal q = map_option (\<lambda>g. q\<lparr>q_group := g\<rparr>) (group_seal (q_group q))"

text \<open>The operations any goroutine may call, in any order.\<close>

datatype vq_op =
  QAppend duration "sample list" | QFinish | QSeal | QBegin nat | QNext nat nat | QRelease nat

fun vq_step :: "vq_op \<Rightarrow> voiceQueue \<Rightarrow> voiceQueue option" where
  "vq_step (QAppend at samples) q = Some (snd (vq_Append at samples q))"
| "vq_step QFinish q = Some (vq_Finish q)"
| "vq_step QSeal q = vq_Seal q"
| "vq_step (QBegin c) q = Some (snd (vc_beginLocked c q))"
| "vq_step (QNext c n) q = Some (snd (snd (vc_NextInto c n q)))"
| "vq_step (QRelease c) q = vc_ReleasePlayout c q"

fun vq_run :: "vq_op list \<Rightarrow> voiceQueue \<Rightarrow> voiceQueue option" where
  "vq_run [] q = Some q"
| "vq_run (x # xs) q = (case vq_step x q of None \<Rightarrow> None | Some q' \<Rightarrow> vq_run xs q')"

section \<open>The invariant\<close>

definition live :: "voiceCursor \<Rightarrow> bool" where
  "live v \<longleftrightarrow> vc_registered v \<and> vc_accepted v \<and> \<not> vc_released v"

definition vq_inv :: "voiceQueue \<Rightarrow> bool" where
  "vq_inv q \<longleftrightarrow>
     distinct (q_cursors q) \<and>
     (\<forall>c. c \<in> set (q_cursors q) \<longleftrightarrow> live (q_cur q c)) \<and>
     (\<forall>c. vc_released (q_cur q c) \<longrightarrow> vc_registered (q_cur q c) \<and> vc_accepted (q_cur q c)) \<and>
     (\<forall>c. \<not> vc_registered (q_cur q c) \<longrightarrow> vc_head (q_cur q c) = 0) \<and>
     (\<forall>c. 0 \<le> vc_head (q_cur q c)) \<and>
     (\<forall>c \<in> set (q_cursors q). vc_head (q_cur q c) \<le> qlen q) \<and>
     group_inv (length (q_cursors q)) (q_group q)"

lemma vq_inv_new: "vq_inv (NewVoiceQueue lead)"
  by (simp add: vq_inv_def NewVoiceQueue_def newVoiceCursor_def live_def group_inv_new)

lemma fold_min_le:
  "fold (\<lambda>c m. min m (f c)) cs (m :: int) \<le> m"
  "c \<in> set cs \<Longrightarrow> fold (\<lambda>c m. min m (f c)) cs m \<le> f c"
proof (induction cs arbitrary: m)
  case (Cons x xs)
  {
    case 1
    show ?case using Cons(1) [of "min m (f x)"] by simp
  next
    case 2
    then show ?case using Cons(1) [of "min m (f x)"] Cons(2) [of "min m (f x)"] by auto
  }
qed simp_all

lemma fold_min_ge:
  "(\<forall>c \<in> set cs. k \<le> f c) \<Longrightarrow> k \<le> m \<Longrightarrow> (k :: int) \<le> fold (\<lambda>c m. min m (f c)) cs m"
  by (induction cs arbitrary: m) auto

lemma consumed_bounds:
  assumes inv: "vq_inv q"
  shows consumed_nonneg: "0 \<le> consumedLocked q" and consumed_le_len: "consumedLocked q \<le> qlen q"
    and consumed_le_head: "c \<in> set (q_cursors q) \<Longrightarrow> consumedLocked q \<le> vc_head (q_cur q c)"
proof -
  have heads: "\<forall>c \<in> set (q_cursors q). 0 \<le> vc_head (q_cur q c)" using inv by (simp add: vq_inv_def)
  show "0 \<le> consumedLocked q"
    unfolding consumedLocked_def using fold_min_ge [OF heads, of "qlen q"] by (simp add: qlen_def)
  show "consumedLocked q \<le> qlen q"
    unfolding consumedLocked_def using fold_min_le(1) [of "\<lambda>c. vc_head (q_cur q c)" "q_cursors q" "qlen q"] by (simp add: qlen_def)
  show "consumedLocked q \<le> vc_head (q_cur q c)" if "c \<in> set (q_cursors q)"
    unfolding consumedLocked_def using fold_min_le(2) [OF that, of "\<lambda>c. vc_head (q_cur q c)"] that by auto
qed

lemma discard_simps [simp]:
  "q_cursors (discardLocked n q) = q_cursors q" "q_group (discardLocked n q) = q_group q"
  "q_maxLead (discardLocked n q) = q_maxLead q" "q_finished (discardLocked n q) = q_finished q"
  "q_buf (discardLocked n q) = drop (nat n) (q_buf q)"
  "q_clock (discardLocked n q) = q_clock q + durationFor n"
  "vc_registered (q_cur (discardLocked n q) c) = vc_registered (q_cur q c)"
  "vc_accepted (q_cur (discardLocked n q) c) = vc_accepted (q_cur q c)"
  "vc_released (q_cur (discardLocked n q) c) = vc_released (q_cur q c)"
  "live (q_cur (discardLocked n q) c) = live (q_cur q c)"
  by (simp_all add: discardLocked_def live_def)

lemma head_discard:
  "vc_head (q_cur (discardLocked n q) c) =
     (if c \<in> set (q_cursors q) then max 0 (vc_head (q_cur q c) - n) else vc_head (q_cur q c))"
  by (simp add: discardLocked_def)

lemma qlen_discard: "0 \<le> n \<Longrightarrow> n \<le> qlen q \<Longrightarrow> qlen (discardLocked n q) = qlen q - n"
  by (simp add: qlen_def)

lemma discard_inv: "vq_inv q \<Longrightarrow> 0 \<le> n \<Longrightarrow> n \<le> qlen q \<Longrightarrow> vq_inv (discardLocked n q)"
  by (auto simp: vq_inv_def head_discard qlen_discard live_def)

text \<open>An append compacts, enqueues and sheds.\<close>

definition compact :: "voiceQueue \<Rightarrow> voiceQueue" where
  "compact q = (if consumedLocked q > 0 then discardLocked (consumedLocked q) q else q)"

definition enqueue :: "sample list \<Rightarrow> voiceQueue \<Rightarrow> voiceQueue" where
  "enqueue samples q = q\<lparr>q_buf := q_buf q @ samples\<rparr>"

definition excess :: "voiceQueue \<Rightarrow> int" where
  "excess q = (if q_maxLead q > 0 then max 0 (qlen q - q_maxLead q) else 0)"

definition shed :: "voiceQueue \<Rightarrow> voiceQueue" where
  "shed q = (if excess q > 0 then discardLocked (excess q) q else q)"

lemma vq_Append_steps: "snd (vq_Append at samples q) = shed (enqueue samples (compact q))"
  by (simp add: vq_Append_def Let_def shed_def excess_def enqueue_def compact_def max_def)

lemma enqueue_simps [simp]:
  "q_cursors (enqueue s q) = q_cursors q" "q_group (enqueue s q) = q_group q"
  "q_maxLead (enqueue s q) = q_maxLead q" "q_finished (enqueue s q) = q_finished q"
  "q_buf (enqueue s q) = q_buf q @ s" "q_clock (enqueue s q) = q_clock q" "q_cur (enqueue s q) = q_cur q"
  "qlen (enqueue s q) = qlen q + int (length s)"
  by (simp_all add: enqueue_def qlen_def)

lemma enqueue_inv: "vq_inv q \<Longrightarrow> vq_inv (enqueue samples q)"
  unfolding vq_inv_def enqueue_simps by (fastforce simp: qlen_def)

lemma compact_inv: "vq_inv q \<Longrightarrow> vq_inv (compact q)"
  by (simp add: compact_def consumed_le_len discard_inv)

lemma shed_inv: "vq_inv q \<Longrightarrow> 0 \<le> q_maxLead q \<Longrightarrow> vq_inv (shed q)"
  by (auto simp: shed_def excess_def intro!: discard_inv)

lemma compact_simps [simp]:
  "q_cursors (compact q) = q_cursors q" "q_group (compact q) = q_group q"
  "q_maxLead (compact q) = q_maxLead q" "q_finished (compact q) = q_finished q"
  by (simp_all add: compact_def)

lemma shed_simps [simp]:
  "q_cursors (shed q) = q_cursors q" "q_group (shed q) = q_group q"
  "q_maxLead (shed q) = q_maxLead q" "q_finished (shed q) = q_finished q"
  by (simp_all add: shed_def)

lemma Append_inv: "vq_inv q \<Longrightarrow> 0 \<le> q_maxLead q \<Longrightarrow> vq_inv (snd (vq_Append at samples q))"
  by (simp add: vq_Append_steps shed_inv enqueue_inv compact_inv)

text \<open>Beginning a cursor: idempotent once registered, refused once the group is sealed.\<close>

lemma set_cur_simps [simp]:
  "q_cursors (set_cur c v q) = q_cursors q" "q_group (set_cur c v q) = q_group q"
  "q_maxLead (set_cur c v q) = q_maxLead q" "q_finished (set_cur c v q) = q_finished q"
  "q_buf (set_cur c v q) = q_buf q" "q_clock (set_cur c v q) = q_clock q"
  "q_cur (set_cur c v q) d = (if d = c then v else q_cur q d)" "qlen (set_cur c v q) = qlen q"
  by (simp_all add: set_cur_def qlen_def)

lemma begin_registered:
  "vc_registered (q_cur q c) \<Longrightarrow> vc_beginLocked c q = (vc_accepted (q_cur q c) \<and> \<not> vc_released (q_cur q c), q)"
  by (simp add: vc_beginLocked_def)

lemma begin_sealed:
  "\<not> vc_registered (q_cur q c) \<Longrightarrow> g_sealed (q_group q) \<Longrightarrow>
    vc_beginLocked c q = (False, set_cur c ((q_cur q c)\<lparr>vc_registered := True, vc_accepted := False\<rparr>) q)"
  by (simp add: vc_beginLocked_def group_acquire_def set_cur_def)

lemma begin_open:
  assumes "\<not> vc_registered (q_cur q c)" "\<not> g_sealed (q_group q)"
  shows "vc_beginLocked c q =
    (\<not> vc_released (q_cur q c),
     (set_cur c ((q_cur q c)\<lparr>vc_registered := True, vc_accepted := True\<rparr>) q)
       \<lparr>q_group := (q_group q)\<lparr>g_active := g_active (q_group q) + 1\<rparr>,
        q_cursors := List.insert c (q_cursors q)\<rparr>)"
  using assms by (simp add: vc_beginLocked_def group_acquire_def set_cur_def Let_def)

lemma begin_inv: "vq_inv q \<Longrightarrow> vq_inv (snd (vc_beginLocked c q))"
proof -
  assume inv: "vq_inv q"
  consider "vc_registered (q_cur q c)"
    | "\<not> vc_registered (q_cur q c)" "g_sealed (q_group q)"
    | "\<not> vc_registered (q_cur q c)" "\<not> g_sealed (q_group q)" by blast
  then show ?thesis
  proof cases
    case 1
    then show ?thesis using inv by (simp add: begin_registered)
  next
    case 2
    with inv show ?thesis by (simp add: begin_sealed vq_inv_def live_def) metis
  next
    case 3
    then have new: "c \<notin> set (q_cursors q)" "\<not> vc_released (q_cur q c)" "vc_head (q_cur q c) = 0"
      using inv by (auto simp: vq_inv_def live_def)
    have g: "group_inv (Suc (length (q_cursors q))) ((q_group q)\<lparr>g_active := g_active (q_group q) + 1\<rparr>)"
      using inv 3 by (simp add: vq_inv_def group_inv_def)
    from 3 new g inv show ?thesis
      by (auto simp: begin_open vq_inv_def live_def qlen_def)
  qed
qed

lemma begin_ok:
  assumes "vq_inv q" and "vc_beginLocked c q = (True, q')"
  shows "c \<in> set (q_cursors q')" and "vc_registered (q_cur q' c)"
proof -
  have "live (q_cur q' c)"
    using assms(2) by (auto simp: vc_beginLocked_def live_def Let_def split: if_splits prod.splits)
  moreover have "vq_inv q'" using begin_inv [OF assms(1), of c] assms(2) by simp
  ultimately show "c \<in> set (q_cursors q')" "vc_registered (q_cur q' c)"
    by (auto simp: vq_inv_def live_def)
qed

lemma begin_frame:
  "q_buf (snd (vc_beginLocked c q)) = q_buf q" "q_clock (snd (vc_beginLocked c q)) = q_clock q"
  "q_maxLead (snd (vc_beginLocked c q)) = q_maxLead q" "q_finished (snd (vc_beginLocked c q)) = q_finished q"
  "vc_head (q_cur (snd (vc_beginLocked c q)) d) = vc_head (q_cur q d)"
  "d \<noteq> c \<Longrightarrow> q_cur (snd (vc_beginLocked c q)) d = q_cur q d"
  by (simp_all add: vc_beginLocked_def Let_def set_cur_def split: prod.split)

text \<open>A pull that does not produce a window changes nothing but the registration.\<close>

lemma next_idle:
  "vc_NextInto c n q = (p, st, q') \<Longrightarrow> st \<noteq> PullReady \<Longrightarrow> q' = snd (vc_beginLocked c q)"
  by (auto simp: vc_NextInto_def Let_def split: prod.splits if_splits)

lemma next_ready:
  assumes "vc_NextInto c n q = (p, PullReady, q')"
  obtains q1 head m where "vc_beginLocked c q = (True, q1)" "head = vc_head (q_cur q1 c)"
    "m = min (qlen q1 - head) (int n)" "head < qlen q1"
    "p = \<lparr>Data = take (nat m) (drop (nat head) (q_buf q1)) @ replicate (n - nat m) 0,
           PTS = q_clock q1 + durationFor head\<rparr>"
    "q' = set_cur c ((q_cur q1 c)\<lparr>vc_head := head + m\<rparr>) q1"
  using assms
  by (auto simp: vc_NextInto_def Let_def split: prod.splits if_splits)

lemma next_ready_facts:
  assumes inv: "vq_inv q" and nx: "vc_NextInto c n q = (p, PullReady, q')"
  shows "vq_inv q'" and "c \<in> set (q_cursors q')" and "length (Data p) = n"
    and "vc_head (q_cur q c) \<le> vc_head (q_cur q' c)"
    and "PTS p = q_clock q + durationFor (vc_head (q_cur q c))"
    and "q_clock q' = q_clock q" and "q_buf q' = q_buf q"
    and "d \<noteq> c \<Longrightarrow> q_cur q' d = q_cur q d"
    and "\<exists>m. Data p = take m (drop (nat (vc_head (q_cur q c))) (q_buf q)) @ replicate (n - m) 0 \<and>
       vc_head (q_cur q' c) = vc_head (q_cur q c) + int m \<and>
       m = min (length (drop (nat (vc_head (q_cur q c))) (q_buf q))) n"
proof -
  from nx obtain q1 head m where b: "vc_beginLocked c q = (True, q1)" and head: "head = vc_head (q_cur q1 c)"
    and m: "m = min (qlen q1 - head) (int n)" "head < qlen q1"
    and p: "p = \<lparr>Data = take (nat m) (drop (nat head) (q_buf q1)) @ replicate (n - nat m) 0,
           PTS = q_clock q1 + durationFor head\<rparr>"
    and q': "q' = set_cur c ((q_cur q1 c)\<lparr>vc_head := head + m\<rparr>) q1"
    by (rule next_ready)
  have q1: "q_buf q1 = q_buf q" "q_clock q1 = q_clock q" "head = vc_head (q_cur q c)"
    "d \<noteq> c \<Longrightarrow> q_cur q1 d = q_cur q d" for d
    using begin_frame [where c = c and q = q] b head by simp_all
  have inv1: "vq_inv q1" using begin_inv [OF inv, of c] b by simp
  have c1: "c \<in> set (q_cursors q1)" "vc_registered (q_cur q1 c)" using begin_ok [OF inv b] by auto
  have pos: "0 \<le> head" using inv1 head by (simp add: vq_inv_def)
  then have m0: "0 \<le> m" "m \<le> qlen q1 - head" "m \<le> int n" using m by auto
  show "vq_inv q'"
    unfolding vq_inv_def q' using inv1 c1 m0 pos
    by (auto simp: vq_inv_def live_def)
  show "c \<in> set (q_cursors q')" using c1 by (simp add: q')
  show "vc_head (q_cur q c) \<le> vc_head (q_cur q' c)" using m0 q1 by (simp add: q')
  show "PTS p = q_clock q + durationFor (vc_head (q_cur q c))" using p q1 by simp
  show "q_clock q' = q_clock q" "q_buf q' = q_buf q" using q1 by (simp_all add: q')
  show "q_cur q' d = q_cur q d" if "d \<noteq> c" using q1 that by (simp add: q')
  have nm: "nat m = min (length (drop (nat head) (q_buf q))) n"
    using m pos q1(1) by (auto simp: qlen_def min_def)
  then show "\<exists>m. Data p = take m (drop (nat (vc_head (q_cur q c))) (q_buf q)) @ replicate (n - m) 0 \<and>
       vc_head (q_cur q' c) = vc_head (q_cur q c) + int m \<and>
       m = min (length (drop (nat (vc_head (q_cur q c))) (q_buf q))) n"
    using m0 q1 by (intro exI [of _ "nat m"]) (simp add: p q')
  show "length (Data p) = n" using nm by (simp add: p q1)
qed

lemma next_inv: "vq_inv q \<Longrightarrow> vq_inv (snd (snd (vc_NextInto c n q)))"
proof -
  assume inv: "vq_inv q"
  obtain p st q' where nx: "vc_NextInto c n q = (p, st, q')" by (cases "vc_NextInto c n q")
  show ?thesis
  proof (cases "st = PullReady")
    case True
    with next_ready_facts(1) [OF inv] nx show ?thesis by simp
  next
    case False
    then show ?thesis using next_idle [OF nx] begin_inv [OF inv] nx by simp
  qed
qed

lemma release_inv:
  assumes inv: "vq_inv q"
  shows "\<exists>q'. vc_ReleasePlayout c q = Some q' \<and> vq_inv q' \<and> q_buf q' = q_buf q \<and> q_clock q' = q_clock q \<and>
    q_maxLead q' = q_maxLead q \<and> (\<forall>d. vc_head (q_cur q' d) = vc_head (q_cur q d)) \<and>
    (\<forall>d. vc_registered (q_cur q' d) = vc_registered (q_cur q d) \<and> vc_accepted (q_cur q' d) = vc_accepted (q_cur q d))"
proof (cases "live (q_cur q c)")
  case False
  then have "vc_ReleasePlayout c q = Some q"
    by (auto simp: vc_ReleasePlayout_def live_def Let_def)
  with inv show ?thesis by simp
next
  case True
  then have c: "c \<in> set (q_cursors q)" and d: "distinct (q_cursors q)" using inv by (simp_all add: vq_inv_def)
  have "length (q_cursors q) = Suc (length (filter (\<lambda>x. x \<noteq> c) (q_cursors q)))"
    by (rule length_filter_neq) (rule d c)+
  with inv have "group_inv (Suc (length (filter (\<lambda>x. x \<noteq> c) (q_cursors q)))) (q_group q)"
    by (simp add: vq_inv_def)
  from group_release_inv [OF this] obtain g where
    g: "group_release (q_group q) = Some g" "group_inv (length (filter (\<lambda>x. x \<noteq> c) (q_cursors q))) g" by blast
  have r: "vc_ReleasePlayout c q =
      Some ((set_cur c ((q_cur q c)\<lparr>vc_released := True\<rparr>) q)\<lparr>q_cursors := filter (\<lambda>x. x \<noteq> c) (q_cursors q), q_group := g\<rparr>)"
    using True g(1) by (simp add: vc_ReleasePlayout_def live_def Let_def)
  show ?thesis
    unfolding r using inv True g(2) d
    by (auto simp: vq_inv_def live_def qlen_def)
qed

lemma seal_inv:
  assumes inv: "vq_inv q"
  shows "\<exists>q'. vq_Seal q = Some q' \<and> vq_inv q' \<and> q_buf q' = q_buf q \<and> q_clock q' = q_clock q \<and>
    q_maxLead q' = q_maxLead q \<and> q_cur q' = q_cur q \<and> g_sealed (q_group q')"
proof -
  have "group_inv (length (q_cursors q)) (q_group q)" using inv by (simp add: vq_inv_def)
  from group_seal_inv [OF this] obtain g where
    "group_seal (q_group q) = Some g" "group_inv (length (q_cursors q)) g" "g_sealed g" by blast
  with inv show ?thesis by (auto simp: vq_Seal_def vq_inv_def qlen_def)
qed

lemma step_inv:
  assumes "vq_inv q" and "0 \<le> q_maxLead q"
  shows "\<exists>q'. vq_step x q = Some q' \<and> vq_inv q' \<and> q_maxLead q' = q_maxLead q"
proof (cases x)
  case (QAppend at samples)
  then show ?thesis using assms by (simp add: Append_inv) (simp add: vq_Append_steps)
next
  case QFinish
  have "vq_inv (vq_Finish q)" using assms(1) by (simp add: vq_inv_def vq_Finish_def qlen_def)
  with QFinish show ?thesis by (simp add: vq_Finish_def)
next
  case QSeal
  then show ?thesis using seal_inv [OF assms(1)] by auto
next
  case (QBegin c)
  then show ?thesis using assms by (simp add: begin_inv begin_frame)
next
  case (QNext c n)
  obtain p st q' where nx: "vc_NextInto c n q = (p, st, q')" by (cases "vc_NextInto c n q")
  have "q_maxLead q' = q_maxLead q"
  proof (cases "st = PullReady")
    case True
    then show ?thesis
      using next_ready [OF nx [unfolded True]] begin_frame(3) [where c = c and q = q] by (metis set_cur_simps(3) snd_conv)
  next
    case False
    then show ?thesis using next_idle [OF nx] begin_frame(3) by simp
  qed
  with QNext nx next_inv [OF assms(1), of c n] show ?thesis by simp
next
  case (QRelease c)
  from release_inv [OF assms(1), of c] obtain q' where
    "vc_ReleasePlayout c q = Some q'" "vq_inv q'" "q_maxLead q' = q_maxLead q" by blast
  with QRelease show ?thesis by simp
qed

lemma run_inv:
  "vq_inv q \<Longrightarrow> 0 \<le> q_maxLead q \<Longrightarrow> \<exists>q'. vq_run xs q = Some q' \<and> vq_inv q' \<and> q_maxLead q' = q_maxLead q"
proof (induction xs arbitrary: q)
  case Nil
  then show ?case by simp
next
  case (Cons x xs)
  from step_inv [OF Cons.prems, of x] obtain q' where
    "vq_step x q = Some q'" "vq_inv q'" "q_maxLead q' = q_maxLead q" by blast
  with Cons.IH [of q'] Cons.prems show ?case by simp
qed

lemma samplesFor_new_nonneg: "0 \<le> lead \<Longrightarrow> lead \<le> max_span \<Longrightarrow> 0 \<le> samplesFor lead"
  by (simp add: samplesFor_exact pos_imp_zdiv_nonneg_iff)

section \<open>What a cursor hears\<close>

definition pending :: "nat \<Rightarrow> voiceQueue \<Rightarrow> sample list" where
  "pending c q = drop (nat (vc_head (q_cur q c))) (q_buf q)"

lemma pending_discard:
  assumes "c \<in> set (q_cursors q)" "0 \<le> n" "vq_inv q"
  shows "pending c (discardLocked n q) = drop (nat (n - vc_head (q_cur q c))) (pending c q)"
proof -
  have h: "0 \<le> vc_head (q_cur q c)" using assms by (simp add: vq_inv_def)
  have "nat (max 0 (vc_head (q_cur q c) - n)) + nat n =
      nat (n - vc_head (q_cur q c)) + nat (vc_head (q_cur q c))"
    using h assms(2) by linarith
  then show ?thesis using assms(1) by (simp add: pending_def head_discard)
qed

lemma pending_compact:
  assumes "c \<in> set (q_cursors q)" "vq_inv q"
  shows "pending c (compact q) = pending c q"
proof -
  have "nat (consumedLocked q - vc_head (q_cur q c)) = 0"
    using consumed_le_head [OF assms(2,1)] by simp
  then show ?thesis
    using assms consumed_nonneg [OF assms(2)] by (simp add: compact_def pending_discard)
qed

lemma pending_enqueue:
  assumes "c \<in> set (q_cursors q)" "vq_inv q"
  shows "pending c (enqueue samples q) = pending c q @ samples"
proof -
  have "nat (vc_head (q_cur q c)) \<le> length (q_buf q)"
    using assms by (auto simp: vq_inv_def qlen_def nat_le_iff)
  then show ?thesis by (simp add: pending_def)
qed

text \<open>After an append a cursor is owed what it was owed plus the take, less a prefix that is dropped
  only when the retained queue exceeded the lead cap.\<close>

lemma pending_Append:
  assumes "c \<in> set (q_cursors q)" "vq_inv q" "0 \<le> q_maxLead q"
  shows "\<exists>k. pending c (snd (vq_Append at samples q)) = drop k (pending c q @ samples) \<and>
    (q_maxLead q = 0 \<or> qlen (compact q) + int (length samples) \<le> q_maxLead q \<longrightarrow> k = 0)"
proof -
  let ?e = "enqueue samples (compact q)"
  have inv: "vq_inv ?e" and c: "c \<in> set (q_cursors ?e)"
    using assms by (simp_all add: enqueue_inv compact_inv)
  have p: "pending c ?e = pending c q @ samples"
    using assms by (simp add: pending_enqueue pending_compact compact_inv)
  have "pending c (shed ?e) = drop (if excess ?e > 0 then nat (excess ?e - vc_head (q_cur ?e c)) else 0) (pending c ?e)"
    using pending_discard [OF c _ inv, of "excess ?e"] by (simp add: shed_def)
  moreover have "excess ?e \<le> 0" if "q_maxLead q = 0 \<or> qlen (compact q) + int (length samples) \<le> q_maxLead q"
    using that by (auto simp: excess_def)
  ultimately show ?thesis
    unfolding vq_Append_steps p
    by (intro exI [of _ "if excess ?e > 0 then nat (excess ?e - vc_head (q_cur ?e c)) else 0"]) auto
qed

lemma Append_bounded:
  "vq_inv q \<Longrightarrow> 0 < q_maxLead q \<Longrightarrow> qlen (snd (vq_Append at samples q)) \<le> q_maxLead q"
  unfolding vq_Append_steps shed_def excess_def
  by (auto simp: qlen_discard)

lemma next_pending:
  assumes "vq_inv q" and "vc_NextInto c n q = (p, PullReady, q')"
  shows "pending c q' = drop n (pending c q)"
    and "Data p = take n (pending c q) @ replicate (n - length (pending c q)) 0"
    and "d \<noteq> c \<Longrightarrow> pending d q' = pending d q"
proof -
  have h: "0 \<le> vc_head (q_cur q c)" using assms(1) by (simp add: vq_inv_def)
  from next_ready_facts(9) [OF assms] obtain m where m: "m = min (length (pending c q)) n"
    and d: "Data p = take m (pending c q) @ replicate (n - m) 0"
    and hd: "vc_head (q_cur q' c) = vc_head (q_cur q c) + int m"
    by (auto simp: pending_def)
  have b: "q_buf q' = q_buf q" by (rule next_ready_facts(7) [OF assms])
  have "pending c q' = drop m (pending c q)"
    using h by (simp add: pending_def b hd nat_add_distrib add.commute)
  then show "pending c q' = drop n (pending c q)" by (simp add: m min_def)
  show "Data p = take n (pending c q) @ replicate (n - length (pending c q)) 0"
    using d by (auto simp: m min_def)
  show "pending d q' = pending d q" if "d \<noteq> c"
    using next_ready_facts(8) [OF assms that] by (simp add: pending_def b)
qed

section \<open>The cursor contract\<close>

lemma durationFor_add:
  "0 \<le> a \<Longrightarrow> 0 \<le> b \<Longrightarrow> a + b \<le> max_samples \<Longrightarrow> durationFor (a + b) = durationFor a + durationFor b"
  by (simp add: durationFor_exact)

lemma durationFor_mono:
  "0 \<le> a \<Longrightarrow> a \<le> b \<Longrightarrow> b \<le> max_samples \<Longrightarrow> durationFor a \<le> durationFor b"
  by (simp add: durationFor_exact)

lemma durationFor_nonneg: "0 \<le> a \<Longrightarrow> a \<le> max_samples \<Longrightarrow> 0 \<le> durationFor a"
  by (simp add: durationFor_exact)

definition vq_pts :: "nat \<Rightarrow> voiceQueue \<Rightarrow> duration option" where
  "vq_pts c q = (if vc_registered (q_cur q c) \<and> vc_accepted (q_cur q c)
     then Some (q_clock q + durationFor (vc_head (q_cur q c))) else None)"

definition vq_pinv :: "nat \<Rightarrow> voiceQueue \<Rightarrow> bool" where
  "vq_pinv c q \<longleftrightarrow> vq_inv q \<and> 0 \<le> q_maxLead q \<and> qlen q \<le> max_samples \<and> vc_head (q_cur q c) \<le> max_samples"

text \<open>Anything but this cursor's own pull, as long as the queue stays below the 160 hours of the
  64-bit products.\<close>

fun vq_env_op :: "nat \<Rightarrow> vq_op \<Rightarrow> voiceQueue \<Rightarrow> bool" where
  "vq_env_op c (QNext d n) q \<longleftrightarrow> d \<noteq> c"
| "vq_env_op c (QAppend at samples) q \<longleftrightarrow> qlen q + int (length samples) \<le> max_samples"
| "vq_env_op c x q \<longleftrightarrow> True"

definition vq_env :: "nat \<Rightarrow> voiceQueue \<Rightarrow> voiceQueue \<Rightarrow> bool" where
  "vq_env c q q' \<longleftrightarrow> (\<exists>x. vq_env_op c x q \<and> vq_step x q = Some q')"

lemma discard_pinv:
  assumes "vq_pinv c q" "0 \<le> n" "n \<le> qlen q"
  shows "vq_pinv c (discardLocked n q)" "not_before (vq_pts c q) (vq_pts c (discardLocked n q))"
proof -
  have inv: "vq_inv q" and len: "qlen q \<le> max_samples" and h: "vc_head (q_cur q c) \<le> max_samples"
    "0 \<le> vc_head (q_cur q c)"
    using assms(1) by (simp_all add: vq_pinv_def vq_inv_def)
  show "vq_pinv c (discardLocked n q)"
    using assms discard_inv [OF inv assms(2,3)] by (simp add: vq_pinv_def qlen_discard head_discard)
  have "durationFor (vc_head (q_cur q c)) \<le> durationFor n + durationFor (vc_head (q_cur (discardLocked n q) c))"
  proof (cases "n \<le> vc_head (q_cur q c)")
    case True
    then show ?thesis
      using durationFor_add [of n "vc_head (q_cur q c) - n"] h assms(2,3) len durationFor_nonneg [of n]
      by (simp add: head_discard)
  next
    case False
    then show ?thesis
      using durationFor_mono [of "vc_head (q_cur q c)" n] durationFor_nonneg [of n] h assms(2,3) len
      by (simp add: head_discard)
  qed
  then show "not_before (vq_pts c q) (vq_pts c (discardLocked n q))"
    by (simp add: vq_pts_def)
qed

lemma compact_pinv:
  assumes "vq_pinv c q"
  shows "vq_pinv c (compact q) \<and> not_before (vq_pts c q) (vq_pts c (compact q)) \<and> qlen (compact q) \<le> qlen q"
  using assms discard_pinv [OF assms] consumed_bounds
  by (auto simp: compact_def vq_pinv_def qlen_discard)

lemma enqueue_pinv:
  "vq_pinv c q \<Longrightarrow> qlen q + int (length samples) \<le> max_samples \<Longrightarrow>
    vq_pinv c (enqueue samples q) \<and> vq_pts c (enqueue samples q) = vq_pts c q"
  by (simp add: vq_pinv_def enqueue_inv vq_pts_def)

lemma shed_pinv:
  assumes "vq_pinv c q"
  shows "vq_pinv c (shed q) \<and> not_before (vq_pts c q) (vq_pts c (shed q))"
proof (cases "excess q > 0")
  case True
  then have "0 \<le> excess q" "excess q \<le> qlen q"
    using assms by (auto simp: excess_def vq_pinv_def split: if_splits)
  with discard_pinv [OF assms] assms show ?thesis by (simp add: shed_def)
next
  case False
  then show ?thesis using assms by (simp add: shed_def)
qed

lemma Append_pinv:
  assumes "vq_pinv c q" and len: "qlen q + int (length samples) \<le> max_samples"
  shows "vq_pinv c (snd (vq_Append at samples q)) \<and>
    not_before (vq_pts c q) (vq_pts c (snd (vq_Append at samples q)))"
proof -
  let ?k = "compact q" let ?e = "enqueue samples ?k"
  have k: "vq_pinv c ?k" "not_before (vq_pts c q) (vq_pts c ?k)" "qlen ?k \<le> qlen q"
    using compact_pinv [OF assms(1)] by auto
  have e: "vq_pinv c ?e" "vq_pts c ?e = vq_pts c ?k"
    using enqueue_pinv [OF k(1), of samples] k(3) len by auto
  have s: "vq_pinv c (shed ?e)" "not_before (vq_pts c ?e) (vq_pts c (shed ?e))"
    using shed_pinv [OF e(1)] by auto
  then show ?thesis
    using not_before_trans [OF k(2)] by (simp add: vq_Append_steps e(2))
qed

text \<open>Every other step leaves the clock and the head alone and never takes back an acceptance.\<close>

lemma same_clock_head:
  assumes "q_clock q' = q_clock q" "vc_head (q_cur q' c) = vc_head (q_cur q c)"
    and "vc_registered (q_cur q c) \<and> vc_accepted (q_cur q c) \<longrightarrow>
      vc_registered (q_cur q' c) \<and> vc_accepted (q_cur q' c)"
  shows "not_before (vq_pts c q) (vq_pts c q')"
  using assms by (simp add: vq_pts_def)

lemma begin_keeps_accept:
  "vc_registered (q_cur q c) \<and> vc_accepted (q_cur q c) \<Longrightarrow>
    vc_registered (q_cur (snd (vc_beginLocked d q)) c) \<and> vc_accepted (q_cur (snd (vc_beginLocked d q)) c)"
  by (cases "c = d") (simp_all add: begin_registered begin_frame)

lemma begin_pinv:
  "vq_pinv c q \<Longrightarrow> vq_pinv c (snd (vc_beginLocked d q)) \<and>
    not_before (vq_pts c q) (vq_pts c (snd (vc_beginLocked d q)))"
  using begin_keeps_accept [of q c d]
  by (auto simp: vq_pinv_def begin_inv begin_frame qlen_def intro: same_clock_head)

lemma next_pinv:
  assumes inv: "vq_pinv c q" and nx: "vc_NextInto c n q = (p, st, q')"
  shows "vq_pinv c q'" "not_before (vq_pts c q) (vq_pts c q')"
    "st = PullReady \<Longrightarrow> not_before (vq_pts c q) (Some (PTS p)) \<and> not_before (Some (PTS p)) (vq_pts c q')"
proof -
  have i: "vq_inv q" and h: "0 \<le> vc_head (q_cur q c)" using inv by (simp_all add: vq_pinv_def vq_inv_def)
  have "vq_pinv c q' \<and> not_before (vq_pts c q) (vq_pts c q') \<and>
      (st = PullReady \<longrightarrow> not_before (vq_pts c q) (Some (PTS p)) \<and> not_before (Some (PTS p)) (vq_pts c q'))"
  proof (cases "st = PullReady")
    case False
    with next_idle [OF nx] begin_pinv [OF inv] show ?thesis by simp
  next
    case True
    note f = next_ready_facts [OF i nx [unfolded True]]
    have acc: "vc_registered (q_cur q' c)" "vc_accepted (q_cur q' c)"
      using f(1,2) by (auto simp: vq_inv_def live_def)
    have len: "qlen q' \<le> max_samples" and lead: "q_maxLead q' = q_maxLead q"
      using f(7) inv step_inv [OF i, of "QNext c n"] nx by (auto simp: vq_pinv_def qlen_def)
    have "vc_head (q_cur q' c) \<le> qlen q'" using f(1,2) unfolding vq_inv_def by blast
    with len have top: "vc_head (q_cur q' c) \<le> max_samples" by linarith
    have "durationFor (vc_head (q_cur q c)) \<le> durationFor (vc_head (q_cur q' c))"
      by (rule durationFor_mono) (use h f(4) top in auto)
    with acc f(1,5,6) len lead top inv show ?thesis by (simp add: vq_pinv_def vq_pts_def)
  qed
  then show "vq_pinv c q'" "not_before (vq_pts c q) (vq_pts c q')"
    "st = PullReady \<Longrightarrow> not_before (vq_pts c q) (Some (PTS p)) \<and> not_before (Some (PTS p)) (vq_pts c q')"
    by auto
qed

lemma other_next_pinv:
  assumes inv: "vq_pinv c q" and nx: "vc_NextInto d n q = (p, st, q')" and d: "d \<noteq> c"
  shows "vq_pinv c q' \<and> not_before (vq_pts c q) (vq_pts c q')"
proof (cases "st = PullReady")
  case False
  with next_idle [OF nx] begin_pinv [OF inv] show ?thesis by simp
next
  case True
  have i: "vq_inv q" using inv by (simp add: vq_pinv_def)
  note f = next_ready_facts [OF i nx [unfolded True]]
  have same: "q_cur q' c = q_cur q c" by (rule f(8)) (use d in auto)
  have "q_maxLead q' = q_maxLead q" using inv step_inv [OF i, of "QNext d n"] nx by (auto simp: vq_pinv_def)
  with f(1,6,7) same inv show ?thesis by (simp add: vq_pinv_def vq_pts_def qlen_def)
qed

lemma env_pinv:
  assumes inv: "vq_pinv c q" and env: "vq_env c q q'"
  shows "vq_pinv c q' \<and> not_before (vq_pts c q) (vq_pts c q')"
proof -
  from env obtain x where x: "vq_env_op c x q" "vq_step x q = Some q'" by (auto simp: vq_env_def)
  have i: "vq_inv q" using inv by (simp add: vq_pinv_def)
  show ?thesis
  proof (cases x)
    case (QAppend at samples)
    then show ?thesis using x Append_pinv [OF inv] by auto
  next
    case QFinish
    then have "q' = vq_Finish q" using x by simp
    then show ?thesis using inv by (simp add: vq_Finish_def vq_pinv_def vq_inv_def vq_pts_def qlen_def)
  next
    case QSeal
    then show ?thesis
      using x seal_inv [OF i] inv by (auto simp: vq_pinv_def qlen_def intro: same_clock_head)
  next
    case (QBegin d)
    then show ?thesis using x begin_pinv [OF inv] by auto
  next
    case (QNext d n)
    obtain p st r where "vc_NextInto d n q = (p, st, r)" by (cases "vc_NextInto d n q")
    then show ?thesis using QNext x other_next_pinv [OF inv] by auto
  next
    case (QRelease d)
    then show ?thesis
      using x release_inv [OF i, of d] inv by (auto simp: vq_pinv_def qlen_def intro: same_clock_head)
  qed
qed

interpretation voice: playout_cursor "vq_pinv c" "vc_NextInto c" "vq_env c" "vq_pts c" for c
proof unfold_locales
  fix s n show "vq_pinv c s \<Longrightarrow> vq_pinv c (snd (snd (vc_NextInto c n s)))"
    using next_pinv(1) by (cases "vc_NextInto c n s") simp
next
  fix s n p s' assume "vq_pinv c s" "vc_NextInto c n s = (p, PullReady, s')"
  then show "length (Data p) = n" using next_ready_facts(3) [of s c n p s'] by (simp add: vq_pinv_def)
next
  fix s n p s' assume "vq_pinv c s" "vc_NextInto c n s = (p, PullReady, s')"
  then show "not_before (vq_pts c s) (Some (PTS p)) \<and> not_before (Some (PTS p)) (vq_pts c s')"
    by (rule next_pinv(3)) simp
next
  fix s n p st s' assume "vq_pinv c s" "vc_NextInto c n s = (p, st, s')"
  then show "not_before (vq_pts c s) (vq_pts c s')" by (rule next_pinv(2))
qed (use env_pinv in blast)+

section \<open>Properties\<close>

text \<open>Whatever goroutines append, pull, register, release, finish and seal, in any order and any
  number of times, the group's channel is never closed twice (no panic), and the waiter is let go
  exactly when the group is sealed and no accepted cursor is left unreleased.\<close>

lemma voicequeue_never_panics:
  assumes "0 \<le> lead" and "lead \<le> max_span"
  shows "\<exists>q. vq_run ops (NewVoiceQueue lead) = Some q \<and>
    (g_done (q_group q) \<longleftrightarrow> g_sealed (q_group q) \<and> (\<forall>c. \<not> live (q_cur q c)))"
proof -
  have "q_maxLead (NewVoiceQueue lead) = samplesFor lead" using assms by (simp add: NewVoiceQueue_def)
  then obtain q where q: "vq_run ops (NewVoiceQueue lead) = Some q" "vq_inv q"
    using run_inv [OF vq_inv_new, of lead ops] samplesFor_new_nonneg [OF assms] by auto
  from q(2) have "q_cursors q = [] \<longleftrightarrow> (\<forall>c. \<not> live (q_cur q c))"
    by (auto simp: vq_inv_def)
  with q show ?thesis by (simp add: vq_inv_def group_inv_def)
qed

lemma voicequeue_never_panics_witness:
  "\<exists>q. vq_run [QBegin 0, QSeal, QRelease 0, QRelease 0, QSeal] (NewVoiceQueue second) = Some q \<and>
    (g_done (q_group q) \<longleftrightarrow> g_sealed (q_group q) \<and> (\<forall>c. \<not> live (q_cur q c)))"
  by (rule voicequeue_never_panics) (simp_all add: max_span_def)



text \<open>A ready pull hands a cursor exactly the next samples it is owed, padded with silence to the
  quantum, consumes exactly those, and leaves what every other cursor is owed untouched.\<close>

lemma pull_delivers_in_order:
  assumes "vq_inv q" and "vc_NextInto c n q = (p, PullReady, q')"
  shows "Data p = take n (pending c q) @ replicate (n - length (pending c q)) 0 \<and>
    pending c q' = drop n (pending c q) \<and> (\<forall>d. d \<noteq> c \<longrightarrow> pending d q' = pending d q)"
  using next_pending [OF assms] by blast

lemma pull_delivers_in_order_witness:
  "pending 7 (snd (snd (vc_NextInto 7 2 ((NewVoiceQueue 0)\<lparr>q_buf := [1, 2, 3]\<rparr>)))) = [3]"
proof -
  let ?q0 = "(NewVoiceQueue 0)\<lparr>q_buf := [1, 2, 3]\<rparr>"
  let ?r = "vc_NextInto 7 2 ?q0"
  have inv: "vq_inv ?q0" using vq_inv_new [of 0] by (simp add: vq_inv_def qlen_def NewVoiceQueue_def)
  have "fst (snd ?r) = PullReady" and owed: "drop 2 (pending 7 ?q0) = [3]" by code_simp+
  then have "?r = (fst ?r, PullReady, snd (snd ?r))" by (metis prod.collapse)
  from pull_delivers_in_order [OF inv this] owed show ?thesis by simp
qed

text \<open>The timestamps of one cursor's ready windows never decrease, whatever appends (with
  shedding), other cursors, releases and seals happen between its pulls.\<close>

lemma voice_pts_never_decreases:
  assumes "vq_pinv c q" and "playout_cursor.legal (vc_NextInto c) (vq_env c) q es"
  shows "sorted (map PTS (playout_cursor.ready_windows (vc_NextInto c) q es))"
  using assms by (rule voice.pts_never_decreases)

lemma voice_pts_never_decreases_witness:
  "sorted (map PTS (playout_cursor.ready_windows (vc_NextInto 0)
     ((NewVoiceQueue second)\<lparr>q_buf := [1, 2, 3]\<rparr>) [Pull 2, Pull 2]))"
proof -
  let ?q0 = "(NewVoiceQueue second)\<lparr>q_buf := [1, 2, 3]\<rparr>"
  have "vq_inv ?q0" using vq_inv_new [of second] by (simp add: vq_inv_def qlen_def NewVoiceQueue_def)
  moreover have "0 \<le> q_maxLead ?q0" "qlen ?q0 \<le> max_samples" "vc_head (q_cur ?q0 0) \<le> max_samples" by code_simp+
  ultimately have "vq_pinv 0 ?q0" by (simp add: vq_pinv_def)
  then show ?thesis by (rule voice_pts_never_decreases) (simp add: max_samples_def)
qed

end
