(* ===== verification/Lang.thy ===== *)
theory Lang
  imports Prelude
begin

text \<open>
  \<^verbatim>\<open>internal/core/lang.go\<close> and \<^verbatim>\<open>internal/core/lang/\<close>: language tags, the registry and the parser every
  tag passes on its way into the system. \<^verbatim>\<open>core.LangAuto\<close> is the empty string.
\<close>

section \<open>Tags\<close>

type_synonym lang = gostr

definition LangAuto :: lang where "LangAuto = []"

definition Base :: "lang \<Rightarrow> lang" where
  "Base l = fst (str_cut l (str ''-''))"

definition SameLang :: "unicode \<Rightarrow> lang \<Rightarrow> lang \<Rightarrow> bool" where
  "SameLang u a b = EqualFold u (Base a) (Base b)"

record Voice =
  VID :: gostr
  VLang :: lang

definition Supports :: "unicode \<Rightarrow> Voice \<Rightarrow> lang \<Rightarrow> bool" where
  "Supports u v target = (if VLang v = LangAuto then True else SameLang u (VLang v) target)"

section \<open>Registry\<close>

record Language =
  Tag :: lang
  LName :: gostr
  Native :: gostr

record Suggestion =
  SugTag :: lang
  SugName :: gostr

definition mk_language :: "gostr \<times> gostr \<times> gostr \<Rightarrow> Language" where
  "mk_language e = (case e of (t, n, v) \<Rightarrow> \<lparr>Tag = t, LName = n, Native = v\<rparr>)"

definition registry :: "Language list" where
  "registry = map mk_language
     [(str ''ar'', str ''Arabic'', [1575, 1604, 1593, 1585, 1576, 1610, 1577]),
      (str ''bg'', str ''Bulgarian'', [1041, 1098, 1083, 1075, 1072, 1088, 1089, 1082, 1080]),
      (str ''ca'', str ''Catalan'', [67, 97, 116, 97, 108, 224]),
      (str ''zh'', str ''Chinese'', [20013, 25991]),
      (str ''hr'', str ''Croatian'', str ''Hrvatski''),
      (str ''cs'', str ''Czech'', [268, 101, 353, 116, 105, 110, 97]),
      (str ''da'', str ''Danish'', str ''Dansk''),
      (str ''nl'', str ''Dutch'', str ''Nederlands''),
      (str ''en'', str ''English'', str ''English''),
      (str ''et'', str ''Estonian'', str ''Eesti''),
      (str ''fi'', str ''Finnish'', str ''Suomi''),
      (str ''fr'', str ''French'', [70, 114, 97, 110, 231, 97, 105, 115]),
      (str ''de'', str ''German'', str ''Deutsch''),
      (str ''el'', str ''Greek'', [917, 955, 955, 951, 957, 953, 954, 940]),
      (str ''he'', str ''Hebrew'', [1506, 1489, 1512, 1497, 1514]),
      (str ''hi'', str ''Hindi'', [2361, 2367, 2344, 2381, 2342, 2368]),
      (str ''hu'', str ''Hungarian'', str ''Magyar''),
      (str ''is'', str ''Icelandic'', [205, 115, 108, 101, 110, 115, 107, 97]),
      (str ''id'', str ''Indonesian'', str ''Bahasa Indonesia''),
      (str ''it'', str ''Italian'', str ''Italiano''),
      (str ''ja'', str ''Japanese'', [26085, 26412, 35486]),
      (str ''ko'', str ''Korean'', [54620, 44397, 50612]),
      (str ''lv'', str ''Latvian'', [76, 97, 116, 118, 105, 101, 353, 117]),
      (str ''lt'', str ''Lithuanian'', [76, 105, 101, 116, 117, 118, 105, 371]),
      (str ''ms'', str ''Malay'', str ''Bahasa Melayu''),
      (str ''no'', str ''Norwegian'', str ''Norsk''),
      (str ''fa'', str ''Persian'', [1601, 1575, 1585, 1587, 1740]),
      (str ''pl'', str ''Polish'', str ''Polski''),
      (str ''pt'', str ''Portuguese'', [80, 111, 114, 116, 117, 103, 117, 234, 115]),
      (str ''ro'', str ''Romanian'', [82, 111, 109, 226, 110, 259]),
      (str ''ru'', str ''Russian'', [1056, 1091, 1089, 1089, 1082, 1080, 1081]),
      (str ''sr'', str ''Serbian'', [1057, 1088, 1087, 1089, 1082, 1080]),
      (str ''sk'', str ''Slovak'', [83, 108, 111, 118, 101, 110, 269, 105, 110, 97]),
      (str ''sl'', str ''Slovenian'', [83, 108, 111, 118, 101, 110, 353, 269, 105, 110, 97]),
      (str ''es'', str ''Spanish'', [69, 115, 112, 97, 241, 111, 108]),
      (str ''sw'', str ''Swahili'', str ''Kiswahili''),
      (str ''sv'', str ''Swedish'', str ''Svenska''),
      (str ''th'', str ''Thai'', [3652, 3607, 3618]),
      (str ''tr'', str ''Turkish'', [84, 252, 114, 107, 231, 101]),
      (str ''uk'', str ''Ukrainian'', [1059, 1082, 1088, 1072, 1111, 1085, 1089, 1100, 1082, 1072]),
      (str ''vi'', str ''Vietnamese'', [84, 105, 7871, 110, 103, 32, 86, 105, 7879, 116])]"

definition confusions :: "(gostr \<times> Suggestion list) list" where
  "confusions =
     [(str ''at'', [\<lparr>SugTag = str ''de-AT'', SugName = str ''Austrian German''\<rparr>]),
      (str ''br'', [\<lparr>SugTag = str ''pt-BR'', SugName = str ''Brazilian Portuguese''\<rparr>]),
      (str ''ch'', [\<lparr>SugTag = str ''zh'', SugName = str ''Chinese''\<rparr>, \<lparr>SugTag = str ''de-CH'', SugName = str ''Swiss German''\<rparr>]),
      (str ''cn'', [\<lparr>SugTag = str ''zh'', SugName = str ''Chinese''\<rparr>]),
      (str ''cz'', [\<lparr>SugTag = str ''cs'', SugName = str ''Czech''\<rparr>]),
      (str ''dk'', [\<lparr>SugTag = str ''da'', SugName = str ''Danish''\<rparr>]),
      (str ''gr'', [\<lparr>SugTag = str ''el'', SugName = str ''Greek''\<rparr>]),
      (str ''jp'', [\<lparr>SugTag = str ''ja'', SugName = str ''Japanese''\<rparr>]),
      (str ''kr'', [\<lparr>SugTag = str ''ko'', SugName = str ''Korean''\<rparr>]),
      (str ''ua'', [\<lparr>SugTag = str ''uk'', SugName = str ''Ukrainian''\<rparr>]),
      (str ''us'', [\<lparr>SugTag = str ''en-US'', SugName = str ''American English''\<rparr>])]"

text \<open>The label separator is a space, an em dash and a space.\<close>

definition Label :: "Language \<Rightarrow> gostr" where
  "Label l = Native l @ [32, 8212, 32] @ Tag l"

section \<open>Parsing\<close>

text \<open>Every failure wraps \<open>ErrUnknown\<close>; the constructors are the messages.\<close>

datatype lang_error =
    EmptyTag
  | TooManySubtags gostr
  | InvalidRegion gostr gostr
  | UnknownLang gostr "Suggestion list"
  | AutoNotAllowed gostr

definition Auto :: gostr where "Auto = str ''auto''"

definition alpha2 :: "gostr \<Rightarrow> bool" where
  "alpha2 s = (if blen s \<noteq> 2 then False
     else list_all (\<lambda>r. let lower = r OR 32 in \<not> (lower < 97 \<or> 122 < lower)) s)"

fun find_lang :: "(Language \<Rightarrow> bool) \<Rightarrow> Language list \<Rightarrow> Language option" where
  "find_lang p [] = None"
| "find_lang p (l # ls) = (if p l then Some l else find_lang p ls)"

definition lookup :: "gostr \<Rightarrow> Language option" where
  "lookup base = find_lang (\<lambda>l. Tag l = base) registry"

definition suggestionsFor :: "unicode \<Rightarrow> gostr \<Rightarrow> Suggestion list" where
  "suggestionsFor u inp =
     (case map_of confusions inp of
        Some s \<Rightarrow> s
      | None \<Rightarrow>
          (case find_lang (\<lambda>l. EqualFold u (LName l) inp \<or> EqualFold u (Native l) inp) registry of
             Some l \<Rightarrow> [\<lparr>SugTag = Tag l, SugName = LName l\<rparr>]
           | None \<Rightarrow> []))"

definition unknownError :: "unicode \<Rightarrow> gostr \<Rightarrow> lang_error" where
  "unknownError u inp = UnknownLang inp (suggestionsFor u (ToLower u inp))"

text \<open>\<open>split\<close>: the lowercase base and the uppercase region, empty when absent.\<close>

definition split_tag :: "unicode \<Rightarrow> gostr \<Rightarrow> lang_error + gostr \<times> gostr" where
  "split_tag u inp =
     (if inp = [] then Inl EmptyTag
      else
        let parts = str_split 45 (map (\<lambda>r. if r = 95 then 45 else r) inp) in
        if 2 < length parts then Inl (TooManySubtags inp)
        else
          let base = ToLower u (parts ! 0) in
          if \<not> alpha2 base then Inl (unknownError u inp)
          else if length parts = 2
          then (let region = ToUpper u (parts ! 1) in
                if \<not> alpha2 region then Inl (InvalidRegion inp (parts ! 1)) else Inr (base, region))
          else Inr (base, []))"

definition Parse :: "unicode \<Rightarrow> gostr \<Rightarrow> lang_error + lang" where
  "Parse u inp =
     (let trimmed = trim_space inp in
      if EqualFold u trimmed Auto then Inr LangAuto
      else case split_tag u trimmed of
        Inl e \<Rightarrow> Inl e
      | Inr (base, region) \<Rightarrow>
          (case lookup base of
             None \<Rightarrow> Inl (unknownError u trimmed)
           | Some entry \<Rightarrow>
               if region = [] then Inr (Tag entry) else Inr (Tag entry @ [45] @ region)))"

text \<open>The loop of \<open>ParseList\<close>; \<open>seen\<close> holds exactly the tags of \<open>out\<close>, so \<open>out\<close> serves for both.\<close>

fun parse_items :: "unicode \<Rightarrow> gostr list \<Rightarrow> lang list \<Rightarrow> lang_error + lang list" where
  "parse_items u [] out = Inr out"
| "parse_items u (item # items) out =
     (if trim_space item = [] then parse_items u items out
      else case Parse u item of
        Inl e \<Rightarrow> Inl e
      | Inr tag \<Rightarrow>
          if tag = LangAuto then Inl (AutoNotAllowed item)
          else parse_items u items (if tag \<in> set out then out else out @ [tag]))"

definition ParseList :: "unicode \<Rightarrow> gostr \<Rightarrow> lang_error + lang list" where
  "ParseList u csv = parse_items u (str_split 44 csv) []"

section \<open>Canonical tags\<close>

definition canonical :: "lang \<Rightarrow> bool" where
  "canonical t \<longleftrightarrow> (\<exists>e \<in> set registry. t = Tag e \<or>
     (\<exists>a b. is_upper_ascii a \<and> is_upper_ascii b \<and> t = Tag e @ [45, a, b]))"

lemma find_lang_Some: "find_lang p ls = Some l \<Longrightarrow> l \<in> set ls \<and> p l"
  by (induction ls) (auto split: if_splits)

lemma registry_tags: "list_all (\<lambda>e. lookup (Tag e) = Some e \<and> length (Tag e) = 2 \<and> list_all is_lower_ascii (Tag e)) registry"
  by code_simp

lemma tag_shape:
  assumes "e \<in> set registry"
  obtains x y where "Tag e = [x, y]" "is_lower_ascii x" "is_lower_ascii y" "lookup [x, y] = Some e"
proof -
  have "lookup (Tag e) = Some e \<and> length (Tag e) = 2 \<and> list_all is_lower_ascii (Tag e)"
    using registry_tags assms by (simp add: list_all_iff)
  moreover from this obtain x y where "Tag e = [x, y]" by (auto simp: length_Suc_conv numeral_2_eq_2)
  ultimately show thesis using that by auto
qed

lemma fold_letter:
  assumes "97 \<le> r OR 32" "r OR 32 \<le> (122::int)"
  shows "is_upper_ascii r \<or> is_lower_ascii r"
proof -
  have "0 \<le> r" using assms(1) by (metis or_nonnegative_int_iff order_trans zero_le_numeral)
  moreover have "r \<le> r OR 32" using \<open>0 \<le> r\<close> by (simp add: or_greater_eq)
  ultimately have "r \<in> set [0..122]" using assms(2) by simp
  moreover have "list_all (\<lambda>r. 97 \<le> r OR 32 \<and> r OR 32 \<le> (122::int) \<longrightarrow> is_upper_ascii r \<or> is_lower_ascii r) [0..122]"
    by code_simp
  ultimately show ?thesis using assms by (simp only: list_all_iff)
qed

lemma alpha2_letters:
  assumes "alpha2 s"
  obtains a b where "s = [a, b]" "is_upper_ascii a \<or> is_lower_ascii a" "is_upper_ascii b \<or> is_lower_ascii b"
proof -
  have l: "blen s = 2" and all: "\<forall>r \<in> set s. is_upper_ascii r \<or> is_lower_ascii r"
    using assms fold_letter
    by (simp_all add: alpha2_def list_all_iff Let_def not_less split: if_splits)
  have "blen s = length s"
    by (rule blen_ascii) (use all in \<open>auto simp: is_upper_ascii_def is_lower_ascii_def\<close>)
  with l obtain a b where "s = [a, b]" by (auto simp: length_Suc_conv numeral_2_eq_2)
  with all that show thesis by simp
qed

lemma letter_or:
  "is_lower_ascii r \<or> is_upper_ascii r \<Longrightarrow> 97 \<le> r OR 32 \<and> r OR 32 \<le> (122::int)"
proof -
  assume "is_lower_ascii r \<or> is_upper_ascii r"
  then have "65 \<le> r" "r \<le> 122" "is_lower_ascii r \<or> is_upper_ascii r"
    by (auto simp: is_lower_ascii_def is_upper_ascii_def)
  then have "r \<in> set [65..122]" "is_lower_ascii r \<or> is_upper_ascii r" by (simp_all only: set_upto atLeastAtMost_iff)
  moreover have "list_all (\<lambda>r. is_lower_ascii r \<or> is_upper_ascii r \<longrightarrow> 97 \<le> r OR 32 \<and> r OR 32 \<le> (122::int)) [65..122]"
    by code_simp
  ultimately show ?thesis by (simp only: list_all_iff)
qed

lemma letter_utf8: "is_lower_ascii r \<or> is_upper_ascii r \<Longrightarrow> utf8_len r = 1"
  by (auto simp: utf8_len_def is_lower_ascii_def is_upper_ascii_def)

lemma alpha2_pair:
  "is_lower_ascii a \<or> is_upper_ascii a \<Longrightarrow> is_lower_ascii b \<or> is_upper_ascii b \<Longrightarrow> alpha2 [a, b]"
  using letter_or [of a] letter_or [of b] by (auto simp: alpha2_def Let_def letter_utf8)

lemma letter_plain:
  "is_lower_ascii r \<or> is_upper_ascii r \<Longrightarrow> r \<noteq> 45 \<and> r \<noteq> 95 \<and> \<not> is_space r"
  by (auto simp: is_lower_ascii_def is_upper_ascii_def is_space_def)

text \<open>What a successful parse returns.\<close>

lemma Parse_canonical:
  assumes u: "unicode_ok u" and p: "Parse u s = Inr t" "t \<noteq> LangAuto"
  shows "canonical t"
proof -
  obtain base region e where sp: "split_tag u (trim_space s) = Inr (base, region)" and lk: "lookup base = Some e"
    and t: "t = (if region = [] then Tag e else Tag e @ [45] @ region)"
    using p by (auto simp: Parse_def Let_def split: if_splits sum.splits option.splits)
  have e: "e \<in> set registry" using lk find_lang_Some by (fastforce simp: lookup_def)
  have "region = [] \<or> (\<exists>w. region = ToUpper u w \<and> alpha2 region)"
    using sp by (auto simp: split_tag_def Let_def split: if_splits)
  then show ?thesis
  proof
    assume "region = []"
    then show ?thesis using t e by (auto simp: canonical_def)
  next
    assume "\<exists>w. region = ToUpper u w \<and> alpha2 region"
    then obtain w where w: "region = ToUpper u w" "alpha2 region" by blast
    obtain a b where ab: "region = [a, b]" "is_upper_ascii a \<or> is_lower_ascii a" "is_upper_ascii b \<or> is_lower_ascii b"
      using w(2) by (rule alpha2_letters)
    have "\<not> is_lower_ascii r" if "r \<in> set region" for r
      using that u by (auto simp: w(1) ToUpper_def unicode_ok_def)
    with ab have "is_upper_ascii a" "is_upper_ascii b" by auto
    with t ab e show ?thesis by (auto simp: canonical_def)
  qed
qed

lemma Parse_of_canonical:
  assumes u: "unicode_ok u" and "canonical t"
  shows "Parse u t = Inr t"
proof -
  obtain e where e: "e \<in> set registry" "t = Tag e \<or> (\<exists>a b. is_upper_ascii a \<and> is_upper_ascii b \<and> t = Tag e @ [45, a, b])"
    using assms(2) by (auto simp: canonical_def)
  obtain x y where xy: "Tag e = [x, y]" "is_lower_ascii x" "is_lower_ascii y" "lookup [x, y] = Some e"
    using e(1) by (rule tag_shape)
  note p = letter_plain [of x] letter_plain [of y]
  have low: "u_to_lower u x = x" "u_to_lower u y = y" using u xy by (auto simp: unicode_ok_def)
  have a2: "alpha2 [x, y]" by (rule alpha2_pair) (use xy in auto)
  have auto_len: "\<not> EqualFold u w Auto" if "length w \<noteq> 4" for w
    using EqualFold_length [of u w Auto] that by (auto simp: Auto_def str_def)
  from e(2) show ?thesis
  proof
    assume t: "t = Tag e"
    have tr: "trim_space t = t"
      unfolding trim_space_def by (rule trim_func_id) (use t xy p in auto)
    have "split_tag u t = Inr ([x, y], [])"
      using p xy low a2 by (simp add: t split_tag_def str_split_def Let_def ToLower_def)
    with xy tr auto_len show ?thesis by (simp add: Parse_def Let_def t)
  next
    assume "\<exists>a b. is_upper_ascii a \<and> is_upper_ascii b \<and> t = Tag e @ [45, a, b]"
    then obtain a b where ab: "is_upper_ascii a" "is_upper_ascii b" "t = Tag e @ [45, a, b]" by blast
    note q = letter_plain [of a] letter_plain [of b]
    have up: "u_to_upper u a = a" "u_to_upper u b = b" using u ab by (auto simp: unicode_ok_def)
    have b2: "alpha2 [a, b]" by (rule alpha2_pair) (use ab in auto)
    have tr: "trim_space t = t"
      unfolding trim_space_def by (rule trim_func_id) (use ab xy p q in auto)
    have "split_tag u t = Inr ([x, y], [a, b])"
      using p q xy ab low up a2 b2 by (simp add: split_tag_def str_split_def Let_def ToLower_def ToUpper_def)
    with xy ab tr auto_len show ?thesis by (simp add: Parse_def Let_def)
  qed
qed

lemma canonical_nonempty: "canonical t \<Longrightarrow> t \<noteq> LangAuto"
  by (auto simp: canonical_def LangAuto_def elim: tag_shape)

lemma parse_items_spec:
  assumes "unicode_ok u" "parse_items u items out = Inr ts" "distinct out"
  shows "distinct ts \<and> set ts = set out \<union> {t. \<exists>i \<in> set items. trim_space i \<noteq> [] \<and> Parse u i = Inr t} \<and>
    (\<forall>i \<in> set items. trim_space i \<noteq> [] \<longrightarrow> (\<exists>t. Parse u i = Inr t \<and> canonical t))"
  using assms(2,3)
proof (induction items arbitrary: out)
  case Nil
  then show ?case by simp
next
  case (Cons i items)
  show ?case
  proof (cases "trim_space i = []")
    case True
    then show ?thesis using Cons.IH [of out] Cons.prems by auto
  next
    case False
    then obtain tag where tag: "Parse u i = Inr tag" "tag \<noteq> LangAuto"
      "parse_items u items (if tag \<in> set out then out else out @ [tag]) = Inr ts"
      using Cons.prems(1) by (auto split: sum.splits if_splits)
    have "distinct (if tag \<in> set out then out else out @ [tag])" using Cons.prems(2) by auto
    from Cons.IH [OF tag(3) this] False tag(1) Parse_canonical [OF assms(1) tag(1,2)]
    show ?thesis by auto
  qed
qed

section \<open>Properties\<close>

text \<open>A parsed tag is a registered base, alone or with a two-letter uppercase region, and parsing it
  again gives it back: the stored form of a language is stable.\<close>

lemma parsed_tag_is_stable:
  assumes "unicode_ok u" and "Parse u s = Inr t" and "t \<noteq> LangAuto"
  shows "canonical t \<and> Parse u t = Inr t"
  using Parse_canonical [OF assms] Parse_of_canonical [OF assms(1)] by blast

lemma parsed_tag_is_stable_witness:
  "canonical (str ''de-CH'') \<and> Parse ascii_tables (str ''de-CH'') = Inr (str ''de-CH'')"
proof -
  have "Parse ascii_tables (str '' DE_ch '') = Inr (str ''de-CH'')" "str ''de-CH'' \<noteq> LangAuto" by code_simp+
  from parsed_tag_is_stable [OF ascii_tables_ok this] show ?thesis .
qed

text \<open>An accepted list holds each named language once, all of them canonical and concrete, and nothing
  else; one bad or automatic entry rejects the whole list.\<close>

lemma parsed_list_is_exact:
  assumes "unicode_ok u" and "ParseList u csv = Inr ts"
  shows "distinct ts \<and> (\<forall>t \<in> set ts. canonical t) \<and>
    set ts = {t. \<exists>i \<in> set (str_split 44 csv). trim_space i \<noteq> [] \<and> Parse u i = Inr t} \<and>
    (\<forall>i \<in> set (str_split 44 csv). trim_space i \<noteq> [] \<longrightarrow> (\<exists>t \<in> set ts. Parse u i = Inr t))"
proof -
  have "parse_items u (str_split 44 csv) [] = Inr ts" using assms(2) by (simp add: ParseList_def)
  from parse_items_spec [OF assms(1) this] show ?thesis by (auto; fastforce)
qed

lemma parsed_list_is_exact_witness:
  "set [str ''it'', str ''en-US''] =
     {t. \<exists>i \<in> set (str_split 44 (str ''it,,EN-us, IT'')). trim_space i \<noteq> [] \<and> Parse ascii_tables i = Inr t}"
proof -
  have "ParseList ascii_tables (str ''it,,EN-us, IT'') = Inr [str ''it'', str ''en-US'']" by code_simp
  from parsed_list_is_exact [OF ascii_tables_ok this] show ?thesis by blast
qed

end
