(* ===== verification/Commit.thy ===== *)
theory Commit
  imports Prelude "HOL-Library.Sublist"
begin

text \<open>
  \<^verbatim>\<open>internal/core/realtime/commit.go\<close>: the committer, which turns a stream of transcription partials
  into irrevocable source clauses. Slicing out of range panics in Go and is \<open>None\<close> here, so every
  operation is an option. The Unicode tables behind \<open>unicode.IsPunct\<close>, \<open>strings.ToLower\<close> and
  \<open>strings.EqualFold\<close> are the argument \<open>u\<close>; nothing is assumed of them.
\<close>

section \<open>The transcript\<close>

record Transcript =
  Text :: gostr
  TLang :: gostr
  SourceEnd :: duration
  Stable :: bool
  Final :: bool
  HasSourceEnd :: bool

section \<open>Policy and state\<close>

definition holdTail :: nat where "holdTail = 2"
definition minClause :: nat where "minClause = 3"
definition maxClause :: nat where "maxClause = 8"
definition callHoldTail :: nat where "callHoldTail = 1"
definition callMinClause :: nat where "callMinClause = 2"
definition callMaxClause :: nat where "callMaxClause = 8"

record commitPolicy =
  p_holdTail :: nat
  p_minClause :: nat
  p_maxClause :: nat

definition broadcastCommitPolicy :: commitPolicy where
  "broadcastCommitPolicy = \<lparr>p_holdTail = holdTail, p_minClause = minClause, p_maxClause = maxClause\<rparr>"

definition callCommitPolicy :: commitPolicy where
  "callCommitPolicy = \<lparr>p_holdTail = callHoldTail, p_minClause = callMinClause, p_maxClause = callMaxClause\<rparr>"

text \<open>The runes of \<open>clauseEnds\<close> (the last is the ellipsis) and \<open>clauseTrailers\<close> (quotes and brackets).\<close>

definition clauseEnds :: "rune list" where
  "clauseEnds = str ''.,;:!?'' @ [8230]"

definition clauseTrailers :: "rune list" where
  "clauseTrailers = [34, 41, 93, 39, 8221, 8217, 187]"

record committer =
  c_prev :: "gostr list"
  c_last :: "gostr list"
  c_agreed :: nat
  c_emitted :: nat
  c_policy :: commitPolicy

definition newCommitter :: "bool \<Rightarrow> committer" where
  "newCommitter fastTurn =
     \<lparr>c_prev = [], c_last = [], c_agreed = 0, c_emitted = 0,
      c_policy = (if fastTurn then callCommitPolicy else broadcastCommitPolicy)\<rparr>"

section \<open>Agreement of words\<close>

definition agreementWord :: "unicode \<Rightarrow> gostr \<Rightarrow> gostr" where
  "agreementWord u word = ToLower u (trim_func (u_is_punct u) word)"

definition wordsAgree :: "unicode \<Rightarrow> gostr \<Rightarrow> gostr \<Rightarrow> bool" where
  "wordsAgree u a b =
     (let normalA = agreementWord u a; normalB = agreementWord u b in
      if normalA = [] \<or> normalB = [] then EqualFold u a b else normalA = normalB)"

fun lcp :: "unicode \<Rightarrow> gostr list \<Rightarrow> gostr list \<Rightarrow> nat" where
  "lcp u (a # as) (b # bs) = (if wordsAgree u a b then Suc (lcp u as bs) else 0)"
| "lcp u _ _ = 0"

text \<open>\<open>isClauseEnd\<close> walks the runes from the end, skipping trailers.\<close>

fun clause_end_rev :: "gostr \<Rightarrow> bool" where
  "clause_end_rev [] = False"
| "clause_end_rev (r # rs) =
     (if r \<in> set clauseTrailers then clause_end_rev rs else r \<in> set clauseEnds)"

definition isClauseEnd :: "gostr \<Rightarrow> bool" where
  "isClauseEnd word = clause_end_rev (rev word)"

definition clamp :: "int \<Rightarrow> int \<Rightarrow> int \<Rightarrow> int" where
  "clamp v lo hi = max lo (min v hi)"

section \<open>Operations\<close>

definition anchorWindow :: nat where "anchorWindow = 2"

text \<open>The backward search of \<open>anchor\<close>: \<open>j\<close> runs from \<open>len(words)-len(pending)\<close> down to \<open>kept\<close>.\<close>

fun anchor_search :: "unicode \<Rightarrow> gostr list \<Rightarrow> gostr list \<Rightarrow> nat \<Rightarrow> nat \<Rightarrow> nat option" where
  "anchor_search u pending words kept j =
     (if j < kept then None
      else if lcp u pending (drop j words) = length pending then Some j
      else (case j of 0 \<Rightarrow> None | Suc i \<Rightarrow> anchor_search u pending words kept i))"

declare anchor_search.simps [simp del]

definition anchor :: "unicode \<Rightarrow> gostr list \<Rightarrow> committer \<Rightarrow> nat option" where
  "anchor u words c =
     (if c_emitted c = 0 then Some 0
      else
        let kept = lcp u (c_last c) words in
        if kept \<ge> c_emitted c then Some (c_emitted c)
        else
          (case slice (c_last c) (c_emitted c) (min (c_emitted c + anchorWindow) (length (c_last c))) of
             None \<Rightarrow> None
           | Some pending \<Rightarrow>
               if pending = [] then Some (length words)
               else if length words < length pending then Some (length words)
               else (case anchor_search u pending words kept (length words - length pending) of
                       Some j \<Rightarrow> Some j
                     | None \<Rightarrow> Some (length words))))"

definition observe :: "unicode \<Rightarrow> gostr list \<Rightarrow> bool \<Rightarrow> committer \<Rightarrow> committer option" where
  "observe u words settled c =
     (let c' = c\<lparr>c_agreed := (if settled then length words else lcp u (c_prev c) words)\<rparr> in
      case anchor u words c' of
        None \<Rightarrow> None
      | Some e \<Rightarrow> Some (c'\<lparr>c_emitted := e, c_prev := words, c_last := words\<rparr>))"

definition stableEnd :: "bool \<Rightarrow> committer \<Rightarrow> nat" where
  "stableEnd settled c =
     (if settled then length (c_last c)
      else nat (clamp (int (c_agreed c) - int (p_holdTail (c_policy c))) (int (c_emitted c)) (int (length (c_last c)))))"

text \<open>The loop of \<open>cut\<close>: \<open>start\<close> is the first word not yet in a clause, \<open>i\<close> the word looked at.\<close>

function cut_loop ::
  "commitPolicy \<Rightarrow> gostr list \<Rightarrow> nat \<Rightarrow> nat \<Rightarrow> nat \<Rightarrow> gostr list \<Rightarrow> (gostr list \<times> nat) option" where
  "cut_loop policy ws end start i clauses =
     (if i < end then
        (case index ws i of
           None \<Rightarrow> None
         | Some w \<Rightarrow>
             let n = i - start + 1 in
             if isClauseEnd w \<and> p_minClause policy \<le> n \<or> p_maxClause policy \<le> n
             then (case slice ws start (i + 1) of
                     None \<Rightarrow> None
                   | Some c \<Rightarrow> cut_loop policy ws end (i + 1) (i + 1) (clauses @ [join (str '' '') c]))
             else cut_loop policy ws end start (i + 1) clauses)
      else Some (clauses, start))"
  by auto
termination by (relation "measure (\<lambda>(policy, ws, end, start, i, clauses). end - i)") auto

declare cut_loop.simps [simp del]

definition cut :: "nat \<Rightarrow> bool \<Rightarrow> committer \<Rightarrow> (gostr list \<times> committer) option" where
  "cut end force c =
     (case cut_loop (c_policy c) (c_last c) end (c_emitted c) (c_emitted c) [] of
        None \<Rightarrow> None
      | Some (clauses, start) \<Rightarrow>
          if force \<and> start < end
          then (case slice (c_last c) start end of
                  None \<Rightarrow> None
                | Some rest \<Rightarrow> Some (clauses @ [join (str '' '') rest], c\<lparr>c_emitted := end\<rparr>))
          else Some (clauses, c\<lparr>c_emitted := start\<rparr>))"

definition reset :: "committer \<Rightarrow> committer" where
  "reset c = c\<lparr>c_prev := [], c_last := [], c_agreed := 0, c_emitted := 0\<rparr>"

definition commit :: "unicode \<Rightarrow> Transcript \<Rightarrow> committer \<Rightarrow> (gostr list \<times> committer) option" where
  "commit u t c =
     (case observe u (str_fields (Text t)) (Stable t \<or> Final t) c of
        None \<Rightarrow> None
      | Some c1 \<Rightarrow>
          (case cut (stableEnd (Stable t \<or> Final t) c1) (Final t) c1 of
             None \<Rightarrow> None
           | Some (clauses, c2) \<Rightarrow> Some (clauses, if Final t then reset c2 else c2)))"

definition flushHold :: "committer \<Rightarrow> (gostr list \<times> committer) option" where
  "flushHold c = cut (min (c_agreed c) (length (c_last c))) True c"

text \<open>A stream of updates, the clauses in the order they are emitted.\<close>

fun commit_all :: "unicode \<Rightarrow> Transcript list \<Rightarrow> committer \<Rightarrow> (gostr list \<times> committer) option" where
  "commit_all u [] c = Some ([], c)"
| "commit_all u (t # ts) c =
     (case commit u t c of
        None \<Rightarrow> None
      | Some (out, c') \<Rightarrow>
          (case commit_all u ts c' of None \<Rightarrow> None | Some (out', c'') \<Rightarrow> Some (out @ out', c'')))"

section \<open>Invariant\<close>

definition committer_inv :: "committer \<Rightarrow> bool" where
  "committer_inv c \<longleftrightarrow> c_emitted c \<le> length (c_last c) \<and> 0 < p_maxClause (c_policy c)"

text \<open>A cut: groups of consecutive words, each of \<open>1..maxClause\<close> words, one per clause.\<close>

definition cut_into :: "nat \<Rightarrow> gostr list \<Rightarrow> gostr list \<Rightarrow> bool" where
  "cut_into m ws clauses \<longleftrightarrow>
     (\<exists>groups. clauses = map (join (str '' '')) groups \<and> concat groups = ws \<and>
        (\<forall>g \<in> set groups. 0 < length g \<and> length g \<le> m))"

lemma cut_into_Nil [simp]: "cut_into m [] []"
  by (simp add: cut_into_def)

lemma cut_into_single: "0 < length ws \<Longrightarrow> length ws \<le> m \<Longrightarrow> cut_into m ws [join (str '' '') ws]"
  unfolding cut_into_def by (rule exI [of _ "[ws]"]) simp

lemma cut_into_append:
  assumes "cut_into m ws cs" "cut_into m vs ds"
  shows "cut_into m (ws @ vs) (cs @ ds)"
proof -
  from assms obtain g h where "cs = map (join (str '' '')) g" "concat g = ws" "\<forall>x \<in> set g. 0 < length x \<and> length x \<le> m"
    "ds = map (join (str '' '')) h" "concat h = vs" "\<forall>x \<in> set h. 0 < length x \<and> length x \<le> m"
    unfolding cut_into_def by blast
  then show ?thesis unfolding cut_into_def by (intro exI [of _ "g @ h"]) auto
qed

lemma cut_into_eq: "cut_into m ws cs \<Longrightarrow> ws = ws' \<Longrightarrow> cut_into m ws' cs"
  by simp

subsection \<open>Agreement\<close>

lemma wordsAgree_refl [simp]: "wordsAgree u a a"
  by (simp add: wordsAgree_def)

lemma lcp_le: "lcp u as bs \<le> length as \<and> lcp u as bs \<le> length bs"
  by (induction u as bs rule: lcp.induct) auto

lemma lcp_self [simp]: "lcp u as (as @ bs) = length as"
  by (induction as) (auto simp: lcp.simps)

lemma lcp_agree: "i < lcp u as bs \<Longrightarrow> wordsAgree u (as ! i) (bs ! i)"
proof (induction u as bs arbitrary: i rule: lcp.induct)
  case (1 u a as b bs)
  then show ?case by (cases i) (auto split: if_splits)
qed auto

subsection \<open>Anchoring\<close>

lemma anchor_search_bounds:
  "anchor_search u pending words kept j = Some r \<Longrightarrow>
    kept \<le> r \<and> r \<le> j \<and> lcp u pending (drop r words) = length pending"
proof (induction j)
  case 0
  then show ?case by (subst (asm) anchor_search.simps) (auto split: if_splits)
next
  case (Suc j)
  then show ?case by (subst (asm) anchor_search.simps) (auto split: if_splits)
qed

lemma anchor_ok:
  assumes "committer_inv c"
  shows "\<exists>e. anchor u words c = Some e \<and> e \<le> length words"
proof -
  let ?hi = "min (c_emitted c + anchorWindow) (length (c_last c))"
  have "slice (c_last c) (c_emitted c) ?hi \<noteq> None"
    using assms by (simp add: committer_inv_def anchorWindow_def)
  then obtain p where p: "slice (c_last c) (c_emitted c) ?hi = Some p" by auto
  have kept: "lcp u (c_last c) words \<le> length words" using lcp_le by blast
  show ?thesis
  proof (cases "anchor_search u p words (lcp u (c_last c) words) (length words - length p)")
    case None
    then show ?thesis using kept by (simp add: anchor_def p Let_def)
  next
    case (Some j)
    then have "j \<le> length words" using anchor_search_bounds by fastforce
    with Some show ?thesis using kept by (simp add: anchor_def p Let_def)
  qed
qed

lemma anchor_same:
  "c_emitted c \<le> lcp u (c_last c) words \<Longrightarrow> anchor u words c = Some (c_emitted c)"
  by (simp add: anchor_def Let_def)

lemma observe_ok:
  assumes "committer_inv c"
  shows "\<exists>e. anchor u words c = Some e \<and> e \<le> length words \<and>
    observe u words s c = Some (c\<lparr>c_agreed := (if s then length words else lcp u (c_prev c) words),
      c_emitted := e, c_prev := words, c_last := words\<rparr>)"
proof -
  have "anchor u words (c\<lparr>c_agreed := a\<rparr>) = anchor u words c" for a by (simp add: anchor_def Let_def)
  with anchor_ok [OF assms] show ?thesis by (fastforce simp: observe_def)
qed

subsection \<open>Cutting\<close>

lemma cut_loop_ok:
  assumes "start \<le> i" "i \<le> max start end" "end \<le> length ws" "0 < p_maxClause p"
    and "i - start < p_maxClause p"
  shows "\<exists>cs s. cut_loop p ws end start i clauses = Some (clauses @ cs, s) \<and>
    start \<le> s \<and> s \<le> max start end \<and> end - s < p_maxClause p \<and>
    cut_into (p_maxClause p) (take (s - start) (drop start ws)) cs"
  using assms
proof (induction p ws "end" start i clauses rule: cut_loop.induct)
  case (1 p ws e start i clauses)
  show ?case
  proof (cases "i < e")
    case False
    with "1.prems" have "e - start < p_maxClause p" by linarith
    then show ?thesis using False "1.prems" by (subst cut_loop.simps) auto
  next
    case True
    have w: "index ws i = Some (ws ! i)" using True "1.prems" by simp
    let ?g = "take (Suc i - start) (drop start ws)"
    have sl: "slice ws start (i + 1) = Some ?g" using True "1.prems" by simp
    have lg: "length ?g = Suc i - start" using True "1.prems" by simp
    let ?cond = "isClauseEnd (ws ! i) \<and> p_minClause p \<le> i - start + 1 \<or> p_maxClause p \<le> i - start + 1"
    show ?thesis
    proof (cases ?cond)
      case cond: True
      have "\<exists>cs s. cut_loop p ws e (i + 1) (i + 1) (clauses @ [join (str '' '') ?g]) =
          Some ((clauses @ [join (str '' '') ?g]) @ cs, s) \<and> i + 1 \<le> s \<and> s \<le> max (i + 1) e \<and>
          e - s < p_maxClause p \<and> cut_into (p_maxClause p) (take (s - (i + 1)) (drop (i + 1) ws)) cs"
        by (rule "1.IH"(1) [OF True w refl cond sl]) (use True "1.prems" in auto)
      then obtain cs s where r: "cut_loop p ws e (i + 1) (i + 1) (clauses @ [join (str '' '') ?g]) =
          Some ((clauses @ [join (str '' '') ?g]) @ cs, s)" "i + 1 \<le> s" "s \<le> max (i + 1) e"
        "e - s < p_maxClause p" "cut_into (p_maxClause p) (take (s - (i + 1)) (drop (i + 1) ws)) cs" by blast
      have "cut_into (p_maxClause p) ?g [join (str '' '') ?g]"
        by (rule cut_into_single) (use lg "1.prems" in auto)
      from cut_into_append [OF this r(5)]
      have "cut_into (p_maxClause p) (take (s - start) (drop start ws)) (join (str '' '') ?g # cs)"
        using take_drop_split [of start "i + 1" s ws] r(2) "1.prems"(1) by simp
      moreover have "cut_loop p ws e start i clauses = Some (clauses @ (join (str '' '') ?g # cs), s)"
        using r(1) by (subst cut_loop.simps) (simp only: True w sl cond Let_def option.case if_True append_assoc append.simps)
      ultimately show ?thesis using r(2,3,4) True "1.prems"(1) by (intro exI [of _ "join (str '' '') ?g # cs"] exI [of _ s]) auto
    next
      case cond: False
      have "\<exists>cs s. cut_loop p ws e start (i + 1) clauses = Some (clauses @ cs, s) \<and>
          start \<le> s \<and> s \<le> max start e \<and> e - s < p_maxClause p \<and>
          cut_into (p_maxClause p) (take (s - start) (drop start ws)) cs"
        by (rule "1.IH"(2) [OF True w refl cond]) (use True cond "1.prems" in auto)
      then show ?thesis
        by (subst cut_loop.simps) (simp only: True w cond Let_def option.case if_True if_False)
    qed
  qed
qed

lemma cut_ok:
  assumes inv: "committer_inv c" and "end": "end \<le> length (c_last c)"
  shows "\<exists>cs e. cut end force c = Some (cs, c\<lparr>c_emitted := e\<rparr>) \<and> c_emitted c \<le> e \<and> e \<le> max (c_emitted c) end \<and>
    (force \<longrightarrow> e = max (c_emitted c) end) \<and> end - e < p_maxClause (c_policy c) \<and>
    cut_into (p_maxClause (c_policy c)) (take (e - c_emitted c) (drop (c_emitted c) (c_last c))) cs"
proof -
  let ?m = "p_maxClause (c_policy c)" and ?w = "c_last c" and ?s = "c_emitted c"
  have m: "0 < ?m" using inv by (simp add: committer_inv_def)
  from cut_loop_ok [of ?s ?s "end" ?w "c_policy c" "[]"] "end" m
  obtain cs s where l: "cut_loop (c_policy c) ?w end ?s ?s [] = Some (cs, s)" "?s \<le> s" "s \<le> max ?s end"
    "end - s < ?m" "cut_into ?m (take (s - ?s) (drop ?s ?w)) cs"
    by auto
  show ?thesis
  proof (cases "force \<and> s < end")
    case True
    let ?g = "take (end - s) (drop s ?w)"
    have sl: "slice ?w s end = Some ?g" using True "end" by simp
    have "cut_into ?m ?g [join (str '' '') ?g]"
      by (rule cut_into_single) (use l(4) True "end" in auto)
    from cut_into_append [OF l(5) this]
    have "cut_into ?m (take (end - ?s) (drop ?s ?w)) (cs @ [join (str '' '') ?g])"
      using take_drop_split [of ?s s "end" ?w] l(2) True by simp
    moreover have "cut end force c = Some (cs @ [join (str '' '') ?g], c\<lparr>c_emitted := end\<rparr>)"
      using True l(1) sl by (simp add: cut_def)
    ultimately show ?thesis using l(2) True m by (intro exI [of _ "cs @ [join (str '' '') ?g]"] exI [of _ "end"]) auto
  next
    case False
    have "cut end force c = Some (cs, c\<lparr>c_emitted := s\<rparr>)" using False l(1) by (auto simp: cut_def)
    with l False show ?thesis by (intro exI [of _ cs] exI [of _ s]) auto
  qed
qed

text \<open>What one update does to a well-formed committer.\<close>

lemma stableEnd_le: "c_emitted c \<le> length (c_last c) \<Longrightarrow> stableEnd s c \<le> length (c_last c)"
  by (auto simp: stableEnd_def clamp_def)

lemma commit_ok:
  assumes inv: "committer_inv c"
  shows "\<exists>a e cs. anchor u (str_fields (Text t)) c = Some a \<and> a \<le> e \<and> e \<le> length (str_fields (Text t)) \<and>
    commit u t c = Some (cs, if Final t then reset c else
       c\<lparr>c_agreed := (if Stable t then length (str_fields (Text t)) else lcp u (c_prev c) (str_fields (Text t))),
         c_emitted := e, c_prev := str_fields (Text t), c_last := str_fields (Text t)\<rparr>) \<and>
    (Final t \<longrightarrow> e = length (str_fields (Text t))) \<and>
    (\<not> Stable t \<and> \<not> Final t \<longrightarrow>
       e \<le> max a (lcp u (c_prev c) (str_fields (Text t)) - p_holdTail (c_policy c))) \<and>
    cut_into (p_maxClause (c_policy c)) (take (e - a) (drop a (str_fields (Text t)))) cs"
proof -
  let ?w = "str_fields (Text t)" and ?s = "Stable t \<or> Final t"
  obtain a where a: "anchor u ?w c = Some a" "a \<le> length ?w"
    and ob: "observe u ?w ?s c = Some (c\<lparr>c_agreed := (if ?s then length ?w else lcp u (c_prev c) ?w),
      c_emitted := a, c_prev := ?w, c_last := ?w\<rparr>)"
    using observe_ok [OF inv, of u ?w ?s] by blast
  let ?c1 = "c\<lparr>c_agreed := (if ?s then length ?w else lcp u (c_prev c) ?w),
      c_emitted := a, c_prev := ?w, c_last := ?w\<rparr>"
  have inv1: "committer_inv ?c1" using inv a by (simp add: committer_inv_def)
  have le: "stableEnd ?s ?c1 \<le> length (c_last ?c1)" by (rule stableEnd_le) (use a in simp)
  from cut_ok [OF inv1 le, of "Final t"] obtain cs e where
    r: "cut (stableEnd ?s ?c1) (Final t) ?c1 = Some (cs, ?c1\<lparr>c_emitted := e\<rparr>)" "a \<le> e"
      "e \<le> max a (stableEnd ?s ?c1)" "Final t \<longrightarrow> e = max a (stableEnd ?s ?c1)"
      "cut_into (p_maxClause (c_policy c)) (take (e - a) (drop a ?w)) cs"
    by auto
  have fin: "Final t \<longrightarrow> e = length ?w" using r(4) a(2) by (auto simp: stableEnd_def)
  have bound: "e \<le> length ?w" using r(3) le a(2) by auto
  have hold: "\<not> ?s \<longrightarrow> e \<le> max a (lcp u (c_prev c) ?w - p_holdTail (c_policy c))"
    using r(3) by (auto simp: stableEnd_def clamp_def)
  have "commit u t c = Some (cs, if Final t then reset (?c1\<lparr>c_emitted := e\<rparr>) else ?c1\<lparr>c_emitted := e\<rparr>)"
    by (simp only: commit_def ob r(1) option.case prod.case)
  then have "commit u t c = Some (cs, if Final t then reset c else
       c\<lparr>c_agreed := (if Stable t then length ?w else lcp u (c_prev c) ?w), c_emitted := e, c_prev := ?w, c_last := ?w\<rparr>)"
    by (auto simp: reset_def)
  with a r(2,5) fin bound hold show ?thesis by blast
qed

lemma commit_inv:
  assumes "committer_inv c"
  shows "\<exists>cs c'. commit u t c = Some (cs, c') \<and> committer_inv c' \<and> c_policy c' = c_policy c"
  using commit_ok [OF assms, of u t] assms by (auto simp: committer_inv_def reset_def)

lemma new_inv: "committer_inv (newCommitter f)"
  by (simp add: committer_inv_def newCommitter_def callCommitPolicy_def broadcastCommitPolicy_def
      maxClause_def callMaxClause_def)

subsection \<open>Streams\<close>

lemma commit_all_ok:
  assumes "committer_inv c"
  shows "\<exists>out ws c'. commit_all u ts c = Some (out, c') \<and> committer_inv c' \<and> c_policy c' = c_policy c \<and>
    cut_into (p_maxClause (c_policy c)) ws out"
  using assms
proof (induction ts arbitrary: c)
  case Nil
  then show ?case by simp (blast intro: cut_into_Nil)
next
  case (Cons t ts)
  obtain cs vs c1 where 1: "commit u t c = Some (cs, c1)" "committer_inv c1" "c_policy c1 = c_policy c"
    "cut_into (p_maxClause (c_policy c)) vs cs"
    using commit_ok [OF Cons.prems, of u t] commit_inv [OF Cons.prems, of u t] by (metis option.inject prod.inject)
  from Cons.IH [OF 1(2)] obtain out ws c' where
    "commit_all u ts c1 = Some (out, c')" "committer_inv c'" "c_policy c' = c_policy c"
    "cut_into (p_maxClause (c_policy c)) ws out" using 1(3) by auto
  then show ?case using 1 cut_into_append [OF 1(4)] by fastforce
qed

lemma max_clause_new [simp]: "p_maxClause (c_policy (newCommitter f)) = maxClause"
  by (simp add: newCommitter_def callCommitPolicy_def broadcastCommitPolicy_def maxClause_def callMaxClause_def)

lemma new_committer_simps [simp]: "c_emitted (newCommitter f) = 0" "c_last (newCommitter f) = []"
  "reset (newCommitter f) = newCommitter f"
  by (simp_all add: newCommitter_def reset_def)

text \<open>A stream of partials each of which extends the one before it.\<close>

fun growing :: "gostr list \<Rightarrow> Transcript list \<Rightarrow> bool" where
  "growing ws [] \<longleftrightarrow> True"
| "growing ws (t # ts) \<longleftrightarrow> prefix ws (str_fields (Text t)) \<and> growing (str_fields (Text t)) ts"

lemma growing_final: "growing ws (ts @ [t]) \<Longrightarrow> prefix ws (str_fields (Text t))"
  by (induction ts arbitrary: ws) (auto intro: prefix_order.trans)

lemma growing_emits_rest:
  assumes "committer_inv c" "growing (c_last c) (ts @ [fin])" "\<forall>t \<in> set ts. \<not> Final t" "Final fin"
  shows "\<exists>out. commit_all u (ts @ [fin]) c = Some (out, reset c) \<and>
    cut_into (p_maxClause (c_policy c)) (drop (c_emitted c) (str_fields (Text fin))) out"
  using assms
proof (induction ts arbitrary: c)
  case Nil
  let ?w = "str_fields (Text fin)"
  obtain rest where w: "?w = c_last c @ rest" using Nil.prems(2) by (auto simp: prefix_def)
  have "anchor u ?w c = Some (c_emitted c)"
    by (rule anchor_same) (use Nil.prems(1) w in \<open>simp add: committer_inv_def\<close>)
  with commit_ok [OF Nil.prems(1), of u fin] Nil.prems(4) show ?case by auto
next
  case (Cons t ts)
  let ?w = "str_fields (Text t)" and ?f = "str_fields (Text fin)"
  obtain rest where w: "?w = c_last c @ rest" using Cons.prems(2) by (auto simp: prefix_def)
  have a: "anchor u ?w c = Some (c_emitted c)"
    by (rule anchor_same) (use Cons.prems(1) w in \<open>simp add: committer_inv_def\<close>)
  have nf: "\<not> Final t" using Cons.prems(3) by simp
  obtain e cs ag where 1: "c_emitted c \<le> e" "e \<le> length ?w"
    "commit u t c = Some (cs, c\<lparr>c_agreed := ag, c_emitted := e, c_prev := ?w, c_last := ?w\<rparr>)"
    "cut_into (p_maxClause (c_policy c)) (take (e - c_emitted c) (drop (c_emitted c) ?w)) cs"
    using commit_ok [OF Cons.prems(1), of u t] a nf by auto
  let ?c1 = "c\<lparr>c_agreed := ag, c_emitted := e, c_prev := ?w, c_last := ?w\<rparr>"
  have "committer_inv ?c1" using Cons.prems(1) 1(2) by (simp add: committer_inv_def)
  moreover have g: "growing (c_last ?c1) (ts @ [fin])" using Cons.prems(2) by simp
  ultimately obtain out where 2: "commit_all u (ts @ [fin]) ?c1 = Some (out, reset ?c1)"
    "cut_into (p_maxClause (c_policy c)) (drop e ?f) out"
    using Cons.IH [of ?c1] Cons.prems(3,4) by auto
  obtain more where f: "?f = ?w @ more" using growing_final [OF g] by (auto simp: prefix_def)
  have "take (e - c_emitted c) (drop (c_emitted c) ?w) @ drop e ?f = drop (c_emitted c) ?f"
  proof -
    have "take (e - c_emitted c) (drop (c_emitted c) ?w) = take (e - c_emitted c) (drop (c_emitted c) ?f)"
      using f 1(1,2) by simp
    moreover have "drop e ?f = drop (e - c_emitted c) (drop (c_emitted c) ?f)" using 1(1) by simp
    ultimately show ?thesis by (metis append_take_drop_id)
  qed
  with cut_into_append [OF 1(4) 2(2)]
  have "cut_into (p_maxClause (c_policy c)) (drop (c_emitted c) ?f) (cs @ out)" by simp
  moreover have "reset ?c1 = reset c" by (simp add: reset_def)
  ultimately show ?case using 1(3) 2(1) by auto
qed

section \<open>Properties\<close>

text \<open>No stream of partials, whatever their text and flags, drives the committer out of range: every
  update and the end-of-stream flush return, and each clause is a run of at most \<open>maxClause\<close> whole words.\<close>

lemma committer_never_panics:
  "\<exists>out ws c rest c'. commit_all u ts (newCommitter f) = Some (out, c) \<and> cut_into maxClause ws out \<and>
     flushHold c = Some (rest, c') \<and> c_emitted c' \<le> length (c_last c') \<and>
     cut_into maxClause (take (c_emitted c' - c_emitted c) (drop (c_emitted c) (c_last c))) rest"
proof -
  obtain out ws c where 1: "commit_all u ts (newCommitter f) = Some (out, c)" "committer_inv c"
    "p_maxClause (c_policy c) = maxClause" "cut_into maxClause ws out"
    using commit_all_ok [OF new_inv, of u ts f] by auto
  from cut_ok [OF 1(2), of "min (c_agreed c) (length (c_last c))" True]
  obtain rest e where 2: "flushHold c = Some (rest, c\<lparr>c_emitted := e\<rparr>)"
    "e \<le> max (c_emitted c) (min (c_agreed c) (length (c_last c)))"
    "cut_into maxClause (take (e - c_emitted c) (drop (c_emitted c) (c_last c))) rest"
    using 1(3) by (auto simp: flushHold_def)
  have "e \<le> length (c_last c)" using 2(2) 1(2) by (auto simp: committer_inv_def)
  with 1 2(1,3) show ?thesis by fastforce
qed

text \<open>C2: when every partial extends the one before it, the clauses of a segment are exactly the words of
  its final text, each once and in order, and the committer is as new.\<close>

theorem growing_stream_emits_each_word_once:
  assumes "growing [] (ts @ [fin])" and "\<forall>t \<in> set ts. \<not> Final t" and "Final fin"
  shows "\<exists>out. commit_all u (ts @ [fin]) (newCommitter f) = Some (out, newCommitter f) \<and>
    cut_into maxClause (str_fields (Text fin)) out"
proof -
  have "growing (c_last (newCommitter f)) (ts @ [fin])" using assms(1) by simp
  from growing_emits_rest [OF new_inv this assms(2,3), of u] show ?thesis by simp
qed

definition partial_text :: "string \<Rightarrow> bool \<Rightarrow> Transcript" where
  "partial_text s fin = \<lparr>Text = str s, TLang = [], SourceEnd = 0, Stable = False, Final = fin, HasSourceEnd = False\<rparr>"

theorem growing_stream_emits_each_word_once_witness:
  "\<exists>out. commit_all ascii_tables [partial_text ''we go, now'' False, partial_text ''we go, now then'' True] (newCommitter True)
     = Some (out, newCommitter True) \<and> cut_into maxClause (str_fields (str ''we go, now then'')) out"
proof -
  have "growing [] ([partial_text ''we go, now'' False] @ [partial_text ''we go, now then'' True])"
    by code_simp
  from growing_stream_emits_each_word_once [OF this, of ascii_tables True] show ?thesis
    by (simp add: partial_text_def)
qed

text \<open>An unstable partial commits a new word only if that word and the \<open>holdTail\<close> words after it agree
  with the previous partial.\<close>

lemma commit_needs_agreement:
  assumes inv: "committer_inv c" and cm: "commit u t c = Some (cs, c')" and "\<not> Stable t" and "\<not> Final t"
    and a: "anchor u (str_fields (Text t)) c = Some a" and i: "a \<le> i" "i < c_emitted c'"
    and k: "k \<le> i + p_holdTail (c_policy c)"
  shows "k < length (c_prev c) \<and> k < length (str_fields (Text t)) \<and>
    wordsAgree u (c_prev c ! k) (str_fields (Text t) ! k)"
proof -
  from commit_ok [OF inv, of u t] cm assms(3,4) a
  have "c_emitted c' \<le> max a (lcp u (c_prev c) (str_fields (Text t)) - p_holdTail (c_policy c))" by auto
  with i k have "k < lcp u (c_prev c) (str_fields (Text t))" by auto
  then show ?thesis using lcp_agree lcp_le [of u "c_prev c" "str_fields (Text t)"] by fastforce
qed

lemma commit_needs_agreement_witness:
  "let c = (newCommitter True)\<lparr>c_prev := [str ''go'', str ''on,'', str ''then''], c_last := [str ''go'', str ''on,'', str ''then'']\<rparr> in
   c_emitted (snd (the (commit ascii_tables (partial_text ''go on, then'' False) c))) = 2 \<and>
   wordsAgree ascii_tables (c_prev c ! 2) (str_fields (str ''go on, then'') ! 2)"
proof -
  let ?c = "(newCommitter True)\<lparr>c_prev := [str ''go'', str ''on,'', str ''then''], c_last := [str ''go'', str ''on,'', str ''then'']\<rparr>"
  let ?t = "partial_text ''go on, then'' False"
  have inv: "committer_inv ?c" by code_simp
  have "commit ascii_tables ?t ?c \<noteq> None" using commit_inv [OF inv, of ascii_tables ?t] by auto
  then have cm: "commit ascii_tables ?t ?c =
      Some (fst (the (commit ascii_tables ?t ?c)), snd (the (commit ascii_tables ?t ?c)))" by auto
  have e: "c_emitted (snd (the (commit ascii_tables ?t ?c))) = 2" by code_simp
  have a: "anchor ascii_tables (str_fields (Text ?t)) ?c = Some 0" by code_simp
  have "wordsAgree ascii_tables (c_prev ?c ! 2) (str_fields (Text ?t) ! 2)"
    using commit_needs_agreement [OF inv cm _ _ a, of 1 2] e
    by (simp add: partial_text_def newCommitter_def callCommitPolicy_def callHoldTail_def)
  with e show ?thesis by (simp add: partial_text_def Let_def)
qed

end
