(* ===== verification/Lane.thy ===== *)
theory Lane
  imports Commit Lang Track VoiceQueue
begin

text \<open>
  \<^verbatim>\<open>internal/core/realtime/lane.go\<close>, \<^verbatim>\<open>speak.go\<close> and the audio stream of \<^verbatim>\<open>ports.go\<close>: transcript updates
  become spanned segments, one queue per target language; each target translates and captions in
  order, then synthesizes each take and lays it on its voice sink. The transcriber, the translator
  and the synthesizer are arguments. Cancellation is observed by \<open>select\<close> at a send or receive: a
  budget says how many sends succeed first (\<open>None\<close>: no cancellation).
\<close>

section \<open>Data\<close>

definition targetQueue :: nat where "targetQueue = 4"

definition maxVoiceTakeSamples :: int where "maxVoiceTakeSamples = (64 * 2 ^ 20) div 2"

record Segment =
  SegText :: gostr
  SegLang :: lang
  SpanFrom :: duration
  SpanTo :: duration

record TranslatedSegment =
  TSlug :: gostr
  TText :: gostr
  ScheduleAt :: duration
  TDuration :: duration

datatype synth_error =
    SpeakFailed gostr
  | StreamFailed gostr
  | NoTerminalResult
  | ResultChannelClosed
  | TakeTooLong int
  | NoPcm

datatype lane_error =
    SourceTimeBackward duration duration
  | NotDetected lang
  | ModelUnavailable lang lang
  | LaneCanceled
  | TranscriptionFailed gostr
  | TranslateFailed lang lang gostr
  | SynthesizeFailed lang synth_error

record Stream =
  Slug :: gostr
  Source :: lang
  Delay :: duration
  FastTurn :: bool

text \<open>The lane's configuration: the targets with a caption sink, and the ports.\<close>

record lane =
  l_stream :: Stream
  l_targets :: "lang list"
  l_supports :: "lang \<Rightarrow> lang \<Rightarrow> bool"
  l_translate :: "Segment \<Rightarrow> lang \<Rightarrow> gostr + gostr"

section \<open>The transcript cursor\<close>

record transcriptCursor =
  tc_lang :: lang
  tc_segStart :: duration
  tc_lastSourceEnd :: duration
  tc_hasSourceEnd :: bool

definition advance :: "Transcript \<Rightarrow> duration \<Rightarrow> transcriptCursor \<Rightarrow> (lane_error + duration) \<times> transcriptCursor" where
  "advance update fallback c =
     (let c1 = (if TLang update \<noteq> [] then c\<lparr>tc_lang := TLang update\<rparr> else c) in
      if \<not> HasSourceEnd update then (Inr fallback, c1)
      else if SourceEnd update < 0 \<or> tc_hasSourceEnd c1 \<and> SourceEnd update < tc_lastSourceEnd c1
      then (Inl (SourceTimeBackward (tc_lastSourceEnd c1) (SourceEnd update)), c1)
      else (Inr (SourceEnd update),
            c1\<lparr>tc_lastSourceEnd := SourceEnd update, tc_hasSourceEnd := True\<rparr>))"

section \<open>Validation, fan-out and emission\<close>

fun validate_loop :: "unicode \<Rightarrow> lane \<Rightarrow> lang \<Rightarrow> lang list \<Rightarrow> lane_error option" where
  "validate_loop u l source [] = None"
| "validate_loop u l source (target # ts) =
     (if source \<noteq> LangAuto \<and> SameLang u source target then validate_loop u l source ts
      else if source = LangAuto then Some (NotDetected target)
      else if \<not> l_supports l source target then Some (ModelUnavailable source target)
      else validate_loop u l source ts)"

definition validateTranslationTargets :: "unicode \<Rightarrow> lane \<Rightarrow> lang \<Rightarrow> lane_error option" where
  "validateTranslationTargets u l source = validate_loop u l source (sort (l_targets l))"

type_synonym queues = "lang \<Rightarrow> Segment list"
type_synonym budget = "nat option"

definition spend :: "budget \<Rightarrow> budget option" where
  "spend b = (case b of None \<Rightarrow> Some None | Some 0 \<Rightarrow> None | Some (Suc n) \<Rightarrow> Some (Some n))"

text \<open>\<open>fanout\<close>: \<open>False\<close> when the context is done before every worker has the segment.\<close>

fun fanout :: "lang list \<Rightarrow> Segment \<Rightarrow> queues \<Rightarrow> budget \<Rightarrow> bool \<times> queues \<times> budget" where
  "fanout [] seg q b = (True, q, b)"
| "fanout (w # ws) seg q b =
     (case spend b of
        None \<Rightarrow> (False, q, b)
      | Some b' \<Rightarrow> fanout ws seg (q(w := q w @ [seg])) b')"

definition clause_end_at :: "duration \<Rightarrow> duration \<Rightarrow> int \<Rightarrow> int \<Rightarrow> duration" where
  "clause_end_at base span acc tot = base + go_div (wrap64 (span * acc)) tot"

text \<open>The loop of \<open>emit\<close>; \<open>start\<close> is \<open>*segStart\<close>.\<close>

fun emit_loop ::
  "lane \<Rightarrow> lang \<Rightarrow> duration \<Rightarrow> duration \<Rightarrow> int \<Rightarrow> int \<Rightarrow> gostr list \<Rightarrow> duration \<Rightarrow> queues \<Rightarrow> budget
     \<Rightarrow> lane_error option \<times> duration \<times> queues \<times> budget" where
  "emit_loop l lg base span tot acc [] start q b = (None, start, q, b)"
| "emit_loop l lg base span tot acc (clause # cs) start q b =
     (let acc' = acc + int (blen clause); e = clause_end_at base span acc' tot;
          seg = \<lparr>SegText = clause, SegLang = lg, SpanFrom = start, SpanTo = e\<rparr>
      in case fanout (l_targets l) seg q b of
           (ok, q', b') \<Rightarrow>
             if \<not> ok then (Some LaneCanceled, e, q', b')
             else emit_loop l lg base span tot acc' cs e q' b')"

definition emit ::
  "lane \<Rightarrow> gostr list \<Rightarrow> lang \<Rightarrow> duration \<Rightarrow> duration \<Rightarrow> queues \<Rightarrow> budget
     \<Rightarrow> lane_error option \<times> duration \<times> queues \<times> budget" where
  "emit l clauses lg now start q b =
     (let tot = int (sum_list (map blen clauses)) in
      if tot = 0 then (None, start, q, b)
      else emit_loop l lg start (max (now - start) 0) tot 0 clauses start q b)"

definition emitValidated ::
  "unicode \<Rightarrow> lane \<Rightarrow> gostr list \<Rightarrow> lang \<Rightarrow> duration \<Rightarrow> duration \<Rightarrow> queues \<Rightarrow> budget
     \<Rightarrow> lane_error option \<times> duration \<times> queues \<times> budget" where
  "emitValidated u l clauses lg now start q b =
     (case (if clauses \<noteq> [] then validateTranslationTargets u l lg else None) of
        Some e \<Rightarrow> (Some e, start, q, b)
      | None \<Rightarrow> emit l clauses lg now start q b)"

section \<open>Consuming the transcript\<close>

record consume_state =
  cs_commit :: committer
  cs_cursor :: transcriptCursor
  cs_queues :: queues
  cs_budget :: budget

definition new_consume :: "lane \<Rightarrow> budget \<Rightarrow> consume_state" where
  "new_consume l b =
     \<lparr>cs_commit = newCommitter (FastTurn (l_stream l)),
      cs_cursor = \<lparr>tc_lang = Source (l_stream l), tc_segStart = 0, tc_lastSourceEnd = 0, tc_hasSourceEnd = False\<rparr>,
      cs_queues = (\<lambda>_. []), cs_budget = b\<rparr>"

text \<open>One update with the clock read for it. The outer option is a panic.\<close>

definition consume_update ::
  "unicode \<Rightarrow> lane \<Rightarrow> Transcript \<times> duration \<Rightarrow> consume_state \<Rightarrow> (lane_error option \<times> consume_state) option" where
  "consume_update u l x st =
     (case x of (update, clock) \<Rightarrow>
       case advance update clock (cs_cursor st) of
         (Inl e, cur) \<Rightarrow> Some (Some e, st\<lparr>cs_cursor := cur\<rparr>)
       | (Inr now, cur) \<Rightarrow>
           (case commit u update (cs_commit st) of
              None \<Rightarrow> None
            | Some (clauses, cm) \<Rightarrow>
                (case emitValidated u l clauses (tc_lang cur) now (tc_segStart cur) (cs_queues st) (cs_budget st) of
                   (err, start, q, b) \<Rightarrow>
                     Some (err, st\<lparr>cs_commit := cm,
                       cs_cursor := cur\<lparr>tc_segStart := (if err = None \<and> Final update then now else start)\<rparr>,
                       cs_queues := q, cs_budget := b\<rparr>))))"

fun consume_updates ::
  "unicode \<Rightarrow> lane \<Rightarrow> (Transcript \<times> duration) list \<Rightarrow> consume_state \<Rightarrow> (lane_error option \<times> consume_state) option" where
  "consume_updates u l [] st = Some (None, st)"
| "consume_updates u l (x # xs) st =
     (case consume_update u l x st of
        None \<Rightarrow> None
      | Some (Some e, st') \<Rightarrow> Some (Some e, st')
      | Some (None, st') \<Rightarrow> consume_updates u l xs st')"

text \<open>How the event stream ends: the channel closes with a terminal error or cleanly at a clock
  reading, or the context is done first.\<close>

datatype stream_end = StreamClosed "gostr option" duration | StreamCanceled

definition consume ::
  "unicode \<Rightarrow> lane \<Rightarrow> (Transcript \<times> duration) list \<Rightarrow> stream_end \<Rightarrow> budget \<Rightarrow> (lane_error option \<times> consume_state) option" where
  "consume u l xs fin b =
     (case consume_updates u l xs (new_consume l b) of
        None \<Rightarrow> None
      | Some (Some e, st) \<Rightarrow> Some (Some e, st)
      | Some (None, st) \<Rightarrow>
          (case fin of
             StreamCanceled \<Rightarrow> Some (Some LaneCanceled, st)
           | StreamClosed (Some e) clock \<Rightarrow> Some (Some (TranscriptionFailed e), st)
           | StreamClosed None clock \<Rightarrow>
               (case flushHold (cs_commit st) of
                  None \<Rightarrow> None
                | Some (clauses, cm) \<Rightarrow>
                    (case emitValidated u l clauses (tc_lang (cs_cursor st)) clock (tc_segStart (cs_cursor st))
                            (cs_queues st) (cs_budget st) of
                       (err, start, q, b') \<Rightarrow>
                         Some (err, st\<lparr>cs_commit := cm, cs_cursor := (cs_cursor st)\<lparr>tc_segStart := start\<rparr>,
                           cs_queues := q, cs_budget := b'\<rparr>)))))"

section \<open>One target: caption, then voice\<close>

definition translate :: "unicode \<Rightarrow> lane \<Rightarrow> Segment \<Rightarrow> lang \<Rightarrow> gostr + gostr" where
  "translate u l seg target =
     (if SegLang seg \<noteq> LangAuto \<and> SameLang u (SegLang seg) target then Inr (SegText seg)
      else l_translate l seg target)"

definition caption :: "unicode \<Rightarrow> lane \<Rightarrow> lang \<Rightarrow> Segment \<Rightarrow> lane_error + TranslatedSegment" where
  "caption u l target seg =
     (case translate u l seg target of
        Inl e \<Rightarrow> Inl (TranslateFailed (SegLang seg) target e)
      | Inr text \<Rightarrow> Inr \<lparr>TSlug = Slug (l_stream l), TText = text,
          ScheduleAt = SpanFrom seg + Delay (l_stream l), TDuration = SpanTo seg - SpanFrom seg\<rparr>)"

fun captionOnly ::
  "unicode \<Rightarrow> lane \<Rightarrow> lang \<Rightarrow> Segment list \<Rightarrow> TranslatedSegment list \<Rightarrow> lane_error option \<times> TranslatedSegment list" where
  "captionOnly u l target [] sink = (None, sink)"
| "captionOnly u l target (seg # segs) sink =
     (case caption u l target seg of
        Inl e \<Rightarrow> (Some e, sink)
      | Inr out \<Rightarrow> captionOnly u l target segs (sink @ [out]))"

text \<open>\<open>AudioStream\<close>: the chunks until the channel closes, and the result channel (absent, closed
  without a value, or one value).\<close>

datatype stream_result = NoResultChannel | ResultClosed | ResultSent "gostr option"

record AudioStream =
  as_chunks :: "sample list list"
  as_result :: stream_result

definition awaitResult :: "AudioStream \<Rightarrow> synth_error option" where
  "awaitResult s =
     (case as_result s of
        NoResultChannel \<Rightarrow> Some NoTerminalResult
      | ResultClosed \<Rightarrow> Some ResultChannelClosed
      | ResultSent None \<Rightarrow> None
      | ResultSent (Some e) \<Rightarrow> Some (StreamFailed e))"

fun collect_chunks :: "sample list list \<Rightarrow> sample list \<Rightarrow> int \<Rightarrow> synth_error + sample list \<times> int" where
  "collect_chunks [] pcm peak = Inr (pcm, peak)"
| "collect_chunks (chunk # cs) pcm peak =
     (if chunk = [] then collect_chunks cs pcm peak
      else if int (length chunk) > maxVoiceTakeSamples - int (length pcm) then Inl (TakeTooLong maxVoiceTakeSamples)
      else collect_chunks cs (pcm @ chunk) (max peak (PeakS16 chunk)))"

definition collectVoiceTake :: "AudioStream \<Rightarrow> synth_error + sample list \<times> int" where
  "collectVoiceTake audio =
     (case collect_chunks (as_chunks audio) [] 0 of
        Inl e \<Rightarrow> Inl e
      | Inr (pcm, peak) \<Rightarrow>
          (case awaitResult audio of
             Some e \<Rightarrow> Inl e
           | None \<Rightarrow> if pcm = [] then Inl NoPcm else Inr (pcm, peak)))"

text \<open>\<open>speak\<close> over any voice sink, given as its append operation.\<close>

definition speak ::
  "(lang \<Rightarrow> gostr \<Rightarrow> gostr + AudioStream) \<Rightarrow> (duration \<Rightarrow> sample list \<Rightarrow> 's \<Rightarrow> duration \<times> 's)
     \<Rightarrow> lang \<Rightarrow> TranslatedSegment \<Rightarrow> 's \<Rightarrow> (lane_error + duration) \<times> 's" where
  "speak synth put target job sink =
     (case synth target (TText job) of
        Inl e \<Rightarrow> (Inl (SynthesizeFailed target (SpeakFailed e)), sink)
      | Inr audio \<Rightarrow>
          (case collectVoiceTake audio of
             Inl e \<Rightarrow> (Inl (SynthesizeFailed target e), sink)
           | Inr (pcm, peak) \<Rightarrow> (case put (ScheduleAt job) pcm sink of (placedAt, sink') \<Rightarrow> (Inr placedAt, sink'))))"

section \<open>What an emission does to the queues\<close>

text \<open>The segments of one emission, as every worker gets them.\<close>

fun segs_of :: "lang \<Rightarrow> duration \<Rightarrow> duration \<Rightarrow> int \<Rightarrow> int \<Rightarrow> gostr list \<Rightarrow> duration \<Rightarrow> Segment list" where
  "segs_of lg base span tot acc [] start = []"
| "segs_of lg base span tot acc (clause # cs) start =
     (let acc' = acc + int (blen clause); e = clause_end_at base span acc' tot
      in \<lparr>SegText = clause, SegLang = lg, SpanFrom = start, SpanTo = e\<rparr> # segs_of lg base span tot acc' cs e)"

text \<open>\<open>q'\<close> gives every target a prefix of \<open>segs\<close>, all of it when nothing was canceled.\<close>

definition delivers :: "lang list \<Rightarrow> Segment list \<Rightarrow> bool \<Rightarrow> queues \<Rightarrow> queues \<Rightarrow> bool" where
  "delivers ts segs whole q q' \<longleftrightarrow>
     (\<forall>w. if w \<in> set ts then \<exists>k. q' w = q w @ take k segs \<and> (whole \<longrightarrow> length segs \<le> k) else q' w = q w)"

lemma delivers_none: "delivers ts segs False q q"
  unfolding delivers_def by (auto intro: exI [of _ 0])

lemma delivers_nil: "delivers ts [] b q q"
  unfolding delivers_def by auto

lemma delivers_cons:
  assumes "delivers ts segs whole (\<lambda>w. if w \<in> set ts then q w @ [s] else q w) q'"
  shows "delivers ts (s # segs) whole q q'"
  unfolding delivers_def
proof
  fix w
  have h: "if w \<in> set ts then \<exists>k. q' w = (if w \<in> set ts then q w @ [s] else q w) @ take k segs \<and> (whole \<longrightarrow> length segs \<le> k)
      else q' w = (if w \<in> set ts then q w @ [s] else q w)"
    using assms unfolding delivers_def by (rule spec)
  show "if w \<in> set ts then \<exists>k. q' w = q w @ take k (s # segs) \<and> (whole \<longrightarrow> length (s # segs) \<le> k) else q' w = q w"
  proof (cases "w \<in> set ts")
    case True
    with h obtain k where "q' w = q w @ s # take k segs" "whole \<longrightarrow> length segs \<le> k" by auto
    with True show ?thesis by (auto intro!: exI [of _ "Suc k"])
  next
    case False
    with h show ?thesis by simp
  qed
qed

lemma delivers_partial:
  assumes "\<forall>w. if w \<in> set ts then q' w = q w \<or> q' w = q w @ [s] else q' w = q w"
  shows "delivers ts (s # segs) False q q'"
  unfolding delivers_def
proof
  fix w
  show "if w \<in> set ts then \<exists>k. q' w = q w @ take k (s # segs) \<and> (False \<longrightarrow> length (s # segs) \<le> k) else q' w = q w"
    using assms [rule_format, of w] exI [of "\<lambda>k. [s] = take k (s # segs)" "Suc 0"] exI [of "\<lambda>k. [] = take k (s # segs)" 0]
    by (auto split: if_splits)
qed

lemma fanout_effect:
  assumes "distinct ws" "fanout ws seg q b = (ok, q', b')"
  shows "(ok \<longrightarrow> q' = (\<lambda>w. if w \<in> set ws then q w @ [seg] else q w)) \<and>
    (\<forall>w. if w \<in> set ws then q' w = q w \<or> q' w = q w @ [seg] else q' w = q w) \<and>
    (b = None \<longrightarrow> ok \<and> b' = None)"
  using assms
proof (induction ws arbitrary: q b)
  case Nil
  then show ?case by auto
next
  case (Cons w ws)
  show ?case
  proof (cases "spend b")
    case None
    then have "b \<noteq> None" by (auto simp: spend_def split: option.splits nat.splits)
    with None Cons.prems show ?thesis by auto
  next
    case (Some c)
    have r: "fanout ws seg (q(w := q w @ [seg])) c = (ok, q', b')" using Cons.prems Some by simp
    have c: "b = None \<longrightarrow> c = None" using Some by (auto simp: spend_def split: option.splits nat.splits)
    have d: "distinct ws" and nw: "w \<notin> set ws" using Cons.prems(1) by auto
    note ih = Cons.IH [OF d r]
    have "ok \<longrightarrow> q' = (\<lambda>x. if x \<in> set (w # ws) then q x @ [seg] else q x)" using ih nw by (auto simp: fun_eq_iff)
    moreover have "if x \<in> set (w # ws) then q' x = q x \<or> q' x = q x @ [seg] else q' x = q x" for x
      using ih [THEN conjunct2, THEN conjunct1, rule_format, of x] nw by (auto split: if_splits)
    moreover have "b = None \<longrightarrow> ok \<and> b' = None" using ih c by blast
    ultimately show ?thesis by blast
  qed
qed

lemma emit_loop_effect:
  assumes "distinct (l_targets l)" "emit_loop l lg base span tot acc cs start q b = (err, start', q', b')"
  shows "delivers (l_targets l) (segs_of lg base span tot acc cs start) (err = None) q q' \<and>
    (b = None \<longrightarrow> err = None \<and> b' = None) \<and> (err = None \<or> err = Some LaneCanceled) \<and>
    (err = None \<longrightarrow> start' = (if cs = [] then start
       else clause_end_at base span (acc + int (sum_list (map blen cs))) tot))"
  using assms(2)
proof (induction cs arbitrary: acc start q b)
  case Nil
  then show ?case by (auto simp: delivers_nil)
next
  case (Cons c cs)
  let ?a = "acc + int (blen c)"
  let ?e = "clause_end_at base span ?a tot"
  let ?s = "\<lparr>SegText = c, SegLang = lg, SpanFrom = start, SpanTo = ?e\<rparr>"
  obtain ok q1 b1 where f: "fanout (l_targets l) ?s q b = (ok, q1, b1)" by (cases "fanout (l_targets l) ?s q b")
  note fe = fanout_effect [OF assms(1) f]
  show ?case
  proof (cases ok)
    case False
    then have r: "err = Some LaneCanceled" "q' = q1" "b' = b1" "b \<noteq> None" using Cons.prems f fe by (auto simp: Let_def)
    have "delivers (l_targets l) (?s # segs_of lg base span tot ?a cs ?e) False q q'"
      by (rule delivers_partial) (use fe r(2) in blast)
    with r show ?thesis by (simp add: Let_def)
  next
    case True
    have r: "emit_loop l lg base span tot ?a cs ?e q1 b1 = (err, start', q', b')"
      using Cons.prems f True by (simp add: Let_def)
    note ih = Cons.IH [OF r]
    have q1: "q1 = (\<lambda>w. if w \<in> set (l_targets l) then q w @ [?s] else q w)" using fe True by blast
    have "delivers (l_targets l) (?s # segs_of lg base span tot ?a cs ?e) (err = None) q q'"
      using ih unfolding q1 by (intro delivers_cons) blast
    moreover have "b = None \<longrightarrow> err = None \<and> b' = None" using ih fe by blast
    ultimately show ?thesis using ih by (auto simp: Let_def algebra_simps)
  qed
qed

text \<open>Segments that follow each other from \<open>a\<close> and end by \<open>b\<close>.\<close>

fun within :: "duration \<Rightarrow> Segment list \<Rightarrow> duration \<Rightarrow> bool" where
  "within a [] b \<longleftrightarrow> a \<le> b"
| "within a (s # ss) b \<longleftrightarrow> a \<le> SpanFrom s \<and> SpanFrom s \<le> SpanTo s \<and> within (SpanTo s) ss b"

lemma within_le: "within a ss b \<Longrightarrow> a \<le> b"
  by (induction ss arbitrary: a) fastforce+

lemma within_mono: "within a ss b \<Longrightarrow> b \<le> b' \<Longrightarrow> within a ss b'"
  by (induction ss arbitrary: a) auto

lemma within_weaken: "within a ss b \<Longrightarrow> a' \<le> a \<Longrightarrow> within a' ss b"
  by (cases ss) auto

lemma within_append: "within a ss b \<Longrightarrow> within b ts c \<Longrightarrow> within a (ss @ ts) c"
  by (induction ss arbitrary: a) (auto dest: within_le intro: within_weaken)

lemma within_take: "within a ss b \<Longrightarrow> within a (take k ss) b"
proof (induction ss arbitrary: a k)
  case (Cons s ss)
  then show ?case by (cases k) (auto dest: within_le)
qed simp

lemma clause_end_exact:
  assumes "0 \<le> span" "0 \<le> acc" "acc \<le> tot" "span * tot < 2 ^ 63"
  shows "clause_end_at base span acc tot = base + span * acc div tot"
proof -
  have p: "0 \<le> span * acc" "span * acc \<le> span * tot" using assms by (auto intro: mult_left_mono)
  have "wrap64 (span * acc) = span * acc"
    by (rule wrap64_id) (use p assms(4) in \<open>unfold in_int64_def, linarith\<close>)
  moreover have "go_div (span * acc) tot = span * acc div tot"
    using p(1) assms by (cases "tot = 0") (simp add: go_div_def, simp only: go_div_nonneg)
  ultimately show ?thesis by (simp add: clause_end_at_def)
qed

lemma clause_end_mono:
  assumes "0 \<le> span" "0 \<le> acc" "acc \<le> acc'" "acc' \<le> tot" "span * tot < 2 ^ 63"
  shows "clause_end_at base span acc tot \<le> clause_end_at base span acc' tot"
proof (cases "tot = 0")
  case True
  then have "acc = 0" "acc' = 0" using assms by auto
  then show ?thesis by simp
next
  case False
  have "span * acc \<le> span * acc'" using assms by (auto intro: mult_left_mono)
  then have "span * acc div tot \<le> span * acc' div tot" using False assms by (intro zdiv_mono1) auto
  with assms show ?thesis by (simp add: clause_end_exact)
qed

lemma segs_within:
  assumes "0 \<le> span" "0 \<le> acc" "acc + int (sum_list (map blen cs)) \<le> tot" "span * tot < 2 ^ 63"
  shows "within (clause_end_at base span acc tot) (segs_of lg base span tot acc cs (clause_end_at base span acc tot))
    (clause_end_at base span (acc + int (sum_list (map blen cs))) tot)"
  using assms
proof (induction cs arbitrary: acc)
  case (Cons c cs)
  have "within (clause_end_at base span (acc + int (blen c)) tot)
      (segs_of lg base span tot (acc + int (blen c)) cs (clause_end_at base span (acc + int (blen c)) tot))
      (clause_end_at base span ((acc + int (blen c)) + int (sum_list (map blen cs))) tot)"
    by (rule Cons.IH) (use Cons.prems in auto)
  moreover have "clause_end_at base span acc tot \<le> clause_end_at base span (acc + int (blen c)) tot"
    by (rule clause_end_mono) (use Cons.prems in auto)
  ultimately show ?case by (simp add: Let_def algebra_simps)
qed simp

lemma segs_of_text [simp]: "map SegText (segs_of lg base span tot acc cs start) = cs"
  by (induction cs arbitrary: acc start) (auto simp: Let_def)

lemma segs_of_lang: "s \<in> set (segs_of lg base span tot acc cs start) \<Longrightarrow> SegLang s = lg"
  by (induction cs arbitrary: acc start) (auto simp: Let_def)

lemma emitValidated_effect:
  assumes "distinct (l_targets l)" "emitValidated u l cs lg now start q b = (err, start', q', b')"
  shows "\<exists>segs. delivers (l_targets l) segs (err = None) q q' \<and>
    (b = None \<longrightarrow> b' = None \<and> err = (if cs \<noteq> [] then validateTranslationTargets u l lg else None)) \<and>
    (\<forall>s \<in> set segs. SegLang s = lg \<and> validateTranslationTargets u l lg = None) \<and>
    (err = None \<longrightarrow> segs = [] \<and> sum_list (map blen cs) = 0 \<or> map SegText segs = cs) \<and>
    (max (now - start) 0 * int (sum_list (map blen cs)) < 2 ^ 63 \<longrightarrow>
       within start segs (max now start) \<and>
       (err = None \<longrightarrow> within start segs start' \<and> start' \<le> max now start))"
proof (cases "if cs \<noteq> [] then validateTranslationTargets u l lg else None")
  case (Some e)
  then have "err = Some e" "start' = start" "q' = q" "b' = b" using assms(2) by (auto simp: emitValidated_def)
  with Some show ?thesis by (auto intro!: exI [of _ "[]"] delivers_none)
next
  case ok: None
  have em: "emit l cs lg now start q b = (err, start', q', b')" using ok assms(2) by (simp add: emitValidated_def)
  let ?t = "int (sum_list (map blen cs))" and ?span = "max (now - start) 0"
  show ?thesis
  proof (cases "?t = 0")
    case True
    then have "err = None" "start' = start" "q' = q" "b' = b" using em by (auto simp: emit_def)
    with True ok show ?thesis by (auto intro!: exI [of _ "[]"] simp: delivers_nil)
  next
    case False
    then have ne: "cs \<noteq> []" by auto
    have lp: "emit_loop l lg start ?span ?t 0 cs start q b = (err, start', q', b')"
      using em False by (simp only: emit_def Let_def if_False)
    note ef = emit_loop_effect [OF assms(1) lp]
    let ?segs = "segs_of lg start ?span ?t 0 cs start"
    have z: "clause_end_at start ?span 0 ?t = start" by (simp add: clause_end_at_def wrap64_id in_int64_def go_div_def)
    have w: "within start ?segs (clause_end_at start ?span ?t ?t) \<and> clause_end_at start ?span ?t ?t = max now start"
      if b: "?span * ?t < 2 ^ 63"
      using segs_within [of ?span 0 cs ?t start lg] clause_end_exact [of ?span ?t ?t start] b False z by (auto simp: max_def)
    have e: "err = None \<longrightarrow> start' = clause_end_at start ?span ?t ?t" using ef ne by simp
    have v: "validateTranslationTargets u l lg = None" using ok ne by simp
    have c2: "b = None \<longrightarrow> b' = None \<and> err = (if cs \<noteq> [] then validateTranslationTargets u l lg else None)"
      using ef v by simp
    have c3: "\<forall>s \<in> set ?segs. SegLang s = lg \<and> validateTranslationTargets u l lg = None"
      using v segs_of_lang by blast
    have c5: "?span * ?t < 2 ^ 63 \<longrightarrow> within start ?segs (max now start) \<and>
        (err = None \<longrightarrow> within start ?segs start' \<and> start' \<le> max now start)"
      using w e by (metis order_refl)
    have c1: "delivers (l_targets l) ?segs (err = None) q q'" using ef by (rule conjunct1)
    have c4: "err = None \<longrightarrow> ?segs = [] \<and> sum_list (map blen cs) = 0 \<or> map SegText ?segs = cs" by simp
    show ?thesis
    proof (intro exI conjI)
      show "delivers (l_targets l) ?segs (err = None) q q'" by (fact c1)
    qed (fact c2 c3 c4 c5)+
  qed
qed

section \<open>The stream\<close>

definition text_weight :: "gostr list \<Rightarrow> int" where
  "text_weight ws = int (sum_list (map (\<lambda>w. Suc (blen w)) ws))"

definition words_of :: "Transcript \<Rightarrow> gostr list" where
  "words_of t = str_fields (Text t)"

lemma blen_join: "blen (join (str '' '') g) \<le> sum_list (map (\<lambda>w. Suc (blen w)) g)"
  by (induction "str '' ''" g rule: join.induct) (auto simp: str_def utf8_len_def)

lemma blen_join_pos: "g \<noteq> [] \<Longrightarrow> \<forall>w \<in> set g. w \<noteq> [] \<Longrightarrow> 0 < blen (join (str '' '') g)"
proof -
  have p: "w \<noteq> [] \<Longrightarrow> 0 < blen w" for w :: gostr using length_le_blen [of w] by (cases w) auto
  assume "g \<noteq> []" "\<forall>w \<in> set g. w \<noteq> []"
  then show ?thesis using p by (cases g rule: remdups_adj.cases) auto
qed

lemma cut_weight:
  assumes "cut_into m ws cs"
  shows "int (sum_list (map blen cs)) \<le> text_weight ws"
proof -
  obtain groups where g: "cs = map (join (str '' '')) groups" "concat groups = ws" using assms by (auto simp: cut_into_def)
  have "sum_list (map blen (map (join (str '' '')) groups)) \<le> sum_list (map (\<lambda>w. Suc (blen w)) (concat groups))"
    by (induction groups) (auto intro: add_mono blen_join)
  with g show ?thesis by (simp add: text_weight_def)
qed

lemma cut_nonempty:
  assumes "cut_into m ws cs" "\<forall>w \<in> set ws. w \<noteq> []"
  shows "cs \<noteq> [] \<longrightarrow> sum_list (map blen cs) \<noteq> 0"
proof -
  obtain groups where g: "cs = map (join (str '' '')) groups" "concat groups = ws" "\<forall>g \<in> set groups. 0 < length g"
    using assms by (auto simp: cut_into_def)
  show ?thesis
  proof (cases groups)
    case (Cons x xs)
    have "0 < blen (join (str '' '') x)"
      by (rule blen_join_pos) (use Cons g assms(2) in auto)
    with Cons g(1) show ?thesis by simp
  qed (use g in simp)
qed

lemma weight_part: "text_weight (take k (drop j ws)) \<le> text_weight ws"
proof -
  have "text_weight ws = text_weight (take j ws) + text_weight (drop j ws)"
    unfolding text_weight_def by (metis append_take_drop_id map_append of_nat_add sum_list_append)
  moreover have "text_weight (drop j ws) = text_weight (take k (drop j ws)) + text_weight (drop k (drop j ws))"
    unfolding text_weight_def by (metis append_take_drop_id map_append of_nat_add sum_list_append)
  moreover have "0 \<le> text_weight xs" for xs by (simp add: text_weight_def)
  ultimately show ?thesis by (smt (verit))
qed

text \<open>What the committer guarantees to the lane: what it cuts are whole, non-empty words of the update.\<close>

definition commit_inv :: "committer \<Rightarrow> bool" where
  "commit_inv c \<longleftrightarrow> committer_inv c \<and> (\<forall>w \<in> set (c_last c). w \<noteq> [])"

lemma commit_inv_new: "commit_inv (newCommitter f)"
  using new_inv by (simp add: commit_inv_def)

lemma commit_step:
  assumes "commit_inv c"
  shows "\<exists>cs c'. commit u t c = Some (cs, c') \<and> commit_inv c' \<and> set (c_last c') \<subseteq> set (words_of t) \<and>
    text_weight (c_last c') \<le> max 0 (text_weight (words_of t)) \<and>
    int (sum_list (map blen cs)) \<le> text_weight (words_of t) \<and> (cs \<noteq> [] \<longrightarrow> sum_list (map blen cs) \<noteq> 0)"
proof -
  have i: "committer_inv c" using assms by (simp add: commit_inv_def)
  obtain a e cs where 0: "commit u t c = Some (cs, if Final t then reset c else
       c\<lparr>c_agreed := (if Stable t then length (words_of t) else lcp u (c_prev c) (words_of t)),
         c_emitted := e, c_prev := words_of t, c_last := words_of t\<rparr>)"
    "cut_into (p_maxClause (c_policy c)) (take (e - a) (drop a (words_of t))) cs"
    using commit_ok [OF i, of u t] unfolding words_of_def by blast
  then obtain c' where 1: "commit u t c = Some (cs, c')" "c_last c' = (if Final t then [] else words_of t)"
    "cut_into (p_maxClause (c_policy c)) (take (e - a) (drop a (words_of t))) cs"
    by (cases "Final t") (auto simp: reset_def)
  have 2: "committer_inv c'" using Commit.commit_inv [OF i, of u t] 1(1) by auto
  have ne: "\<forall>w \<in> set (words_of t). w \<noteq> []" using fields_nonempty by (auto simp: words_of_def)
  have "\<forall>w \<in> set (take (e - a) (drop a (words_of t))). w \<noteq> []"
    using ne by (meson in_set_dropD in_set_takeD)
  from cut_nonempty [OF 1(3) this] have "cs \<noteq> [] \<longrightarrow> sum_list (map blen cs) \<noteq> 0" .
  moreover have "int (sum_list (map blen cs)) \<le> text_weight (words_of t)"
    using cut_weight [OF 1(3)] weight_part by (rule order_trans)
  moreover have "commit_inv c'" using 1(2) 2 ne by (simp add: commit_inv_def)
  moreover have "text_weight (c_last c') \<le> max 0 (text_weight (words_of t))" "set (c_last c') \<subseteq> set (words_of t)"
    using 1(2) by (simp_all add: text_weight_def)
  ultimately show ?thesis using 1(1) by blast
qed

lemma flush_step:
  assumes "commit_inv c"
  shows "\<exists>cs c'. flushHold c = Some (cs, c') \<and> int (sum_list (map blen cs)) \<le> text_weight (c_last c) \<and>
    (cs \<noteq> [] \<longrightarrow> sum_list (map blen cs) \<noteq> 0)"
proof -
  have i: "committer_inv c" and ne: "\<forall>w \<in> set (c_last c). w \<noteq> []" using assms by (simp_all add: commit_inv_def)
  obtain cs e where 1: "flushHold c = Some (cs, c\<lparr>c_emitted := e\<rparr>)"
    "cut_into (p_maxClause (c_policy c)) (take (e - c_emitted c) (drop (c_emitted c) (c_last c))) cs"
    using cut_ok [OF i, of "min (c_agreed c) (length (c_last c))" True] by (auto simp: flushHold_def)
  have "\<forall>w \<in> set (take (e - c_emitted c) (drop (c_emitted c) (c_last c))). w \<noteq> []"
    using ne by (meson in_set_dropD in_set_takeD)
  from cut_nonempty [OF 1(2) this] cut_weight [OF 1(2)] weight_part 1(1) show ?thesis
    using order_trans by blast
qed

lemma advance_ok:
  "advance t clock c = (Inr now, c') \<Longrightarrow>
    now = (if HasSourceEnd t then SourceEnd t else clock) \<and> tc_segStart c' = tc_segStart c"
  by (auto simp: advance_def Let_def split: if_splits)

lemma advance_err: "advance t clock c = (Inl e, c') \<Longrightarrow> tc_segStart c' = tc_segStart c"
  by (auto simp: advance_def Let_def split: if_splits)

lemma update_effect:
  assumes d: "distinct (l_targets l)" and ci: "commit_inv (cs_commit st)"
  shows "\<exists>err st' segs lg. consume_update u l (t, clock) st = Some (err, st') \<and> commit_inv (cs_commit st') \<and>
    (err = None \<longrightarrow> text_weight (c_last (cs_commit st')) \<le> max 0 (text_weight (words_of t)) \<and>
       (\<exists>cs. commit u t (cs_commit st) = Some (cs, cs_commit st') \<and> map SegText segs = cs)) \<and>
    delivers (l_targets l) segs (err = None) (cs_queues st) (cs_queues st') \<and>
    (cs_budget st = None \<longrightarrow> cs_budget st' = None) \<and>
    (\<forall>s \<in> set segs. SegLang s = lg \<and> validateTranslationTargets u l lg = None) \<and>
    (let now = (if HasSourceEnd t then SourceEnd t else clock); a = tc_segStart (cs_cursor st) in
     max (now - a) 0 * text_weight (words_of t) < 2 ^ 63 \<longrightarrow> within a segs (max now a) \<and>
      (err = None \<longrightarrow> within a segs (tc_segStart (cs_cursor st')) \<or>
        tc_segStart (cs_cursor st') = now \<and> within a segs (max now a)) \<and>
      (err = None \<longrightarrow> tc_segStart (cs_cursor st') \<le> max now a))"
proof -
  let ?a = "tc_segStart (cs_cursor st)"
  obtain r cur where ad: "advance t clock (cs_cursor st) = (r, cur)" by (cases "advance t clock (cs_cursor st)")
  show ?thesis
  proof (cases r)
    case (Inl e)
    have "consume_update u l (t, clock) st = Some (Some e, st\<lparr>cs_cursor := cur\<rparr>)"
      using ad Inl by (simp add: consume_update_def)
    then show ?thesis using ci
      by (intro exI [of _ "Some e"] exI [of _ "st\<lparr>cs_cursor := cur\<rparr>"] exI [of _ "[]"]) (auto simp: delivers_none Let_def)
  next
    case (Inr now)
    have nw: "now = (if HasSourceEnd t then SourceEnd t else clock)" and cur: "tc_segStart cur = ?a"
      using advance_ok [of t clock "cs_cursor st" now cur] ad Inr by auto
    obtain cs cm where c: "commit u t (cs_commit st) = Some (cs, cm)" "commit_inv cm"
      "text_weight (c_last cm) \<le> max 0 (text_weight (words_of t))"
      "int (sum_list (map blen cs)) \<le> text_weight (words_of t)" "cs \<noteq> [] \<longrightarrow> sum_list (map blen cs) \<noteq> 0"
      using commit_step [OF ci, of u t] by blast
    obtain err start q b where em: "emitValidated u l cs (tc_lang cur) now ?a (cs_queues st) (cs_budget st) = (err, start, q, b)"
      by (cases "emitValidated u l cs (tc_lang cur) now ?a (cs_queues st) (cs_budget st)")
    obtain segs where s: "delivers (l_targets l) segs (err = None) (cs_queues st) q"
      "cs_budget st = None \<longrightarrow> b = None \<and>
         err = (if cs \<noteq> [] then validateTranslationTargets u l (tc_lang cur) else None)"
      "\<forall>s \<in> set segs. SegLang s = tc_lang cur \<and> validateTranslationTargets u l (tc_lang cur) = None"
      "err = None \<longrightarrow> segs = [] \<and> sum_list (map blen cs) = 0 \<or> map SegText segs = cs"
      "max (now - ?a) 0 * int (sum_list (map blen cs)) < 2 ^ 63 \<longrightarrow> within ?a segs (max now ?a) \<and>
       (err = None \<longrightarrow> within ?a segs start \<and> start \<le> max now ?a)"
      using emitValidated_effect [OF d em] by (elim exE conjE) (rule that; assumption)
    let ?st = "st\<lparr>cs_commit := cm, cs_cursor := cur\<lparr>tc_segStart := (if err = None \<and> Final t then now else start)\<rparr>,
       cs_queues := q, cs_budget := b\<rparr>"
    have upd: "consume_update u l (t, clock) st = Some (err, ?st)"
      using ad Inr c(1) em cur by (simp add: consume_update_def)
    have texts: "err = None \<longrightarrow> map SegText segs = cs" using s(4) c(5) by auto
    have bound: "max (now - ?a) 0 * int (sum_list (map blen cs)) < 2 ^ 63" if "max (now - ?a) 0 * text_weight (words_of t) < 2 ^ 63"
    proof -
      have "max (now - ?a) 0 * int (sum_list (map blen cs)) \<le> max (now - ?a) 0 * text_weight (words_of t)"
        using c(4) by (intro mult_left_mono) auto
      with that show ?thesis by linarith
    qed
    have ord: "max (now - ?a) 0 * text_weight (words_of t) < 2 ^ 63 \<longrightarrow> within ?a segs (max now ?a) \<and>
      (err = None \<longrightarrow> within ?a segs (tc_segStart (cs_cursor ?st)) \<or>
        tc_segStart (cs_cursor ?st) = now \<and> within ?a segs (max now ?a)) \<and>
      (err = None \<longrightarrow> tc_segStart (cs_cursor ?st) \<le> max now ?a)"
      using s(5) bound by auto
    show ?thesis unfolding nw [symmetric] Let_def
    proof (intro exI conjI)
      show "consume_update u l (t, clock) st = Some (err, ?st)" by (fact upd)
      show "commit_inv (cs_commit ?st)" using c(2) by simp
      show "delivers (l_targets l) segs (err = None) (cs_queues st) (cs_queues ?st)" using s(1) by simp
      show "cs_budget st = None \<longrightarrow> cs_budget ?st = None" using s(2) by simp
      show "err = None \<longrightarrow> text_weight (c_last (cs_commit ?st)) \<le> max 0 (text_weight (words_of t)) \<and>
         (\<exists>cs. commit u t (cs_commit st) = Some (cs, cs_commit ?st) \<and> map SegText segs = cs)"
        using c(1,3) texts by simp
    qed (fact s(3) ord)+
  qed
qed

definition instant :: "Transcript \<times> duration \<Rightarrow> duration" where
  "instant x = (if HasSourceEnd (fst x) then SourceEnd (fst x) else snd x)"

lemma delivers_within:
  assumes "delivers ts segs whole q q'" "within 0 (q w) a" "within a segs b"
  shows "within 0 (q' w) b"
proof (cases "w \<in> set ts")
  case True
  then obtain k where "q' w = q w @ take k segs" using assms(1) unfolding delivers_def by meson
  then show ?thesis using within_append [OF assms(2)] within_take [OF assms(3)] by simp
next
  case False
  then have "q' w = q w" using assms(1) unfolding delivers_def by meson
  then show ?thesis using within_mono [OF assms(2)] within_le [OF assms(3)] by simp
qed

definition ordered_inv :: "duration \<Rightarrow> int \<Rightarrow> duration \<Rightarrow> consume_state \<Rightarrow> bool" where
  "ordered_inv T M t st \<longleftrightarrow> commit_inv (cs_commit st) \<and> 0 \<le> tc_segStart (cs_cursor st) \<and>
     tc_segStart (cs_cursor st) \<le> t \<and> t \<le> T \<and> text_weight (c_last (cs_commit st)) \<le> M \<and>
     (\<forall>w. within 0 (cs_queues st w) (tc_segStart (cs_cursor st)))"

lemma span_bound:
  assumes "a \<le> T" "0 \<le> T" "0 \<le> n" "n \<le> M" "T * M < (2::int) ^ 63"
  shows "max a 0 * n < 2 ^ 63"
proof -
  have "max a 0 * n \<le> T * M" using assms by (intro mult_mono) auto
  with assms show ?thesis by linarith
qed

lemma weight_nonneg: "0 \<le> text_weight ws"
  by (simp add: text_weight_def)

lemma update_ordered:
  assumes d: "distinct (l_targets l)" and inv: "ordered_inv T M t st" and x: "t \<le> instant x" "instant x \<le> T"
    and w: "text_weight (words_of (fst x)) \<le> M" and tm: "T * M < 2 ^ 63"
  shows "\<exists>err st'. consume_update u l x st = Some (err, st') \<and> (\<forall>w. within 0 (cs_queues st' w) T) \<and>
    (err = None \<longrightarrow> ordered_inv T M (instant x) st')"
proof -
  obtain tr clock where xx: "x = (tr, clock)" by (cases x)
  let ?a = "tc_segStart (cs_cursor st)"
  have ci: "commit_inv (cs_commit st)" and a: "0 \<le> ?a" "?a \<le> t" "\<forall>w. within 0 (cs_queues st w) ?a"
    using inv by (simp_all add: ordered_inv_def)
  have it: "(if HasSourceEnd tr then SourceEnd tr else clock) = instant x" by (simp add: instant_def xx)
  obtain err st' segs lg where u: "consume_update u l x st = Some (err, st')" "commit_inv (cs_commit st')"
    "err = None \<longrightarrow> text_weight (c_last (cs_commit st')) \<le> max 0 (text_weight (words_of tr)) \<and>
       (\<exists>cs. commit u tr (cs_commit st) = Some (cs, cs_commit st') \<and> map SegText segs = cs)"
    "delivers (l_targets l) segs (err = None) (cs_queues st) (cs_queues st')"
    "max (instant x - ?a) 0 * text_weight (words_of tr) < 2 ^ 63 \<longrightarrow> within ?a segs (max (instant x) ?a) \<and>
      (err = None \<longrightarrow> within ?a segs (tc_segStart (cs_cursor st')) \<or>
        tc_segStart (cs_cursor st') = instant x \<and> within ?a segs (max (instant x) ?a)) \<and>
      (err = None \<longrightarrow> tc_segStart (cs_cursor st') \<le> max (instant x) ?a)"
    using update_effect [OF d ci, of u tr clock, unfolded Let_def it, folded xx]
    by (elim exE conjE) (rule that; assumption)
  have "max (instant x - ?a) 0 * text_weight (words_of tr) < 2 ^ 63"
    by (rule span_bound [of _ T _ M]) (use a x w tm weight_nonneg xx in auto)
  note o5 = u(5) [rule_format, OF this]
  have mx: "max (instant x) ?a = instant x" using a x by simp
  have q: "within 0 (cs_queues st' w) (instant x)" for w
    by (rule delivers_within [OF u(4)]) (use a(3) o5 mx in auto)
  have all: "\<forall>w. within 0 (cs_queues st' w) T" using q x(2) within_mono by blast
  have "ordered_inv T M (instant x) st'" if e: "err = None"
  proof -
    have s: "within ?a segs (tc_segStart (cs_cursor st'))" "tc_segStart (cs_cursor st') \<le> instant x"
      using o5 mx e by auto
    have "within 0 (cs_queues st' w) (tc_segStart (cs_cursor st'))" for w
      by (rule delivers_within [OF u(4)]) (use a(3) s in auto)
    moreover have "0 \<le> tc_segStart (cs_cursor st')" using within_le [OF s(1)] a by simp
    moreover have "text_weight (c_last (cs_commit st')) \<le> M"
      using u(3) e w xx weight_nonneg [of "words_of tr"] by simp
    ultimately show ?thesis using u(2) s x by (simp add: ordered_inv_def)
  qed
  with u(1) all show ?thesis by blast
qed

lemma updates_ordered:
  assumes d: "distinct (l_targets l)" and tm: "T * M < 2 ^ 63"
    and "ordered_inv T M t st" "sorted (t # map instant xs)"
    and "\<forall>x \<in> set xs. instant x \<le> T \<and> text_weight (words_of (fst x)) \<le> M"
  shows "\<exists>err st'. consume_updates u l xs st = Some (err, st') \<and> (\<forall>w. within 0 (cs_queues st' w) T) \<and>
    (err = None \<longrightarrow> (\<exists>t'. ordered_inv T M t' st'))"
  using assms(3-)
proof (induction xs arbitrary: st t)
  case Nil
  have "within 0 (cs_queues st w) T" for w
    by (rule within_mono [of 0 _ "tc_segStart (cs_cursor st)"]) (use Nil in \<open>auto simp: ordered_inv_def\<close>)
  with Nil show ?case by auto
next
  case (Cons x xs)
  obtain err st' where u: "consume_update u l x st = Some (err, st')" "\<forall>w. within 0 (cs_queues st' w) T"
    "err = None \<longrightarrow> ordered_inv T M (instant x) st'"
    using update_ordered [OF d Cons.prems(1), of x u] Cons.prems(2,3) tm by auto
  show ?case
  proof (cases err)
    case (Some e)
    with u show ?thesis by simp
  next
    case None
    then have "ordered_inv T M (instant x) st'" using u(3) by simp
    from Cons.IH [OF this] Cons.prems(2,3) None u(1) show ?thesis by simp
  qed
qed

lemma consume_ordered:
  assumes d: "distinct (l_targets l)" and tm: "T * M < 2 ^ 63" and T: "0 \<le> T" and M: "0 \<le> M"
    and xs: "sorted (map instant xs)" "\<forall>x \<in> set xs. 0 \<le> instant x \<and> instant x \<le> T \<and> text_weight (words_of (fst x)) \<le> M"
    and fin: "clock \<le> T" and f: "fin = StreamCanceled \<or> fin = StreamClosed e clock"
  shows "\<exists>err st. consume u l xs fin b = Some (err, st) \<and> (\<forall>w. within 0 (cs_queues st w) T)"
proof -
  have "ordered_inv T M 0 (new_consume l b)"
    using T M commit_inv_new by (simp add: ordered_inv_def new_consume_def text_weight_def)
  moreover have "sorted (0 # map instant xs)" using xs by simp
  ultimately obtain err st where st: "consume_updates u l xs (new_consume l b) = Some (err, st)"
    "\<forall>w. within 0 (cs_queues st w) T" "err = None \<longrightarrow> (\<exists>t'. ordered_inv T M t' st)"
    using updates_ordered [OF d tm, of 0 "new_consume l b" xs u] xs(2) by blast
  show ?thesis
  proof (cases "err = None \<and> fin = StreamClosed None clock")
    case False
    then show ?thesis using st(1,2) f by (cases err; cases e) (auto simp: consume_def)
  next
    case True
    then obtain t where inv: "ordered_inv T M t st" using st(3) by blast
    let ?a = "tc_segStart (cs_cursor st)"
    obtain cs cm where c: "flushHold (cs_commit st) = Some (cs, cm)"
      "int (sum_list (map blen cs)) \<le> text_weight (c_last (cs_commit st))"
      using flush_step [of "cs_commit st"] inv unfolding ordered_inv_def by blast
    obtain err' start q b' where em: "emitValidated u l cs (tc_lang (cs_cursor st)) clock ?a (cs_queues st) (cs_budget st)
        = (err', start, q, b')"
      by (cases "emitValidated u l cs (tc_lang (cs_cursor st)) clock ?a (cs_queues st) (cs_budget st)")
    have "max (clock - ?a) 0 * int (sum_list (map blen cs)) < 2 ^ 63"
      by (rule span_bound [of _ T _ M]) (use inv c(2) fin T tm in \<open>auto simp: ordered_inv_def\<close>)
    then obtain segs where s: "delivers (l_targets l) segs (err' = None) (cs_queues st) q" "within ?a segs (max clock ?a)"
      using emitValidated_effect [OF d em] by blast
    have "within 0 (q w) (max clock ?a)" for w
      by (rule delivers_within [OF s(1)]) (use inv s in \<open>auto simp: ordered_inv_def\<close>)
    moreover have "max clock ?a \<le> T" using fin inv by (simp add: ordered_inv_def)
    ultimately have "\<forall>w. within 0 (q w) T" using within_mono by blast
    then show ?thesis using True st(1) c(1) em by (simp add: consume_def)
  qed
qed


lemma delivers_whole: "delivers ts segs True q q' \<Longrightarrow> w \<in> set ts \<Longrightarrow> q' w = q w @ segs"
  unfolding delivers_def by (metis take_all)

lemma delivers_set:
  assumes "delivers ts segs whole q q'" "s \<in> set (q' w)"
  shows "s \<in> set (q w) \<or> s \<in> set segs"
proof (cases "w \<in> set ts")
  case True
  then obtain k where "q' w = q w @ take k segs" using assms(1) unfolding delivers_def by meson
  then show ?thesis using assms(2) set_take_subset by fastforce
next
  case False
  then have "q' w = q w" using assms(1) unfolding delivers_def by meson
  with assms(2) show ?thesis by simp
qed

lemma updates_content:
  assumes d: "distinct (l_targets l)" and w: "w \<in> set (l_targets l)"
    and "commit_inv (cs_commit st)" "consume_updates u l xs st = Some (None, st')"
  shows "\<exists>out. commit_all u (map fst xs) (cs_commit st) = Some (out, cs_commit st') \<and>
    map SegText (cs_queues st' w) = map SegText (cs_queues st w) @ out \<and> commit_inv (cs_commit st')"
  using assms(3,4)
proof (induction xs arbitrary: st)
  case Nil
  then show ?case by simp
next
  case (Cons x xs)
  obtain t clock where x: "x = (t, clock)" by (cases x)
  obtain st1 where 1: "consume_update u l (t, clock) st = Some (None, st1)" "consume_updates u l xs st1 = Some (None, st')"
    using Cons.prems(2) x by (auto split: option.splits)
  obtain segs cs where 2: "commit_inv (cs_commit st1)" "commit u t (cs_commit st) = Some (cs, cs_commit st1)"
    "map SegText segs = cs" "delivers (l_targets l) segs True (cs_queues st) (cs_queues st1)"
    using update_effect [OF d Cons.prems(1), of u t clock] 1(1) by auto
  from Cons.IH [OF 2(1) 1(2)] delivers_whole [OF 2(4) w] 2(2,3) x show ?case by auto
qed

definition gate_inv :: "unicode \<Rightarrow> lane \<Rightarrow> consume_state \<Rightarrow> bool" where
  "gate_inv u l st \<longleftrightarrow> commit_inv (cs_commit st) \<and>
     (\<forall>w. \<forall>s \<in> set (cs_queues st w). validateTranslationTargets u l (SegLang s) = None)"

lemma update_gate:
  assumes d: "distinct (l_targets l)" and g: "gate_inv u l st" and c: "consume_update u l x st = Some (err, st')"
  shows "gate_inv u l st'"
proof -
  obtain t clock where x: "x = (t, clock)" by (cases x)
  have ci: "commit_inv (cs_commit st)" using g by (simp add: gate_inv_def)
  obtain segs lg where 1: "commit_inv (cs_commit st')" "delivers (l_targets l) segs (err = None) (cs_queues st) (cs_queues st')"
    "\<forall>s \<in> set segs. SegLang s = lg \<and> validateTranslationTargets u l lg = None"
    using update_effect [OF d ci, of u t clock] c x by auto
  have "validateTranslationTargets u l (SegLang s) = None" if "s \<in> set (cs_queues st' w)" for s w
    using delivers_set [OF 1(2) that] 1(3) g unfolding gate_inv_def by auto
  with 1(1) show ?thesis by (simp add: gate_inv_def)
qed

lemma updates_gate:
  "distinct (l_targets l) \<Longrightarrow> gate_inv u l st \<Longrightarrow> consume_updates u l xs st = Some (err, st') \<Longrightarrow> gate_inv u l st'"
proof (induction xs arbitrary: st)
  case (Cons x xs)
  obtain e1 st1 where 1: "consume_update u l x st = Some (e1, st1)" using Cons.prems(3) by (auto split: option.splits)
  note g = update_gate [OF Cons.prems(1,2) 1]
  show ?case using Cons.IH [OF Cons.prems(1) g] Cons.prems(3) 1 g by (cases e1) auto
qed simp

lemma consume_gate:
  assumes d: "distinct (l_targets l)" and c: "consume u l xs fin b = Some (err, st)"
  shows "gate_inv u l st"
proof -
  have g0: "gate_inv u l (new_consume l b)" using commit_inv_new by (simp add: gate_inv_def new_consume_def)
  obtain e1 st1 where 1: "consume_updates u l xs (new_consume l b) = Some (e1, st1)"
    using c by (auto simp: consume_def split: option.splits)
  note g = updates_gate [OF d g0 1]
  show ?thesis
  proof (cases "e1 = None \<and> (\<exists>clock. fin = StreamClosed None clock)")
    case False
    then have "st = st1" using c 1 by (auto simp: consume_def split: option.splits stream_end.splits)
    with g show ?thesis by simp
  next
    case True
    then obtain clock where f: "fin = StreamClosed None clock" "e1 = None" by blast
    obtain cs cm where fl: "flushHold (cs_commit st1) = Some (cs, cm)"
      using c 1 f by (auto simp: consume_def split: option.splits)
    obtain err' start q b' where em: "emitValidated u l cs (tc_lang (cs_cursor st1)) clock (tc_segStart (cs_cursor st1))
        (cs_queues st1) (cs_budget st1) = (err', start, q, b')"
      by (cases "emitValidated u l cs (tc_lang (cs_cursor st1)) clock (tc_segStart (cs_cursor st1)) (cs_queues st1) (cs_budget st1)")
    have st: "cs_commit st = cm" "cs_queues st = q" using c 1 f fl em by (auto simp: consume_def)
    obtain segs where s: "delivers (l_targets l) segs (err' = None) (cs_queues st1) q"
      "\<forall>s \<in> set segs. SegLang s = tc_lang (cs_cursor st1) \<and> validateTranslationTargets u l (tc_lang (cs_cursor st1)) = None"
      using emitValidated_effect [OF d em] by blast
    have i: "committer_inv (cs_commit st1)" and ne: "\<forall>w \<in> set (c_last (cs_commit st1)). w \<noteq> []"
      using g by (simp_all add: gate_inv_def commit_inv_def)
    obtain e where e: "cm = (cs_commit st1)\<lparr>c_emitted := e\<rparr>" "e \<le> max (c_emitted (cs_commit st1)) (length (c_last (cs_commit st1)))"
      using cut_ok [OF i, of "min (c_agreed (cs_commit st1)) (length (c_last (cs_commit st1)))" True] fl
      by (auto simp: flushHold_def)
    have "commit_inv cm" using e i ne by (simp add: commit_inv_def committer_inv_def)
    moreover have "validateTranslationTargets u l (SegLang x) = None" if "x \<in> set (q w)" for x w
      using delivers_set [OF s(1) that] s(2) g unfolding gate_inv_def by auto
    ultimately show ?thesis using st by (simp add: gate_inv_def)
  qed
qed

lemma validate_None:
  "validate_loop u l source ts = None \<longleftrightarrow>
    (\<forall>t \<in> set ts. source \<noteq> LangAuto \<and> (SameLang u source t \<or> l_supports l source t))"
  by (induction ts) auto

lemma consume_content:
  assumes d: "distinct (l_targets l)" and w: "w \<in> set (l_targets l)"
    and c: "consume u l xs (StreamClosed None clock) b = Some (None, st)"
  shows "\<exists>out cm rest cm'. commit_all u (map fst xs) (newCommitter (FastTurn (l_stream l))) = Some (out, cm) \<and>
    flushHold cm = Some (rest, cm') \<and> map SegText (cs_queues st w) = out @ rest"
proof -
  obtain st1 where 1: "consume_updates u l xs (new_consume l b) = Some (None, st1)"
    using c by (auto simp: consume_def split: option.splits)
  have nc: "commit_inv (cs_commit (new_consume l b))" using commit_inv_new by (simp add: new_consume_def)
  from updates_content [OF d w nc 1] obtain out where
    2: "commit_all u (map fst xs) (newCommitter (FastTurn (l_stream l))) = Some (out, cs_commit st1)"
      "map SegText (cs_queues st1 w) = out" "commit_inv (cs_commit st1)"
    by (auto simp: new_consume_def)
  obtain rest cm where fl: "flushHold (cs_commit st1) = Some (rest, cm)" "rest \<noteq> [] \<longrightarrow> sum_list (map blen rest) \<noteq> 0"
    using flush_step [OF 2(3)] by blast
  obtain err' start q b' where em: "emitValidated u l rest (tc_lang (cs_cursor st1)) clock (tc_segStart (cs_cursor st1))
      (cs_queues st1) (cs_budget st1) = (err', start, q, b')"
    by (cases "emitValidated u l rest (tc_lang (cs_cursor st1)) clock (tc_segStart (cs_cursor st1)) (cs_queues st1) (cs_budget st1)")
  have st: "err' = None" "cs_queues st = q" using c 1 fl em by (auto simp: consume_def)
  obtain segs where s: "delivers (l_targets l) segs True (cs_queues st1) q"
    "segs = [] \<and> sum_list (map blen rest) = 0 \<or> map SegText segs = rest"
    using emitValidated_effect [OF d em] st(1) by auto
  have "map SegText segs = rest" using s(2) fl(2) by auto
  with delivers_whole [OF s(1) w] st(2) 2 fl(1) show ?thesis by auto
qed

section \<open>Takes\<close>

lemma PeakS16_append: "PeakS16 (xs @ ys) = max (PeakS16 xs) (PeakS16 ys)"
proof -
  let ?f = "\<lambda>s peak. max peak (let magnitude = sint s in if magnitude < 0 then - magnitude else magnitude)"
  have f: "fold ?f zs p = max p (fold ?f zs 0)" if "0 \<le> p" for p :: int and zs :: "sample list"
    using that
  proof (induction zs arbitrary: p)
    case (Cons z zs)
    let ?m = "(let magnitude = sint z in if magnitude < 0 then - magnitude else magnitude)"
    have m: "0 \<le> ?m" by (simp add: Let_def)
    have "fold ?f (z # zs) p = max (max p ?m) (fold ?f zs 0)" using Cons.IH [of "max p ?m"] Cons.prems by simp
    moreover have "fold ?f (z # zs) 0 = max (max 0 ?m) (fold ?f zs 0)" using Cons.IH [of "max 0 ?m"] by simp
    ultimately show ?case using Cons.prems m by linarith
  qed simp
  have "0 \<le> fold ?f xs 0"
    using f [of 0 xs] by linarith
  from f [OF this, of ys] show ?thesis by (simp add: PeakS16_def)
qed

lemma PeakS16_nonneg: "0 \<le> PeakS16 xs"
  using PeakS16_append [of xs "[]"] by (simp add: PeakS16_def)

lemma collect_chunks_spec:
  "int (length pcm) \<le> maxVoiceTakeSamples \<Longrightarrow>
   collect_chunks cs pcm (PeakS16 pcm) =
     (if int (length pcm) + int (length (concat cs)) \<le> maxVoiceTakeSamples
      then Inr (pcm @ concat cs, PeakS16 (pcm @ concat cs)) else Inl (TakeTooLong maxVoiceTakeSamples))"
proof (induction cs arbitrary: pcm)
  case (Cons c cs)
  have "max (PeakS16 pcm) (PeakS16 c) = PeakS16 (pcm @ c)" by (simp add: PeakS16_append)
  with Cons.IH [of "pcm @ c"] Cons.IH [of pcm] Cons.prems show ?case by auto
qed simp

lemma collect_spec:
  "collectVoiceTake a = Inr (pcm, peak) \<longleftrightarrow>
     as_result a = ResultSent None \<and> pcm = concat (as_chunks a) \<and> pcm \<noteq> [] \<and>
     int (length pcm) \<le> maxVoiceTakeSamples \<and> peak = PeakS16 pcm"
proof -
  have "PeakS16 [] = 0" by (simp add: PeakS16_def)
  then have c: "collect_chunks (as_chunks a) [] 0 =
      (if int (length (concat (as_chunks a))) \<le> maxVoiceTakeSamples
       then Inr (concat (as_chunks a), PeakS16 (concat (as_chunks a))) else Inl (TakeTooLong maxVoiceTakeSamples))"
    using collect_chunks_spec [of "[]" "as_chunks a"] by (simp add: maxVoiceTakeSamples_def)
  show ?thesis
    unfolding collectVoiceTake_def awaitResult_def c
    by (auto split: stream_result.splits option.splits if_splits)
qed

lemma speak_ok:
  "speak synth put target job sink = (Inr placed, sink') \<longleftrightarrow>
     (\<exists>audio pcm peak. synth target (TText job) = Inr audio \<and> collectVoiceTake audio = Inr (pcm, peak) \<and>
        put (ScheduleAt job) pcm sink = (placed, sink'))"
  by (auto simp: speak_def split: sum.splits prod.splits)

lemma speak_err: "speak synth put target job sink = (Inl e, sink') \<Longrightarrow> sink' = sink"
  by (auto simp: speak_def split: sum.splits prod.splits)

section \<open>Voice sinks\<close>

text \<open>
  The contract \<^verbatim>\<open>VoiceSink\<close> both playouts keep: a take goes whole to the end of the timeline, after
  silence at most, and only the oldest samples may be dropped. \<open>'e\<close> is what an append reads of its
  environment (the wall clock for a track).
\<close>

locale voice_sink =
  fixes put :: "'e \<Rightarrow> duration \<Rightarrow> sample list \<Rightarrow> 's \<Rightarrow> duration \<times> 's"
    and timeline :: "'s \<Rightarrow> sample list"
  assumes put_tail: "\<exists>k g. timeline (snd (put e at pcm s)) = drop k (timeline s @ replicate g 0 @ pcm)"

text \<open>A timeline on which takes were laid: what was there, then the takes in order with silence between,
  cut at the front only.\<close>

definition laid :: "sample list \<Rightarrow> sample list list \<Rightarrow> sample list \<Rightarrow> bool" where
  "laid old takes now \<longleftrightarrow>
     (\<exists>k gaps. length gaps = length takes \<and>
        now = drop k (old @ concat (map2 (\<lambda>g t. replicate g 0 @ t) gaps takes)))"

lemma laid_Nil: "laid old [] old"
  unfolding laid_def by (intro exI [of _ 0] exI [of _ "[]"]) simp

lemma drop_append_again: "\<exists>m. drop j xs @ ys = drop m (xs @ ys)"
  by (rule exI [of _ "min j (length xs)"]) (cases "j \<le> length xs"; simp)

lemma laid_snoc:
  assumes "laid old takes now" "now' = drop k (now @ replicate g 0 @ pcm)"
  shows "laid old (takes @ [pcm]) now'"
proof -
  obtain j gaps where l: "length gaps = length takes"
    "now = drop j (old @ concat (map2 (\<lambda>g t. replicate g 0 @ t) gaps takes))"
    using assms(1) by (auto simp: laid_def)
  let ?old = "old @ concat (map2 (\<lambda>g t. replicate g 0 @ t) gaps takes)"
  obtain m where "now @ replicate g 0 @ pcm = drop m (?old @ replicate g 0 @ pcm)"
    using drop_append_again [of j ?old "replicate g 0 @ pcm"] l(2) by auto
  then have "now' = drop (k + m) (?old @ replicate g 0 @ pcm)"
    unfolding assms(2) by (simp only: drop_drop)
  then show ?thesis unfolding laid_def
    by (intro exI [of _ "k + m"] exI [of _ "gaps @ [g]"]) (use l(1) in simp)
qed

section \<open>The two stages of a target\<close>

datatype translate_stage = Translating | Holding TranslatedSegment | StageDone "lane_error option" "TranslatedSegment list"
datatype voice_stage = Speaking | VoiceFailed TranslatedSegment lane_error | VoiceDrained

record 's target_state =
  g_in :: "Segment list"
  g_jobs :: "TranslatedSegment list"
  g_captions :: "TranslatedSegment list"
  g_spoken :: "(TranslatedSegment \<times> sample list) list"
  g_sink :: 's
  g_stage :: translate_stage
  g_voice :: voice_stage
  g_canceled :: bool

definition target_init :: "Segment list \<Rightarrow> 's \<Rightarrow> 's target_state" where
  "target_init segs sink = \<lparr>g_in = segs, g_jobs = [], g_captions = [], g_spoken = [], g_sink = sink,
     g_stage = Translating, g_voice = Speaking, g_canceled = False\<rparr>"

text \<open>
  \<open>serveTarget\<close> with \<open>translateStage\<close>: the stage captions a segment and holds its job until the channel
  has room; the voice loop speaks the jobs and, once it leaves, cancels the stage. The lists in
  \<open>StageDone\<close> and the job in \<open>VoiceFailed\<close> are what the exit drops.
\<close>

inductive target_step ::
  "unicode \<Rightarrow> lane \<Rightarrow> lang \<Rightarrow> (lang \<Rightarrow> gostr \<Rightarrow> gostr + AudioStream) \<Rightarrow>
    ('e \<Rightarrow> duration \<Rightarrow> sample list \<Rightarrow> 's \<Rightarrow> duration \<times> 's) \<Rightarrow> 's target_state \<Rightarrow> 's target_state \<Rightarrow> bool"
  for u l target synth put where
  captioned: "\<lbrakk>g_stage s = Translating; g_in s = seg # rest; caption u l target seg = Inr out\<rbrakk>
    \<Longrightarrow> target_step u l target synth put s
          (s\<lparr>g_in := rest, g_captions := g_captions s @ [out], g_stage := Holding out\<rparr>)"
| untranslated: "\<lbrakk>g_stage s = Translating; g_in s = seg # rest; caption u l target seg = Inl e\<rbrakk>
    \<Longrightarrow> target_step u l target synth put s (s\<lparr>g_in := rest, g_stage := StageDone (Some e) []\<rparr>)"
| ended: "\<lbrakk>g_stage s = Translating; g_in s = []\<rbrakk>
    \<Longrightarrow> target_step u l target synth put s (s\<lparr>g_stage := StageDone None []\<rparr>)"
| enqueued: "\<lbrakk>g_stage s = Holding out; length (g_jobs s) < targetQueue\<rbrakk>
    \<Longrightarrow> target_step u l target synth put s (s\<lparr>g_jobs := g_jobs s @ [out], g_stage := Translating\<rparr>)"
| stage_canceled: "\<lbrakk>g_canceled s; g_stage s = Translating\<rbrakk>
    \<Longrightarrow> target_step u l target synth put s (s\<lparr>g_stage := StageDone (Some LaneCanceled) []\<rparr>)"
| hold_canceled: "\<lbrakk>g_canceled s; g_stage s = Holding out\<rbrakk>
    \<Longrightarrow> target_step u l target synth put s (s\<lparr>g_stage := StageDone (Some LaneCanceled) [out]\<rparr>)"
| spoken: "\<lbrakk>g_voice s = Speaking; g_jobs s = job # jobs; synth target (TText job) = Inr audio;
      collectVoiceTake audio = Inr (pcm, peak); speak synth (put e) target job (g_sink s) = (Inr placed, sink')\<rbrakk>
    \<Longrightarrow> target_step u l target synth put s
          (s\<lparr>g_jobs := jobs, g_spoken := g_spoken s @ [(job, pcm)], g_sink := sink'\<rparr>)"
| unspoken: "\<lbrakk>g_voice s = Speaking; g_jobs s = job # jobs; speak synth (put e) target job (g_sink s) = (Inl err, sink')\<rbrakk>
    \<Longrightarrow> target_step u l target synth put s
          (s\<lparr>g_jobs := jobs, g_sink := sink', g_voice := VoiceFailed job err, g_canceled := True\<rparr>)"
| speak_canceled: "\<lbrakk>g_canceled s; g_voice s = Speaking; g_jobs s = job # jobs\<rbrakk>
    \<Longrightarrow> target_step u l target synth put s
          (s\<lparr>g_jobs := jobs, g_voice := VoiceFailed job LaneCanceled\<rparr>)"
| drained: "\<lbrakk>g_voice s = Speaking; g_jobs s = []; g_stage s = StageDone r lost\<rbrakk>
    \<Longrightarrow> target_step u l target synth put s (s\<lparr>g_voice := VoiceDrained, g_canceled := True\<rparr>)"
| outer_canceled: "\<not> g_canceled s \<Longrightarrow> target_step u l target synth put s (s\<lparr>g_canceled := True\<rparr>)"

definition held :: "'s target_state \<Rightarrow> TranslatedSegment list" where
  "held s = (case g_stage s of Holding out \<Rightarrow> [out] | StageDone r lost \<Rightarrow> lost | Translating \<Rightarrow> [])"

definition dropped :: "'s target_state \<Rightarrow> TranslatedSegment list" where
  "dropped s = (case g_voice s of VoiceFailed job e \<Rightarrow> [job] | _ \<Rightarrow> [])"

definition target_result :: "'s target_state \<Rightarrow> lane_error option" where
  "target_result s =
     (case g_voice s of VoiceFailed job e \<Rightarrow> Some e
      | _ \<Rightarrow> (case g_stage s of StageDone r lost \<Rightarrow> r | _ \<Rightarrow> None))"

definition target_done :: "'s target_state \<Rightarrow> bool" where
  "target_done s \<longleftrightarrow> g_voice s \<noteq> Speaking \<and> (\<exists>r lost. g_stage s = StageDone r lost)"

text \<open>Every caption is spoken, dropped by a failed take, queued or held, in this order; the captions are
  the segments read so far, translated.\<close>

definition target_inv :: "unicode \<Rightarrow> lane \<Rightarrow> lang \<Rightarrow> Segment list \<Rightarrow> 's target_state \<Rightarrow> bool" where
  "target_inv u l target segs s \<longleftrightarrow>
     g_captions s = map fst (g_spoken s) @ dropped s @ g_jobs s @ held s \<and>
     length (g_jobs s) \<le> targetQueue \<and>
     (g_voice s = VoiceDrained \<longrightarrow> g_jobs s = [] \<and> (\<exists>r lost. g_stage s = StageDone r lost)) \<and>
     (g_voice s \<noteq> Speaking \<longrightarrow> g_canceled s) \<and>
     (\<exists>read failed. segs = read @ failed @ g_in s \<and> list_all2 (\<lambda>x c. caption u l target x = Inr c) read (g_captions s) \<and>
        (\<forall>e lost. g_stage s = StageDone e lost \<longrightarrow> e = None \<longrightarrow> lost = [] \<and> g_in s = []) \<and>
        (failed = [] \<or> (\<exists>e lost. g_stage s = StageDone (Some e) lost)))"

lemma target_invI:
  "g_captions s = map fst (g_spoken s) @ dropped s @ g_jobs s @ held s \<Longrightarrow>
   length (g_jobs s) \<le> targetQueue \<Longrightarrow>
   (g_voice s = VoiceDrained \<Longrightarrow> g_jobs s = [] \<and> (\<exists>r lost. g_stage s = StageDone r lost)) \<Longrightarrow>
   (g_voice s \<noteq> Speaking \<longrightarrow> g_canceled s) \<Longrightarrow>
   segs = read @ failed @ g_in s \<Longrightarrow> list_all2 (\<lambda>x c. caption u l target x = Inr c) read (g_captions s) \<Longrightarrow>
   (\<And>lost. g_stage s = StageDone None lost \<Longrightarrow> lost = [] \<and> g_in s = []) \<Longrightarrow>
   failed = [] \<or> (\<exists>e lost. g_stage s = StageDone (Some e) lost) \<Longrightarrow> target_inv u l target segs s"
  unfolding target_inv_def by blast

lemma target_inv_init: "target_inv u l target segs (target_init segs sink)"
  by (rule target_invI [where read = "[]" and failed = "[]"]) (simp_all add: target_init_def held_def dropped_def targetQueue_def)

lemma target_inv_step:
  assumes "target_step u l target synth put s s'" "target_inv u l target segs s"
  shows "target_inv u l target segs s'"
proof -
  obtain read failed where i: "g_captions s = map fst (g_spoken s) @ dropped s @ g_jobs s @ held s"
    "length (g_jobs s) \<le> targetQueue"
    "g_voice s = VoiceDrained \<longrightarrow> g_jobs s = [] \<and> (\<exists>r lost. g_stage s = StageDone r lost)"
    "g_voice s \<noteq> Speaking \<longrightarrow> g_canceled s" "segs = read @ failed @ g_in s" "list_all2 (\<lambda>x c. caption u l target x = Inr c) read (g_captions s)"
    "\<forall>e lost. g_stage s = StageDone e lost \<longrightarrow> e = None \<longrightarrow> lost = [] \<and> g_in s = []"
    "failed = [] \<or> (\<exists>e lost. g_stage s = StageDone (Some e) lost)"
    using assms(2) unfolding target_inv_def by blast
  note simps = held_def dropped_def
  from assms(1) show ?thesis
  proof (cases rule: target_step.cases)
    case (captioned seg rest out)
    have "list_all2 (\<lambda>x c. caption u l target x = Inr c) (read @ [seg]) (g_captions s @ [out])"
      using i(6) captioned by (intro list_all2_appendI) simp_all
    then show ?thesis
      by (rule_tac target_invI [where read = "read @ [seg]" and failed = "[]"]) (use captioned i in \<open>auto simp: simps split: voice_stage.splits\<close>)
  next
    case (untranslated seg rest e)
    show ?thesis
      by (rule target_invI [where read = read and failed = "[seg]"])
        (use untranslated i in \<open>auto simp: simps split: voice_stage.splits\<close>)
  next
    case ended
    show ?thesis
      by (rule target_invI [where read = read and failed = failed])
        (use ended i in \<open>auto simp: simps split: voice_stage.splits\<close>)
  next
    case (enqueued out)
    show ?thesis
      by (rule target_invI [where read = read and failed = failed])
        (use enqueued i in \<open>auto simp: simps split: voice_stage.splits\<close>)
  next
    case stage_canceled
    show ?thesis
      by (rule target_invI [where read = read and failed = failed])
        (use stage_canceled i in \<open>auto simp: simps split: voice_stage.splits\<close>)
  next
    case (hold_canceled out)
    show ?thesis
      by (rule target_invI [where read = read and failed = failed])
        (use hold_canceled i in \<open>auto simp: simps split: voice_stage.splits\<close>)
  next
    case (spoken job jobs audio pcm peak e placed sink')
    show ?thesis
      by (rule target_invI [where read = read and failed = failed])
        (use spoken i in \<open>auto simp: simps split: translate_stage.splits\<close>)
  next
    case (unspoken job jobs e err sink')
    show ?thesis
      by (rule target_invI [where read = read and failed = failed])
        (use unspoken i in \<open>auto simp: simps split: translate_stage.splits\<close>)
  next
    case (speak_canceled job jobs)
    show ?thesis
      by (rule target_invI [where read = read and failed = failed])
        (use speak_canceled i in \<open>auto simp: simps split: translate_stage.splits\<close>)
  next
    case (drained r lost)
    show ?thesis
      by (rule target_invI [where read = read and failed = failed])
        (use drained i in \<open>auto simp: simps\<close>)
  next
    case outer_canceled
    show ?thesis
      by (rule target_invI [where read = read and failed = failed]) (use outer_canceled i in \<open>auto simp: simps\<close>)
  qed
qed

lemma target_inv_reach:
  "(target_step u l target synth put)\<^sup>*\<^sup>* (target_init segs sink) s \<Longrightarrow> target_inv u l target segs s"
  by (induction rule: rtranclp_induct) (auto intro: target_inv_init target_inv_step)

text \<open>The takes a target spoke are the complete takes of its captions.\<close>

definition takes_ok :: "lang \<Rightarrow> (lang \<Rightarrow> gostr \<Rightarrow> gostr + AudioStream) \<Rightarrow> 's target_state \<Rightarrow> bool" where
  "takes_ok target synth s \<longleftrightarrow>
     list_all (\<lambda>(job, pcm). \<exists>audio peak. synth target (TText job) = Inr audio \<and> collectVoiceTake audio = Inr (pcm, peak))
       (g_spoken s)"

lemma takes_ok_step:
  "target_step u l target synth put s s' \<Longrightarrow> takes_ok target synth s \<Longrightarrow> takes_ok target synth s'"
  by (cases rule: target_step.cases) (auto simp: takes_ok_def)

lemma takes_ok_reach:
  "(target_step u l target synth put)\<^sup>*\<^sup>* (target_init segs sink) s \<Longrightarrow> takes_ok target synth s"
  by (induction rule: rtranclp_induct) (simp add: takes_ok_def target_init_def, blast intro: takes_ok_step)

context voice_sink begin

lemma step_laid:
  assumes "target_step u l target synth put s s'" "laid old (map snd (g_spoken s)) (timeline (g_sink s))"
  shows "laid old (map snd (g_spoken s')) (timeline (g_sink s'))"
  using assms(1)
proof (cases rule: target_step.cases)
  case (spoken job jobs audio pcm peak e placed sink')
  then have "put e (ScheduleAt job) pcm (g_sink s) = (placed, sink')"
    by (auto simp: speak_ok)
  with put_tail [of e "ScheduleAt job" pcm "g_sink s"] obtain k g where
    "timeline sink' = drop k (timeline (g_sink s) @ replicate g 0 @ pcm)" by auto
  from laid_snoc [OF assms(2) this] spoken show ?thesis by simp
next
  case (unspoken job jobs e err sink')
  then have "sink' = g_sink s" by (metis speak_err)
  with unspoken assms(2) show ?thesis by simp
qed (use assms(2) in simp_all)

lemma reach_laid:
  "(target_step u l target synth put)\<^sup>*\<^sup>* (target_init segs sink) s \<Longrightarrow>
    laid (timeline sink) (map snd (g_spoken s)) (timeline (g_sink s))"
  by (induction rule: rtranclp_induct) (simp add: target_init_def laid_Nil, rule step_laid)

end

interpretation track_sink: voice_sink Append buf_list
proof
  fix now at and pcm :: "sample list" and t
  have "\<exists>k. buf_list (trim x) = drop k (buf_list x)" for x
    by (rule trim_cases [of x]) (auto simp: trim_cut_def Let_def buf_list_def intro: exI [of _ 0])
  then obtain k where "buf_list (trim (append_raw now at pcm t)) = drop k (buf_list (append_raw now at pcm t))" by blast
  then show "\<exists>k g. buf_list (snd (Append now at pcm t)) = drop k (buf_list t @ replicate g 0 @ pcm)"
    by (auto simp: Append_raw buf_append_raw)
qed

interpretation queue_sink: voice_sink "\<lambda>e::unit. vq_Append" q_buf
proof
  fix e :: unit and at and pcm :: "sample list" and q
  have c: "q_buf (compact q) = drop (if consumedLocked q > 0 then nat (consumedLocked q) else 0) (q_buf q)"
    by (simp add: compact_def discardLocked_def)
  have s: "q_buf (shed r) = drop (if excess r > 0 then nat (excess r) else 0) (q_buf r)" for r
    by (simp add: shed_def discardLocked_def)
  obtain m where "q_buf (compact q) @ pcm = drop m (q_buf q @ pcm)"
    using drop_append_again c by metis
  then have b: "q_buf (enqueue pcm (compact q)) = drop m (q_buf q @ replicate 0 0 @ pcm)" by simp
  have "q_buf (snd (vq_Append at pcm q)) = drop ((if excess (enqueue pcm (compact q)) > 0
      then nat (excess (enqueue pcm (compact q))) else 0) + m) (q_buf q @ replicate 0 0 @ pcm)"
    unfolding vq_Append_steps s b by (rule drop_drop)
  then show "\<exists>k g. q_buf (snd (vq_Append at pcm q)) = drop k (q_buf q @ replicate g 0 @ pcm)" by blast
qed

text \<open>Every step consumes; nothing but a finished target is stuck.\<close>

definition stage_cost :: "translate_stage \<Rightarrow> nat" where
  "stage_cost g = (case g of Translating \<Rightarrow> 1 | Holding out \<Rightarrow> 3 | StageDone r lost \<Rightarrow> 0)"

definition target_cost :: "'s target_state \<Rightarrow> nat" where
  "target_cost s = 4 * length (g_in s) + length (g_jobs s) + stage_cost (g_stage s) +
     (if g_voice s = Speaking then 1 else 0) + (if g_canceled s then 0 else 1)"

lemma target_step_cost: "target_step u l target synth put s s' \<Longrightarrow> target_cost s' < target_cost s"
  by (cases rule: target_step.cases) (auto simp: target_cost_def stage_cost_def)

lemma target_run_cost: "(target_step u l target synth put ^^ n) s s' \<Longrightarrow> n + target_cost s' \<le> target_cost s"
proof (induction n arbitrary: s')
  case (Suc n)
  then obtain t where "(target_step u l target synth put ^^ n) s t" "target_step u l target synth put t s'" by auto
  with Suc.IH [of t] target_step_cost show ?case by fastforce
qed simp

lemma voice_progress:
  assumes v: "g_voice s = Speaking" and Cons: "g_jobs s = job # jobs"
  shows "\<exists>s'. target_step u l target synth put s s' \<and> g_jobs s' \<noteq> g_jobs s"
proof -
  obtain r sink' where sp: "speak synth (put undefined) target job (g_sink s) = (r, sink')" by fastforce
  show ?thesis
  proof (cases r)
    case (Inl err)
    from target_step.unspoken [where synth = synth, OF v Cons] sp Inl Cons show ?thesis by fastforce
  next
    case (Inr placed)
    then obtain audio pcm peak where "synth target (TText job) = Inr audio" "collectVoiceTake audio = Inr (pcm, peak)"
      using sp by (auto simp: speak_ok)
    from target_step.spoken [where synth = synth, OF v Cons this] sp Inr Cons show ?thesis by fastforce
  qed
qed

lemma target_progress:
  assumes inv: "target_inv u l target segs s" and nd: "\<not> target_done s"
  shows "\<exists>s'. target_step u l target synth put s s' \<and>
    (g_stage s' \<noteq> g_stage s \<or> g_voice s' \<noteq> g_voice s \<or> g_jobs s' \<noteq> g_jobs s)"
proof (cases "g_stage s")
  case Translating
  show ?thesis
  proof (cases "g_in s")
    case Nil
    from target_step.ended [OF Translating this] Translating show ?thesis by fastforce
  next
    case (Cons seg rest)
    show ?thesis
    proof (cases "caption u l target seg")
      case (Inl e)
      from target_step.untranslated [OF Translating Cons Inl] Translating show ?thesis by fastforce
    next
      case (Inr out)
      from target_step.captioned [OF Translating Cons Inr] Translating show ?thesis by fastforce
    qed
  qed
next
  case stage: (StageDone r lost)
  then have v: "g_voice s = Speaking" using nd by (auto simp: target_done_def)
  show ?thesis
  proof (cases "g_jobs s")
    case Nil
    from target_step.drained [OF v Nil stage] v show ?thesis by fastforce
  next
    case (Cons job jobs)
    show ?thesis using voice_progress [OF v Cons] by blast
  qed
next
  case (Holding out)
  show ?thesis
  proof (cases "length (g_jobs s) < targetQueue")
    case True
    from target_step.enqueued [OF Holding True] Holding show ?thesis by fastforce
  next
    case full: False
    show ?thesis
    proof (cases "g_voice s = Speaking")
      case False
      then have "g_canceled s" using inv by (auto simp: target_inv_def)
      from target_step.hold_canceled [OF this Holding] Holding show ?thesis by fastforce
    next
      case v: True
      from full obtain job jobs where Cons: "g_jobs s = job # jobs" by (cases "g_jobs s") (auto simp: targetQueue_def)
      show ?thesis using voice_progress [OF v Cons] by blast
    qed
  qed
qed

section \<open>Properties\<close>

text \<open>C4: when the source instants of the updates do not go backward, the captions of every target follow
  each other in source time: none starts before the previous one ends, none ends before it starts,
  and all lie between zero and the last instant. The last bound is what keeps the 64-bit product of
  a span and a character count from wrapping.\<close>

theorem captions_follow_the_source:
  assumes "distinct (l_targets l)" and "sorted (map instant xs)"
    and "\<forall>x \<in> set xs. 0 \<le> instant x \<and> instant x \<le> T \<and> text_weight (words_of (fst x)) \<le> M"
    and "clock \<le> T" and "0 \<le> T" and "0 \<le> M" and "T * M < 2 ^ 63"
  shows "\<exists>err st. consume u l xs (StreamClosed e clock) b = Some (err, st) \<and> (\<forall>w. within 0 (cs_queues st w) T)"
  using consume_ordered [OF assms(1,7,5,6,2,3,4)] by blast

definition demo_lane :: lane where
  "demo_lane = \<lparr>l_stream = \<lparr>Slug = str ''demo'', Source = str ''it'', Delay = 4 * second, FastTurn = False\<rparr>,
     l_targets = [str ''it'', str ''en''], l_supports = (\<lambda>a b. a = str ''it'' \<and> b = str ''en''),
     l_translate = (\<lambda>s t. Inr (SegText s))\<rparr>"

definition demo_final :: "string \<Rightarrow> duration \<Rightarrow> Transcript \<times> duration" where
  "demo_final s at = (\<lparr>Text = str s, TLang = [], SourceEnd = at, Stable = False, Final = True, HasSourceEnd = True\<rparr>, at)"

theorem captions_follow_the_source_witness:
  "\<exists>err st. consume ascii_tables demo_lane [demo_final ''ciao a tutti.'' second, demo_final ''bene'' (2 * second)]
     (StreamClosed None (2 * second)) None = Some (err, st) \<and> (\<forall>w. within 0 (cs_queues st w) (2 * second))"
  by (rule captions_follow_the_source [where M = 100]) code_simp+

text \<open>C7: a stream that ends cleanly gives every target the same texts: exactly the clauses of the
  committer, then its final flush, in order.\<close>

theorem every_target_hears_every_clause:
  assumes "distinct (l_targets l)" and "w \<in> set (l_targets l)"
    and "consume u l xs (StreamClosed None clock) b = Some (None, st)"
  shows "\<exists>out cm rest cm'. commit_all u (map fst xs) (newCommitter (FastTurn (l_stream l))) = Some (out, cm) \<and>
    flushHold cm = Some (rest, cm') \<and> map SegText (cs_queues st w) = out @ rest"
  using assms by (rule consume_content)

theorem every_target_hears_every_clause_witness:
  "\<exists>out cm rest cm'. commit_all ascii_tables [fst (demo_final ''ciao a tutti.'' second)] (newCommitter False) = Some (out, cm) \<and>
     flushHold cm = Some (rest, cm') \<and> [str ''ciao a tutti.''] = out @ rest"
proof -
  let ?r = "consume ascii_tables demo_lane [demo_final ''ciao a tutti.'' second] (StreamClosed None second) None"
  have "(case ?r of Some (e, st) \<Rightarrow> e = None \<and> map SegText (cs_queues st (str ''en'')) = [str ''ciao a tutti.''] | None \<Rightarrow> False)"
    by code_simp
  then obtain st where st: "?r = Some (None, st)" "map SegText (cs_queues st (str ''en'')) = [str ''ciao a tutti.'']"
    by (cases ?r) auto
  have t: "distinct (l_targets demo_lane)" "str ''en'' \<in> set (l_targets demo_lane)" by code_simp+
  have "\<not> FastTurn (l_stream demo_lane)" by (simp add: demo_lane_def)
  with every_target_hears_every_clause [OF t st(1)] st(2) show ?thesis by simp
qed

text \<open>No segment reaches the workers unless its language is known and every target either shares it
  or has a translation model for it; so the translator is never asked for a pair it does not have.\<close>

lemma only_supported_pairs_requested:
  assumes "distinct (l_targets l)" and "consume u l xs fin b = Some (err, st)"
    and "s \<in> set (cs_queues st w)" and "t \<in> set (l_targets l)"
  shows "SegLang s \<noteq> LangAuto \<and> (SameLang u (SegLang s) t \<or> l_supports l (SegLang s) t)"
proof -
  have "validateTranslationTargets u l (SegLang s) = None"
    using consume_gate [OF assms(1,2)] assms(3) by (auto simp: gate_inv_def)
  with assms(4) show ?thesis by (simp add: validateTranslationTargets_def validate_None)
qed

lemma only_supported_pairs_requested_witness:
  "l_supports demo_lane (str ''it'') (str ''en'')"
proof -
  let ?r = "consume ascii_tables demo_lane [demo_final ''ciao a tutti.'' second] StreamCanceled None"
  have "(case ?r of Some (e, st) \<Rightarrow> cs_queues st (str ''it'') \<noteq> [] \<and> SegLang (hd (cs_queues st (str ''it''))) = str ''it'' | None \<Rightarrow> False)"
    by code_simp
  then obtain e st where st: "?r = Some (e, st)" "cs_queues st (str ''it'') \<noteq> []" "SegLang (hd (cs_queues st (str ''it''))) = str ''it''"
    by (cases ?r) auto
  have t: "distinct (l_targets demo_lane)" "str ''en'' \<in> set (l_targets demo_lane)" by code_simp+
  have "hd (cs_queues st (str ''it'')) \<in> set (cs_queues st (str ''it''))" using st(2) by simp
  from only_supported_pairs_requested [OF t(1) st(1) this t(2)] st(3)
  have "SameLang ascii_tables (str ''it'') (str ''en'') \<or> ?thesis" by simp
  moreover have "\<not> SameLang ascii_tables (str ''it'') (str ''en'')" by code_simp
  ultimately show ?thesis by blast
qed

text \<open>A take reaches the playout whole or not at all: only when the synthesizer reports terminal
  success, with every chunk in order, not empty and below the ceiling; on every failure the sink is
  untouched.\<close>

lemma take_is_all_or_nothing:
  "case speak synth put target job sink of
     (Inl e, sink') \<Rightarrow> sink' = sink
   | (Inr placed, sink') \<Rightarrow>
       (\<exists>audio. synth target (TText job) = Inr audio \<and> as_result audio = ResultSent None \<and>
          concat (as_chunks audio) \<noteq> [] \<and> int (length (concat (as_chunks audio))) \<le> maxVoiceTakeSamples \<and>
          put (ScheduleAt job) (concat (as_chunks audio)) sink = (placed, sink'))"
proof -
  obtain r sink' where r: "speak synth put target job sink = (r, sink')" by fastforce
  show ?thesis
  proof (cases r)
    case (Inl e)
    with r speak_err show ?thesis by fastforce
  next
    case (Inr placed)
    with r have "\<exists>audio pcm peak. synth target (TText job) = Inr audio \<and> collectVoiceTake audio = Inr (pcm, peak) \<and>
        put (ScheduleAt job) pcm sink = (placed, sink')" by (simp add: speak_ok)
    then show ?thesis using r Inr by (auto simp: collect_spec)
  qed
qed

text \<open>C10: a target that ends without an error has captioned every segment it was given, in order, and
  spoken every caption exactly once, in the same order, each with its complete take.\<close>

theorem target_loses_nothing:
  assumes "(target_step u l target synth put)\<^sup>*\<^sup>* (target_init segs sink) s"
    and "target_done s" and "target_result s = None"
  shows "list_all2 (\<lambda>x c. caption u l target x = Inr c) segs (g_captions s) \<and>
    map fst (g_spoken s) = g_captions s \<and> takes_ok target synth s"
proof -
  have inv: "target_inv u l target segs s" using assms(1) by (rule target_inv_reach)
  have v: "g_voice s = VoiceDrained" using assms(2,3)
    by (cases "g_voice s") (auto simp: target_done_def target_result_def)
  then obtain lost where st: "g_stage s = StageDone None lost"
    using assms(2,3) by (auto simp: target_done_def target_result_def)
  with inv v have "g_jobs s = []" "lost = []" "g_in s = []" by (auto simp: target_inv_def)
  with inv v st show ?thesis
    using takes_ok_reach [OF assms(1)] by (auto simp: target_inv_def held_def dropped_def)
qed

definition demo_segment :: Segment where
  "demo_segment = \<lparr>SegText = str ''ciao'', SegLang = str ''it'', SpanFrom = 0, SpanTo = second\<rparr>"

definition demo_synth :: "lang \<Rightarrow> gostr \<Rightarrow> gostr + AudioStream" where
  "demo_synth target s = Inr \<lparr>as_chunks = [[1, 2], [], [3]], as_result = ResultSent None\<rparr>"

theorem target_loses_nothing_witness:
  "\<exists>s :: sample list target_state. g_sink s = [1, 2, 3] \<and> length (g_captions s) = 1 \<and>
     list_all2 (\<lambda>x c. caption ascii_tables demo_lane (str ''it'') x = Inr c) [demo_segment] (g_captions s)"
proof -
  let ?put = "\<lambda>(e::unit) (at::duration) pcm s. (at, s @ pcm :: sample list)"
  let ?step = "target_step ascii_tables demo_lane (str ''it'') demo_synth ?put"
  let ?c = "\<lparr>TSlug = str ''demo'', TText = str ''ciao'', ScheduleAt = 4 * second, TDuration = second\<rparr>"
  have cap: "caption ascii_tables demo_lane (str ''it'') demo_segment = Inr ?c" by code_simp
  let ?s0 = "target_init [demo_segment] ([] :: sample list)"
  let ?s1 = "?s0\<lparr>g_in := [], g_captions := [?c], g_stage := Holding ?c\<rparr>"
  let ?s2 = "?s1\<lparr>g_jobs := [?c], g_stage := Translating\<rparr>"
  let ?s3 = "?s2\<lparr>g_stage := StageDone None []\<rparr>"
  let ?s4 = "?s3\<lparr>g_jobs := [], g_spoken := [(?c, [1, 2, 3])], g_sink := [1, 2, 3]\<rparr>"
  let ?s5 = "?s4\<lparr>g_voice := VoiceDrained, g_canceled := True\<rparr>"
  have 1: "?step ?s0 ?s1" using target_step.captioned [of ?s0 demo_segment "[]", OF _ _ cap] by (simp add: target_init_def)
  have 2: "?step ?s1 ?s2" using target_step.enqueued [of ?s1 ?c] by (simp add: target_init_def targetQueue_def)
  have 3: "?step ?s2 ?s3" using target_step.ended [of ?s2] by (simp add: target_init_def)
  have sp: "collectVoiceTake \<lparr>as_chunks = [[1, 2], [], [3]], as_result = ResultSent None\<rparr> = Inr ([1, 2, 3 :: sample], 3)" by code_simp
  have "speak demo_synth (?put ()) (str ''it'') ?c (g_sink ?s3) = (Inr (4 * second), [1, 2, 3])"
    by (simp add: speak_def demo_synth_def sp target_init_def)
  from target_step.spoken [of ?s3 ?c "[]" demo_synth "str ''it''", OF _ _ _ sp this]
  have 4: "?step ?s3 ?s4" by (simp add: target_init_def demo_synth_def)
  have 5: "?step ?s4 ?s5" using target_step.drained [of ?s4 None "[]"] by (simp add: target_init_def)
  have "?step\<^sup>*\<^sup>* ?s0 ?s5"
    using 1 2 3 4 5 by (meson converse_rtranclp_into_rtranclp rtranclp.rtrancl_refl)
  moreover have "target_done ?s5" "target_result ?s5 = None" by (simp_all add: target_done_def target_result_def)
  ultimately have la: "list_all2 (\<lambda>x c. caption ascii_tables demo_lane (str ''it'') x = Inr c) [demo_segment] (g_captions ?s5)"
    using target_loses_nothing [of ascii_tables demo_lane "str ''it''" demo_synth ?put "[demo_segment]" "[]" ?s5] by blast
  show ?thesis
  proof (rule exI [of _ ?s5], intro conjI)
    show "g_sink ?s5 = [1, 2, 3]" by simp
    show "length (g_captions ?s5) = 1" by simp
  qed (rule la)
qed

text \<open>C12: a target cannot hang: every run of its two stages is bounded by the number of segments, and a
  state from which neither stage can move has both stages finished.\<close>

theorem target_always_finishes:
  assumes "(target_step u l target synth put ^^ n) (target_init segs sink) s"
  shows "n \<le> 4 * length segs + 3 \<and>
    (target_done s \<or> (\<exists>s'. target_step u l target synth put s s' \<and>
       (g_stage s' \<noteq> g_stage s \<or> g_voice s' \<noteq> g_voice s \<or> g_jobs s' \<noteq> g_jobs s)))"
proof -
  have "target_inv u l target segs s"
    using assms by (intro target_inv_reach relpowp_imp_rtranclp)
  from target_progress [OF this] target_run_cost [OF assms] show ?thesis
    by (auto simp: target_cost_def target_init_def stage_cost_def)
qed

theorem target_always_finishes_witness:
  "\<exists>s'. target_step ascii_tables demo_lane (str ''it'') demo_synth (\<lambda>(e::unit) at pcm s. (at, s @ pcm))
     (target_init [demo_segment] []) s'"
  using target_always_finishes [of 0 ascii_tables demo_lane "str ''it''" demo_synth "\<lambda>(e::unit) at pcm s. (at, s @ pcm)"
      "[demo_segment]" "[]" "target_init [demo_segment] []"]
  by (auto simp: target_done_def target_init_def)



end
