(* ===== verification/Session.thy ===== *)
theory Session
  imports Lang Complex_Main
begin

text \<open>
  \<^verbatim>\<open>internal/core/session/session.go\<close> and \<^verbatim>\<open>flags.go\<close>, with \<^verbatim>\<open>core.BedLevel\<close>: the session definition, its
  validation and the wire's flag map. \<^verbatim>\<open>net/url\<close> and \<^verbatim>\<open>strconv.ParseFloat\<close> are the record \<open>std\<close>, an
  argument of what uses them; nothing is assumed of it. Enumerations are the strings of the code.
\<close>

section \<open>The library arguments\<close>

datatype float_parse = FloatError | FloatNaN | FloatInf | FloatVal rat

record url =
  UScheme :: gostr
  UHost :: gostr
  UEscapedPath :: gostr

record std =
  std_unicode :: unicode
  std_parse_url :: "gostr \<Rightarrow> url option"
  std_parse_query :: "gostr \<Rightarrow> (gostr \<times> gostr list) list option"
  std_parse_float :: "gostr \<Rightarrow> float_parse"

section \<open>Data\<close>

type_synonym Profile = gostr

definition ProfileBroadcast :: Profile where "ProfileBroadcast = str ''broadcast''"
definition ProfileCall :: Profile where "ProfileCall = str ''call''"

definition Off :: gostr where "Off = str ''off''"
definition SubsVTT :: gostr where "SubsVTT = str ''vtt''"
definition SubsBurn :: gostr where "SubsBurn = str ''burn''"

record DubSelection =
  d_langs :: "lang list"
  d_chosen :: bool

datatype RuntimeState = StateNone | StateStarting | StateRunning | StateFinished | StateFailed

record RuntimeStatus =
  rs_State :: RuntimeState
  rs_Error :: gostr
  rs_gen :: nat

record Session =
  s_Slug :: gostr
  s_Profile :: Profile
  s_Pair :: gostr
  s_SourceLang :: lang
  s_Subs :: gostr
  s_Dub :: gostr
  s_Bed :: gostr
  s_URL :: gostr
  s_VideoDir :: gostr
  s_SourceDelay :: duration
  s_runtime :: RuntimeStatus
  s_Langs :: "lang list"
  s_DubLangs :: DubSelection
  s_Delay :: duration
  s_revision :: nat

datatype session_error =
    ErrNotFound gostr
  | ErrExists gostr
  | ErrCapacity nat
  | ErrInvalidSlug gostr
  | ErrInvalidSource string
  | ErrUnknownProfile gostr
  | ErrNoLanguages
  | ErrInvalidLanguage gostr
  | ErrInvalidDelay duration
  | ErrInvalidFlags gostr
  | ErrCheck gostr

definition MaxSessionDelay :: duration where "MaxSessionDelay = 60 * second"

definition reservedSlugs :: "gostr list" where
  "reservedSlugs = [str ''ui'', str ''api'', str ''healthz'', str ''metrics'']"

section \<open>Parsing options\<close>

definition normal_token :: "std \<Rightarrow> gostr \<Rightarrow> gostr" where
  "normal_token d s = ToLower (std_unicode d) (trim_space s)"

definition ParseProfile :: "std \<Rightarrow> gostr \<Rightarrow> session_error + Profile" where
  "ParseProfile d inp =
     (let p = normal_token d inp in
      if p = ProfileBroadcast \<or> p = ProfileCall then Inr p else Inl (ErrUnknownProfile inp))"

definition ParseSubs :: "std \<Rightarrow> gostr \<Rightarrow> session_error + gostr" where
  "ParseSubs d inp =
     (let mode = normal_token d inp in
      if mode = Off \<or> mode = SubsVTT \<or> mode = SubsBurn then Inr mode else Inl (ErrInvalidFlags inp))"

definition ParseDub :: "std \<Rightarrow> gostr \<Rightarrow> session_error + gostr" where
  "ParseDub d inp =
     (let mode = normal_token d inp in
      if mode = [] \<or> mode = Off then Inr mode else Inl (ErrInvalidFlags inp))"

datatype bed_level = BedMuted | BedLevelDb rat

definition trim_suffix :: "gostr \<Rightarrow> gostr \<Rightarrow> gostr" where
  "trim_suffix s suf = (if length suf \<le> length s \<and> drop (length s - length suf) s = suf
     then take (length s - length suf) s else s)"

definition BedLevel :: "std \<Rightarrow> gostr \<Rightarrow> bed_level option" where
  "BedLevel d raw =
     (let trimmed = trim_space raw in
      if EqualFold (std_unicode d) trimmed (str ''off'') then Some BedMuted
      else case std_parse_float d (trim_suffix trimmed (str ''dB'')) of
        FloatVal level \<Rightarrow> if level < -60 \<or> level > 0 then None else Some (BedLevelDb level)
      | _ \<Rightarrow> None)"

definition ParseBed :: "std \<Rightarrow> gostr \<Rightarrow> session_error + gostr" where
  "ParseBed d inp = (case BedLevel d inp of None \<Rightarrow> Inl (ErrInvalidFlags inp) | Some l \<Rightarrow> Inr inp)"

definition AllDubLangs :: DubSelection where
  "AllDubLangs = \<lparr>d_langs = [], d_chosen = False\<rparr>"

definition DubOnly :: "lang list \<Rightarrow> DubSelection" where
  "DubOnly ls = \<lparr>d_langs = ls, d_chosen = True\<rparr>"

definition ParseDubLangs :: "std \<Rightarrow> gostr \<Rightarrow> session_error + DubSelection" where
  "ParseDubLangs d inp =
     (case ParseList (std_unicode d) inp of
        Inl e \<Rightarrow> Inl (ErrInvalidFlags inp)
      | Inr parsed \<Rightarrow> Inr (DubOnly parsed))"

definition dub_string :: "DubSelection \<Rightarrow> gostr" where
  "dub_string s = join (str '','') (d_langs s)"

definition retain :: "DubSelection \<Rightarrow> lang list \<Rightarrow> DubSelection" where
  "retain s langs =
     (if \<not> d_chosen s then s
      else \<lparr>d_langs = filter (\<lambda>target. target \<in> set (d_langs s)) langs, d_chosen = True\<rparr>)"

fun check_dub :: "lang list \<Rightarrow> lang list \<Rightarrow> lang list \<Rightarrow> session_error option" where
  "check_dub targets seen [] = None"
| "check_dub targets seen (t # ts) =
     (if t \<notin> set targets \<or> t \<in> set seen then Some (ErrInvalidFlags t) else check_dub targets (t # seen) ts)"

definition validate_dub :: "DubSelection \<Rightarrow> lang list \<Rightarrow> session_error option" where
  "validate_dub s targets = (if \<not> d_chosen s then None else check_dub targets [] (d_langs s))"

section \<open>Validation\<close>

text \<open>\<open>None\<close> is success. \<open>unicode.IsControl\<close> is the category Cc.\<close>

definition is_control :: "rune \<Rightarrow> bool" where
  "is_control r \<longleftrightarrow> (0 \<le> r \<and> r < 32) \<or> (127 \<le> r \<and> r < 160)"

definition slugRune :: "rune \<Rightarrow> bool" where
  "slugRune r \<longleftrightarrow> (97 \<le> r \<and> r \<le> 122) \<or> (48 \<le> r \<and> r \<le> 57) \<or> r = 45"

definition slugOK :: "gostr \<Rightarrow> bool" where
  "slugOK s =
     (if s = [] \<or> blen s > 63 \<or> hd s = 45 \<or> last s = 45 then False else list_all slugRune s)"

definition validateDeviceSource :: "gostr \<Rightarrow> session_error option" where
  "validateDeviceSource rest =
     (case str_cut rest (str ''/'') of (kind, ident, ok) \<Rightarrow>
        if \<not> ok \<or> ident = [] then Some (ErrInvalidSource ''device identifier is required'')
        else if kind = str ''audio'' then None
        else if kind = str ''av'' then
          (case str_cut ident (str ''|'') of (video, audio, paired) \<Rightarrow>
             if \<not> paired \<or> video = [] \<or> audio = []
             then Some (ErrInvalidSource ''paired device needs camera and microphone identifiers'') else None)
        else Some (ErrInvalidSource ''unsupported device kind''))"

definition validateFileSource :: "std \<Rightarrow> gostr \<Rightarrow> session_error option" where
  "validateFileSource d rest =
     (case str_cut rest (str ''?'') of (path, query, _) \<Rightarrow>
        if path = [] then Some (ErrInvalidSource ''file path is required'')
        else case std_parse_query d query of
          None \<Rightarrow> Some (ErrInvalidSource ''malformed query'')
        | Some vals \<Rightarrow>
            if \<exists>kv \<in> set vals. fst kv \<noteq> str ''loop'' then Some (ErrInvalidSource ''unsupported file query parameter'')
            else (case map_of vals (str ''loop'') of
                    None \<Rightarrow> None
                  | Some loop \<Rightarrow>
                      if loop = [str ''true''] \<or> loop = [str ''false''] then None
                      else Some (ErrInvalidSource ''loop must be exactly true or false'')))"

definition validateNetworkSource :: "std \<Rightarrow> gostr \<Rightarrow> gostr \<Rightarrow> session_error option" where
  "validateNetworkSource d raw scheme =
     (case std_parse_url d raw of
        None \<Rightarrow> Some (ErrInvalidSource ''malformed URL'')
      | Some parsed \<Rightarrow>
          if UScheme parsed \<noteq> scheme \<or> UHost parsed = [] then Some (ErrInvalidSource ''malformed URL'')
          else if scheme = str ''rtmp'' \<and> trim_func (\<lambda>r. r = 47) (UEscapedPath parsed) = []
          then Some (ErrInvalidSource ''RTMP stream path is required'') else None)"

definition validateSource :: "std \<Rightarrow> Session \<Rightarrow> session_error option" where
  "validateSource d s =
     (let raw = s_URL s in
      if raw = [] then Some (ErrInvalidSource ''URL is required'')
      else if \<exists>r \<in> set raw. is_control r then Some (ErrInvalidSource ''URL contains control characters'')
      else case str_cut raw (str ''://'') of (scheme, rest, ok) \<Rightarrow>
        if \<not> ok \<or> scheme \<noteq> ToLower (std_unicode d) scheme
        then Some (ErrInvalidSource ''URL needs a lowercase scheme'')
        else if scheme = str ''file'' then validateFileSource d rest
        else if scheme = str ''device'' then validateDeviceSource rest
        else if scheme = str ''rtmp'' \<or> scheme = str ''srt'' then validateNetworkSource d raw scheme
        else Some (ErrInvalidSource ''unsupported scheme''))"

definition validateIdentity :: "std \<Rightarrow> Session \<Rightarrow> session_error option" where
  "validateIdentity d s =
     (if \<not> slugOK (s_Slug s) then Some (ErrInvalidSlug (s_Slug s))
      else if s_Slug s \<in> set reservedSlugs then Some (ErrInvalidSlug (s_Slug s))
      else case ParseProfile d (s_Profile s) of Inl e \<Rightarrow> Some e | Inr p \<Rightarrow> None)"

definition validateLimits :: "Session \<Rightarrow> session_error option" where
  "validateLimits s =
     (if s_Delay s < 0 \<or> s_Delay s > MaxSessionDelay then Some (ErrInvalidDelay (s_Delay s)) else None)"

fun check_langs :: "std \<Rightarrow> lang list \<Rightarrow> lang list \<Rightarrow> session_error option" where
  "check_langs d seen [] = None"
| "check_langs d seen (target # ts) =
     (case Parse (std_unicode d) target of
        Inl e \<Rightarrow> Some (ErrInvalidLanguage target)
      | Inr parsed \<Rightarrow>
          if parsed = LangAuto \<or> parsed \<noteq> target then Some (ErrInvalidLanguage target)
          else if target \<in> set seen then Some (ErrInvalidLanguage target)
          else check_langs d (target # seen) ts)"

definition validateLanguages :: "std \<Rightarrow> Session \<Rightarrow> session_error option" where
  "validateLanguages d s = (if s_Langs s = [] then Some ErrNoLanguages else check_langs d [] (s_Langs s))"

definition validateModes :: "std \<Rightarrow> Session \<Rightarrow> session_error option" where
  "validateModes d s =
     (case (if s_Subs s \<noteq> [] then ParseSubs d (s_Subs s) else Inr []) of
        Inl e \<Rightarrow> Some e
      | Inr _ \<Rightarrow>
          (case ParseDub d (s_Dub s) of
             Inl e \<Rightarrow> Some e
           | Inr _ \<Rightarrow>
               if s_Bed s = [] then None
               else (case ParseBed d (s_Bed s) of Inl e \<Rightarrow> Some e | Inr _ \<Rightarrow> None)))"

definition validatePair :: "Session \<Rightarrow> session_error option" where
  "validatePair s =
     (if s_Pair s = [] then None
      else if \<not> slugOK (s_Pair s) then Some (ErrInvalidFlags (s_Pair s))
      else if s_Pair s = s_Slug s then Some (ErrInvalidFlags (s_Slug s))
      else None)"

definition first_error :: "session_error option \<Rightarrow> session_error option \<Rightarrow> session_error option" where
  "first_error a b = (case a of Some e \<Rightarrow> Some e | None \<Rightarrow> b)"

definition validateMedia :: "std \<Rightarrow> Session \<Rightarrow> session_error option" where
  "validateMedia d s =
     first_error (validateModes d s) (first_error (validatePair s)
       (if d_chosen (s_DubLangs s) \<and> s_Dub s = Off then Some (ErrInvalidFlags (str ''dub''))
        else validate_dub (s_DubLangs s) (s_Langs s)))"

definition validate :: "std \<Rightarrow> Session \<Rightarrow> session_error option" where
  "validate d s =
     first_error (validateIdentity d s) (first_error (validateLimits s) (first_error (validateSource d s)
       (first_error (validateLanguages d s) (validateMedia d s))))"

section \<open>The flag map\<close>

definition FlagSubs :: gostr where "FlagSubs = str ''subs''"
definition FlagDub :: gostr where "FlagDub = str ''dub''"
definition FlagDubLangs :: gostr where "FlagDubLangs = str ''dub_langs''"
definition FlagBed :: gostr where "FlagBed = str ''bed''"
definition FlagSource :: gostr where "FlagSource = str ''source''"
definition FlagPair :: gostr where "FlagPair = str ''pair''"

text \<open>\<open>assign\<close>: an empty value leaves the field alone.\<close>

definition assign :: "gostr \<Rightarrow> gostr \<Rightarrow> (gostr \<Rightarrow> 'e + gostr) \<Rightarrow> session_error + gostr" where
  "assign field v parse =
     (if v = [] then Inr field else case parse v of Inl e \<Rightarrow> Inl (ErrInvalidFlags v) | Inr p \<Rightarrow> Inr p)"

definition applyFlag :: "std \<Rightarrow> gostr \<Rightarrow> gostr \<Rightarrow> Session \<Rightarrow> session_error + Session" where
  "applyFlag d key v s =
     (if key = FlagSubs then map_sum id (\<lambda>x. s\<lparr>s_Subs := x\<rparr>) (assign (s_Subs s) v (ParseSubs d))
      else if key = FlagDub then map_sum id (\<lambda>x. s\<lparr>s_Dub := x\<rparr>) (assign (s_Dub s) v (ParseDub d))
      else if key = FlagBed then map_sum id (\<lambda>x. s\<lparr>s_Bed := x\<rparr>) (assign (s_Bed s) v (ParseBed d))
      else if key = FlagDubLangs then map_sum id (\<lambda>x. s\<lparr>s_DubLangs := x\<rparr>) (ParseDubLangs d v)
      else if key = FlagSource
      then map_sum id (\<lambda>x. s\<lparr>s_SourceLang := x\<rparr>) (assign (s_SourceLang s) v (Parse (std_unicode d)))
      else if key = FlagPair
      then (if v \<noteq> [] \<and> \<not> slugOK v then Inl (ErrInvalidFlags v) else Inr (s\<lparr>s_Pair := v\<rparr>))
      else Inl (ErrInvalidFlags key))"

text \<open>Go ranges over the map in any order; the list is one of them. The session is the one mutated so
  far, also when an entry fails.\<close>

fun ApplyFlags :: "std \<Rightarrow> (gostr \<times> gostr) list \<Rightarrow> Session \<Rightarrow> session_error option \<times> Session" where
  "ApplyFlags d [] s = (None, s)"
| "ApplyFlags d ((k, v) # kvs) s =
     (case applyFlag d k v s of Inl e \<Rightarrow> (Some e, s) | Inr s' \<Rightarrow> ApplyFlags d kvs s')"

definition setFlag :: "gostr \<Rightarrow> gostr \<Rightarrow> (gostr \<times> gostr) list \<Rightarrow> (gostr \<times> gostr) list" where
  "setFlag key v flags = (if v \<noteq> [] then AList.update key v flags else flags)"

definition FlagsWire :: "Session \<Rightarrow> (gostr \<times> gostr) list" where
  "FlagsWire s =
     (let flags = setFlag FlagPair (s_Pair s) (setFlag FlagSource (s_SourceLang s) (setFlag FlagBed (s_Bed s)
                    (setFlag FlagDub (s_Dub s) (setFlag FlagSubs (s_Subs s) []))))
      in if d_chosen (s_DubLangs s) then AList.update FlagDubLangs (dub_string (s_DubLangs s)) flags else flags)"

definition sameMedia :: "Session \<Rightarrow> Session \<Rightarrow> bool" where
  "sameMedia a b \<longleftrightarrow> s_Subs a = s_Subs b \<and> s_Dub a = s_Dub b \<and> s_Bed a = s_Bed b \<and> s_Pair a = s_Pair b \<and>
     s_SourceLang a = s_SourceLang b \<and> d_chosen (s_DubLangs a) = d_chosen (s_DubLangs b) \<and>
     d_langs (s_DubLangs a) = d_langs (s_DubLangs b)"

definition DubbedLangs :: "Session \<Rightarrow> lang list" where
  "DubbedLangs s =
     (if s_Dub s = Off then []
      else if \<not> d_chosen (s_DubLangs s) then s_Langs s
      else filter (\<lambda>target. target \<in> set (d_langs (s_DubLangs s))) (s_Langs s))"

section \<open>What validation accepts\<close>

lemma first_error_None [simp]: "first_error a b = None \<longleftrightarrow> a = None \<and> b = None"
  by (simp add: first_error_def split: option.split)

lemma check_dub_None:
  "check_dub targets seen ts = None \<longleftrightarrow> distinct ts \<and> set ts \<subseteq> set targets \<and> set ts \<inter> set seen = {}"
  by (induction ts arbitrary: seen) auto

lemma check_langs_None:
  "check_langs d seen ts = None \<longleftrightarrow> distinct ts \<and> set ts \<inter> set seen = {} \<and>
    (\<forall>t \<in> set ts. t \<noteq> LangAuto \<and> Parse (std_unicode d) t = Inr t)"
proof (induction ts arbitrary: seen)
  case (Cons t ts)
  show ?case by (cases "Parse (std_unicode d) t") (auto simp: Cons.IH)
qed simp

definition valid_session :: "std \<Rightarrow> Session \<Rightarrow> bool" where
  "valid_session d s \<longleftrightarrow>
     slugOK (s_Slug s) \<and> s_Slug s \<notin> set reservedSlugs \<and>
     0 \<le> s_Delay s \<and> s_Delay s \<le> MaxSessionDelay \<and>
     s_Langs s \<noteq> [] \<and> distinct (s_Langs s) \<and>
     (\<forall>t \<in> set (s_Langs s). t \<noteq> LangAuto \<and> Parse (std_unicode d) t = Inr t) \<and>
     (s_Pair s = [] \<or> slugOK (s_Pair s) \<and> s_Pair s \<noteq> s_Slug s) \<and>
     (d_chosen (s_DubLangs s) \<longrightarrow> s_Dub s \<noteq> Off \<and> distinct (d_langs (s_DubLangs s)) \<and>
        set (d_langs (s_DubLangs s)) \<subseteq> set (s_Langs s))"

lemma validate_sound: "validate d s = None \<Longrightarrow> valid_session d s"
  by (auto simp: validate_def validateMedia_def validateIdentity_def validateLimits_def validateLanguages_def
      validatePair_def validate_dub_def valid_session_def check_langs_None check_dub_None split: if_splits)

lemma slug_bytes: "slugOK s \<Longrightarrow> length s \<le> 63 \<and> s \<noteq> [] \<and> (\<forall>r \<in> set s. r \<noteq> 47 \<and> r \<noteq> 46 \<and> r < 128)"
  using length_le_blen [of s] by (auto simp: slugOK_def list_all_iff slugRune_def split: if_splits)

section \<open>The flag map goes round\<close>

definition plain_options :: "std \<Rightarrow> Session \<Rightarrow> bool" where
  "plain_options d s \<longleftrightarrow>
     s_Subs s \<in> {[], Off, SubsVTT, SubsBurn} \<and> s_Dub s \<in> {[], Off} \<and>
     (s_Bed s = [] \<or> BedLevel d (s_Bed s) \<noteq> None) \<and>
     (s_SourceLang s = LangAuto \<or> canonical (s_SourceLang s)) \<and>
     (s_Pair s = [] \<or> slugOK (s_Pair s)) \<and>
     (if d_chosen (s_DubLangs s)
      then distinct (d_langs (s_DubLangs s)) \<and> (\<forall>t \<in> set (d_langs (s_DubLangs s)). canonical t)
      else d_langs (s_DubLangs s) = [])"

lemma lower_token:
  assumes "unicode_ok (std_unicode d)" "t \<noteq> []" "list_all is_lower_ascii t"
  shows "normal_token d t = t"
proof -
  have sp: "\<not> is_space (hd t)" "\<not> is_space (last t)"
    using assms(2,3) letter_plain by (auto simp: list_all_iff)
  have "map (u_to_lower (std_unicode d)) t = t"
    by (rule map_idI) (use assms(1,3) in \<open>auto simp: unicode_ok_def list_all_iff\<close>)
  with trim_func_id [OF assms(2) sp] show ?thesis by (simp add: normal_token_def ToLower_def trim_space_def)
qed

lemma token_letters: "list_all (\<lambda>t. t \<noteq> [] \<and> list_all is_lower_ascii t) [Off, SubsVTT, SubsBurn]"
  by code_simp

lemma parse_plain_subs:
  "unicode_ok (std_unicode d) \<Longrightarrow> v \<in> {Off, SubsVTT, SubsBurn} \<Longrightarrow> ParseSubs d v = Inr v"
  using lower_token [of d v] token_letters by (auto simp: ParseSubs_def)

lemma parse_plain_dub: "unicode_ok (std_unicode d) \<Longrightarrow> ParseDub d Off = Inr Off"
  using lower_token [of d Off] token_letters by (simp add: ParseDub_def Let_def)

lemma canonical_plain: "canonical t \<Longrightarrow> t \<noteq> [] \<and> trim_space t \<noteq> [] \<and> 44 \<notin> set t"
proof -
  assume "canonical t"
  then obtain e where e: "e \<in> set registry" "t = Tag e \<or> (\<exists>a b. is_upper_ascii a \<and> is_upper_ascii b \<and> t = Tag e @ [45, a, b])"
    by (auto simp: canonical_def)
  obtain x y where xy: "Tag e = [x, y]" "is_lower_ascii x" "is_lower_ascii y" using e(1) by (rule tag_shape)
  have ne: "t \<noteq> []" using e(2) xy(1) by auto
  have l: "\<not> is_space (hd t)" "\<not> is_space (last t)" "44 \<notin> set t"
    using e(2) xy letter_plain by (auto simp: is_lower_ascii_def is_upper_ascii_def)
  have "trim_space t = t" unfolding trim_space_def by (rule trim_func_id [OF ne l(1,2)])
  with ne l(3) show ?thesis by simp
qed

lemma split_join: "ls \<noteq> [] \<Longrightarrow> \<forall>t \<in> set ls. 44 \<notin> set t \<Longrightarrow> str_split 44 (join (str '','') ls) = ls"
proof (induction "str '',''" ls rule: join.induct)
  case (2 x)
  then show ?case by (simp add: str_split_def split_acc_no_sep)
next
  case (3 x y xs)
  then have "str_split 44 (join (str '','') (y # xs)) = y # xs" by simp
  with 3 show ?case by (simp add: str_split_def split_acc_append) (simp add: str_def split_acc_append)
qed simp

lemma parse_items_canonical:
  assumes "unicode_ok u" "\<forall>t \<in> set ls. canonical t" "distinct (out @ ls)"
  shows "parse_items u ls out = Inr (out @ ls)"
  using assms(2,3)
proof (induction ls arbitrary: out)
  case (Cons t ls)
  have "Parse u t = Inr t" "trim_space t \<noteq> []" "t \<noteq> LangAuto"
    using Cons.prems(1) Parse_of_canonical [OF assms(1)] canonical_plain canonical_nonempty by auto
  with Cons.IH [of "out @ [t]"] Cons.prems show ?case by auto
qed simp

lemma parse_dub_string:
  assumes "unicode_ok (std_unicode d)" "distinct ls" "\<forall>t \<in> set ls. canonical t"
  shows "ParseDubLangs d (join (str '','') ls) = Inr (DubOnly ls)"
proof (cases "ls = []")
  case True
  then show ?thesis by (simp add: ParseDubLangs_def ParseList_def str_split_def trim_space_def trim_func_def)
next
  case False
  have "str_split 44 (join (str '','') ls) = ls"
    by (rule split_join) (use False assms(3) canonical_plain in auto)
  with parse_items_canonical [OF assms(1,3), of "[]"] assms(2) show ?thesis
    by (simp add: ParseDubLangs_def ParseList_def)
qed

lemma flag_keys: "distinct [FlagSubs, FlagDub, FlagBed, FlagDubLangs, FlagSource, FlagPair]"
  by code_simp

lemma flag_neq [simp]: "FlagSubs \<noteq> FlagDub" "FlagSubs \<noteq> FlagBed" "FlagSubs \<noteq> FlagDubLangs" "FlagSubs
  \<noteq> FlagSource" "FlagSubs \<noteq> FlagPair" "FlagDub \<noteq> FlagSubs" "FlagDub \<noteq>
  FlagBed" "FlagDub \<noteq> FlagDubLangs" "FlagDub \<noteq> FlagSource" "FlagDub \<noteq> FlagPair"
  "FlagBed \<noteq> FlagSubs" "FlagBed \<noteq> FlagDub" "FlagBed \<noteq> FlagDubLangs" "FlagBed
  \<noteq> FlagSource" "FlagBed \<noteq> FlagPair" "FlagDubLangs \<noteq> FlagSubs" "FlagDubLangs
  \<noteq> FlagDub" "FlagDubLangs \<noteq> FlagBed" "FlagDubLangs \<noteq> FlagSource" "FlagDubLangs
  \<noteq> FlagPair" "FlagSource \<noteq> FlagSubs" "FlagSource \<noteq> FlagDub" "FlagSource \<noteq>
  FlagBed" "FlagSource \<noteq> FlagDubLangs" "FlagSource \<noteq> FlagPair" "FlagPair \<noteq>
  FlagSubs" "FlagPair \<noteq> FlagDub" "FlagPair \<noteq> FlagBed" "FlagPair \<noteq> FlagDubLangs"
  "FlagPair \<noteq> FlagSource"
  using flag_keys by auto

definition wire_ok :: "Session \<Rightarrow> gostr \<times> gostr \<Rightarrow> bool" where
  "wire_ok s kv \<longleftrightarrow>
     kv = (FlagDubLangs, dub_string (s_DubLangs s)) \<and> d_chosen (s_DubLangs s) \<or>
     kv = (FlagPair, s_Pair s) \<and> s_Pair s \<noteq> [] \<or> kv = (FlagSource, s_SourceLang s) \<and> s_SourceLang s \<noteq> [] \<or>
     kv = (FlagBed, s_Bed s) \<and> s_Bed s \<noteq> [] \<or> kv = (FlagDub, s_Dub s) \<and> s_Dub s \<noteq> [] \<or>
     kv = (FlagSubs, s_Subs s) \<and> s_Subs s \<noteq> []"

lemma set_setFlag:
  "k \<notin> fst ` set al \<Longrightarrow> set (setFlag k v al) = (if v = [] then set al else insert (k, v) (set al))"
  by (induction al) (auto simp: setFlag_def)

lemma set_update_fresh: "k \<notin> fst ` set al \<Longrightarrow> set (AList.update k v al) = insert (k, v) (set al)"
  by (induction al) auto

lemma image_single: "fst ` {kv. kv = (k, v) \<and> P} = (if P then {k} else {})"
  by auto

lemma FlagsWire_entries: "kv \<in> set (FlagsWire s) \<longleftrightarrow> wire_ok s kv"
proof -
  let ?a = "setFlag FlagSubs (s_Subs s) []"
  let ?b = "setFlag FlagDub (s_Dub s) ?a"
  let ?c = "setFlag FlagBed (s_Bed s) ?b"
  let ?d = "setFlag FlagSource (s_SourceLang s) ?c"
  let ?e = "setFlag FlagPair (s_Pair s) ?d"
  have a: "set ?a = {kv. kv = (FlagSubs, s_Subs s) \<and> s_Subs s \<noteq> []}" by (simp add: set_setFlag)
  have b: "set ?b = {kv. kv = (FlagDub, s_Dub s) \<and> s_Dub s \<noteq> []} \<union> set ?a"
    by (subst set_setFlag) (unfold a image_Un image_single, simp_all)
  have c: "set ?c = {kv. kv = (FlagBed, s_Bed s) \<and> s_Bed s \<noteq> []} \<union> set ?b"
    by (subst set_setFlag) (unfold b a image_Un image_single, simp_all)
  have e: "set ?d = {kv. kv = (FlagSource, s_SourceLang s) \<and> s_SourceLang s \<noteq> []} \<union> set ?c"
    by (subst set_setFlag) (unfold c b a image_Un image_single, simp_all)
  have f: "set ?e = {kv. kv = (FlagPair, s_Pair s) \<and> s_Pair s \<noteq> []} \<union> set ?d"
    by (subst set_setFlag) (unfold e c b a image_Un image_single, simp_all)
  have fresh: "FlagDubLangs \<notin> fst ` set ?e" unfolding f e c b a image_Un image_single by simp
  have "set (FlagsWire s) = {kv. kv = (FlagDubLangs, dub_string (s_DubLangs s)) \<and> d_chosen (s_DubLangs s)} \<union> set ?e"
    using set_update_fresh [OF fresh] by (auto simp: FlagsWire_def Let_def)
  then show ?thesis unfolding f e c b a wire_ok_def by (simp only: Un_iff mem_Collect_eq)
qed

definition put_field :: "gostr \<Rightarrow> Session \<Rightarrow> Session \<Rightarrow> Session" where
  "put_field k s0 s =
     (if k = FlagSubs then s\<lparr>s_Subs := s_Subs s0\<rparr> else if k = FlagDub then s\<lparr>s_Dub := s_Dub s0\<rparr>
      else if k = FlagBed then s\<lparr>s_Bed := s_Bed s0\<rparr> else if k = FlagDubLangs then s\<lparr>s_DubLangs := s_DubLangs s0\<rparr>
      else if k = FlagSource then s\<lparr>s_SourceLang := s_SourceLang s0\<rparr>
      else if k = FlagPair then s\<lparr>s_Pair := s_Pair s0\<rparr> else s)"

lemma put_field_simps:
  "s_Subs (put_field k s0 s) = (if k = FlagSubs then s_Subs s0 else s_Subs s)"
  "s_Dub (put_field k s0 s) = (if k = FlagDub then s_Dub s0 else s_Dub s)"
  "s_Bed (put_field k s0 s) = (if k = FlagBed then s_Bed s0 else s_Bed s)"
  "s_DubLangs (put_field k s0 s) = (if k = FlagDubLangs then s_DubLangs s0 else s_DubLangs s)"
  "s_SourceLang (put_field k s0 s) = (if k = FlagSource then s_SourceLang s0 else s_SourceLang s)"
  "s_Pair (put_field k s0 s) = (if k = FlagPair then s_Pair s0 else s_Pair s)"
  by (simp_all add: put_field_def)

lemma apply_wire_entry:
  assumes "unicode_ok (std_unicode d)" "plain_options d s0" "wire_ok s0 (k, v)"
  shows "applyFlag d k v s = Inr (put_field k s0 s)"
proof -
  have p: "s_Subs s0 \<noteq> [] \<Longrightarrow> s_Subs s0 \<in> {Off, SubsVTT, SubsBurn}" "s_Dub s0 \<noteq> [] \<Longrightarrow> s_Dub s0 = Off"
    "s_Bed s0 \<noteq> [] \<Longrightarrow> BedLevel d (s_Bed s0) \<noteq> None" "s_SourceLang s0 \<noteq> [] \<Longrightarrow> canonical (s_SourceLang s0)"
    "s_Pair s0 \<noteq> [] \<Longrightarrow> slugOK (s_Pair s0)"
    "d_chosen (s_DubLangs s0) \<Longrightarrow> distinct (d_langs (s_DubLangs s0)) \<and> (\<forall>t \<in> set (d_langs (s_DubLangs s0)). canonical t)"
    using assms(2) unfolding plain_options_def LangAuto_def by auto
  consider "k = FlagSubs" "v = s_Subs s0" "v \<noteq> []" | "k = FlagDub" "v = s_Dub s0" "v \<noteq> []"
    | "k = FlagBed" "v = s_Bed s0" "v \<noteq> []" | "k = FlagSource" "v = s_SourceLang s0" "v \<noteq> []"
    | "k = FlagPair" "v = s_Pair s0" "v \<noteq> []"
    | "k = FlagDubLangs" "v = dub_string (s_DubLangs s0)" "d_chosen (s_DubLangs s0)"
    using assms(3) unfolding wire_ok_def prod.inject by (elim disjE conjE; simp)
  then show ?thesis
  proof cases
    case 1
    then have "ParseSubs d v = Inr v" using p(1) parse_plain_subs [OF assms(1)] by simp
    with 1 show ?thesis by (simp add: applyFlag_def assign_def put_field_def)
  next
    case 2
    then have "ParseDub d v = Inr v" using p(2) parse_plain_dub [OF assms(1)] by simp
    with 2 show ?thesis by (simp add: applyFlag_def assign_def put_field_def)
  next
    case 3
    then have "ParseBed d v = Inr v" using p(3) by (auto simp: ParseBed_def)
    with 3 show ?thesis by (simp add: applyFlag_def assign_def put_field_def)
  next
    case 4
    then have "Parse (std_unicode d) v = Inr v" using p(4) Parse_of_canonical [OF assms(1)] by simp
    with 4 show ?thesis by (simp add: applyFlag_def assign_def put_field_def)
  next
    case 5
    with p(5) show ?thesis by (simp add: applyFlag_def put_field_def)
  next
    case 6
    then have "ParseDubLangs d v = Inr (DubOnly (d_langs (s_DubLangs s0)))"
      using parse_dub_string [OF assms(1)] p(6) by (simp add: dub_string_def)
    moreover have "DubOnly (d_langs (s_DubLangs s0)) = s_DubLangs s0" using 6 by (simp add: DubOnly_def)
    ultimately show ?thesis using 6 by (simp add: applyFlag_def put_field_def)
  qed
qed

lemma ApplyFlags_wire:
  assumes "unicode_ok (std_unicode d)" "plain_options d s0"
  shows "\<forall>kv \<in> set kvs. wire_ok s0 kv \<Longrightarrow> fst (ApplyFlags d kvs s) = None \<and>
    s_Subs (snd (ApplyFlags d kvs s)) = (if FlagSubs \<in> fst ` set kvs then s_Subs s0 else s_Subs s) \<and>
    s_Dub (snd (ApplyFlags d kvs s)) = (if FlagDub \<in> fst ` set kvs then s_Dub s0 else s_Dub s) \<and>
    s_Bed (snd (ApplyFlags d kvs s)) = (if FlagBed \<in> fst ` set kvs then s_Bed s0 else s_Bed s) \<and>
    s_DubLangs (snd (ApplyFlags d kvs s)) = (if FlagDubLangs \<in> fst ` set kvs then s_DubLangs s0 else s_DubLangs s) \<and>
    s_SourceLang (snd (ApplyFlags d kvs s)) = (if FlagSource \<in> fst ` set kvs then s_SourceLang s0 else s_SourceLang s) \<and>
    s_Pair (snd (ApplyFlags d kvs s)) = (if FlagPair \<in> fst ` set kvs then s_Pair s0 else s_Pair s)"
proof (induction kvs arbitrary: s)
  case (Cons kv kvs)
  obtain k v where kv: "kv = (k, v)" by (cases kv)
  have w: "wire_ok s0 (k, v)" and rest: "\<forall>kv \<in> set kvs. wire_ok s0 kv" using Cons.prems kv by simp_all
  have "ApplyFlags d (kv # kvs) s = ApplyFlags d kvs (put_field k s0 s)"
    by (simp add: kv apply_wire_entry [OF assms w])
  moreover have "FlagX \<in> fst ` set (kv # kvs) \<longleftrightarrow> FlagX = k \<or> FlagX \<in> fst ` set kvs" for FlagX
    by (simp add: kv)
  ultimately show ?case using Cons.IH [OF rest, of "put_field k s0 s"] unfolding put_field_simps by auto
qed simp

section \<open>Properties\<close>

definition blank_session :: Session where
  "blank_session = \<lparr>s_Slug = [], s_Profile = [], s_Pair = [], s_SourceLang = [], s_Subs = [], s_Dub = [], s_Bed = [],
     s_URL = [], s_VideoDir = [], s_SourceDelay = 0, s_runtime = \<lparr>rs_State = StateNone, rs_Error = [], rs_gen = 0\<rparr>, s_Langs = [],
     s_DubLangs = AllDubLangs, s_Delay = 0, s_revision = 0\<rparr>"

text \<open>Concrete libraries for the examples: no query is ever parsed, every URL has a host.\<close>

definition demo_std :: std where
  "demo_std = \<lparr>std_unicode = ascii_tables,
     std_parse_url = (\<lambda>raw. Some \<lparr>UScheme = fst (str_cut raw (str ''://'')), UHost = str ''h'', UEscapedPath = str ''/a''\<rparr>),
     std_parse_query = (\<lambda>q. if q = [] then Some [] else None),
     std_parse_float = (\<lambda>s. if s = str ''-20'' then FloatVal (-20) else FloatError)\<rparr>"

definition demo_session :: Session where
  "demo_session = blank_session\<lparr>s_Slug := str ''talk'', s_Profile := ProfileCall, s_Pair := str ''talk-b'',
     s_SourceLang := str ''it'', s_Subs := SubsVTT, s_Bed := str ''-20dB'', s_URL := str ''device://audio/mic'',
     s_Langs := [str ''en'', str ''de-CH''], s_DubLangs := DubOnly [str ''de-CH''], s_Delay := 4 * second\<rparr>"

text \<open>C33: what a session publishes as wire flags, read back in any map order onto a fresh session, gives the
  same media options, including the difference between no dub selection and an empty one.\<close>

theorem flags_round_trip:
  assumes "unicode_ok (std_unicode d)" and "plain_options d s" and "set kvs = set (FlagsWire s)"
  shows "fst (ApplyFlags d kvs blank_session) = None \<and> sameMedia (snd (ApplyFlags d kvs blank_session)) s"
proof -
  have w: "\<forall>kv \<in> set kvs. wire_ok s kv" using assms(3) FlagsWire_entries by simp
  have k: "K \<in> fst ` set kvs \<longleftrightarrow> (\<exists>v. wire_ok s (K, v))" for K
    using assms(3) FlagsWire_entries [of _ s] by force
  have "FlagSubs \<in> fst ` set kvs \<longleftrightarrow> s_Subs s \<noteq> []" "FlagDub \<in> fst ` set kvs \<longleftrightarrow> s_Dub s \<noteq> []"
    "FlagBed \<in> fst ` set kvs \<longleftrightarrow> s_Bed s \<noteq> []" "FlagSource \<in> fst ` set kvs \<longleftrightarrow> s_SourceLang s \<noteq> []"
    "FlagPair \<in> fst ` set kvs \<longleftrightarrow> s_Pair s \<noteq> []" "FlagDubLangs \<in> fst ` set kvs \<longleftrightarrow> d_chosen (s_DubLangs s)"
    unfolding k by (simp_all add: wire_ok_def)
  moreover have "\<not> d_chosen (s_DubLangs s) \<Longrightarrow> d_langs (s_DubLangs s) = []"
    using assms(2) by (simp add: plain_options_def)
  ultimately show ?thesis using ApplyFlags_wire [OF assms(1,2) w, of blank_session]
    by (simp add: sameMedia_def blank_session_def AllDubLangs_def)
qed

theorem flags_round_trip_witness:
  "fst (ApplyFlags demo_std (rev (FlagsWire demo_session)) blank_session) = None \<and>
   sameMedia (snd (ApplyFlags demo_std (rev (FlagsWire demo_session)) blank_session)) demo_session"
proof -
  have "Parse ascii_tables (str ''it'') = Inr (str ''it'') \<and> str ''it'' \<noteq> LangAuto \<and>
      Parse ascii_tables (str ''de-CH'') = Inr (str ''de-CH'') \<and> str ''de-CH'' \<noteq> LangAuto" by code_simp
  then have "canonical (str ''it'') \<and> canonical (str ''de-CH'')" using Parse_canonical [OF ascii_tables_ok] by blast
  moreover have "s_Subs demo_session = SubsVTT \<and> s_Dub demo_session = [] \<and> BedLevel demo_std (s_Bed demo_session) \<noteq> None \<and>
      s_SourceLang demo_session = str ''it'' \<and> slugOK (s_Pair demo_session) \<and> d_chosen (s_DubLangs demo_session) \<and>
      d_langs (s_DubLangs demo_session) = [str ''de-CH'']" by code_simp
  ultimately have "plain_options demo_std demo_session" unfolding plain_options_def by simp
  moreover have "unicode_ok (std_unicode demo_std)" using ascii_tables_ok by (simp add: demo_std_def)
  ultimately show ?thesis by (intro flags_round_trip) simp_all
qed



text \<open>Validation re-parses the modes but keeps the raw value, so a session built in process with an
  unnormalized \<open>dub\<close> is accepted as off and dubbed all the same.\<close>

lemma validation_keeps_raw_modes:
  "\<exists>s. validate demo_std s = None \<and> ParseDub demo_std (s_Dub s) = Inr Off \<and> DubbedLangs s = s_Langs s \<and> s_Langs s \<noteq> []"
proof (intro exI conjI)
  let ?s = "demo_session\<lparr>s_DubLangs := AllDubLangs, s_Dub := str ''OFF''\<rparr>"
  show "validate demo_std ?s = None" by code_simp
  show "ParseDub demo_std (s_Dub ?s) = Inr Off" by code_simp
  show "DubbedLangs ?s = s_Langs ?s" by code_simp
  show "s_Langs ?s \<noteq> []" by code_simp
qed

end
