(* ===== verification/Status.thy ===== *)
theory Status
  imports Session "HOL-Library.Product_Lexorder"
begin

text \<open>
  \<^verbatim>\<open>internal/core/session/status.go\<close>: the observed states of a lane and the rendering of a lane failure for
  publication. An error value is a node of a possibly cyclic graph: its node says what it declares
  it did not author and what it wraps. \<open>unicode.IsPrint\<close> and \<open>strconv.Quote\<close> are the record \<open>render\<close>.
\<close>

section \<open>Text helpers\<close>

function replace_all :: "gostr \<Rightarrow> gostr \<Rightarrow> gostr \<Rightarrow> gostr" where
  "replace_all old new s =
     (if old = [] then s
      else case s of
        [] \<Rightarrow> []
      | r # rs \<Rightarrow>
          if take (length old) s = old then new @ replace_all old new (drop (length old) s)
          else r # replace_all old new rs)"
  by auto
termination by (relation "measure (\<lambda>(old, new, s). length s)") auto

declare replace_all.simps [simp del]

text \<open>The longest prefix of whole runes that fits in \<open>n\<close> bytes.\<close>

fun take_bytes :: "nat \<Rightarrow> gostr \<Rightarrow> gostr" where
  "take_bytes n [] = []"
| "take_bytes n (r # rs) = (if utf8_len r \<le> n then r # take_bytes (n - utf8_len r) rs else [])"

definition runtimeErrorEllipsis :: gostr where "runtimeErrorEllipsis = [8230]"

definition maxRuntimeErrorBytes :: nat where "maxRuntimeErrorBytes = 512"

definition maxRuntimeErrorNodes :: nat where "maxRuntimeErrorNodes = 1024"

definition truncateUTF8 :: "gostr \<Rightarrow> nat \<Rightarrow> gostr" where
  "truncateUTF8 v limit =
     (if blen v \<le> limit then v
      else trim_space (take_bytes (limit - blen runtimeErrorEllipsis) v) @ runtimeErrorEllipsis)"

record render =
  r_is_print :: "rune \<Rightarrow> bool"
  r_quote :: "gostr \<Rightarrow> gostr"

definition printableRuntimeText :: "render \<Rightarrow> gostr \<Rightarrow> gostr" where
  "printableRuntimeText rd s = map (\<lambda>r. if \<not> r_is_print rd r then 32 else r) s"

section \<open>The error graph\<close>

datatype error_kind = PathError gostr | LinkError gostr gostr | UntrustedError gostr | PlainError

text \<open>\<open>e_wraps\<close> is what \<open>unwrapRuntimeError\<close> returns; a nil error is \<open>None\<close>.\<close>

record error_node =
  e_kind :: error_kind
  e_comparable :: bool
  e_wraps :: "nat option list"

record untrustedSpan =
  sp_value :: gostr
  sp_label :: gostr

definition localPathLabel :: gostr where "localPathLabel = str ''[local-path]''"
definition foreignTextLabel :: gostr where "foreignTextLabel = str ''[helper-output]''"

definition addUntrustedSpan :: "gostr \<Rightarrow> gostr \<Rightarrow> untrustedSpan list \<Rightarrow> untrustedSpan list" where
  "addUntrustedSpan v l spans =
     (if v \<noteq> [] then List.insert \<lparr>sp_value = v, sp_label = l\<rparr> spans else spans)"

definition collectUntrustedSpans :: "error_node \<Rightarrow> untrustedSpan list \<Rightarrow> untrustedSpan list" where
  "collectUntrustedSpans e spans =
     (case e_kind e of
        PathError p \<Rightarrow> addUntrustedSpan p localPathLabel spans
      | LinkError a b \<Rightarrow> addUntrustedSpan b localPathLabel (addUntrustedSpan a localPathLabel spans)
      | UntrustedError t \<Rightarrow> addUntrustedSpan t foreignTextLabel spans
      | PlainError \<Rightarrow> spans)"

definition runtimeErrorSeen :: "(nat \<Rightarrow> error_node) \<Rightarrow> nat \<Rightarrow> nat list \<Rightarrow> bool \<times> nat list" where
  "runtimeErrorSeen g i seen =
     (if \<not> e_comparable (g i) then (False, seen)
      else if i \<in> set seen then (True, seen) else (False, i # seen))"

text \<open>The walk: \<open>pending\<close> is the stack, its last element on top; \<open>left\<close> is the node budget that stops
  a cycle of errors that cannot be compared.\<close>

fun span_walk :: "(nat \<Rightarrow> error_node) \<Rightarrow> nat \<Rightarrow> nat option list \<Rightarrow> nat list \<Rightarrow> untrustedSpan list \<Rightarrow> untrustedSpan list" where
  "span_walk g 0 pending seen spans = spans"
| "span_walk g (Suc left) pending seen spans =
     (if pending = [] then spans
      else case last pending of
        None \<Rightarrow> span_walk g left (butlast pending) seen spans
      | Some i \<Rightarrow>
          (case runtimeErrorSeen g i seen of
             (dup, seen') \<Rightarrow>
               if dup then span_walk g left (butlast pending) seen' spans
               else span_walk g left (butlast pending @ e_wraps (g i)) seen' (collectUntrustedSpans (g i) spans)))"

text \<open>Longest first, ties by value; bytewise and runewise order agree on UTF-8.\<close>

definition runtimeUntrustedSpans :: "(nat \<Rightarrow> error_node) \<Rightarrow> nat \<Rightarrow> untrustedSpan list" where
  "runtimeUntrustedSpans g e0 =
     sort_key (\<lambda>s. (- int (blen (sp_value s)), sp_value s))
       (span_walk g maxRuntimeErrorNodes [Some e0] [] [])"

definition redactUntrusted :: "render \<Rightarrow> (nat \<Rightarrow> error_node) \<Rightarrow> gostr \<Rightarrow> nat \<Rightarrow> gostr" where
  "redactUntrusted rd g detail e0 =
     fold (\<lambda>s detail.
         replace_all (printableRuntimeText rd (sp_value s)) (sp_label s)
           (replace_all (printableRuntimeText rd (r_quote rd (sp_value s))) ([34] @ sp_label s @ [34]) detail))
       (runtimeUntrustedSpans g e0) detail"

text \<open>A lane error: its text and its graph; \<open>None\<close> is nil.\<close>

record lane_failure =
  lf_text :: gostr
  lf_root :: nat
  lf_graph :: "nat \<Rightarrow> error_node"

definition sanitizeRuntimeError :: "render \<Rightarrow> lane_failure option \<Rightarrow> gostr" where
  "sanitizeRuntimeError rd err =
     (case err of
        None \<Rightarrow> []
      | Some e \<Rightarrow>
          let detail = printableRuntimeText rd (lf_text e);
              detail = redactUntrusted rd (lf_graph e) detail (lf_root e);
              detail = join [32] (str_fields detail)
          in truncateUTF8 detail maxRuntimeErrorBytes)"

section \<open>Transitions\<close>

definition validRuntimeTransition :: "RuntimeState \<Rightarrow> RuntimeState \<Rightarrow> bool" where
  "validRuntimeTransition from to =
     (case from of
        StateStarting \<Rightarrow> to = StateRunning \<or> to = StateFinished \<or> to = StateFailed
      | StateRunning \<Rightarrow> to = StateFinished \<or> to = StateFailed
      | StateFinished \<Rightarrow> False
      | StateFailed \<Rightarrow> False
      | StateNone \<Rightarrow> to = StateStarting)"

definition Runtime :: "Session \<Rightarrow> RuntimeStatus" where
  "Runtime s = \<lparr>rs_State = rs_State (s_runtime s), rs_Error = rs_Error (s_runtime s), rs_gen = 0\<rparr>"

text \<open>How far along a state is; a transition always moves forward.\<close>

fun state_rank :: "RuntimeState \<Rightarrow> nat" where
  "state_rank StateNone = 0"
| "state_rank StateStarting = 1"
| "state_rank StateRunning = 2"
| "state_rank StateFinished = 3"
| "state_rank StateFailed = 3"

lemma transition_forward: "validRuntimeTransition a b \<Longrightarrow> state_rank a < state_rank b"
  by (cases a; cases b) (simp_all add: validRuntimeTransition_def)

section \<open>What is published\<close>

lemma take_bytes_le: "blen (take_bytes n s) \<le> n"
  by (induction n s rule: take_bytes.induct) auto

lemma blen_trim_left: "blen (dropWhile p s) \<le> blen s"
  by (induction s) auto

lemma blen_rev: "blen (rev s) = blen s"
  by (induction s) auto

lemma blen_trim: "blen (trim_space s) \<le> blen s"
proof -
  have "blen (trim_space s) \<le> blen (rev (dropWhile is_space s))"
    unfolding trim_space_def trim_func_def blen_rev by (rule order_trans [OF blen_trim_left]) (simp add: blen_rev)
  also have "\<dots> \<le> blen s" by (simp add: blen_rev blen_trim_left)
  finally show ?thesis .
qed

lemma set_take_bytes: "set (take_bytes n s) \<subseteq> set s"
  by (induction n s rule: take_bytes.induct) auto

lemma truncate_bound: "3 \<le> limit \<Longrightarrow> blen (truncateUTF8 v limit) \<le> limit"
proof (cases "blen v \<le> limit")
  case False
  assume l: "3 \<le> limit"
  have "blen (trim_space (take_bytes (limit - 3) v)) \<le> limit - 3"
    by (rule order_trans [OF blen_trim take_bytes_le])
  with False l show ?thesis by (simp add: truncateUTF8_def runtimeErrorEllipsis_def utf8_len_def)
qed (simp add: truncateUTF8_def)

lemma truncate_set: "set (truncateUTF8 v limit) \<subseteq> insert 8230 (set v)"
proof -
  have "set (trim_space (take_bytes n v)) \<subseteq> set v" for n
    unfolding trim_space_def using set_trim_func set_take_bytes by (rule subset_trans)
  then show ?thesis by (auto simp: truncateUTF8_def runtimeErrorEllipsis_def)
qed

lemma set_join: "set (join sep xs) \<subseteq> set sep \<union> (\<Union>x \<in> set xs. set x)"
  by (induction sep xs rule: join.induct) auto

section \<open>Properties\<close>

text \<open>Whatever a helper printed, the published error of a lane is at most 512 bytes and is one line:
  its only white space is single-byte spaces.\<close>

lemma published_error_is_bounded:
  "blen (sanitizeRuntimeError rd err) \<le> 512 \<and> set (filter is_space (sanitizeRuntimeError rd err)) \<subseteq> {32}"
proof (cases err)
  case None
  then show ?thesis by (simp add: sanitizeRuntimeError_def)
next
  case (Some e)
  let ?d = "join [32] (str_fields (redactUntrusted rd (lf_graph e) (printableRuntimeText rd (lf_text e)) (lf_root e)))"
  have eq: "sanitizeRuntimeError rd err = truncateUTF8 ?d 512"
    by (simp add: Some sanitizeRuntimeError_def Let_def maxRuntimeErrorBytes_def)
  have "is_space r \<Longrightarrow> r = 32" if "r \<in> set (truncateUTF8 ?d 512)" for r
  proof -
    assume sp: "is_space r"
    have "r \<in> insert 8230 (set ?d)" using that truncate_set by blast
    moreover have "r \<noteq> 8230" using sp by (auto simp: is_space_def)
    ultimately have "r \<in> set ?d" by simp
    then show "r = 32" using set_join fields_no_space sp by fastforce
  qed
  with truncate_bound [of 512 ?d] show ?thesis unfolding eq by auto
qed

end
