(* ===== verification/Store.thy ===== *)
theory Store
  imports Status
begin

text \<open>
  \<^verbatim>\<open>internal/core/session/store.go\<close>: the session registry. The maps are association lists; \<open>clone\<close> is
  the identity on values. Every operation runs under the store's lock, so an execution is a list of
  operations. A subscriber's channel is the list of events it has not received yet.
\<close>

section \<open>State\<close>

datatype EventType = EventCreated | EventUpdated | EventDeleted | EventStatus

record Event =
  ev_Type :: EventType
  ev_Session :: Session

definition subscriberBuffer :: nat where "subscriberBuffer = 16"

record store =
  st_sessions :: "(gostr \<times> Session) list"
  st_subs :: "(nat \<times> Event list) list"
  st_nextRev :: nat
  st_nextSub :: nat
  st_max :: nat

text \<open>\<open>WithMaxSessions\<close> panics below one; zero is the store without the option.\<close>

definition WithMaxSessions :: "int \<Rightarrow> (store \<Rightarrow> store) option" where
  "WithMaxSessions m = (if m < 1 then None else Some (\<lambda>st. st\<lparr>st_max := nat m\<rparr>))"

definition NewStore :: "(store \<Rightarrow> store) list \<Rightarrow> store" where
  "NewStore options = fold (\<lambda>f st. f st) options
     \<lparr>st_sessions = [], st_subs = [], st_nextRev = 0, st_nextSub = 0, st_max = 0\<rparr>"

record laneID =
  id_slug :: gostr
  id_revision :: nat
  id_gen :: nat

section \<open>Operations\<close>

definition send_event :: "Event \<Rightarrow> Event list \<Rightarrow> Event list" where
  "send_event e ch = (if length ch < subscriberBuffer then ch @ [e] else ch)"

definition notify :: "Event \<Rightarrow> store \<Rightarrow> store" where
  "notify e st = st\<lparr>st_subs := map (\<lambda>(k, ch). (k, send_event e ch)) (st_subs st)\<rparr>"

definition event :: "EventType \<Rightarrow> Session \<Rightarrow> Event" where
  "event t s = \<lparr>ev_Type = t, ev_Session = s\<rparr>"

definition starting :: "nat \<Rightarrow> RuntimeStatus" where
  "starting gen = \<lparr>rs_State = StateStarting, rs_Error = [], rs_gen = gen\<rparr>"

definition put_session :: "gostr \<Rightarrow> Session \<Rightarrow> store \<Rightarrow> store" where
  "put_session slug s st = st\<lparr>st_sessions := AList.update slug s (st_sessions st)\<rparr>"

definition Create :: "std \<Rightarrow> Session \<Rightarrow> store \<Rightarrow> session_error option \<times> store" where
  "Create d s st =
     (case validate d s of
        Some e \<Rightarrow> (Some e, st)
      | None \<Rightarrow>
          if map_of (st_sessions st) (s_Slug s) \<noteq> None then (Some (ErrExists (s_Slug s)), st)
          else if st_max st > 0 \<and> length (st_sessions st) \<ge> st_max st then (Some (ErrCapacity (st_max st)), st)
          else
            let rev = st_nextRev st + 1; stored = s\<lparr>s_revision := rev, s_runtime := starting 0\<rparr> in
            (None, notify (event EventCreated stored) (put_session (s_Slug s) stored (st\<lparr>st_nextRev := rev\<rparr>))))"

definition Get :: "gostr \<Rightarrow> store \<Rightarrow> session_error + Session" where
  "Get slug st = (case map_of (st_sessions st) slug of None \<Rightarrow> Inl (ErrNotFound slug) | Some s \<Rightarrow> Inr s)"

definition List_all :: "store \<Rightarrow> Session list" where
  "List_all st = map (\<lambda>slug. the (map_of (st_sessions st) slug)) (sort (map fst (st_sessions st)))"

definition Count :: "store \<Rightarrow> nat" where
  "Count st = length (st_sessions st)"

fun merge_loop :: "lang list \<Rightarrow> lang list \<Rightarrow> lang list \<Rightarrow> lang list" where
  "merge_loop gone [] out = out"
| "merge_loop gone (l # ls) out =
     (if l \<in> set gone \<or> l \<in> set out then merge_loop gone ls out else merge_loop gone ls (out @ [l]))"

definition mergeLangs :: "lang list \<Rightarrow> lang list \<Rightarrow> lang list \<Rightarrow> lang list" where
  "mergeLangs current add remove = merge_loop remove (current @ add) []"

text \<open>\<open>check\<close> is the caller's policy, absent in \<open>UpdateLangs\<close>.\<close>

definition updateLangs ::
  "std \<Rightarrow> gostr \<Rightarrow> lang list \<Rightarrow> lang list \<Rightarrow> (Session \<Rightarrow> session_error option) option \<Rightarrow> store
     \<Rightarrow> (session_error + Session) \<times> store" where
  "updateLangs d slug add remove check st =
     (case map_of (st_sessions st) slug of
        None \<Rightarrow> (Inl (ErrNotFound slug), st)
      | Some s \<Rightarrow>
          let merged = mergeLangs (s_Langs s) add remove in
          if merged = [] then (Inl ErrNoLanguages, st)
          else
            let s1 = s\<lparr>s_Langs := merged, s_DubLangs := retain (s_DubLangs s) merged\<rparr> in
            case first_error (validate d s1) (case check of None \<Rightarrow> None | Some f \<Rightarrow> f s1) of
              Some e \<Rightarrow> (Inl e, st)
            | None \<Rightarrow>
                let rev = st_nextRev st + 1; s2 = s1\<lparr>s_revision := rev, s_runtime := starting 0\<rparr> in
                (Inr s2, notify (event EventUpdated s2) (put_session slug s2 (st\<lparr>st_nextRev := rev\<rparr>))))"

definition bindRuntime :: "laneID \<Rightarrow> store \<Rightarrow> bool \<times> store" where
  "bindRuntime i st =
     (case map_of (st_sessions st) (id_slug i) of
        None \<Rightarrow> (False, st)
      | Some s \<Rightarrow>
          if s_revision s \<noteq> id_revision i \<or> id_gen i \<le> rs_gen (s_runtime s) then (False, st)
          else
            let visible = rs_State (s_runtime s) \<noteq> StateStarting \<or> rs_Error (s_runtime s) \<noteq> [];
                s' = s\<lparr>s_runtime := starting (id_gen i)\<rparr>; st' = put_session (id_slug i) s' st
            in (True, if visible then notify (event EventStatus s') st' else st'))"

definition setRuntime :: "render \<Rightarrow> laneID \<Rightarrow> RuntimeState \<Rightarrow> lane_failure option \<Rightarrow> store \<Rightarrow> bool \<times> store" where
  "setRuntime rd i state err st =
     (case map_of (st_sessions st) (id_slug i) of
        None \<Rightarrow> (False, st)
      | Some s \<Rightarrow>
          if s_revision s \<noteq> id_revision i \<or> rs_gen (s_runtime s) \<noteq> id_gen i
             \<or> \<not> validRuntimeTransition (rs_State (s_runtime s)) state then (False, st)
          else
            let s' = s\<lparr>s_runtime := (s_runtime s)\<lparr>rs_State := state, rs_Error := sanitizeRuntimeError rd err\<rparr>\<rparr>
            in (True, notify (event EventStatus s') (put_session (id_slug i) s' st)))"

definition drop_session :: "gostr \<Rightarrow> store \<Rightarrow> store" where
  "drop_session slug st = st\<lparr>st_sessions := AList.delete slug (st_sessions st)\<rparr>"

definition Delete :: "gostr \<Rightarrow> store \<Rightarrow> session_error option \<times> store" where
  "Delete slug st =
     (case map_of (st_sessions st) slug of
        None \<Rightarrow> (Some (ErrNotFound slug), st)
      | Some s \<Rightarrow>
          let st1 = notify (event EventDeleted s) (drop_session slug st) in
          case map_of (st_sessions st1) (s_Pair s) of
            None \<Rightarrow> (None, st1)
          | Some paired \<Rightarrow>
              if s_Pair paired = slug
              then (None, notify (event EventDeleted paired) (drop_session (s_Pair s) st1))
              else (None, st1))"

definition Subscribe :: "store \<Rightarrow> nat \<times> store" where
  "Subscribe st =
     (st_nextSub st, st\<lparr>st_nextSub := st_nextSub st + 1, st_subs := AList.update (st_nextSub st) [] (st_subs st)\<rparr>)"

definition Unsubscribe :: "nat \<Rightarrow> store \<Rightarrow> store" where
  "Unsubscribe k st = st\<lparr>st_subs := AList.delete k (st_subs st)\<rparr>"

definition Receive :: "nat \<Rightarrow> store \<Rightarrow> store" where
  "Receive k st = st\<lparr>st_subs := map (\<lambda>(j, ch). (j, if j = k then tl ch else ch)) (st_subs st)\<rparr>"

datatype store_op =
    OCreate Session
  | OUpdate gostr "lang list" "lang list" "(Session \<Rightarrow> session_error option) option"
  | OBind laneID
  | OSet laneID RuntimeState "lane_failure option"
  | ODelete gostr
  | OSubscribe
  | OUnsubscribe nat
  | OReceive nat

fun store_step :: "std \<Rightarrow> render \<Rightarrow> store_op \<Rightarrow> store \<Rightarrow> store" where
  "store_step d rd (OCreate s) st = snd (Create d s st)"
| "store_step d rd (OUpdate slug add remove check) st = snd (updateLangs d slug add remove check st)"
| "store_step d rd (OBind i) st = snd (bindRuntime i st)"
| "store_step d rd (OSet i state err) st = snd (setRuntime rd i state err st)"
| "store_step d rd (ODelete slug) st = snd (Delete slug st)"
| "store_step d rd OSubscribe st = snd (Subscribe st)"
| "store_step d rd (OUnsubscribe k) st = Unsubscribe k st"
| "store_step d rd (OReceive k) st = Receive k st"

section \<open>Invariant\<close>

definition store_inv :: "std \<Rightarrow> store \<Rightarrow> bool" where
  "store_inv d st \<longleftrightarrow>
     distinct (map fst (st_sessions st)) \<and>
     (\<forall>slug s. map_of (st_sessions st) slug = Some s \<longrightarrow>
        s_Slug s = slug \<and> validate d s = None \<and> s_revision s \<le> st_nextRev st) \<and>
     (st_max st > 0 \<longrightarrow> length (st_sessions st) \<le> st_max st) \<and>
     (\<forall>k ch. (k, ch) \<in> set (st_subs st) \<longrightarrow> length ch \<le> subscriberBuffer)"

lemma notify_simps [simp]:
  "st_sessions (notify e st) = st_sessions st" "st_nextRev (notify e st) = st_nextRev st"
  "st_max (notify e st) = st_max st" "st_nextSub (notify e st) = st_nextSub st"
  by (simp_all add: notify_def)

lemma put_session_simps [simp]:
  "st_sessions (put_session slug s st) = AList.update slug s (st_sessions st)"
  "st_nextRev (put_session slug s st) = st_nextRev st" "st_max (put_session slug s st) = st_max st"
  "st_subs (put_session slug s st) = st_subs st"
  by (simp_all add: put_session_def)

lemma drop_session_simps [simp]:
  "st_sessions (drop_session slug st) = AList.delete slug (st_sessions st)"
  "st_nextRev (drop_session slug st) = st_nextRev st" "st_max (drop_session slug st) = st_max st"
  "st_subs (drop_session slug st) = st_subs st"
  by (simp_all add: drop_session_def)

lemma notify_subs:
  "(\<And>k ch. (k, ch) \<in> set (st_subs st) \<Longrightarrow> length ch \<le> subscriberBuffer) \<Longrightarrow>
    (k, ch) \<in> set (st_subs (notify e st)) \<Longrightarrow> length ch \<le> subscriberBuffer"
  by (fastforce simp: notify_def send_event_def)

lemma validate_parts:
  "validateIdentity d (s\<lparr>s_runtime := r\<rparr>) = validateIdentity d s" "validateIdentity d (s\<lparr>s_revision := n\<rparr>) = validateIdentity d s"
  "validateLimits (s\<lparr>s_runtime := r\<rparr>) = validateLimits s" "validateLimits (s\<lparr>s_revision := n\<rparr>) = validateLimits s"
  "validateSource d (s\<lparr>s_runtime := r\<rparr>) = validateSource d s" "validateSource d (s\<lparr>s_revision := n\<rparr>) = validateSource d s"
  "validateLanguages d (s\<lparr>s_runtime := r\<rparr>) = validateLanguages d s" "validateLanguages d (s\<lparr>s_revision := n\<rparr>) = validateLanguages d s"
  "validateModes d (s\<lparr>s_runtime := r\<rparr>) = validateModes d s" "validateModes d (s\<lparr>s_revision := n\<rparr>) = validateModes d s"
  "validatePair (s\<lparr>s_runtime := r\<rparr>) = validatePair s" "validatePair (s\<lparr>s_revision := n\<rparr>) = validatePair s"
  by (cases s; simp only: validateIdentity_def validateLimits_def validateSource_def validateLanguages_def
      validateModes_def validatePair_def Session.simps)+

lemma validate_runtime [simp]:
  "validate d (s\<lparr>s_runtime := r\<rparr>) = validate d s" "validate d (s\<lparr>s_revision := n\<rparr>) = validate d s"
  by (simp_all add: validate_def validateMedia_def validate_parts)

lemma inv_notify [intro]: "store_inv d st \<Longrightarrow> store_inv d (notify e st)"
  unfolding store_inv_def using notify_subs [of st _ _ e] by auto

lemma inv_put:
  assumes inv: "store_inv d st" and s: "s_Slug s = slug" "validate d s = None" "s_revision s \<le> n" "st_nextRev st \<le> n"
    and room: "map_of (st_sessions st) slug \<noteq> None \<or> st_max st = 0 \<or> length (st_sessions st) < st_max st"
  shows "store_inv d (put_session slug s (st\<lparr>st_nextRev := n\<rparr>))"
proof -
  let ?al = "AList.update slug s (st_sessions st)"
  note i = inv [unfolded store_inv_def]
  have len: "length ?al \<le> (if map_of (st_sessions st) slug = None then Suc (length (st_sessions st))
      else length (st_sessions st))"
    using length_update_fresh [of slug "st_sessions st" s] length_update_present [of slug "st_sessions st" s]
    by (cases "slug \<in> fst ` set (st_sessions st)") (simp_all add: map_of_eq_None_iff)
  have cap: "st_max st > 0 \<longrightarrow> length ?al \<le> st_max st"
    using i room len by (cases "map_of (st_sessions st) slug = None") auto
  have dis: "distinct (map fst ?al)" using i by (intro distinct_update) blast
  have all: "s_Slug t = k \<and> validate d t = None \<and> s_revision t \<le> n" if k: "map_of ?al k = Some t" for k t
  proof (cases "k = slug")
    case True
    with k s show ?thesis by simp
  next
    case False
    then have "map_of (st_sessions st) k = Some t" using k by simp
    then have "s_Slug t = k \<and> validate d t = None \<and> s_revision t \<le> st_nextRev st" using i by blast
    with s(4) show ?thesis by simp
  qed
  have "st_sessions (put_session slug s (st\<lparr>st_nextRev := n\<rparr>)) = ?al"
    "st_nextRev (put_session slug s (st\<lparr>st_nextRev := n\<rparr>)) = n"
    "st_max (put_session slug s (st\<lparr>st_nextRev := n\<rparr>)) = st_max st"
    "st_subs (put_session slug s (st\<lparr>st_nextRev := n\<rparr>)) = st_subs st" by simp_all
  then show ?thesis unfolding store_inv_def using dis all cap i by (simp only:) blast
qed

lemma inv_drop:
  assumes inv: "store_inv d st"
  shows "store_inv d (drop_session slug st)"
proof -
  have "map_of (st_sessions st) k = Some t" if "map_of (AList.delete slug (st_sessions st)) k = Some t" for k t
    using that by (simp split: if_splits)
  moreover have "length (AList.delete slug (st_sessions st)) \<le> length (st_sessions st)" by (rule length_delete_le)
  ultimately show ?thesis using inv unfolding store_inv_def drop_session_simps
    by (meson distinct_delete order_trans)
qed

lemma create_cases:
  obtains e where "Create d s st = (Some e, st)"
  | s2 where "Create d s st =
        (None, notify (event EventCreated s2) (put_session (s_Slug s) s2 (st\<lparr>st_nextRev := st_nextRev st + 1\<rparr>)))"
      "s2 = s\<lparr>s_revision := st_nextRev st + 1, s_runtime := starting 0\<rparr>" "validate d s = None"
      "map_of (st_sessions st) (s_Slug s) = None" "st_max st = 0 \<or> length (st_sessions st) < st_max st"
proof (cases "validate d s = None \<and> map_of (st_sessions st) (s_Slug s) = None \<and>
    (st_max st = 0 \<or> length (st_sessions st) < st_max st)")
  case True
  then have "Create d s st =
      (None, notify (event EventCreated (s\<lparr>s_revision := st_nextRev st + 1, s_runtime := starting 0\<rparr>))
        (put_session (s_Slug s) (s\<lparr>s_revision := st_nextRev st + 1, s_runtime := starting 0\<rparr>)
          (st\<lparr>st_nextRev := st_nextRev st + 1\<rparr>)))"
    by (auto simp: Create_def Let_def)
  with that(2) True show thesis by blast
next
  case False
  then have "\<exists>e. Create d s st = (Some e, st)"
    by (cases "validate d s") (auto simp: Create_def)
  with that(1) show thesis by blast
qed

lemma inv_create:
  assumes inv: "store_inv d st"
  shows "store_inv d (snd (Create d s st))"
proof (cases rule: create_cases [of d s st])
  case (1 e)
  with inv show ?thesis by simp
next
  case (2 s2)
  have "store_inv d (put_session (s_Slug s) s2 (st\<lparr>st_nextRev := st_nextRev st + 1\<rparr>))"
    by (rule inv_put [OF inv]) (use 2 in auto)
  with 2(1) show ?thesis by (simp add: inv_notify)
qed

lemma lookup_inv: "store_inv d st \<Longrightarrow> map_of (st_sessions st) slug = Some s \<Longrightarrow>
    s_Slug s = slug \<and> validate d s = None \<and> s_revision s \<le> st_nextRev st"
  unfolding store_inv_def by blast

lemma inv_put_same:
  assumes "store_inv d st" "map_of (st_sessions st) slug = Some s0"
    and "s_Slug s = slug" "validate d s = None" "s_revision s \<le> st_nextRev st"
  shows "store_inv d (put_session slug s st)"
  using inv_put [OF assms(1,3,4,5) order_refl] assms(2) by simp

lemma update_cases:
  obtains e where "updateLangs d slug add remove check st = (Inl e, st)"
  | s s2 where "map_of (st_sessions st) slug = Some s"
      "updateLangs d slug add remove check st =
        (Inr s2, notify (event EventUpdated s2) (put_session slug s2 (st\<lparr>st_nextRev := st_nextRev st + 1\<rparr>)))"
      "s2 = s\<lparr>s_Langs := mergeLangs (s_Langs s) add remove,
         s_DubLangs := retain (s_DubLangs s) (mergeLangs (s_Langs s) add remove),
         s_revision := st_nextRev st + 1, s_runtime := starting 0\<rparr>"
      "validate d s2 = None" "s_Langs s2 \<noteq> []"
proof (cases "map_of (st_sessions st) slug")
  case None
  then show thesis by (intro that(1)) (simp add: updateLangs_def)
next
  case (Some s)
  let ?m = "mergeLangs (s_Langs s) add remove"
  let ?s1 = "s\<lparr>s_Langs := ?m, s_DubLangs := retain (s_DubLangs s) ?m\<rparr>"
  let ?s2 = "?s1\<lparr>s_revision := st_nextRev st + 1, s_runtime := starting 0\<rparr>"
  show thesis
  proof (cases "?m = [] \<or> first_error (validate d ?s1) (case check of None \<Rightarrow> None | Some f \<Rightarrow> f ?s1) \<noteq> None")
    case True
    then have "\<exists>e. updateLangs d slug add remove check st = (Inl e, st)"
      unfolding updateLangs_def Some Let_def option.case by (auto split: option.split)
    with that(1) show thesis by blast
  next
    case False
    then have f: "first_error (validate d ?s1) (case check of None \<Rightarrow> None | Some f \<Rightarrow> f ?s1) = None"
      and m: "?m \<noteq> []" by blast+
    have v: "validate d ?s1 = None" using f by simp
    have upd: "updateLangs d slug add remove check st =
        (Inr ?s2, notify (event EventUpdated ?s2) (put_session slug ?s2 (st\<lparr>st_nextRev := st_nextRev st + 1\<rparr>)))"
      unfolding updateLangs_def Some Let_def option.case f by (simp only: m if_False)
    have vs: "validate d ?s2 = None" and ls: "s_Langs ?s2 \<noteq> []" using v m by simp_all
    show thesis by (rule that(2) [OF Some upd refl vs ls])
  qed
qed

lemma inv_update:
  assumes inv: "store_inv d st"
  shows "store_inv d (snd (updateLangs d slug add remove check st))"
proof (cases rule: update_cases [of d slug add remove check st])
  case (1 e)
  with inv show ?thesis by simp
next
  case (2 s s2)
  have "store_inv d (put_session slug s2 (st\<lparr>st_nextRev := st_nextRev st + 1\<rparr>))"
    by (rule inv_put [OF inv]) (use 2 lookup_inv [OF inv 2(1)] in simp_all)
  with 2(2) show ?thesis by (simp add: inv_notify)
qed

lemma bind_cases:
  obtains "bindRuntime i st = (False, st)"
  | s st' where "map_of (st_sessions st) (id_slug i) = Some s" "s_revision s = id_revision i"
      "rs_gen (s_runtime s) < id_gen i" "bindRuntime i st = (True, st')"
      "st' = put_session (id_slug i) (s\<lparr>s_runtime := starting (id_gen i)\<rparr>) st \<or>
       st' = notify (event EventStatus (s\<lparr>s_runtime := starting (id_gen i)\<rparr>))
               (put_session (id_slug i) (s\<lparr>s_runtime := starting (id_gen i)\<rparr>) st)"
proof (cases "\<exists>s. map_of (st_sessions st) (id_slug i) = Some s \<and> s_revision s = id_revision i \<and> rs_gen (s_runtime s) < id_gen i")
  case True
  then obtain s where s: "map_of (st_sessions st) (id_slug i) = Some s" "s_revision s = id_revision i"
    "rs_gen (s_runtime s) < id_gen i" by blast
  then have "bindRuntime i st = (True, snd (bindRuntime i st))"
    by (simp add: bindRuntime_def Let_def)
  moreover have "snd (bindRuntime i st) = put_session (id_slug i) (s\<lparr>s_runtime := starting (id_gen i)\<rparr>) st \<or>
      snd (bindRuntime i st) = notify (event EventStatus (s\<lparr>s_runtime := starting (id_gen i)\<rparr>))
        (put_session (id_slug i) (s\<lparr>s_runtime := starting (id_gen i)\<rparr>) st)"
    using s by (simp add: bindRuntime_def Let_def)
  ultimately show thesis using that(2) [OF s] by blast
next
  case False
  then have "bindRuntime i st = (False, st)"
    by (cases "map_of (st_sessions st) (id_slug i)") (simp_all add: bindRuntime_def Let_def not_less)
  with that(1) show thesis by blast
qed

lemma set_cases:
  obtains "setRuntime rd i state err st = (False, st)"
  | s s' where "map_of (st_sessions st) (id_slug i) = Some s" "s_revision s = id_revision i"
      "rs_gen (s_runtime s) = id_gen i" "validRuntimeTransition (rs_State (s_runtime s)) state"
      "s' = s\<lparr>s_runtime := (s_runtime s)\<lparr>rs_State := state, rs_Error := sanitizeRuntimeError rd err\<rparr>\<rparr>"
      "setRuntime rd i state err st = (True, notify (event EventStatus s') (put_session (id_slug i) s' st))"
proof (cases "\<exists>s. map_of (st_sessions st) (id_slug i) = Some s \<and> s_revision s = id_revision i \<and>
    rs_gen (s_runtime s) = id_gen i \<and> validRuntimeTransition (rs_State (s_runtime s)) state")
  case True
  then obtain s where s: "map_of (st_sessions st) (id_slug i) = Some s" "s_revision s = id_revision i"
    "rs_gen (s_runtime s) = id_gen i" "validRuntimeTransition (rs_State (s_runtime s)) state" by blast
  show thesis
    by (rule that(2) [OF s refl]) (use s in \<open>simp add: setRuntime_def Let_def\<close>)
next
  case False
  then have "setRuntime rd i state err st = (False, st)"
    by (cases "map_of (st_sessions st) (id_slug i)") (simp_all add: setRuntime_def Let_def)
  with that(1) show thesis by blast
qed

lemma inv_bind:
  assumes inv: "store_inv d st"
  shows "store_inv d (snd (bindRuntime i st))"
proof (cases rule: bind_cases [of i st])
  case 1
  with inv show ?thesis by simp
next
  case (2 s st')
  have "store_inv d (put_session (id_slug i) (s\<lparr>s_runtime := starting (id_gen i)\<rparr>) st)"
    by (rule inv_put_same [OF inv 2(1)]) (use lookup_inv [OF inv 2(1)] in simp_all)
  with 2(4,5) show ?thesis by (auto intro: inv_notify)
qed

lemma inv_set:
  assumes inv: "store_inv d st"
  shows "store_inv d (snd (setRuntime rd i state err st))"
proof (cases rule: set_cases [of rd i state err st])
  case 1
  with inv show ?thesis by simp
next
  case (2 s s')
  have "store_inv d (put_session (id_slug i) s' st)"
    by (rule inv_put_same [OF inv 2(1)]) (use lookup_inv [OF inv 2(1)] 2(5) in simp_all)
  with 2(6) show ?thesis by (simp add: inv_notify)
qed

lemma delete_cases:
  obtains e where "Delete slug st = (Some e, st)"
  | s where "map_of (st_sessions st) slug = Some s"
      "snd (Delete slug st) = notify (event EventDeleted s) (drop_session slug st)"
  | s p where "map_of (st_sessions st) slug = Some s" "s_Pair p = slug"
      "map_of (st_sessions (notify (event EventDeleted s) (drop_session slug st))) (s_Pair s) = Some p"
      "snd (Delete slug st) =
        notify (event EventDeleted p) (drop_session (s_Pair s) (notify (event EventDeleted s) (drop_session slug st)))"
proof (cases "map_of (st_sessions st) slug")
  case None
  with that(1) show thesis by (simp add: Delete_def)
next
  case (Some s)
  let ?st1 = "notify (event EventDeleted s) (drop_session slug st)"
  show thesis
  proof (cases "map_of (st_sessions ?st1) (s_Pair s)")
    case None
    then have "snd (Delete slug st) = ?st1" unfolding Delete_def Let_def Some option.case by (simp only: option.case snd_conv)
    with that(2) [OF Some] show thesis by blast
  next
    case pair: (Some p)
    show thesis
    proof (cases "s_Pair p = slug")
      case True
      then have "snd (Delete slug st) = notify (event EventDeleted p) (drop_session (s_Pair s) ?st1)"
        unfolding Delete_def Let_def Some option.case by (simp only: pair option.case snd_conv True refl if_True)
      with that(3) [OF Some True pair] show thesis by blast
    next
      case False
      then have "snd (Delete slug st) = ?st1"
        unfolding Delete_def Let_def Some option.case by (simp only: pair option.case snd_conv if_False)
      with that(2) [OF Some] show thesis by blast
    qed
  qed
qed

lemma inv_delete:
  assumes inv: "store_inv d st"
  shows "store_inv d (snd (Delete slug st))"
  by (cases rule: delete_cases [of slug st]) (simp_all add: inv inv_notify inv_drop)

lemma inv_step: "store_inv d st \<Longrightarrow> store_inv d (store_step d rd x st)"
proof (cases x)
  case OSubscribe
  assume inv: "store_inv d st"
  have "set (AList.update (st_nextSub st) [] (st_subs st)) \<subseteq> insert (st_nextSub st, []) (set (st_subs st))"
    by (rule set_update_subset)
  then have "length ch \<le> subscriberBuffer" if "(k, ch) \<in> set (AList.update (st_nextSub st) [] (st_subs st))" for k ch
    using that inv by (auto simp: store_inv_def)
  with OSubscribe inv show ?thesis by (simp add: Subscribe_def store_inv_def)
next
  case (OUnsubscribe k)
  assume inv: "store_inv d st"
  with OUnsubscribe show ?thesis by (auto simp: Unsubscribe_def store_inv_def AList.delete_eq)
next
  case (OReceive k)
  assume inv: "store_inv d st"
  have "length (tl ch) \<le> length ch" for ch :: "Event list" by simp
  with OReceive inv show ?thesis by (fastforce simp: Receive_def store_inv_def intro: order_trans)
qed (simp_all add: inv_create inv_update inv_bind inv_set inv_delete)

lemma inv_run: "store_inv d st \<Longrightarrow> store_inv d (fold (store_step d rd) ops st)"
  by (induction ops arbitrary: st) (simp_all add: inv_step)

lemma inv_new: "store_inv d (NewStore [])"
  by (simp add: store_inv_def NewStore_def)

section \<open>A lane that was replaced, or that ended, never writes again\<close>

definition terminal :: "RuntimeState \<Rightarrow> bool" where
  "terminal s \<longleftrightarrow> s = StateFinished \<or> s = StateFailed"

definition locked_out :: "laneID \<Rightarrow> store \<Rightarrow> bool" where
  "locked_out i st \<longleftrightarrow> id_revision i \<le> st_nextRev st \<and>
     (\<forall>s. map_of (st_sessions st) (id_slug i) = Some s \<longrightarrow> s_revision s = id_revision i \<longrightarrow>
        id_gen i < rs_gen (s_runtime s) \<or> id_gen i = rs_gen (s_runtime s) \<and> terminal (rs_State (s_runtime s)))"

lemma locked_out_refused:
  assumes "locked_out i st"
  shows "bindRuntime i st = (False, st)" "setRuntime rd i state err st = (False, st)"
proof -
  show "bindRuntime i st = (False, st)"
    by (cases rule: bind_cases [of i st]) (use assms in \<open>auto simp: locked_out_def\<close>)
  show "setRuntime rd i state err st = (False, st)"
    by (cases rule: set_cases [of rd i state err st])
      (use assms in \<open>auto simp: locked_out_def terminal_def validRuntimeTransition_def\<close>)
qed

lemma locked_put_new:
  "locked_out i st \<Longrightarrow> s_revision s = st_nextRev st + 1 \<Longrightarrow>
    locked_out i (put_session slug s (st\<lparr>st_nextRev := st_nextRev st + 1\<rparr>))"
  by (auto simp: locked_out_def)

lemma locked_notify [simp]: "locked_out i (notify e st) = locked_out i st"
  by (simp add: locked_out_def)

lemma locked_put_same:
  assumes "locked_out i st" "map_of (st_sessions st) slug = Some s0" "s_revision s = s_revision s0"
    and "rs_gen (s_runtime s0) < rs_gen (s_runtime s) \<or>
      rs_gen (s_runtime s) = rs_gen (s_runtime s0) \<and> \<not> terminal (rs_State (s_runtime s0))"
  shows "locked_out i (put_session slug s st)"
  using assms by (auto simp: locked_out_def)

lemma locked_drop: "locked_out i st \<Longrightarrow> locked_out i (drop_session slug st)"
  by (simp add: locked_out_def)

lemma transition_not_terminal: "validRuntimeTransition a b \<Longrightarrow> \<not> terminal a"
  by (auto simp: terminal_def validRuntimeTransition_def)

lemma locked_step: "locked_out i st \<Longrightarrow> locked_out i (store_step d rd x st)"
proof (cases x)
  case (OCreate s)
  assume l: "locked_out i st"
  show ?thesis
    by (cases rule: create_cases [of d s st]) (use l OCreate locked_put_new [OF l] in \<open>simp_all\<close>)
next
  case (OUpdate slug add remove check)
  assume l: "locked_out i st"
  show ?thesis
    by (cases rule: update_cases [of d slug add remove check st]) (use l OUpdate locked_put_new [OF l] in \<open>simp_all\<close>)
next
  case (OBind j)
  assume l: "locked_out i st"
  show ?thesis
  proof (cases rule: bind_cases [of j st])
    case (2 s st')
    have "locked_out i (put_session (id_slug j) (s\<lparr>s_runtime := starting (id_gen j)\<rparr>) st)"
      by (rule locked_put_same [OF l 2(1)]) (use 2(3) in \<open>simp_all add: starting_def\<close>)
    with 2(4,5) OBind show ?thesis by auto
  qed (use l OBind in simp)
next
  case (OSet j state err)
  assume l: "locked_out i st"
  show ?thesis
  proof (cases rule: set_cases [of rd j state err st])
    case (2 s s')
    have "locked_out i (put_session (id_slug j) s' st)"
      by (rule locked_put_same [OF l 2(1)]) (use 2(5) transition_not_terminal [OF 2(4)] in simp_all)
    with 2(6) OSet show ?thesis by simp
  qed (use l OSet in simp)
next
  case (ODelete slug)
  assume l: "locked_out i st"
  show ?thesis
    by (cases rule: delete_cases [of slug st]) (use l ODelete locked_drop in simp_all)
qed (simp_all add: locked_out_def Subscribe_def Unsubscribe_def Receive_def)

lemma locked_run: "locked_out i st \<Longrightarrow> locked_out i (fold (store_step d rd) ops st)"
  by (induction ops arbitrary: st) (simp_all add: locked_step)

text \<open>How an incarnation is locked out: a newer one binds, the definition changes or goes away, or it
  reports a terminal state itself.\<close>

lemma bind_locks_older:
  assumes "bindRuntime j st = (True, st')" "id_slug j = id_slug i" "id_revision j = id_revision i" "id_gen i < id_gen j"
    and "store_inv d st"
  shows "locked_out i st'"
proof (cases rule: bind_cases [of j st])
  case (2 s t)
  have "id_revision i \<le> st_nextRev st" using lookup_inv [OF assms(5) 2(1)] 2(2) assms(3) by simp
  with 2 assms show ?thesis by (auto simp: locked_out_def starting_def)
qed (use assms(1) in simp)

lemma update_locks:
  assumes "updateLangs d (id_slug i) add remove check st = (Inr s, st')" "id_revision i \<le> st_nextRev st"
  shows "locked_out i st'"
  by (cases rule: update_cases [of d "id_slug i" add remove check st]) (use assms in \<open>auto simp: locked_out_def\<close>)

lemma terminal_locks:
  assumes "setRuntime rd i state err st = (True, st')" "terminal state" "store_inv d st"
  shows "locked_out i st'"
proof (cases rule: set_cases [of rd i state err st])
  case (2 s s')
  have "id_revision i \<le> st_nextRev st" using lookup_inv [OF assms(3) 2(1)] 2(2) by simp
  with 2 assms(1,2) show ?thesis by (auto simp: locked_out_def)
qed (use assms(1) in simp)

lemma delete_locks:
  assumes "Delete (id_slug i) st = (None, st')" "id_revision i \<le> st_nextRev st"
  shows "locked_out i st'"
proof -
  have e: "st' = snd (Delete (id_slug i) st)" using assms(1) by simp
  show ?thesis
  proof (cases rule: delete_cases [of "id_slug i" st])
    case (1 e)
    with assms(1) show ?thesis by simp
  next
    case (2 s)
    with e assms(2) show ?thesis by (simp add: locked_out_def)
  next
    case (3 s p)
    have "locked_out i (notify (event EventDeleted s) (drop_session (id_slug i) st))"
      using assms(2) by (simp add: locked_out_def)
    with e 3(4) locked_drop show ?thesis by simp
  qed
qed

section \<open>Language updates\<close>

lemma merge_loop_spec:
  "distinct out \<Longrightarrow> \<exists>new. merge_loop gone ls out = out @ new \<and> distinct (out @ new) \<and> set new = set ls - set gone - set out"
proof (induction ls arbitrary: out)
  case (Cons l ls)
  show ?case
  proof (cases "l \<in> set gone \<or> l \<in> set out")
    case True
    with Cons.IH [OF Cons.prems] show ?thesis by auto
  next
    case False
    with Cons.prems have "distinct (out @ [l])" by simp
    from Cons.IH [OF this] obtain new where "merge_loop gone ls (out @ [l]) = (out @ [l]) @ new"
      "distinct ((out @ [l]) @ new)" "set new = set ls - set gone - set (out @ [l])" by blast
    with False show ?thesis by (intro exI [of _ "l # new"]) auto
  qed
qed simp

lemma merge_loop_append: "merge_loop gone (xs @ ys) out = merge_loop gone ys (merge_loop gone xs out)"
  by (induction xs arbitrary: out) auto

lemma merge_loop_kept:
  "distinct (out @ xs) \<Longrightarrow> merge_loop gone xs out = out @ filter (\<lambda>l. l \<notin> set gone) xs"
  by (induction xs arbitrary: out) auto

lemma mergeLangs_spec:
  assumes "distinct current"
  shows "\<exists>new. mergeLangs current add remove = filter (\<lambda>l. l \<notin> set remove) current @ new \<and>
    distinct (mergeLangs current add remove) \<and>
    set (mergeLangs current add remove) = (set current \<union> set add) - set remove"
proof -
  let ?k = "filter (\<lambda>l. l \<notin> set remove) current"
  have "mergeLangs current add remove = merge_loop remove add ?k"
    using merge_loop_kept [of "[]" current remove] assms by (simp add: mergeLangs_def merge_loop_append)
  moreover obtain new where "merge_loop remove add ?k = ?k @ new" "distinct (?k @ new)"
    "set new = set add - set remove - set ?k"
    using merge_loop_spec [of ?k remove add] assms by auto
  ultimately show ?thesis by auto
qed

section \<open>Properties\<close>

text \<open>C22: in every execution, each stored session sits under its own slug and passes validation, no more
  than the configured maximum are stored, and no subscriber is owed more than its buffer.\<close>

theorem store_always_valid:
  assumes "store_inv d st"
  shows "store_inv d (fold (store_step d rd) ops st)"
  using assms by (rule inv_run)

definition demo_render :: render where
  "demo_render = \<lparr>r_is_print = (\<lambda>r. 32 \<le> r), r_quote = (\<lambda>s. [34] @ s @ [34])\<rparr>"

theorem store_always_valid_witness:
  "store_inv demo_std (fold (store_step demo_std demo_render)
     [OSubscribe, OCreate demo_session, OUpdate (str ''talk'') [str ''fr''] [] None, ODelete (str ''talk'')] (NewStore []))"
  by (rule store_always_valid) (rule inv_new)

text \<open>C8: once a lane incarnation is replaced by a newer one, or has reported a terminal state, or its
  definition was updated or deleted, it can neither bind nor write a state again, whatever
  operations follow; not even after the slug is created anew.\<close>

theorem replaced_lane_is_locked_out:
  assumes "store_inv d st"
    and "(\<exists>j. bindRuntime j st = (True, st') \<and> id_slug j = id_slug i \<and> id_revision j = id_revision i \<and> id_gen i < id_gen j) \<or>
      (\<exists>state err. setRuntime rd i state err st = (True, st') \<and> terminal state) \<or>
      (\<exists>add remove check s. updateLangs d (id_slug i) add remove check st = (Inr s, st') \<and> id_revision i \<le> st_nextRev st) \<or>
      (Delete (id_slug i) st = (None, st') \<and> id_revision i \<le> st_nextRev st)"
  shows "setRuntime rd i state' err' (fold (store_step d rd) ops st') = (False, fold (store_step d rd) ops st') \<and>
    bindRuntime i (fold (store_step d rd) ops st') = (False, fold (store_step d rd) ops st')"
proof -
  have "locked_out i st'"
    using assms bind_locks_older [OF _ _ _ _ assms(1)] terminal_locks [OF _ _ assms(1)] update_locks delete_locks by blast
  from locked_run [OF this] locked_out_refused show ?thesis by blast
qed

theorem replaced_lane_is_locked_out_witness:
  "let i = \<lparr>id_slug = str ''talk'', id_revision = 1, id_gen = 1\<rparr>;
       st0 = snd (Create demo_std demo_session (NewStore []));
       st1 = snd (bindRuntime i st0);
       st2 = snd (bindRuntime (i\<lparr>id_gen := 2\<rparr>) st1)
   in fst (setRuntime demo_render i StateRunning None st1) \<and> \<not> fst (setRuntime demo_render i StateRunning None st2)"
proof -
  let ?i = "\<lparr>id_slug = str ''talk'', id_revision = 1, id_gen = 1\<rparr>"
  let ?st0 = "snd (Create demo_std demo_session (NewStore []))"
  let ?st1 = "snd (bindRuntime ?i ?st0)"
  let ?st2 = "snd (bindRuntime (?i\<lparr>id_gen := 2\<rparr>) ?st1)"
  have inv: "store_inv demo_std ?st1" by (intro inv_bind inv_create inv_new)
  have "fst (bindRuntime (?i\<lparr>id_gen := 2\<rparr>) ?st1) \<and> fst (setRuntime demo_render ?i StateRunning None ?st1)" by code_simp
  moreover then have "bindRuntime (?i\<lparr>id_gen := 2\<rparr>) ?st1 = (True, ?st2)" by (simp add: prod_eq_iff)
  then have "\<exists>j. bindRuntime j ?st1 = (True, ?st2) \<and> id_slug j = id_slug ?i \<and> id_revision j = id_revision ?i \<and> id_gen ?i < id_gen j"
    by (intro exI [of _ "?i\<lparr>id_gen := 2\<rparr>"]) simp
  then have "setRuntime demo_render ?i StateRunning None (fold (store_step demo_std demo_render) [] ?st2) =
      (False, fold (store_step demo_std demo_render) [] ?st2)"
    using replaced_lane_is_locked_out [OF inv, of ?st2 ?i demo_render StateRunning None "[]"] by blast
  ultimately show ?thesis by (simp add: Let_def)
qed

text \<open>A language update keeps the surviving targets in the order they were first enabled, adds only
  what was asked for, never duplicates, and narrows the dub selection to the surviving targets; a
  rejected update changes nothing.\<close>

lemma language_update_is_exact:
  assumes "store_inv d st" and "updateLangs d slug add remove check st = (r, st')"
    and "map_of (st_sessions st) slug = Some s"
  shows "case r of
      Inl e \<Rightarrow> st' = st
    | Inr t \<Rightarrow> map_of (st_sessions st') slug = Some t \<and> distinct (s_Langs t) \<and>
        set (s_Langs t) = (set (s_Langs s) \<union> set add) - set remove \<and>
        (\<exists>new. s_Langs t = filter (\<lambda>l. l \<notin> set remove) (s_Langs s) @ new) \<and>
        set (d_langs (s_DubLangs t)) \<subseteq> set (d_langs (s_DubLangs s)) \<and>
        (\<forall>k. k \<noteq> slug \<longrightarrow> map_of (st_sessions st') k = map_of (st_sessions st) k)"
proof -
  have "distinct (s_Langs s)"
    using lookup_inv [OF assms(1,3)] validate_sound [of d s] by (simp add: valid_session_def)
  note m = mergeLangs_spec [OF this, of add remove]
  show ?thesis
  proof (cases rule: update_cases [of d slug add remove check st])
    case (1 e)
    with assms(2) have "r = Inl e" "st' = st" by auto
    then show ?thesis by simp
  next
    case (2 s0 t)
    have "s0 = s" using 2(1) assms(3) by simp
    moreover have "r = Inr t" "st' = notify (event EventUpdated t) (put_session slug t (st\<lparr>st_nextRev := st_nextRev st + 1\<rparr>))"
      using 2(2) assms(2) by auto
    ultimately show ?thesis using 2(3) m by (auto simp: retain_def)
  qed
qed

lemma language_update_is_exact_witness:
  "\<exists>st st' t. updateLangs demo_std (str ''talk'') [str ''fr''] [str ''en''] None st = (Inr t, st') \<and>
     s_Langs t = [str ''de-CH'', str ''fr''] \<and> map_of (st_sessions st') (str ''talk'') = Some t"
proof -
  let ?st = "snd (Create demo_std demo_session (NewStore []))"
  let ?r = "updateLangs demo_std (str ''talk'') [str ''fr''] [str ''en''] None ?st"
  have inv: "store_inv demo_std ?st" by (intro inv_create inv_new)
  have c: "(case fst ?r of Inr t \<Rightarrow> s_Langs t = [str ''de-CH'', str ''fr''] | _ \<Rightarrow> False) \<and>
      map_of (st_sessions ?st) (str ''talk'') \<noteq> None" by code_simp
  then obtain s where s: "map_of (st_sessions ?st) (str ''talk'') = Some s" by blast
  obtain t where t: "fst ?r = Inr t" "s_Langs t = [str ''de-CH'', str ''fr'']" using c by (cases "fst ?r") auto
  have r: "?r = (Inr t, snd ?r)" using t(1) by (simp add: prod_eq_iff)
  from language_update_is_exact [OF inv r s] have "map_of (st_sessions (snd ?r)) (str ''talk'') = Some t" by simp
  with r t(2) show ?thesis by blast
qed

end
