(* ===== verification/Runtime.thy ===== *)
theory Runtime
  imports Store
begin

text \<open>
  \<^verbatim>\<open>internal/core/session/runtime.go\<close>: the lanes of the sessions. The event loop is one goroutine; it
  works off a list of commands, one per critical section of \<open>r.mu\<close> or call into the store, so that
  the lane goroutines and the other users of the store interleave with it everywhere they can. A lane
  goroutine is a process named by its generation; its \<open>done\<close> channel is closed when it is \<open>LDead\<close>.
\<close>

section \<open>Backoff\<close>

definition reconcileEvery :: duration where "reconcileEvery = 10 * second"
definition failedRetryBase :: duration where "failedRetryBase = 10 * second"
definition failedRetryMax :: duration where "failedRetryMax = 5 * minute"

fun retry_loop :: "nat \<Rightarrow> duration \<Rightarrow> duration" where
  "retry_loop 0 delay = delay"
| "retry_loop (Suc n) delay =
     (if delay \<ge> go_div failedRetryMax 2 then failedRetryMax else retry_loop n (wrap64 (delay * 2)))"

definition fnv32a :: "byte list \<Rightarrow> 32 word" where
  "fnv32a bs = fold (\<lambda>b h. (h XOR ucast b) * 16777619) bs 2166136261"

definition failedRetryDelay :: "gostr \<Rightarrow> 8 word \<Rightarrow> duration" where
  "failedRetryDelay slug retries =
     (let delay = retry_loop (unat retries) failedRetryBase;
          jitter = go_div (wrap64 (uint (fnv32a (utf8 slug) mod 1000) * delay)) 5000
      in min (delay + jitter) failedRetryMax)"

definition nextRetryCount :: "8 word \<Rightarrow> bool \<Rightarrow> 8 word" where
  "nextRetryCount previous retrying = (if retrying \<and> previous < NOT 0 then previous + 1 else 0)"

section \<open>The registry\<close>

datatype laneState = laneRunning | laneStopping | laneExited

text \<open>The zero \<open>retryAt\<close> is \<open>None\<close>: it is before every instant. \<open>done\<close> is named by the generation.\<close>

record laneReg =
  r_spec :: Session
  r_retryAt :: "int option"
  r_gen :: nat
  r_retries :: "8 word"
  r_state :: laneState

definition sameDefinition :: "Session \<Rightarrow> Session \<Rightarrow> bool" where
  "sameDefinition a b \<longleftrightarrow> s_Slug a = s_Slug b \<and> s_Profile a = s_Profile b \<and>
     s_URL a = s_URL b \<and> s_VideoDir a = s_VideoDir b \<and> s_SourceDelay a = s_SourceDelay b \<and>
     s_Langs a = s_Langs b \<and> s_Delay a = s_Delay b \<and> sameMedia a b"

definition due :: "int \<Rightarrow> laneReg \<Rightarrow> bool" where
  "due now reg = (case r_retryAt reg of None \<Rightarrow> True | Some t \<Rightarrow> \<not> now < t)"

definition laneDisposition :: "laneReg option \<Rightarrow> Session \<Rightarrow> int \<Rightarrow> bool \<times> bool" where
  "laneDisposition r s now =
     (case r of
        None \<Rightarrow> (False, False)
      | Some reg \<Rightarrow>
          let same = r_state reg \<noteq> laneStopping \<and> s_revision (r_spec reg) = s_revision s \<and> sameDefinition (r_spec reg) s;
              retrying = same \<and> r_state reg = laneExited \<and> rs_State (Runtime s) = StateFailed \<and> due now reg
          in (same, retrying))"

definition restartable :: "RuntimeState \<Rightarrow> bool" where
  "restartable state \<longleftrightarrow> state = StateStarting \<or> state = StateRunning \<or> state = StateFailed"

section \<open>Lane goroutines and the event loop\<close>

text \<open>\<open>LNew\<close>: registered, not bound yet. \<open>LAbandoned\<close> and \<open>LWaiting\<close> wait for the predecessor. \<open>LScrub\<close> runs
  \<open>preStart\<close>, \<open>LActive\<close> is inside the starter, \<open>LLeaving\<close> runs the deferred \<open>cancel\<close> and \<open>forget\<close>,
  \<open>LForgot\<close> is about to close \<open>done\<close>.\<close>

datatype phase = LNew | LAbandoned | LWaiting | LScrub | LActive | LLeaving | LForgot | LDead

record lane_proc =
  l_id :: laneID
  l_prev :: "nat option"
  l_pre :: bool
  l_canceled :: bool
  l_phase :: phase

datatype cmd =
    CSync gostr
  | CStop gostr
  | CStopWait gostr
  | CAwait gostr nat
  | CLaunch Session bool
  | CBind laneID
  | CClean gostr
  | CReconcileOne Session
  | COrphans "gostr list"
  | CReconfOne gostr
  | CAwaitAll

record runtime =
  rt_store :: store
  rt_lanes :: "(gostr \<times> laneReg) list"
  rt_procs :: "nat \<Rightarrow> lane_proc option"
  rt_nextGen :: nat
  rt_loop :: "cmd list"
  rt_now :: int
  rt_down :: bool

definition lane_of :: "runtime \<Rightarrow> gostr \<Rightarrow> laneReg option" where
  "lane_of rt slug = map_of (rt_lanes rt) slug"

definition set_lane :: "gostr \<Rightarrow> laneReg \<Rightarrow> runtime \<Rightarrow> runtime" where
  "set_lane slug reg rt = rt\<lparr>rt_lanes := AList.update slug reg (rt_lanes rt)\<rparr>"

definition drop_lane :: "gostr \<Rightarrow> runtime \<Rightarrow> runtime" where
  "drop_lane slug rt = rt\<lparr>rt_lanes := AList.delete slug (rt_lanes rt)\<rparr>"

definition set_phase :: "nat \<Rightarrow> phase \<Rightarrow> runtime \<Rightarrow> runtime" where
  "set_phase g ph rt = rt\<lparr>rt_procs := (rt_procs rt)(g := map_option (\<lambda>p. p\<lparr>l_phase := ph\<rparr>) (rt_procs rt g))\<rparr>"

definition cancel_lane :: "nat \<Rightarrow> runtime \<Rightarrow> runtime" where
  "cancel_lane g rt = rt\<lparr>rt_procs := (rt_procs rt)(g := map_option (\<lambda>p. p\<lparr>l_canceled := True\<rparr>) (rt_procs rt g))\<rparr>"

text \<open>\<open>stop\<close>: the result is the \<open>done\<close> channel to wait for, if the lane exists.\<close>

definition stop :: "gostr \<Rightarrow> runtime \<Rightarrow> nat option \<times> runtime" where
  "stop slug rt =
     (case lane_of rt slug of
        None \<Rightarrow> (None, rt)
      | Some reg \<Rightarrow>
          (Some (r_gen reg),
           case r_state reg of
             laneRunning \<Rightarrow> set_lane slug (reg\<lparr>r_state := laneStopping\<rparr>) (cancel_lane (r_gen reg) rt)
           | laneStopping \<Rightarrow> rt
           | laneExited \<Rightarrow> drop_lane slug rt))"

text \<open>The last part of \<open>stopAndWait\<close>, after \<open>done\<close> is closed.\<close>

definition await_cleanup :: "gostr \<Rightarrow> nat \<Rightarrow> runtime \<Rightarrow> runtime" where
  "await_cleanup slug g rt =
     (case lane_of rt slug of
        Some reg \<Rightarrow> if r_gen reg = g \<and> r_state reg = laneExited then drop_lane slug rt else rt
      | None \<Rightarrow> rt)"

text \<open>The critical section of \<open>launch\<close>; the result is the identity to bind, if a lane is launched.\<close>

definition launch :: "Session \<Rightarrow> bool \<Rightarrow> runtime \<Rightarrow> laneID option \<times> runtime" where
  "launch s pre rt =
     (case laneDisposition (lane_of rt (s_Slug s)) s (rt_now rt) of
        (same, retrying) \<Rightarrow>
          if same \<and> \<not> retrying then (None, rt)
          else
            let g = rt_nextGen rt + 1;
                prev = map_option r_gen (lane_of rt (s_Slug s));
                retries = nextRetryCount (case lane_of rt (s_Slug s) of None \<Rightarrow> 0 | Some reg \<Rightarrow> r_retries reg) retrying;
                i = \<lparr>id_slug = s_Slug s, id_revision = s_revision s, id_gen = g\<rparr>;
                reg = \<lparr>r_spec = s, r_retryAt = None, r_gen = g, r_retries = retries, r_state = laneRunning\<rparr>;
                proc = \<lparr>l_id = i, l_prev = prev, l_pre = pre, l_canceled = False, l_phase = LNew\<rparr>
            in (Some i, (set_lane (s_Slug s) reg rt)\<lparr>rt_nextGen := g, rt_procs := (rt_procs rt)(g \<mapsto> proc)\<rparr>))"

text \<open>The end of \<open>launch\<close>: bind the incarnation, then run it or abandon it.\<close>

definition bind_lane :: "laneID \<Rightarrow> runtime \<Rightarrow> runtime" where
  "bind_lane i rt =
     (case bindRuntime i (rt_store rt) of
        (True, st) \<Rightarrow> set_phase (id_gen i) LWaiting (rt\<lparr>rt_store := st\<rparr>)
      | (False, st) \<Rightarrow> set_phase (id_gen i) LAbandoned (cancel_lane (id_gen i) (rt\<lparr>rt_store := st\<rparr>)))"

definition lane_keys :: "runtime \<Rightarrow> gostr list" where
  "lane_keys rt = map fst (rt_lanes rt)"

definition lane_in_state :: "runtime \<Rightarrow> laneState list \<Rightarrow> gostr \<Rightarrow> bool" where
  "lane_in_state rt states slug = (case lane_of rt slug of None \<Rightarrow> False | Some reg \<Rightarrow> r_state reg \<in> set states)"

definition orphans :: "gostr list \<Rightarrow> runtime \<Rightarrow> gostr list \<times> runtime" where
  "orphans current rt =
     (let gone = filter (\<lambda>slug. slug \<notin> set current) (lane_keys rt)
      in (filter (lane_in_state rt [laneRunning, laneExited]) gone,
          fold drop_lane (filter (lane_in_state rt [laneExited]) gone) rt))"

definition reconfigurable :: "runtime \<Rightarrow> gostr list" where
  "reconfigurable rt =
     map s_Slug (filter (\<lambda>s. case lane_of rt (s_Slug s) of
         None \<Rightarrow> False
       | Some reg \<Rightarrow> r_state reg \<noteq> laneStopping \<and> restartable (rs_State (Runtime s)))
       (List_all (rt_store rt)))"

definition stop_all :: "runtime \<Rightarrow> runtime" where
  "stop_all rt =
     rt\<lparr>rt_procs := (\<lambda>g. map_option (\<lambda>p. if \<exists>slug \<in> set (lane_keys rt). lane_in_state rt [laneRunning] slug \<and> map_option r_gen (lane_of rt slug) = Some g
                          then p\<lparr>l_canceled := True\<rparr> else p) (rt_procs rt g)),
        rt_lanes := map (\<lambda>(slug, reg). (slug, if r_state reg = laneRunning then reg\<lparr>r_state := laneStopping\<rparr> else reg)) (rt_lanes rt)\<rparr>"

definition needs_replacement :: "laneReg \<Rightarrow> Session \<Rightarrow> bool" where
  "needs_replacement reg s \<longleftrightarrow> s_revision (r_spec reg) \<noteq> s_revision s \<or> \<not> sameDefinition (r_spec reg) s"

text \<open>One command: what it does, and the commands it turns into. \<open>CAwait\<close> and \<open>CAwaitAll\<close> block.\<close>

definition lane_dead :: "runtime \<Rightarrow> nat \<Rightarrow> bool" where
  "lane_dead rt g = (case rt_procs rt g of None \<Rightarrow> True | Some p \<Rightarrow> l_phase p = LDead)"

definition syncCurrent :: "gostr \<Rightarrow> runtime \<Rightarrow> cmd list" where
  "syncCurrent slug rt =
     (case Get slug (rt_store rt) of
        Inl e \<Rightarrow> [CStopWait slug, CClean slug]
      | Inr s \<Rightarrow>
          (case lane_of rt slug of
             Some reg \<Rightarrow> if needs_replacement reg s then [CStop slug, CLaunch s True] else [CLaunch s False]
           | None \<Rightarrow> [CLaunch s False]))"

definition reconcile_one :: "Session \<Rightarrow> runtime \<Rightarrow> cmd list" where
  "reconcile_one s rt =
     (case lane_of rt (s_Slug s) of
        None \<Rightarrow> [CLaunch s False]
      | Some reg \<Rightarrow>
          if needs_replacement reg s then [CStop (s_Slug s), CLaunch s True]
          else if r_state reg = laneExited \<and> rs_State (Runtime s) = StateFailed \<and> due (rt_now rt) reg
          then [CLaunch s True] else [])"

definition reconf_one :: "gostr \<Rightarrow> runtime \<Rightarrow> cmd list" where
  "reconf_one slug rt =
     (case Get slug (rt_store rt) of
        Inl e \<Rightarrow> [CStopWait slug, CClean slug]
      | Inr s \<Rightarrow> if \<not> restartable (rs_State (Runtime s)) then [] else [CStop slug, CLaunch s True])"

fun run_cmd :: "cmd \<Rightarrow> runtime \<Rightarrow> (runtime \<times> cmd list) option" where
  "run_cmd (CSync slug) rt = Some (rt, syncCurrent slug rt)"
| "run_cmd (CStop slug) rt = Some (snd (stop slug rt), [])"
| "run_cmd (CStopWait slug) rt =
     (case stop slug rt of
        (None, rt') \<Rightarrow> Some (rt', [])
      | (Some g, rt') \<Rightarrow> Some (rt', [CAwait slug g]))"
| "run_cmd (CAwait slug g) rt = (if lane_dead rt g then Some (await_cleanup slug g rt, []) else None)"
| "run_cmd (CLaunch s pre) rt =
     (case launch s pre rt of
        (None, rt') \<Rightarrow> Some (rt', [])
      | (Some i, rt') \<Rightarrow> Some (rt', [CBind i]))"
| "run_cmd (CBind i) rt = Some (bind_lane i rt, [])"
| "run_cmd (CClean slug) rt = Some (rt, [])"
| "run_cmd (CReconcileOne s) rt = Some (rt, reconcile_one s rt)"
| "run_cmd (COrphans current) rt =
     (case orphans current rt of (out, rt') \<Rightarrow> Some (rt', concat (map (\<lambda>slug. [CStopWait slug, CClean slug]) out)))"
| "run_cmd (CReconfOne slug) rt = Some (rt, reconf_one slug rt)"
| "run_cmd CAwaitAll rt =
     (if \<forall>g \<le> rt_nextGen rt. lane_dead rt g
      then Some (rt, map (\<lambda>s. CClean (s_Slug s)) (List_all (rt_store rt))) else None)"

text \<open>What the loop's \<open>select\<close> turns into commands.\<close>

definition apply_event :: "Event \<Rightarrow> runtime \<Rightarrow> cmd list" where
  "apply_event e rt =
     (let slug = s_Slug (ev_Session e) in
      case ev_Type e of
        EventCreated \<Rightarrow> [CSync slug]
      | EventUpdated \<Rightarrow> [CSync slug]
      | EventDeleted \<Rightarrow>
          (case Get slug (rt_store rt) of
             Inr s \<Rightarrow> [CSync slug]
           | Inl x \<Rightarrow> [CStopWait slug, CClean slug])
      | EventStatus \<Rightarrow> [])"

definition reconcile :: "runtime \<Rightarrow> cmd list" where
  "reconcile rt = map CReconcileOne (List_all (rt_store rt)) @ [COrphans (map s_Slug (List_all (rt_store rt)))]"

definition forget :: "laneID \<Rightarrow> runtime \<Rightarrow> runtime" where
  "forget i rt =
     (case lane_of rt (id_slug i) of
        Some reg \<Rightarrow> if r_gen reg = id_gen i then set_lane (id_slug i) (reg\<lparr>r_state := laneExited\<rparr>) rt else rt
      | None \<Rightarrow> rt)"

definition scheduleRetry :: "laneID \<Rightarrow> runtime \<Rightarrow> runtime" where
  "scheduleRetry i rt =
     (case lane_of rt (id_slug i) of
        Some reg \<Rightarrow>
          if r_gen reg \<noteq> id_gen i then rt
          else set_lane (id_slug i) (reg\<lparr>r_retryAt := Some (rt_now rt + failedRetryDelay (id_slug i) (r_retries reg))\<rparr>) rt
      | None \<Rightarrow> rt)"

definition finishLane :: "render \<Rightarrow> lane_proc \<Rightarrow> lane_failure option \<Rightarrow> runtime \<Rightarrow> runtime" where
  "finishLane rd p err rt =
     (case err of
        None \<Rightarrow> rt\<lparr>rt_store := snd (setRuntime rd (l_id p) StateFinished None (rt_store rt))\<rparr>
      | Some e \<Rightarrow>
          if l_canceled p then rt
          else (case setRuntime rd (l_id p) StateFailed (Some e) (rt_store rt) of
                  (ok, st) \<Rightarrow> (if ok then scheduleRetry (l_id p) else id) (rt\<lparr>rt_store := st\<rparr>)))"

text \<open>
  The steps: the loop receives or runs its next command, a lane goroutine moves, someone else uses the
  store, time passes.
\<close>

inductive rt_step :: "std \<Rightarrow> render \<Rightarrow> runtime \<Rightarrow> runtime \<Rightarrow> bool" for d rd where
  loop_event: "rt_loop rt = [] \<Longrightarrow> \<not> rt_down rt \<Longrightarrow> rt_step d rd rt (rt\<lparr>rt_loop := apply_event e rt\<rparr>)"
| loop_tick: "rt_loop rt = [] \<Longrightarrow> \<not> rt_down rt \<Longrightarrow> rt_step d rd rt (rt\<lparr>rt_loop := reconcile rt\<rparr>)"
| loop_reload: "rt_loop rt = [] \<Longrightarrow> \<not> rt_down rt \<Longrightarrow>
    rt_step d rd rt (rt\<lparr>rt_loop := map CReconfOne (reconfigurable rt)\<rparr>)"
| loop_closed: "rt_loop rt = [] \<Longrightarrow> \<not> rt_down rt \<Longrightarrow>
    rt_step d rd rt ((stop_all rt)\<lparr>rt_loop := [CAwaitAll], rt_down := True\<rparr>)"
| loop_cmd: "rt_loop rt = c # cs \<Longrightarrow> run_cmd c rt = Some (rt', nxt) \<Longrightarrow>
    rt_step d rd rt (rt'\<lparr>rt_loop := nxt @ cs\<rparr>)"
| lane_abandoned: "rt_procs rt g = Some p \<Longrightarrow> l_phase p = LAbandoned \<Longrightarrow>
    (case l_prev p of None \<Rightarrow> True | Some q \<Rightarrow> lane_dead rt q) \<Longrightarrow> rt_step d rd rt (set_phase g LLeaving rt)"
| lane_canceled: "rt_procs rt g = Some p \<Longrightarrow> l_phase p = LWaiting \<Longrightarrow>
    (case l_prev p of None \<Rightarrow> True | Some q \<Rightarrow> lane_dead rt q) \<Longrightarrow> l_canceled p \<Longrightarrow>
    rt_step d rd rt (set_phase g LLeaving rt)"
| lane_starts: "rt_procs rt g = Some p \<Longrightarrow> l_phase p = LWaiting \<Longrightarrow>
    (case l_prev p of None \<Rightarrow> True | Some q \<Rightarrow> lane_dead rt q) \<Longrightarrow> \<not> l_canceled p \<Longrightarrow>
    rt_step d rd rt (set_phase g (if l_pre p then LScrub else LActive) rt)"
| lane_scrubbed: "rt_procs rt g = Some p \<Longrightarrow> l_phase p = LScrub \<Longrightarrow> rt_step d rd rt (set_phase g LActive rt)"
| lane_running: "rt_procs rt g = Some p \<Longrightarrow> l_phase p = LActive \<Longrightarrow>
    rt_step d rd rt (rt\<lparr>rt_store := snd (setRuntime rd (l_id p) StateRunning None (rt_store rt))\<rparr>)"
| lane_returns: "rt_procs rt g = Some p \<Longrightarrow> l_phase p = LActive \<Longrightarrow>
    rt_step d rd rt (set_phase g LLeaving (finishLane rd p err rt))"
| lane_forgets: "rt_procs rt g = Some p \<Longrightarrow> l_phase p = LLeaving \<Longrightarrow>
    rt_step d rd rt (set_phase g LForgot (forget (l_id p) rt))"
| lane_closes: "rt_procs rt g = Some p \<Longrightarrow> l_phase p = LForgot \<Longrightarrow> rt_step d rd rt (set_phase g LDead rt)"
| parent_canceled: "rt_step d rd rt (cancel_lane g rt)"
| store_used: "rt_step d rd rt (rt\<lparr>rt_store := store_step d rd x (rt_store rt)\<rparr>)"
| time_passes: "rt_now rt \<le> now \<Longrightarrow> rt_step d rd rt (rt\<lparr>rt_now := now\<rparr>)"

definition NewRuntime :: "store \<Rightarrow> runtime" where
  "NewRuntime st = \<lparr>rt_store = st, rt_lanes = [], rt_procs = (\<lambda>_. None), rt_nextGen = 0,
     rt_loop = map (\<lambda>s. CLaunch s False) (List_all st), rt_now = 0, rt_down = False\<rparr>"

section \<open>The invariant of the lanes\<close>

definition quiet :: "runtime \<Rightarrow> nat \<Rightarrow> bool" where
  "quiet rt g \<longleftrightarrow> (\<forall>p. rt_procs rt g = Some p \<longrightarrow> l_phase p = LForgot \<or> l_phase p = LDead)"

definition started :: "phase \<Rightarrow> bool" where
  "started ph \<longleftrightarrow> ph = LScrub \<or> ph = LActive \<or> ph = LLeaving \<or> ph = LForgot \<or> ph = LDead"

definition lane_slug :: "runtime \<Rightarrow> nat \<Rightarrow> gostr option" where
  "lane_slug rt g = map_option (\<lambda>p. id_slug (l_id p)) (rt_procs rt g)"

definition slug_quiet :: "runtime \<Rightarrow> gostr \<Rightarrow> bool" where
  "slug_quiet rt slug \<longleftrightarrow> (\<forall>g. lane_slug rt g = Some slug \<longrightarrow> quiet rt g)"

definition newest_of :: "runtime \<Rightarrow> gostr \<Rightarrow> nat \<Rightarrow> bool" where
  "newest_of rt slug g \<longleftrightarrow> lane_slug rt g = Some slug \<and> (\<forall>h. lane_slug rt h = Some slug \<longrightarrow> h \<le> g)"

definition procs_ok :: "runtime \<Rightarrow> bool" where
  "procs_ok rt \<longleftrightarrow> (\<forall>g p. rt_procs rt g = Some p \<longrightarrow>
     0 < g \<and> g \<le> rt_nextGen rt \<and> id_gen (l_id p) = g \<and>
     (\<forall>q. l_prev p = Some q \<longrightarrow> q < g \<and> lane_slug rt q = Some (id_slug (l_id p))) \<and>
     (\<forall>h < g. lane_slug rt h = Some (id_slug (l_id p)) \<longrightarrow>
        (started (l_phase p) \<or> l_prev p = None \<longrightarrow> quiet rt h) \<and> (\<forall>q. l_prev p = Some q \<longrightarrow> h \<le> q)))"

definition lanes_ok :: "runtime \<Rightarrow> bool" where
  "lanes_ok rt \<longleftrightarrow> (\<forall>slug. case lane_of rt slug of
     None \<Rightarrow> slug_quiet rt slug
   | Some reg \<Rightarrow> newest_of rt slug (r_gen reg) \<and> (r_state reg = laneExited \<longrightarrow> quiet rt (r_gen reg)))"

lemma lane_of_set_lane [simp]:
  "lane_of (set_lane slug reg rt) = (lane_of rt)(slug \<mapsto> reg)"
  by (simp add: lane_of_def set_lane_def update_conv' fun_eq_iff)

lemma lane_of_drop_lane [simp]:
  "lane_of (drop_lane slug rt) = (lane_of rt)(slug := None)"
  by (simp add: lane_of_def drop_lane_def delete_conv' fun_eq_iff)

lemma lane_of_frames [simp]:
  "lane_of (rt\<lparr>rt_store := st\<rparr>) = lane_of rt"
  "lane_of (rt\<lparr>rt_loop := l\<rparr>) = lane_of rt"
  "lane_of (rt\<lparr>rt_now := n\<rparr>) = lane_of rt"
  "lane_of (rt\<lparr>rt_down := b\<rparr>) = lane_of rt"
  "lane_of (rt\<lparr>rt_procs := ps\<rparr>) = lane_of rt"
  "lane_of (rt\<lparr>rt_nextGen := g\<rparr>) = lane_of rt"
  "lane_of (set_phase g ph rt) = lane_of rt"
  "lane_of (cancel_lane g rt) = lane_of rt"
  by (simp_all add: lane_of_def set_phase_def cancel_lane_def fun_eq_iff)

lemma procs_frames [simp]:
  "rt_procs (set_lane slug reg rt) = rt_procs rt"
  "rt_procs (drop_lane slug rt) = rt_procs rt"
  "rt_nextGen (set_lane slug reg rt) = rt_nextGen rt"
  "rt_nextGen (drop_lane slug rt) = rt_nextGen rt"
  "rt_nextGen (set_phase g ph rt) = rt_nextGen rt"
  "rt_nextGen (cancel_lane g rt) = rt_nextGen rt"
  "rt_loop (set_lane slug reg rt) = rt_loop rt"
  "rt_loop (drop_lane slug rt) = rt_loop rt"
  "rt_loop (set_phase g ph rt) = rt_loop rt"
  "rt_loop (cancel_lane g rt) = rt_loop rt"
  by (simp_all add: set_lane_def drop_lane_def set_phase_def cancel_lane_def)

text \<open>Two runtimes whose lanes differ in what the invariant does not read.\<close>

definition same_lanes :: "runtime \<Rightarrow> runtime \<Rightarrow> bool" where
  "same_lanes a b \<longleftrightarrow> rt_nextGen a = rt_nextGen b \<and>
     (\<forall>g. map_option (\<lambda>p. (l_id p, l_prev p, l_phase p)) (rt_procs a g) = map_option (\<lambda>p. (l_id p, l_prev p, l_phase p)) (rt_procs b g))"

lemma same_lanesD:
  assumes "same_lanes a b" "rt_procs b g = Some p"
  obtains p' where "rt_procs a g = Some p'" "l_id p' = l_id p" "l_prev p' = l_prev p" "l_phase p' = l_phase p"
proof -
  have "map_option (\<lambda>p. (l_id p, l_prev p, l_phase p)) (rt_procs a g) = Some (l_id p, l_prev p, l_phase p)"
    using assms by (simp add: same_lanes_def)
  then show ?thesis using that by (cases "rt_procs a g") auto
qed

lemma same_lanes_sym: "same_lanes a b \<Longrightarrow> same_lanes b a" by (simp add: same_lanes_def)

lemma same_lanes_slug: assumes "same_lanes a b" shows "lane_slug b = lane_slug a"
proof
  fix g
  have "map_option (\<lambda>x. id_slug (fst x)) (map_option (\<lambda>p. (l_id p, l_prev p, l_phase p)) (rt_procs a g)) =
    map_option (\<lambda>x. id_slug (fst x)) (map_option (\<lambda>p. (l_id p, l_prev p, l_phase p)) (rt_procs b g))"
    using assms by (simp add: same_lanes_def)
  then show "lane_slug b g = lane_slug a g" by (simp add: lane_slug_def option.map_comp comp_def)
qed

lemma same_lanes_quiet: assumes "same_lanes a b" shows "quiet b = quiet a"
proof
  fix g show "quiet b g = quiet a g"
    unfolding quiet_def using same_lanesD [OF assms, of g] same_lanesD [OF same_lanes_sym [OF assms], of g] by metis
qed

lemma same_lanes_facts:
  assumes "same_lanes a b"
  shows "slug_quiet b = slug_quiet a" "newest_of b = newest_of a" "procs_ok a \<Longrightarrow> procs_ok b"
proof -
  show "slug_quiet b = slug_quiet a" "newest_of b = newest_of a"
    by (simp_all add: slug_quiet_def newest_of_def fun_eq_iff same_lanes_slug [OF assms] same_lanes_quiet [OF assms])
  show "procs_ok b" if ok: "procs_ok a"
    unfolding procs_ok_def same_lanes_slug [OF assms] same_lanes_quiet [OF assms]
  proof (intro allI impI)
    fix g p assume "rt_procs b g = Some p"
    then obtain p' where p': "rt_procs a g = Some p'" "l_id p' = l_id p" "l_prev p' = l_prev p" "l_phase p' = l_phase p"
      using same_lanesD [OF assms] by blast
    have n: "rt_nextGen b = rt_nextGen a" using assms by (simp add: same_lanes_def)
    show "0 < g \<and> g \<le> rt_nextGen b \<and> id_gen (l_id p) = g \<and>
     (\<forall>q. l_prev p = Some q \<longrightarrow> q < g \<and> lane_slug a q = Some (id_slug (l_id p))) \<and>
     (\<forall>h < g. lane_slug a h = Some (id_slug (l_id p)) \<longrightarrow>
        (started (l_phase p) \<or> l_prev p = None \<longrightarrow> quiet a h) \<and> (\<forall>q. l_prev p = Some q \<longrightarrow> h \<le> q))"
      using ok [unfolded procs_ok_def, rule_format, OF p'(1)] unfolding n p'(2-4) .
  qed
qed

lemma same_lanes_simps [simp]:
  "same_lanes rt (rt\<lparr>rt_store := st\<rparr>)"
  "same_lanes rt (rt\<lparr>rt_loop := l\<rparr>)"
  "same_lanes rt (rt\<lparr>rt_now := n\<rparr>)"
  "same_lanes rt (set_lane slug reg rt)"
  "same_lanes rt (drop_lane slug rt)"
  "same_lanes rt (cancel_lane g rt)"
  "same_lanes rt (rt\<lparr>rt_lanes := ls\<rparr>)"
  by (simp_all add: same_lanes_def cancel_lane_def option.map_comp comp_def)

lemma lanes_ok_same:
  assumes "same_lanes a b" "lane_of b = lane_of a" "lanes_ok a" shows "lanes_ok b"
  using assms(3) unfolding lanes_ok_def assms(2) same_lanes_facts(1,2) [OF assms(1)] same_lanes_quiet [OF assms(1)] .

lemma quiet_older:
  assumes "procs_ok rt" "lane_slug rt g = Some slug" "quiet rt g" "lane_slug rt h = Some slug" "h \<le> g"
  shows "quiet rt h"
proof (cases "h = g")
  case False
  from assms(2) obtain p where p: "rt_procs rt g = Some p" "id_slug (l_id p) = slug" by (auto simp: lane_slug_def)
  then have "started (l_phase p)" using assms(3) by (auto simp: quiet_def started_def)
  then show ?thesis using assms p False unfolding procs_ok_def by (metis le_neq_implies_less)
qed (use assms in simp)

lemma newest_quiet:
  assumes "procs_ok rt" "newest_of rt slug g" "quiet rt g" shows "slug_quiet rt slug"
  using assms quiet_older unfolding newest_of_def slug_quiet_def by blast

lemma lanes_ok_set_lane:
  assumes "lanes_ok rt" "lane_of rt slug = Some reg" "r_gen reg' = r_gen reg"
    "r_state reg' = laneExited \<longrightarrow> quiet rt (r_gen reg)"
  shows "lanes_ok (set_lane slug reg' rt)"
proof -
  have sl: "same_lanes rt (set_lane slug reg' rt)" by simp
  show ?thesis
    unfolding lanes_ok_def same_lanes_facts(1,2) [OF sl] same_lanes_quiet [OF sl]
    using assms unfolding lanes_ok_def by (auto split: option.splits)
qed

lemma lanes_ok_drop_lane:
  assumes "procs_ok rt" "lanes_ok rt" "lane_of rt slug = Some reg" "r_state reg = laneExited"
  shows "lanes_ok (drop_lane slug rt)"
proof -
  have sl: "same_lanes rt (drop_lane slug rt)" by simp
  have "newest_of rt slug (r_gen reg)" "quiet rt (r_gen reg)"
    using assms(2-4) unfolding lanes_ok_def by (auto split: option.splits dest: spec [of _ slug])
  then have "slug_quiet rt slug" using newest_quiet assms(1) by blast
  then show ?thesis
    unfolding lanes_ok_def same_lanes_facts(1,2) [OF sl] same_lanes_quiet [OF sl]
    using assms(2) unfolding lanes_ok_def by (auto split: option.splits)
qed

lemma lane_slug_frames [simp]:
  "lane_slug (set_phase g ph rt) = lane_slug rt"
  "lane_slug (cancel_lane g rt) = lane_slug rt"
  "lane_slug (set_lane slug reg rt) = lane_slug rt"
  "lane_slug (drop_lane slug rt) = lane_slug rt"
  "lane_slug (rt\<lparr>rt_store := st\<rparr>) = lane_slug rt"
  "lane_slug (rt\<lparr>rt_loop := l\<rparr>) = lane_slug rt"
  "lane_slug (rt\<lparr>rt_now := n\<rparr>) = lane_slug rt"
  by (simp_all add: lane_slug_def set_phase_def cancel_lane_def fun_eq_iff option.map_comp comp_def)

lemma quiet_set_phase:
  assumes "rt_procs rt g = Some p"
  shows "quiet (set_phase g ph rt) h = (if h = g then ph = LForgot \<or> ph = LDead else quiet rt h)"
  using assms by (auto simp: quiet_def set_phase_def)

definition phase_step :: "runtime \<Rightarrow> nat \<Rightarrow> lane_proc \<Rightarrow> phase \<Rightarrow> bool" where
  "phase_step rt g p ph \<longleftrightarrow> rt_procs rt g = Some p \<and>
     (l_phase p = LForgot \<or> l_phase p = LDead \<longrightarrow> ph = LForgot \<or> ph = LDead) \<and>
     (started ph \<longrightarrow> started (l_phase p) \<or> (\<forall>h < g. lane_slug rt h = Some (id_slug (l_id p)) \<longrightarrow> quiet rt h))"

lemma quiet_phase_step: "phase_step rt g p ph \<Longrightarrow> quiet rt h \<Longrightarrow> quiet (set_phase g ph rt) h"
  by (auto simp: phase_step_def quiet_set_phase) (auto simp: quiet_def)

lemma procs_ok_phase:
  assumes ok: "procs_ok rt" and st: "phase_step rt g p ph"
  shows "procs_ok (set_phase g ph rt)"
  unfolding procs_ok_def
proof (intro allI impI)
  fix k r assume r: "rt_procs (set_phase g ph rt) k = Some r"
  have p: "rt_procs rt g = Some p" using st by (simp add: phase_step_def)
  obtain r0 where r0: "rt_procs rt k = Some r0" "l_id r = l_id r0" "l_prev r = l_prev r0"
     "l_phase r = (if k = g then ph else l_phase r0)"
    using r p by (auto simp: set_phase_def split: if_splits)
  note facts = ok [unfolded procs_ok_def, rule_format, OF r0(1)]
  have q: "quiet (set_phase g ph rt) h"
    if "h < k" "lane_slug rt h = Some (id_slug (l_id r0))" "started (l_phase r) \<or> l_prev r0 = None" for h
  proof (rule quiet_phase_step [OF st])
    show "quiet rt h"
    proof (cases "started (l_phase r0) \<or> l_prev r0 = None")
      case True then show ?thesis using facts that by blast
    next
      case False
      with that r0(4) have "k = g" "started ph" by (auto split: if_splits)
      with p r0(1) False st that show ?thesis by (auto simp: phase_step_def)
    qed
  qed
  show "0 < k \<and> k \<le> rt_nextGen (set_phase g ph rt) \<and> id_gen (l_id r) = k \<and>
     (\<forall>q. l_prev r = Some q \<longrightarrow> q < k \<and> lane_slug (set_phase g ph rt) q = Some (id_slug (l_id r))) \<and>
     (\<forall>h < k. lane_slug (set_phase g ph rt) h = Some (id_slug (l_id r)) \<longrightarrow>
        (started (l_phase r) \<or> l_prev r = None \<longrightarrow> quiet (set_phase g ph rt) h) \<and> (\<forall>q. l_prev r = Some q \<longrightarrow> h \<le> q))"
    using facts q unfolding r0(2,3) by simp
qed

lemma lanes_ok_phase:
  assumes "lanes_ok rt" "phase_step rt g p ph" shows "lanes_ok (set_phase g ph rt)"
  unfolding lanes_ok_def
proof
  fix slug
  have "case lane_of rt slug of None \<Rightarrow> slug_quiet rt slug
    | Some reg \<Rightarrow> newest_of rt slug (r_gen reg) \<and> (r_state reg = laneExited \<longrightarrow> quiet rt (r_gen reg))"
    using assms(1) unfolding lanes_ok_def by blast
  then show "case lane_of (set_phase g ph rt) slug of None \<Rightarrow> slug_quiet (set_phase g ph rt) slug
    | Some reg \<Rightarrow> newest_of (set_phase g ph rt) slug (r_gen reg) \<and>
        (r_state reg = laneExited \<longrightarrow> quiet (set_phase g ph rt) (r_gen reg))"
    by (cases "lane_of rt slug") (simp_all add: slug_quiet_def newest_of_def quiet_phase_step [OF assms(2)])
qed

text \<open>Waiting out the predecessor is waiting out every earlier incarnation.\<close>

lemma waited_quiet:
  assumes ok: "procs_ok rt" and p: "rt_procs rt g = Some p"
    and w: "case l_prev p of None \<Rightarrow> True | Some q \<Rightarrow> lane_dead rt q"
    and h: "h < g" "lane_slug rt h = Some (id_slug (l_id p))"
  shows "quiet rt h"
proof (cases "l_prev p")
  case None
  then show ?thesis using ok p h unfolding procs_ok_def by blast
next
  case (Some q)
  have "quiet rt q" using w Some by (auto simp: quiet_def lane_dead_def)
  moreover have "lane_slug rt q = Some (id_slug (l_id p))" "h \<le> q"
    using ok [unfolded procs_ok_def, rule_format, OF p] Some h by auto
  ultimately show ?thesis using quiet_older ok h by blast
qed

lemma phase_step_waited:
  assumes "procs_ok rt" "rt_procs rt g = Some p" "l_phase p = LAbandoned \<or> l_phase p = LWaiting"
    "case l_prev p of None \<Rightarrow> True | Some q \<Rightarrow> lane_dead rt q"
  shows "phase_step rt g p ph"
  using assms waited_quiet [OF assms(1,2,4)] by (auto simp: phase_step_def)

lemma phase_step_started:
  assumes "rt_procs rt g = Some p" "started (l_phase p)" "l_phase p \<noteq> LForgot" "l_phase p \<noteq> LDead"
  shows "phase_step rt g p ph"
  using assms by (auto simp: phase_step_def)

section \<open>Launching\<close>

lemma launchE:
  assumes "launch s pre rt = (Some i, rt')"
  obtains reg where
    "i = \<lparr>id_slug = s_Slug s, id_revision = s_revision s, id_gen = rt_nextGen rt + 1\<rparr>"
    "rt' = (set_lane (s_Slug s) reg rt)\<lparr>rt_nextGen := rt_nextGen rt + 1, rt_procs := (rt_procs rt)(rt_nextGen rt + 1 \<mapsto>
       \<lparr>l_id = i, l_prev = map_option r_gen (lane_of rt (s_Slug s)), l_pre = pre, l_canceled = False, l_phase = LNew\<rparr>)\<rparr>"
    "r_gen reg = rt_nextGen rt + 1" "r_state reg = laneRunning" "r_spec reg = s" "r_retryAt reg = None"
  using assms by (auto simp: launch_def Let_def split: prod.splits if_splits)

lemma launch_none: "launch s pre rt = (None, rt') \<Longrightarrow> rt' = rt"
  by (auto simp: launch_def Let_def split: prod.splits if_splits)

lemma launch_ok:
  assumes ok: "procs_ok rt" "lanes_ok rt" and l: "launch s pre rt = (Some i, rt')"
  shows "procs_ok rt'" "lanes_ok rt'"
proof -
  let ?g = "rt_nextGen rt + 1"
  obtain reg where i: "i = \<lparr>id_slug = s_Slug s, id_revision = s_revision s, id_gen = ?g\<rparr>"
    and rt': "rt' = (set_lane (s_Slug s) reg rt)\<lparr>rt_nextGen := ?g, rt_procs := (rt_procs rt)(?g \<mapsto>
       \<lparr>l_id = i, l_prev = map_option r_gen (lane_of rt (s_Slug s)), l_pre = pre, l_canceled = False, l_phase = LNew\<rparr>)\<rparr>"
    and reg: "r_gen reg = ?g" "r_state reg = laneRunning"
    using launchE [OF l] by metis
  have le: "g \<le> rt_nextGen rt" if "rt_procs rt g = Some p" for g p
    using ok(1) that unfolding procs_ok_def by blast
  then have fresh: "rt_procs rt ?g = None" by (metis Suc_eq_plus1 not_less_eq_eq not_Some_eq order_refl)
  have ng: "rt_nextGen rt' = ?g" by (simp add: rt')
  have lo: "lane_of rt' = (lane_of rt)(s_Slug s \<mapsto> reg)" by (simp add: rt')
  have sl: "lane_slug rt' = (lane_slug rt)(?g \<mapsto> s_Slug s)"
    by (simp add: lane_slug_def rt' i fun_eq_iff)
  have q: "quiet rt' h = (if h = ?g then False else quiet rt h)" for h
    by (simp add: quiet_def rt')
  have slle: "h \<le> rt_nextGen rt" if "lane_slug rt h = Some slug" for h slug
    using that le by (auto simp: lane_slug_def)
  have fr: "lane_slug rt (Suc (rt_nextGen rt)) = None" using fresh by (simp add: lane_slug_def)
  have top: "case lane_of rt (s_Slug s) of None \<Rightarrow> slug_quiet rt (s_Slug s) | Some reg \<Rightarrow> newest_of rt (s_Slug s) (r_gen reg)"
    using ok(2) unfolding lanes_ok_def by (auto split: option.splits dest: spec [of _ "s_Slug s"])
  show "procs_ok rt'"
    unfolding procs_ok_def
  proof (intro allI impI)
    fix k r assume r: "rt_procs rt' k = Some r"
    show "0 < k \<and> k \<le> rt_nextGen rt' \<and> id_gen (l_id r) = k \<and>
     (\<forall>q. l_prev r = Some q \<longrightarrow> q < k \<and> lane_slug rt' q = Some (id_slug (l_id r))) \<and>
     (\<forall>h < k. lane_slug rt' h = Some (id_slug (l_id r)) \<longrightarrow>
        (started (l_phase r) \<or> l_prev r = None \<longrightarrow> quiet rt' h) \<and> (\<forall>q. l_prev r = Some q \<longrightarrow> h \<le> q))"
    proof (cases "k = ?g")
      case True
      then have rr: "r = \<lparr>l_id = i, l_prev = map_option r_gen (lane_of rt (s_Slug s)), l_pre = pre, l_canceled = False, l_phase = LNew\<rparr>"
        using r by (simp add: rt')
      show ?thesis
        unfolding rr using True top slle
        by (cases "lane_of rt (s_Slug s)")
          (auto simp: i sl q ng fr started_def slug_quiet_def newest_of_def dest: le_imp_less_Suc)
    next
      case False
      then have r0: "rt_procs rt k = Some r" using r by (simp add: rt')
      note facts = ok(1) [unfolded procs_ok_def, rule_format, OF r0]
      have "k < ?g" using facts by simp
      then show ?thesis using facts by (auto simp: sl q ng)
    qed
  qed
  show "lanes_ok rt'"
    unfolding lanes_ok_def
  proof
    fix slug
    show "case lane_of rt' slug of None \<Rightarrow> slug_quiet rt' slug
      | Some reg \<Rightarrow> newest_of rt' slug (r_gen reg) \<and> (r_state reg = laneExited \<longrightarrow> quiet rt' (r_gen reg))"
    proof (cases "slug = s_Slug s")
      case True
      then show ?thesis using slle by (auto simp: lo newest_of_def sl reg le_SucI)
    next
      case False
      have "lane_slug rt' h = Some slug \<longleftrightarrow> lane_slug rt h = Some slug" for h
        using False fresh by (auto simp: sl lane_slug_def)
      moreover have "quiet rt' h = quiet rt h" if "lane_slug rt h = Some slug" for h
        using slle [OF that] by (simp add: q)
      ultimately have e: "slug_quiet rt' slug = slug_quiet rt slug" "newest_of rt' slug = newest_of rt slug"
        "\<And>h. newest_of rt slug h \<Longrightarrow> quiet rt' h = quiet rt h"
        by (auto simp: slug_quiet_def newest_of_def fun_eq_iff)
      have "case lane_of rt slug of None \<Rightarrow> slug_quiet rt slug
        | Some reg \<Rightarrow> newest_of rt slug (r_gen reg) \<and> (r_state reg = laneExited \<longrightarrow> quiet rt (r_gen reg))"
        using ok(2) unfolding lanes_ok_def by blast
      then show ?thesis using False e by (auto simp: lo split: option.splits)
    qed
  qed
qed

section \<open>The event loop\<close>

text \<open>
  What the loop may rely on at each point of its work: a set of slugs none of whose lanes can touch an
  output. \<open>COrphans\<close>, \<open>CSync\<close> and the like start from nothing.
\<close>

fun safe_cmds :: "gostr set \<Rightarrow> cmd list \<Rightarrow> bool" where
  "safe_cmds Q [] = True"
| "safe_cmds Q (CClean s # cs) = (s \<in> Q \<and> safe_cmds Q cs)"
| "safe_cmds Q (CStopWait s # cs) = safe_cmds (insert s Q) cs"
| "safe_cmds Q (CAwait s g # cs) = safe_cmds (insert s Q) cs"
| "safe_cmds Q (CLaunch s pre # cs) = safe_cmds (Q - {s_Slug s}) cs"
| "safe_cmds Q (CAwaitAll # cs) = safe_cmds UNIV cs"
| "safe_cmds Q (CStop s # cs) = safe_cmds Q cs"
| "safe_cmds Q (CBind i # cs) = safe_cmds Q cs"
| "safe_cmds Q (CReconcileOne s # cs) = safe_cmds {} cs"
| "safe_cmds Q (COrphans current # cs) = safe_cmds {} cs"
| "safe_cmds Q (CReconfOne s # cs) = safe_cmds {} cs"
| "safe_cmds Q (CSync s # cs) = safe_cmds {} cs"

lemma safe_cmds_mono: "safe_cmds Q cs \<Longrightarrow> Q \<subseteq> Q' \<Longrightarrow> safe_cmds Q' cs"
proof (induction Q cs arbitrary: Q' rule: safe_cmds.induct)
  case (5 Q s pre cs)
  then show ?case by (metis Diff_mono order_refl safe_cmds.simps(5))
qed (auto dest: insert_mono)

definition waits :: "cmd \<Rightarrow> bool" where
  "waits c \<longleftrightarrow> (\<exists>i. c = CBind i) \<or> (\<exists>s g. c = CAwait s g)"

text \<open>\<open>CBind\<close> and \<open>CAwait\<close> are only ever next.\<close>

definition loop_ok :: "runtime \<Rightarrow> bool" where
  "loop_ok rt \<longleftrightarrow>
     safe_cmds {s. slug_quiet rt s} (rt_loop rt) \<and>
     (\<forall>c \<in> set (tl (rt_loop rt)). \<not> waits c) \<and>
     (\<forall>i cs. rt_loop rt = CBind i # cs \<longrightarrow> (\<exists>p. rt_procs rt (id_gen i) = Some p \<and> l_phase p = LNew \<and> l_id p = i)) \<and>
     (\<forall>s g cs. rt_loop rt = CAwait s g # cs \<longrightarrow> newest_of rt s g) \<and>
     (\<forall>g p. rt_procs rt g = Some p \<and> l_phase p = LNew \<longrightarrow> (\<exists>i cs. rt_loop rt = CBind i # cs \<and> id_gen i = g))"

definition rt_ok :: "runtime \<Rightarrow> bool" where
  "rt_ok rt \<longleftrightarrow> procs_ok rt \<and> lanes_ok rt \<and> loop_ok rt"

lemma loop_ok_same:
  assumes sl: "same_lanes a b" and l: "rt_loop b = rt_loop a" and ok: "loop_ok a"
  shows "loop_ok b"
  using ok same_lanesD [OF sl] same_lanesD [OF same_lanes_sym [OF sl]]
  unfolding loop_ok_def l same_lanes_facts(1,2) [OF sl]
  by (elim conjE) (intro conjI, assumption, assumption, metis, assumption, metis)

lemma rt_ok_same:
  assumes "same_lanes a b" "rt_loop b = rt_loop a" "lane_of b = lane_of a" "rt_ok a"
  shows "rt_ok b"
  using assms lanes_ok_same same_lanes_facts(3) loop_ok_same unfolding rt_ok_def by blast

lemma rt_ok_set_lane:
  assumes "rt_ok rt" "lane_of rt slug = Some reg" "r_gen reg' = r_gen reg"
    "r_state reg' = laneExited \<longrightarrow> quiet rt (r_gen reg)"
  shows "rt_ok (set_lane slug reg' rt)"
  using assms lanes_ok_set_lane same_lanes_facts(3) [of rt "set_lane slug reg' rt"] loop_ok_same [of rt "set_lane slug reg' rt"]
  unfolding rt_ok_def by simp

lemma slug_quiet_phase: "phase_step rt g p ph \<Longrightarrow> slug_quiet rt s \<Longrightarrow> slug_quiet (set_phase g ph rt) s"
  by (auto simp: slug_quiet_def quiet_phase_step)

lemma rt_ok_phase:
  assumes ok: "rt_ok rt" and st: "phase_step rt g p ph" and "l_phase p \<noteq> LNew" "ph \<noteq> LNew"
  shows "rt_ok (set_phase g ph rt)"
proof -
  have p: "rt_procs rt g = Some p" using st by (simp add: phase_step_def)
  have l: "loop_ok rt" using ok by (simp add: rt_ok_def)
  have pr: "rt_procs (set_phase g ph rt) h = (if h = g then Some (p\<lparr>l_phase := ph\<rparr>) else rt_procs rt h)" for h
    by (simp add: set_phase_def p)
  have "loop_ok (set_phase g ph rt)"
    unfolding loop_ok_def procs_frames
  proof (intro conjI)
    show "safe_cmds {s. slug_quiet (set_phase g ph rt) s} (rt_loop rt)"
      by (rule safe_cmds_mono [of "{s. slug_quiet rt s}"]) (use l slug_quiet_phase [OF st] in \<open>auto simp: loop_ok_def\<close>)
    show "\<forall>c \<in> set (tl (rt_loop rt)). \<not> waits c" using l by (simp add: loop_ok_def)
    show "\<forall>i cs. rt_loop rt = CBind i # cs \<longrightarrow> (\<exists>p. rt_procs (set_phase g ph rt) (id_gen i) = Some p \<and> l_phase p = LNew \<and> l_id p = i)"
      using l assms(3) p unfolding loop_ok_def pr by force
    show "\<forall>s g' cs. rt_loop rt = CAwait s g' # cs \<longrightarrow> newest_of (set_phase g ph rt) s g'"
      using l by (simp add: loop_ok_def newest_of_def)
    show "\<forall>g' p'. rt_procs (set_phase g ph rt) g' = Some p' \<and> l_phase p' = LNew \<longrightarrow> (\<exists>i cs. rt_loop rt = CBind i # cs \<and> id_gen i = g')"
    proof (intro allI impI, elim conjE)
      fix g' p' assume a: "rt_procs (set_phase g ph rt) g' = Some p'" "l_phase p' = LNew"
      then have "g' \<noteq> g" using assms(4) by (auto simp: pr)
      then have "rt_procs rt g' = Some p'" using a(1) by (simp add: pr)
      then show "\<exists>i cs. rt_loop rt = CBind i # cs \<and> id_gen i = g'" using l a(2) unfolding loop_ok_def by blast
    qed
  qed
  then show ?thesis using ok procs_ok_phase [OF _ st] lanes_ok_phase [OF _ st] by (simp add: rt_ok_def)
qed

lemma rt_ok_loop:
  assumes ok: "rt_ok rt" and nb: "\<And>i cs. rt_loop rt \<noteq> CBind i # cs"
    and sl: "same_lanes rt rt'" and lo: "lanes_ok rt'"
    and l: "safe_cmds {s. slug_quiet rt s} l" "\<forall>c \<in> set (tl l). \<not> waits c" "\<And>i cs. l \<noteq> CBind i # cs"
      "\<And>s g cs. l = CAwait s g # cs \<Longrightarrow> newest_of rt s g"
  shows "rt_ok (rt'\<lparr>rt_loop := l\<rparr>)"
proof -
  have sl': "same_lanes rt (rt'\<lparr>rt_loop := l\<rparr>)" using sl by (simp add: same_lanes_def)
  have sl2: "same_lanes rt' (rt'\<lparr>rt_loop := l\<rparr>)" by simp
  have po: "procs_ok (rt'\<lparr>rt_loop := l\<rparr>)" using ok same_lanes_facts(3) [OF sl'] by (simp add: rt_ok_def)
  have lo': "lanes_ok (rt'\<lparr>rt_loop := l\<rparr>)" by (rule lanes_ok_same [OF sl2 _ lo]) simp
  have new: "l_phase p \<noteq> LNew" if q: "rt_procs (rt'\<lparr>rt_loop := l\<rparr>) g = Some p" for g p
  proof
    assume a: "l_phase p = LNew"
    obtain p' where "rt_procs rt g = Some p'" "l_phase p' = LNew" using same_lanesD [OF sl' q] a by metis
    then show False using ok nb unfolding rt_ok_def loop_ok_def by blast
  qed
  have "loop_ok (rt'\<lparr>rt_loop := l\<rparr>)"
    unfolding loop_ok_def same_lanes_facts(1,2) [OF sl']
    using l new by (intro conjI) (simp, simp, simp, simp, blast)
  then show ?thesis using po lo' by (simp add: rt_ok_def)
qed

lemma rt_ok_head:
  assumes "rt_ok rt" "rt_loop rt = c # cs"
  shows "safe_cmds {s. slug_quiet rt s} (c # cs)" "\<forall>c \<in> set cs. \<not> waits c"
  using assms unfolding rt_ok_def loop_ok_def by auto

lemma rt_ok_cmds:
  assumes ok: "rt_ok rt" and c: "rt_loop rt = c # cs" "\<And>i. c \<noteq> CBind i"
    and sl: "same_lanes rt rt'" and lo: "lanes_ok rt'"
    and l: "safe_cmds {s. slug_quiet rt s} (nxt @ cs)" "\<forall>c \<in> set nxt. \<not> waits c"
  shows "rt_ok (rt'\<lparr>rt_loop := nxt @ cs\<rparr>)"
proof (rule rt_ok_loop [OF ok _ sl lo l(1)])
  have w: "\<forall>c \<in> set (nxt @ cs). \<not> waits c" using l(2) rt_ok_head [OF ok c(1)] by auto
  show "rt_loop rt \<noteq> CBind i # ds" for i ds using c by simp
  show "\<forall>c \<in> set (tl (nxt @ cs)). \<not> waits c" using w by (metis list.set_sel(2) tl_Nil)
  show "nxt @ cs \<noteq> CBind i # ds" for i ds using w by (metis list.set_intros(1) waits_def)
  show "newest_of rt s g" if "nxt @ cs = CAwait s g # ds" for s g ds using w that by (metis list.set_intros(1) waits_def)
qed

lemma launch_slug_quiet:
  assumes l: "launch s pre rt = (Some i, rt')" and slug: "slug \<noteq> s_Slug s" and ok: "procs_ok rt"
  shows "slug_quiet rt' slug = slug_quiet rt slug"
proof (cases rule: launchE [OF l])
  case (1 reg)
  have fresh: "rt_procs rt (rt_nextGen rt + 1) = None"
    using ok unfolding procs_ok_def by (metis Suc_eq_plus1 not_less_eq_eq not_Some_eq order_refl)
  have "lane_slug rt' h = Some slug \<longleftrightarrow> lane_slug rt h = Some slug" for h
    using fresh slug by (simp add: 1(1,2) lane_slug_def)
  moreover have "quiet rt' h = quiet rt h" if "lane_slug rt h = Some slug" for h
    using fresh that by (auto simp: 1(2) quiet_def lane_slug_def)
  ultimately show ?thesis by (simp add: slug_quiet_def)
qed

lemma rt_ok_launch:
  assumes ok: "rt_ok rt" and l: "rt_loop rt = CLaunch s pre # cs" "launch s pre rt = (Some i, rt')"
  shows "rt_ok (rt'\<lparr>rt_loop := CBind i # cs\<rparr>)"
proof -
  let ?r = "rt'\<lparr>rt_loop := CBind i # cs\<rparr>"
  have po: "procs_ok rt" using ok by (simp add: rt_ok_def)
  have ok': "procs_ok rt'" "lanes_ok rt'" using launch_ok [OF _ _ l(2)] ok by (auto simp: rt_ok_def)
  have sl: "same_lanes rt' ?r" by simp
  note h = rt_ok_head [OF ok l(1)]
  obtain reg where i: "i = \<lparr>id_slug = s_Slug s, id_revision = s_revision s, id_gen = rt_nextGen rt + 1\<rparr>"
    and rt': "rt' = (set_lane (s_Slug s) reg rt)\<lparr>rt_nextGen := rt_nextGen rt + 1, rt_procs := (rt_procs rt)(rt_nextGen rt + 1 \<mapsto>
       \<lparr>l_id = i, l_prev = map_option r_gen (lane_of rt (s_Slug s)), l_pre = pre, l_canceled = False, l_phase = LNew\<rparr>)\<rparr>"
    using launchE [OF l(2)] by metis
  have new: "l_phase p \<noteq> LNew" if "rt_procs rt g = Some p" for g p
    using ok that l(1) unfolding rt_ok_def loop_ok_def by fastforce
  have "safe_cmds {slug. slug_quiet rt' slug} cs"
    by (rule safe_cmds_mono [of "{s. slug_quiet rt s} - {s_Slug s}"])
      (use h launch_slug_quiet [OF l(2) _ po] in auto)
  then have "loop_ok ?r"
    unfolding loop_ok_def same_lanes_facts(1,2) [OF sl]
    using h(2) new by (intro conjI) (simp_all add: rt' i split: if_splits)
  then show ?thesis
    using ok' same_lanes_facts(3) [OF sl] lanes_ok_same [OF sl] by (simp add: rt_ok_def)
qed

lemma bind_laneE:
  obtains ph r where "bind_lane i rt = set_phase (id_gen i) ph r" "ph = LWaiting \<or> ph = LAbandoned" "same_lanes rt r"
    "lane_of r = lane_of rt"
proof (cases "bindRuntime i (rt_store rt)")
  case (Pair b st)
  then show ?thesis
    using that [of LWaiting "rt\<lparr>rt_store := st\<rparr>"] that [of LAbandoned "cancel_lane (id_gen i) (rt\<lparr>rt_store := st\<rparr>)"]
    by (cases b) (auto simp: bind_lane_def same_lanes_def cancel_lane_def option.map_comp comp_def)
qed

lemma rt_ok_bind:
  assumes ok: "rt_ok rt" and l: "rt_loop rt = CBind i # cs"
  shows "rt_ok ((bind_lane i rt)\<lparr>rt_loop := cs\<rparr>)"
proof -
  obtain ph r where b: "bind_lane i rt = set_phase (id_gen i) ph r" "ph = LWaiting \<or> ph = LAbandoned" "same_lanes rt r"
    "lane_of r = lane_of rt" by (rule bind_laneE)
  let ?r = "(bind_lane i rt)\<lparr>rt_loop := cs\<rparr>"
  have ok': "procs_ok r" "lanes_ok r"
    using ok same_lanes_facts(3) [OF b(3)] lanes_ok_same [OF b(3,4)] by (auto simp: rt_ok_def)
  obtain p0 where "rt_procs rt (id_gen i) = Some p0" "l_phase p0 = LNew"
    using ok l unfolding rt_ok_def loop_ok_def by blast
  then obtain p where p: "rt_procs r (id_gen i) = Some p" "l_phase p = LNew"
    using same_lanesD [OF same_lanes_sym [OF b(3)]] by metis
  have st: "phase_step r (id_gen i) p ph" using p b(2) by (auto simp: phase_step_def started_def)
  have sl: "same_lanes (bind_lane i rt) ?r" by simp
  note h = rt_ok_head [OF ok l]
  have new: "l_phase q \<noteq> LNew" if q: "rt_procs (bind_lane i rt) g = Some q" for g q
  proof (cases "g = id_gen i")
    case True then show ?thesis using q p b(2) by (auto simp: b(1) set_phase_def)
  next
    case False
    then have "rt_procs r g = Some q" using q by (simp add: b(1) set_phase_def)
    then obtain q' where "rt_procs rt g = Some q'" "l_phase q' = l_phase q" using same_lanesD [OF b(3)] by metis
    then show ?thesis using ok l False unfolding rt_ok_def loop_ok_def by fastforce
  qed
  have "safe_cmds {slug. slug_quiet (bind_lane i rt) slug} cs"
    by (rule safe_cmds_mono [of "{s. slug_quiet rt s}"])
      (use h slug_quiet_phase [OF st] same_lanes_facts(1) [OF b(3)] in \<open>auto simp: b(1)\<close>)
  then have "loop_ok ?r"
    unfolding loop_ok_def same_lanes_facts(1,2) [OF sl]
    using h(2) new by (intro conjI) (simp, cases cs, simp_all, auto simp: waits_def)
  moreover have "procs_ok (bind_lane i rt)" "lanes_ok (bind_lane i rt)"
    using ok' procs_ok_phase [OF _ st] lanes_ok_phase [OF _ st] by (simp_all add: b(1))
  ultimately show ?thesis
    using same_lanes_facts(3) [OF sl] lanes_ok_same [OF sl] by (simp add: rt_ok_def)
qed

section \<open>Every step keeps it\<close>

lemma lane_exited_quiet:
  "lanes_ok rt \<Longrightarrow> lane_of rt slug = Some reg \<Longrightarrow> r_state reg = laneExited \<Longrightarrow> quiet rt (r_gen reg)"
  unfolding lanes_ok_def by (auto split: option.splits dest: spec [of _ slug])

lemma lane_newest: "lanes_ok rt \<Longrightarrow> lane_of rt slug = Some reg \<Longrightarrow> newest_of rt slug (r_gen reg)"
  unfolding lanes_ok_def by (auto split: option.splits dest: spec [of _ slug])

lemma no_lane_quiet: "lanes_ok rt \<Longrightarrow> lane_of rt slug = None \<Longrightarrow> slug_quiet rt slug"
  unfolding lanes_ok_def by (auto split: option.splits dest: spec [of _ slug])

lemma same_lanes_trans: "same_lanes a b \<Longrightarrow> same_lanes b c \<Longrightarrow> same_lanes a c" by (simp add: same_lanes_def)

lemma stop_ok:
  assumes "procs_ok rt" "lanes_ok rt"
  shows "same_lanes rt (snd (stop slug rt))" "lanes_ok (snd (stop slug rt))"
proof -
  have sl: "same_lanes rt (set_lane slug reg (cancel_lane g rt))" for reg g
    by (rule same_lanes_trans [of _ "cancel_lane g rt"]) simp_all
  show "same_lanes rt (snd (stop slug rt))"
    using sl by (simp add: stop_def same_lanes_def [of rt rt] split: option.split laneState.split)
  have "lanes_ok (cancel_lane g rt)" for g by (rule lanes_ok_same [OF _ _ assms(2)]) simp_all
  then show "lanes_ok (snd (stop slug rt))"
    using assms lanes_ok_drop_lane [OF assms]
    by (auto simp: stop_def split: option.split laneState.split intro!: lanes_ok_set_lane)
qed

lemma stop_result:
  "fst (stop slug rt) = map_option r_gen (lane_of rt slug)"
  by (simp add: stop_def split: option.split)

lemma await_ok:
  assumes "procs_ok rt" "lanes_ok rt"
  shows "same_lanes rt (await_cleanup slug g rt)" "lanes_ok (await_cleanup slug g rt)"
  using assms lanes_ok_drop_lane [OF assms]
  by (simp_all add: await_cleanup_def same_lanes_def [of rt rt] split: option.split)

lemma drop_lanes_ok:
  "procs_ok rt \<Longrightarrow> lanes_ok rt \<Longrightarrow> (\<And>slug. slug \<in> set slugs \<Longrightarrow> lane_of rt slug = None \<or> lane_in_state rt [laneExited] slug) \<Longrightarrow>
    same_lanes rt (fold drop_lane slugs rt) \<and> lanes_ok (fold drop_lane slugs rt)"
proof (induction slugs arbitrary: rt)
  case Nil
  then show ?case by (simp add: same_lanes_def)
next
  case (Cons slug slugs)
  let ?r = "drop_lane slug rt"
  have sl: "same_lanes rt ?r" by simp
  have ok: "lanes_ok ?r"
  proof (cases "lane_of rt slug")
    case None
    show ?thesis by (rule lanes_ok_same [OF sl _ Cons.prems(2)]) (simp add: None fun_upd_idem)
  next
    case (Some reg)
    then show ?thesis
      using Cons.prems(3) [of slug] lanes_ok_drop_lane [OF Cons.prems(1,2)] by (auto simp: lane_in_state_def)
  qed
  have "same_lanes ?r (fold drop_lane slugs ?r) \<and> lanes_ok (fold drop_lane slugs ?r)"
  proof (rule Cons.IH [OF same_lanes_facts(3) [OF sl Cons.prems(1)] ok])
    fix s assume "s \<in> set slugs"
    then show "lane_of ?r s = None \<or> lane_in_state ?r [laneExited] s"
      using Cons.prems(3) [of s] by (auto simp: lane_in_state_def)
  qed
  then show ?case using same_lanes_trans [OF sl] by simp
qed

lemma orphans_ok:
  assumes "procs_ok rt" "lanes_ok rt"
  shows "same_lanes rt (snd (orphans current rt))" "lanes_ok (snd (orphans current rt))"
proof -
  let ?gone = "filter (lane_in_state rt [laneExited]) (filter (\<lambda>slug. slug \<notin> set current) (lane_keys rt))"
  have "same_lanes rt (fold drop_lane ?gone rt) \<and> lanes_ok (fold drop_lane ?gone rt)"
    by (rule drop_lanes_ok [OF assms]) simp
  then show "same_lanes rt (snd (orphans current rt))" "lanes_ok (snd (orphans current rt))"
    by (simp_all add: orphans_def Let_def del: filter_filter)
qed

lemma stop_all_lane_of:
  "lane_of (stop_all rt) slug = map_option (\<lambda>reg. if r_state reg = laneRunning then reg\<lparr>r_state := laneStopping\<rparr> else reg) (lane_of rt slug)"
  unfolding lane_of_def stop_all_def by (simp add: map_of_map)

lemma stop_all_ok:
  assumes "lanes_ok rt" shows "same_lanes rt (stop_all rt)" "lanes_ok (stop_all rt)"
proof -
  show sl: "same_lanes rt (stop_all rt)"
    by (simp add: same_lanes_def stop_all_def option.map_comp comp_def if_distrib if_distribR cong: if_cong)
  show "lanes_ok (stop_all rt)"
    unfolding lanes_ok_def same_lanes_facts(1,2) [OF sl] same_lanes_quiet [OF sl]
  proof
    fix slug
    show "case lane_of (stop_all rt) slug of None \<Rightarrow> slug_quiet rt slug
      | Some reg \<Rightarrow> newest_of rt slug (r_gen reg) \<and> (r_state reg = laneExited \<longrightarrow> quiet rt (r_gen reg))"
      using no_lane_quiet [OF assms, of slug] lane_newest [OF assms, of slug] lane_exited_quiet [OF assms, of slug]
      by (cases "lane_of rt slug") (auto simp: stop_all_lane_of)
  qed
qed

lemma safe_clean_map: "safe_cmds UNIV cs \<Longrightarrow> safe_cmds UNIV (map (\<lambda>s. CClean (f s)) xs @ cs)"
  by (induction xs) simp_all

lemma safe_stop_clean_map:
  "safe_cmds Q cs \<Longrightarrow> safe_cmds Q (concat (map (\<lambda>slug. [CStopWait slug, CClean slug]) out) @ cs)"
proof (induction out arbitrary: Q)
  case (Cons a out)
  then show ?case by (simp add: safe_cmds_mono [OF _ subset_insertI])
qed simp

lemma safe_reconcile_map: "safe_cmds {} cs \<Longrightarrow> safe_cmds Q (map CReconcileOne ss @ COrphans current # cs)"
  by (induction ss arbitrary: Q) simp_all

lemma safe_reconf_map: "safe_cmds Q (map CReconfOne ss)"
  by (induction ss arbitrary: Q) simp_all

lemma safe_launch_map: "safe_cmds Q (map (\<lambda>s. CLaunch s pre) ss)"
  by (induction ss arbitrary: Q) simp_all

text \<open>Everything \<open>nxt\<close> may be, besides a launch to bind.\<close>

lemma rt_ok_nil:
  assumes "rt_ok rt" "rt_loop rt = c # cs" "\<And>i. c \<noteq> CBind i" "same_lanes rt rt'" "lanes_ok rt'"
    "safe_cmds {s. slug_quiet rt s} cs"
  shows "rt_ok (rt'\<lparr>rt_loop := cs\<rparr>)"
  using rt_ok_cmds [OF assms(1-5), of "[]"] assms(6) by simp

lemma run_cmd_ok:
  assumes ok: "rt_ok rt" and l: "rt_loop rt = c # cs" and r: "run_cmd c rt = Some (rt', nxt)"
  shows "rt_ok (rt'\<lparr>rt_loop := nxt @ cs\<rparr>)"
proof -
  have po: "procs_ok rt" and lo: "lanes_ok rt" using ok by (auto simp: rt_ok_def)
  have refl: "same_lanes rt rt" by (simp add: same_lanes_def)
  note h = rt_ok_head [OF ok l]
  have stays: "rt_ok (rt\<lparr>rt_loop := nxt @ cs\<rparr>)"
    if "safe_cmds {s. slug_quiet rt s} (nxt @ cs)" "\<forall>c \<in> set nxt. \<not> waits c" "\<And>i. c \<noteq> CBind i"
    using rt_ok_cmds [OF ok l that(3) refl lo that(1,2)] .
  have mono: "safe_cmds {} cs \<Longrightarrow> safe_cmds Q cs" for Q by (erule safe_cmds_mono) simp
  show ?thesis
  proof (cases c)
    case (CSync slug)
    then show ?thesis using r h stays mono
      by (auto simp: syncCurrent_def waits_def split: sum.splits option.splits if_splits)
  next
    case (CStop slug)
    then show ?thesis using r h stop_ok [OF po lo, of slug] rt_ok_nil [OF ok l] by auto
  next
    case (CStopWait slug)
    obtain o' r' where st: "stop slug rt = (o', r')" by fastforce
    have sl: "same_lanes rt r'" "lanes_ok r'" using stop_ok [OF po lo, of slug] st by simp_all
    show ?thesis
    proof (cases o')
      case None
      then have "lane_of rt slug = None" using stop_result [of slug rt] st by (simp add: map_option_is_None [symmetric] del: map_option_is_None)
      then have "slug \<in> {s. slug_quiet rt s}" using no_lane_quiet [OF lo] by simp
      then have "safe_cmds {s. slug_quiet rt s} cs" using h(1) CStopWait by (simp add: insert_absorb)
      then show ?thesis using r None st CStopWait rt_ok_nil [OF ok l _ sl] by simp
    next
      case (Some g)
      then obtain reg where "lane_of rt slug = Some reg" "r_gen reg = g" using stop_result [of slug rt] st
        by (cases "lane_of rt slug") auto
      then have "newest_of rt slug g" using lane_newest [OF lo] by blast
      moreover have rr: "rt' = r'" "nxt = [CAwait slug g]" using r Some st CStopWait by simp_all
      ultimately show ?thesis
        unfolding rr using h CStopWait l by (intro rt_ok_loop [OF ok _ sl]) auto
    qed
  next
    case (CAwait slug g)
    have rr: "rt' = await_cleanup slug g rt" "nxt = []" "lane_dead rt g" using r CAwait by (auto split: if_splits)
    have "newest_of rt slug g" using ok l CAwait by (auto simp: rt_ok_def loop_ok_def)
    moreover have "quiet rt g" using rr(3) by (auto simp: quiet_def lane_dead_def)
    ultimately have "slug_quiet rt slug" using newest_quiet [OF po] by blast
    then have "safe_cmds {s. slug_quiet rt s} cs" using h(1) CAwait by (simp add: insert_absorb)
    then show ?thesis using rr CAwait await_ok [OF po lo] rt_ok_nil [OF ok l] by simp
  next
    case (CLaunch s pre)
    show ?thesis
    proof (cases "fst (launch s pre rt)")
      case None
      then have "launch s pre rt = (None, rt)" using launch_none by (metis prod.collapse)
      then have rr: "rt' = rt" "nxt = []" using r CLaunch by simp_all
      have "safe_cmds {s. slug_quiet rt s} cs" using h(1) CLaunch by (auto elim: safe_cmds_mono)
      then show ?thesis using rr CLaunch rt_ok_nil [OF ok l _ refl lo] by simp
    next
      case (Some i)
      obtain r' where e: "launch s pre rt = (Some i, r')" using Some by (metis prod.collapse)
      then have rr: "rt' = r'" "nxt = [CBind i]" using r CLaunch by simp_all
      then show ?thesis using rt_ok_launch [OF ok _ e] l CLaunch by simp
    qed
  next
    case (CBind i)
    then show ?thesis using r rt_ok_bind [OF ok] l by auto
  next
    case (CClean slug)
    then show ?thesis using r h stays by (auto simp: waits_def)
  next
    case (CReconcileOne s)
    then show ?thesis using r h stays mono
      by (auto simp: reconcile_one_def waits_def split: option.splits if_splits)
  next
    case (COrphans current)
    have w: "\<forall>c \<in> set (concat (map (\<lambda>slug. [CStopWait slug, CClean slug]) out)). \<not> waits c" for out
      by (auto simp: waits_def)
    have rr: "rt' = snd (orphans current rt)" "nxt = concat (map (\<lambda>slug. [CStopWait slug, CClean slug]) (fst (orphans current rt)))"
      using r COrphans by (auto split: prod.splits)
    have "safe_cmds {} cs" using h(1) COrphans by simp
    then have "safe_cmds {s. slug_quiet rt s} (nxt @ cs)" unfolding rr(2) by (rule safe_stop_clean_map [OF mono])
    then show ?thesis
      unfolding rr(1) using rt_ok_cmds [OF ok l _ orphans_ok [OF po lo]] COrphans w rr(2) by simp
  next
    case (CReconfOne slug)
    then show ?thesis using r h stays mono
      by (auto simp: reconf_one_def waits_def split: sum.splits option.splits if_splits)
  next
    case CAwaitAll
    have rr: "rt' = rt" "nxt = map (\<lambda>s. CClean (s_Slug s)) (List_all (rt_store rt))" "\<forall>g \<le> rt_nextGen rt. lane_dead rt g"
      using r CAwaitAll by (auto split: if_splits)
    have "quiet rt g" for g
    proof -
      have "l_phase p = LDead" if p: "rt_procs rt g = Some p" for p
      proof -
        have "g \<le> rt_nextGen rt" using po p unfolding procs_ok_def by blast
        then show ?thesis using rr(3) p by (auto simp: lane_dead_def)
      qed
      then show ?thesis by (auto simp: quiet_def)
    qed
    then have u: "{s. slug_quiet rt s} = UNIV" by (auto simp: slug_quiet_def)
    have "safe_cmds UNIV cs" using h(1) CAwaitAll by simp
    then have "safe_cmds {s. slug_quiet rt s} (nxt @ cs)" unfolding u rr(2) by (rule safe_clean_map)
    moreover have "\<forall>c \<in> set nxt. \<not> waits c" unfolding rr(2) by (auto simp: waits_def)
    ultimately show ?thesis using stays CAwaitAll rr(1) by simp
  qed
qed

lemma rt_ok_set_loop:
  assumes "rt_ok rt" "rt_loop rt = []" "same_lanes rt rt'" "lanes_ok rt'" "safe_cmds {s. slug_quiet rt s} l" "\<forall>c \<in> set l. \<not> waits c"
  shows "rt_ok (rt'\<lparr>rt_loop := l\<rparr>)"
proof (rule rt_ok_loop [OF assms(1) _ assms(3-5)])
  show "\<forall>c \<in> set (tl l). \<not> waits c" using assms(6) by (metis list.set_sel(2) tl_Nil)
  show "l \<noteq> CBind i # cs" for i cs using assms(6) by (metis list.set_intros(1) waits_def)
  show "newest_of rt s g" if "l = CAwait s g # cs" for s g cs using assms(6) that by (metis list.set_intros(1) waits_def)
qed (use assms(2) in simp)

lemma forget_set_phase: "set_phase g ph (forget i rt) = forget i (set_phase g ph rt)"
  by (auto simp: forget_def set_lane_def set_phase_def lane_of_def split: option.split)

lemma rt_ok_forget:
  assumes "rt_ok rt" "quiet rt (id_gen i)" shows "rt_ok (forget i rt)"
  using assms by (auto simp: forget_def split: option.split intro!: rt_ok_set_lane)

lemma finishLane_ok:
  assumes ok: "rt_ok rt" shows "rt_ok (finishLane rd p err rt)" "rt_procs (finishLane rd p err rt) = rt_procs rt"
proof -
  have st: "rt_ok (rt\<lparr>rt_store := st\<rparr>)" for st by (rule rt_ok_same [OF _ _ _ ok]) simp_all
  have "rt_ok (scheduleRetry i r)" if r: "rt_ok r" for i r
    using r lane_exited_quiet [of r "id_slug i"]
    by (auto simp: scheduleRetry_def rt_ok_def [of r] split: option.split intro!: rt_ok_set_lane [OF r])
  then show "rt_ok (finishLane rd p err rt)"
    using st ok by (auto simp: finishLane_def split: option.split prod.split)
  have "rt_procs (scheduleRetry i r) = rt_procs r" for i r by (simp add: scheduleRetry_def split: option.split)
  then show "rt_procs (finishLane rd p err rt) = rt_procs rt"
    by (simp add: finishLane_def split: option.split prod.split)
qed

lemma rt_step_ok:
  assumes "rt_step d rd rt rt'" "rt_ok rt" shows "rt_ok rt'"
  using assms
proof (induction rule: rt_step.induct)
  case (loop_event rt e)
  then show ?case
    by (intro rt_ok_set_loop [OF _ _ _ _ _]) (auto simp: apply_event_def Let_def waits_def rt_ok_def same_lanes_def split: EventType.split sum.split)
next
  case (loop_tick rt)
  have "safe_cmds Q (reconcile rt)" for Q
    unfolding reconcile_def using safe_reconcile_map [of "[]" Q] by simp
  then show ?case using loop_tick
    by (intro rt_ok_set_loop) (auto simp: reconcile_def waits_def rt_ok_def same_lanes_def)
next
  case (loop_reload rt)
  then show ?case
    by (intro rt_ok_set_loop) (auto simp: safe_reconf_map waits_def rt_ok_def same_lanes_def)
next
  case (loop_closed rt)
  have "same_lanes rt (stop_all rt)" "lanes_ok (stop_all rt)" using stop_all_ok loop_closed.prems by (auto simp: rt_ok_def)
  then have "rt_ok ((stop_all rt)\<lparr>rt_loop := [CAwaitAll]\<rparr>)"
    by (intro rt_ok_set_loop [OF loop_closed(3,1)]) (simp_all add: waits_def)
  then show ?case by (rule rt_ok_same [rotated 3]) (simp_all add: same_lanes_def)
next
  case (loop_cmd rt c cs rt' nxt)
  then show ?case using run_cmd_ok by blast
next
  case (lane_abandoned rt g p)
  then show ?case by (intro rt_ok_phase [OF _ phase_step_waited]) (auto simp: rt_ok_def)
next
  case (lane_canceled rt g p)
  then show ?case by (intro rt_ok_phase [OF _ phase_step_waited]) (auto simp: rt_ok_def)
next
  case (lane_starts rt g p)
  then show ?case by (intro rt_ok_phase [OF _ phase_step_waited]) (auto simp: rt_ok_def)
next
  case (lane_scrubbed rt g p)
  then show ?case by (intro rt_ok_phase [OF _ phase_step_started]) (auto simp: started_def)
next
  case (lane_running rt g p)
  then show ?case by (intro rt_ok_same [OF _ _ _ lane_running(3)]) simp_all
next
  case (lane_returns rt g p err)
  note f = finishLane_ok [OF lane_returns(3), of rd p err]
  show ?case using lane_returns(1,2) f(2)
    by (intro rt_ok_phase [OF f(1) phase_step_started, of g p]) (auto simp: started_def)
next
  case (lane_forgets rt g p)
  have "rt_ok (set_phase g LForgot rt)"
    using lane_forgets by (intro rt_ok_phase [OF _ phase_step_started, of _ g p]) (auto simp: started_def)
  moreover have "id_gen (l_id p) = g" using lane_forgets unfolding rt_ok_def procs_ok_def by blast
  ultimately show ?case
    unfolding forget_set_phase using lane_forgets(1) by (intro rt_ok_forget) (simp_all add: quiet_set_phase)
next
  case (lane_closes rt g p)
  then show ?case by (intro rt_ok_phase [of rt g p]) (auto simp: phase_step_def started_def)
next
  case (parent_canceled rt g)
  then show ?case by (intro rt_ok_same [OF _ _ _ parent_canceled]) simp_all
next
  case (store_used rt x)
  then show ?case by (intro rt_ok_same [OF _ _ _ store_used]) simp_all
next
  case (time_passes rt now)
  then show ?case by (intro rt_ok_same [OF _ _ _ time_passes(2)]) simp_all
qed

definition rt_reach :: "std \<Rightarrow> render \<Rightarrow> store \<Rightarrow> runtime \<Rightarrow> bool" where
  "rt_reach d rd st = rtranclp (rt_step d rd) (NewRuntime st)"

lemma rt_reach_ok: assumes "rt_reach d rd st rt" shows "rt_ok rt"
proof -
  have "rt_ok (NewRuntime st)"
    by (simp add: rt_ok_def NewRuntime_def procs_ok_def lanes_ok_def loop_ok_def lane_of_def slug_quiet_def
        lane_slug_def safe_launch_map) (cases "List_all st", auto simp: waits_def)
  with assms show ?thesis
    unfolding rt_reach_def by (induction rule: rtranclp_induct) (auto intro: rt_step_ok)
qed

section \<open>The lanes of a session\<close>

text \<open>C5. No two incarnations of a session ever run at once: whatever events, reloads, ticks, cancellations
  and other users of the store interleave with the lane goroutines, at most one lane of a slug is clearing
  its outputs or inside the starter, because a replacement first waits out its whole chain of predecessors.\<close>

theorem one_lane_at_a_time:
  assumes "rt_reach d rd st rt" "rt_procs rt g = Some p" "rt_procs rt h = Some q"
    "id_slug (l_id p) = id_slug (l_id q)" "l_phase p \<in> {LScrub, LActive}" "l_phase q \<in> {LScrub, LActive}"
  shows "g = h"
proof (rule ccontr)
  assume ne: "g \<noteq> h"
  have po: "procs_ok rt" using rt_reach_ok [OF assms(1)] by (simp add: rt_ok_def)
  have older: "False" if "a < b" "rt_procs rt a = Some x" "rt_procs rt b = Some y" "id_slug (l_id x) = id_slug (l_id y)"
     "l_phase x \<in> {LScrub, LActive}" "l_phase y \<in> {LScrub, LActive}" for a b x y
  proof -
    have "lane_slug rt a = Some (id_slug (l_id y))" using that by (simp add: lane_slug_def)
    moreover have "started (l_phase y)" using that by (auto simp: started_def)
    ultimately have "quiet rt a" using po that unfolding procs_ok_def by blast
    then show False using that by (auto simp: quiet_def)
  qed
  show False using ne older assms(2-6) by (metis nat_neq_iff)
qed

text \<open>C13. Outputs are never pulled from under a lane: when the loop drops the outputs of a slug, every lane
  that was ever launched for it has returned from its starter and left the registry.\<close>

theorem outputs_dropped_after_every_lane:
  assumes "rt_reach d rd st rt" "rt_loop rt = CClean slug # cs" "rt_procs rt g = Some p" "id_slug (l_id p) = slug"
  shows "l_phase p \<in> {LForgot, LDead}"
proof -
  have "safe_cmds {s. slug_quiet rt s} (CClean slug # cs)"
    using rt_reach_ok [OF assms(1)] assms(2) by (simp add: rt_ok_def loop_ok_def)
  then have "slug_quiet rt slug" by simp
  then show ?thesis using assms(3,4) by (auto simp: slug_quiet_def lane_slug_def quiet_def)
qed

definition lane_moves :: "std \<Rightarrow> render \<Rightarrow> runtime \<Rightarrow> nat \<Rightarrow> bool" where
  "lane_moves d rd rt g \<longleftrightarrow> (\<exists>p ph rt'. rt_procs rt g = Some p \<and> rt_step d rd rt rt' \<and> ph \<noteq> l_phase p \<and>
     rt_procs rt' g = Some (p\<lparr>l_phase := ph\<rparr>))"

lemma set_phase_proc: "rt_procs rt g = Some p \<Longrightarrow> rt_procs (set_phase g ph rt) g = Some (p\<lparr>l_phase := ph\<rparr>)"
  by (simp add: set_phase_def)

lemma lane_moves_if:
  assumes p: "rt_procs rt g = Some p" "l_phase p \<noteq> LNew" "l_phase p \<noteq> LDead"
    and w: "case l_prev p of None \<Rightarrow> True | Some q \<Rightarrow> lane_dead rt q"
  shows "lane_moves d rd rt g"
proof -
  note s = set_phase_proc [OF p(1)]
  have moves: "lane_moves d rd rt g" if "rt_step d rd rt rt'" "rt_procs rt' g = Some (p\<lparr>l_phase := ph\<rparr>)" "ph \<noteq> l_phase p" for rt' ph
    using that p(1) unfolding lane_moves_def by blast
  show ?thesis
  proof (cases "l_phase p")
    case LAbandoned then show ?thesis using moves [OF rt_step.lane_abandoned [OF p(1) _ w] s] by simp
  next
    case LWaiting
    show ?thesis
    proof (cases "l_canceled p")
      case True then show ?thesis using moves [OF rt_step.lane_canceled [OF p(1) LWaiting w] s] LWaiting by simp
    next
      case False then show ?thesis using moves [OF rt_step.lane_starts [OF p(1) LWaiting w] s] LWaiting by simp
    qed
  next
    case LScrub then show ?thesis using moves [OF rt_step.lane_scrubbed [OF p(1)] s] by simp
  next
    case LActive
    have "rt_procs (set_phase g LLeaving (finishLane rd p None rt)) g = Some (p\<lparr>l_phase := LLeaving\<rparr>)"
      by (rule set_phase_proc) (simp add: finishLane_def p(1))
    then show ?thesis using moves [OF rt_step.lane_returns [OF p(1) LActive]] LActive by simp
  next
    case LLeaving
    have "rt_procs (set_phase g LForgot (forget (l_id p) rt)) g = Some (p\<lparr>l_phase := LForgot\<rparr>)"
      by (rule set_phase_proc) (simp add: forget_def p(1) split: option.split)
    then show ?thesis using moves [OF rt_step.lane_forgets [OF p(1) LLeaving]] LLeaving by simp
  next
    case LForgot then show ?thesis using moves [OF rt_step.lane_closes [OF p(1)] s] by simp
  qed (use p in simp_all)
qed

lemma some_lane_moves:
  assumes "procs_ok rt" "\<And>g p. rt_procs rt g = Some p \<Longrightarrow> l_phase p \<noteq> LNew" "lane_slug rt g = Some slug" "\<not> lane_dead rt g"
  shows "\<exists>h \<le> g. lane_slug rt h = Some slug \<and> lane_moves d rd rt h"
  using assms(3,4)
proof (induction g rule: less_induct)
  case (less g)
  then obtain p where p: "rt_procs rt g = Some p" "id_slug (l_id p) = slug" "l_phase p \<noteq> LDead"
    by (auto simp: lane_slug_def lane_dead_def)
  show ?case
  proof (cases "case l_prev p of None \<Rightarrow> True | Some q \<Rightarrow> lane_dead rt q")
    case True
    have "lane_moves d rd rt g" by (rule lane_moves_if [OF p(1) assms(2) [OF p(1)] p(3) True])
    then show ?thesis using less.prems(1) by blast
  next
    case False
    then obtain q where q: "l_prev p = Some q" "\<not> lane_dead rt q" by (auto split: option.splits)
    then have "q < g" "lane_slug rt q = Some slug" using assms(1) p unfolding procs_ok_def by blast+
    then show ?thesis using less.IH [of q] q(2) by (meson le_trans less_imp_le)
  qed
qed

text \<open>C16. The event loop never deadlocks: it blocks only on lanes of the slug it is removing (or, when the
  daemon stops, on all of them), and then one of these is not itself waiting and can move on, since the
  chain of predecessors has no cycle.\<close>

theorem loop_waits_on_a_lane_that_moves:
  assumes "rt_reach d rd st rt" "rt_loop rt = c # cs" "run_cmd c rt = None"
  shows "\<exists>g. lane_moves d rd rt g \<and> (\<forall>slug h. c = CAwait slug h \<longrightarrow> lane_slug rt g = Some slug \<and> g \<le> h)"
proof -
  have ok: "procs_ok rt" "loop_ok rt" using rt_reach_ok [OF assms(1)] by (auto simp: rt_ok_def)
  have nb: "c \<noteq> CBind i" for i using assms(3) by auto
  have new: "l_phase p \<noteq> LNew" if "rt_procs rt g = Some p" for g p
    using ok(2) that assms(2) nb unfolding loop_ok_def by (metis list.inject)
  have moves: "\<exists>h \<le> g. lane_slug rt h = Some slug \<and> lane_moves d rd rt h"
    if "lane_slug rt g = Some slug" "\<not> lane_dead rt g" for g slug
    by (rule some_lane_moves [OF ok(1) _ that]) (rule new)
  have "(\<exists>slug h. c = CAwait slug h) \<or> c = CAwaitAll"
    using assms(3) by (cases c) (auto split: option.splits prod.splits)
  then show ?thesis
  proof (elim disjE exE)
    fix slug h assume c: "c = CAwait slug h"
    then have "lane_slug rt h = Some slug" using ok(2) assms(2) by (auto simp: loop_ok_def newest_of_def)
    moreover have "\<not> lane_dead rt h" using assms(3) c by (auto split: if_splits)
    ultimately show ?thesis using moves c by blast
  next
    assume c: "c = CAwaitAll"
    then obtain g where g: "\<not> lane_dead rt g" using assms(3) by (auto split: if_splits)
    then obtain slug where "lane_slug rt g = Some slug" by (auto simp: lane_dead_def lane_slug_def split: option.splits)
    then show ?thesis using moves g c by blast
  qed
qed

section \<open>An executable scheduler\<close>

definition waited :: "runtime \<Rightarrow> lane_proc \<Rightarrow> bool" where
  "waited rt p = (case l_prev p of None \<Rightarrow> True | Some q \<Rightarrow> lane_dead rt q)"

text \<open>One step of the two goroutine bodies; \<open>None\<close> is waiting, or having ended.\<close>

definition abandonLane :: "nat \<Rightarrow> lane_proc \<Rightarrow> runtime \<Rightarrow> runtime option" where
  "abandonLane g p rt =
     (case l_phase p of
        LAbandoned \<Rightarrow> if waited rt p then Some (set_phase g LLeaving rt) else None
      | LLeaving \<Rightarrow> Some (set_phase g LForgot (forget (l_id p) rt))
      | LForgot \<Rightarrow> Some (set_phase g LDead rt)
      | _ \<Rightarrow> None)"

definition runLane :: "render \<Rightarrow> nat \<Rightarrow> lane_proc \<Rightarrow> lane_failure option \<Rightarrow> runtime \<Rightarrow> runtime option" where
  "runLane rd g p err rt =
     (case l_phase p of
        LWaiting \<Rightarrow>
          if \<not> waited rt p then None
          else if l_canceled p then Some (set_phase g LLeaving rt)
          else Some (set_phase g (if l_pre p then LScrub else LActive) rt)
      | LScrub \<Rightarrow> Some (set_phase g LActive rt)
      | LActive \<Rightarrow> Some (set_phase g LLeaving (finishLane rd p err rt))
      | LLeaving \<Rightarrow> Some (set_phase g LForgot (forget (l_id p) rt))
      | LForgot \<Rightarrow> Some (set_phase g LDead rt)
      | _ \<Rightarrow> None)"

lemma lane_body_steps:
  assumes "rt_procs rt g = Some p"
  shows "abandonLane g p rt = Some rt' \<Longrightarrow> rt_step d rd rt rt'" "runLane rd g p err rt = Some rt' \<Longrightarrow> rt_step d rd rt rt'"
proof -
  note s = rt_step.lane_abandoned [OF assms] rt_step.lane_canceled [OF assms] rt_step.lane_starts [OF assms]
    rt_step.lane_scrubbed [OF assms] rt_step.lane_returns [OF assms] rt_step.lane_forgets [OF assms] rt_step.lane_closes [OF assms]
  show "abandonLane g p rt = Some rt' \<Longrightarrow> rt_step d rd rt rt'"
    using s(1) s(6,7) [where d = d and rd = rd]
    by (cases "l_phase p") (simp_all add: abandonLane_def waited_def split: if_splits)
  show "runLane rd g p err rt = Some rt' \<Longrightarrow> rt_step d rd rt rt'"
    using s(2,3) s(4) [where d = d and rd = rd] s(5) [where d = d and rd = rd and err = err] s(6,7) [where d = d and rd = rd]
    by (cases "l_phase p") (simp_all add: runLane_def waited_def split: if_splits)
qed

datatype rt_act =
    AEvent Event
  | ATick
  | AClosed
  | ACmd
  | ALane nat
  | AStore store_op

fun rt_do :: "std \<Rightarrow> render \<Rightarrow> rt_act \<Rightarrow> runtime \<Rightarrow> runtime option" where
  "rt_do d rd (AEvent e) rt = (if rt_loop rt = [] \<and> \<not> rt_down rt then Some (rt\<lparr>rt_loop := apply_event e rt\<rparr>) else None)"
| "rt_do d rd ATick rt = (if rt_loop rt = [] \<and> \<not> rt_down rt then Some (rt\<lparr>rt_loop := reconcile rt\<rparr>) else None)"
| "rt_do d rd AClosed rt =
     (if rt_loop rt = [] \<and> \<not> rt_down rt then Some ((stop_all rt)\<lparr>rt_loop := [CAwaitAll], rt_down := True\<rparr>) else None)"
| "rt_do d rd ACmd rt =
     (case rt_loop rt of [] \<Rightarrow> None
      | c # cs \<Rightarrow> map_option (\<lambda>(rt', nxt). rt'\<lparr>rt_loop := nxt @ cs\<rparr>) (run_cmd c rt))"
| "rt_do d rd (ALane g) rt =
     (case rt_procs rt g of
        None \<Rightarrow> None
      | Some p \<Rightarrow> if l_phase p = LAbandoned then abandonLane g p rt else runLane rd g p None rt)"
| "rt_do d rd (AStore x) rt = Some (rt\<lparr>rt_store := store_step d rd x (rt_store rt)\<rparr>)"

lemma rt_do_step:
  assumes "rt_do d rd a rt = Some rt'" shows "rt_step d rd rt rt'"
proof (cases a)
  case ACmd
  then obtain c cs r nxt where "rt_loop rt = c # cs" "run_cmd c rt = Some (r, nxt)" "rt' = r\<lparr>rt_loop := nxt @ cs\<rparr>"
    using assms by (auto split: list.splits)
  then show ?thesis using rt_step.loop_cmd by simp
next
  case (ALane g)
  then obtain p where p: "rt_procs rt g = Some p" using assms by (auto split: option.splits)
  show ?thesis using assms ALane p lane_body_steps [OF p] by (auto split: if_splits)
qed (use assms in \<open>auto split: if_splits intro: rt_step.intros\<close>)

fun rt_run :: "std \<Rightarrow> render \<Rightarrow> rt_act list \<Rightarrow> runtime \<Rightarrow> runtime option" where
  "rt_run d rd [] rt = Some rt"
| "rt_run d rd (a # as) rt = (case rt_do d rd a rt of None \<Rightarrow> None | Some rt' \<Rightarrow> rt_run d rd as rt')"

lemma rt_run_reach:
  "rt_reach d rd st rt \<Longrightarrow> rt_run d rd as rt = Some rt' \<Longrightarrow> rt_reach d rd st rt'"
proof (induction as arbitrary: rt)
  case (Cons a as)
  then obtain r where "rt_do d rd a rt = Some r" "rt_run d rd as r = Some rt'" by (auto split: option.splits)
  moreover then have "rt_reach d rd st r"
    using Cons.prems(1) rt_do_step unfolding rt_reach_def by (metis rtranclp.rtrancl_into_rtrancl)
  ultimately show ?case using Cons.IH by blast
qed simp

lemma rt_reach_new: "rt_reach d rd st (NewRuntime st)" by (simp add: rt_reach_def)

definition demo_store :: store where
  "demo_store = snd (Create demo_std demo_session (NewStore []))"

definition demo_run :: "rt_act list \<Rightarrow> runtime option" where
  "demo_run as = rt_run demo_std demo_render as (NewRuntime demo_store)"

lemma demo_run_reach: "demo_run as = Some rt \<Longrightarrow> rt_reach demo_std demo_render demo_store rt"
  unfolding demo_run_def by (rule rt_run_reach [OF rt_reach_new])

definition demo_deleted :: "rt_act list" where
  "demo_deleted = [ACmd, ACmd, ALane 1, AStore (ODelete (str ''talk'')), AEvent (event EventDeleted demo_session), ACmd]"

theorem one_lane_at_a_time_witness:
  "\<exists>rt p. rt_reach demo_std demo_render demo_store rt \<and> rt_procs rt 1 = Some p \<and> l_phase p = LActive \<and>
     (\<forall>h q. rt_procs rt h = Some q \<and> id_slug (l_id q) = id_slug (l_id p) \<and> l_phase q \<in> {LScrub, LActive} \<longrightarrow> 1 = h)"
proof -
  have "case demo_run [ACmd, ACmd, ALane 1] of Some rt \<Rightarrow> map_option l_phase (rt_procs rt 1) = Some LActive | None \<Rightarrow> False"
    by code_simp
  then obtain rt p where r: "demo_run [ACmd, ACmd, ALane 1] = Some rt" "rt_procs rt 1 = Some p" "l_phase p = LActive"
    by (auto split: option.splits)
  note reach = demo_run_reach [OF r(1)]
  have "1 = h" if "rt_procs rt h = Some q" "id_slug (l_id q) = id_slug (l_id p)" "l_phase q \<in> {LScrub, LActive}" for h q
    by (rule one_lane_at_a_time [OF reach r(2) that(1)]) (use that r(3) in simp_all)
  then show ?thesis using reach r by blast
qed

theorem outputs_dropped_after_every_lane_witness:
  "\<exists>rt p. rt_reach demo_std demo_render demo_store rt \<and> rt_loop rt = [CClean (str ''talk'')] \<and> rt_procs rt 1 = Some p \<and>
     id_slug (l_id p) = str ''talk'' \<and> l_phase p \<in> {LForgot, LDead}"
proof -
  let ?as = "demo_deleted @ [ALane 1, ALane 1, ALane 1, ACmd]"
  have "case demo_run ?as of Some rt \<Rightarrow> rt_loop rt = [CClean (str ''talk'')] \<and>
      map_option (\<lambda>p. id_slug (l_id p)) (rt_procs rt 1) = Some (str ''talk'') | None \<Rightarrow> False"
    by code_simp
  then obtain rt p where r: "demo_run ?as = Some rt" "rt_loop rt = [CClean (str ''talk'')]" "rt_procs rt 1 = Some p"
      "id_slug (l_id p) = str ''talk''"
    by (auto split: option.splits)
  note reach = demo_run_reach [OF r(1)]
  show ?thesis using outputs_dropped_after_every_lane [OF reach r(2-4)] reach r by blast
qed

theorem loop_waits_on_a_lane_that_moves_witness:
  "\<exists>rt. rt_reach demo_std demo_render demo_store rt \<and> rt_loop rt = [CAwait (str ''talk'') 1, CClean (str ''talk'')] \<and>
     lane_moves demo_std demo_render rt 1"
proof -
  have "case demo_run demo_deleted of Some rt \<Rightarrow> rt_loop rt = [CAwait (str ''talk'') 1, CClean (str ''talk'')] \<and>
      \<not> lane_dead rt 1 \<and> lane_slug rt 0 = None | None \<Rightarrow> False"
    by code_simp
  then obtain rt where r: "demo_run demo_deleted = Some rt" "rt_loop rt = [CAwait (str ''talk'') 1, CClean (str ''talk'')]"
      "\<not> lane_dead rt 1" "lane_slug rt 0 = None"
    by (auto split: option.splits)
  note reach = demo_run_reach [OF r(1)]
  obtain g where g: "lane_moves demo_std demo_render rt g" "lane_slug rt g = Some (str ''talk'')" "g \<le> 1"
    using loop_waits_on_a_lane_that_moves [OF reach r(2)] r(3) by auto
  then have "g = 1" using r(4) by (cases g) auto
  then show ?thesis using reach r g by blast
qed

section \<open>Backoff and self-ended lanes\<close>

lemma retry_loop_base:
  "retry_loop n failedRetryBase =
     (if n = 0 then 10 * second else if n = 1 then 20 * second else if n = 2 then 40 * second else if n = 3 then 80 * second
      else if n = 4 then 160 * second else failedRetryMax)"
proof -
  note defs = failedRetryBase_def failedRetryMax_def go_div_def wrap64_def
  have e: "retry_loop (Suc (Suc (Suc (Suc (Suc m))))) failedRetryBase = failedRetryMax"
    "retry_loop (Suc (Suc (Suc (Suc 0)))) failedRetryBase = 160 * second"
    "retry_loop (Suc (Suc (Suc 0))) failedRetryBase = 80 * second"
    "retry_loop (Suc (Suc 0)) failedRetryBase = 40 * second"
    "retry_loop (Suc 0) failedRetryBase = 20 * second" "retry_loop 0 failedRetryBase = 10 * second" for m
    by (simp_all add: defs)
  consider "n = 0" | "n = Suc 0" | "n = Suc (Suc 0)" | "n = Suc (Suc (Suc 0))" | "n = Suc (Suc (Suc (Suc 0)))"
    | m where "n = Suc (Suc (Suc (Suc (Suc m))))"
    by (metis not0_implies_Suc)
  then show ?thesis by cases (simp_all only: e, simp_all)
qed

lemma unat_255: "unat (255 :: 8 word) = 255" "unat (- 1 :: 8 word) = 255"
  by (simp_all add: unsigned_minus_1_eq_mask mask_eq_exp_minus_1)

lemma retry_loop_bounds:
  "failedRetryBase \<le> retry_loop n failedRetryBase" "retry_loop n failedRetryBase \<le> failedRetryMax"
  "n \<le> m \<Longrightarrow> retry_loop n failedRetryBase \<le> retry_loop m failedRetryBase"
  unfolding retry_loop_base by (simp_all add: failedRetryBase_def failedRetryMax_def)

lemma failedRetryDelay_eq:
  "failedRetryDelay slug r =
     (let d = retry_loop (unat r) failedRetryBase in min (d + uint (fnv32a (utf8 slug) mod 1000) * d div 5000) failedRetryMax)"
proof -
  let ?h = "uint (fnv32a (utf8 slug) mod 1000)" and ?d = "retry_loop (unat r) failedRetryBase"
  have h: "0 \<le> ?h" "?h < 1000" by (simp_all add: uint_mod)
  have d: "0 \<le> ?d" "?d \<le> 300000000000"
    using retry_loop_bounds(1,2) [of "unat r"] by (simp_all add: failedRetryBase_def failedRetryMax_def)
  have "0 \<le> ?h * ?d" using h d by simp
  moreover have "?h * ?d \<le> 1000 * 300000000000" using h d by (intro mult_mono) simp_all
  ultimately have "wrap64 (?h * ?d) = ?h * ?d" "go_div (?h * ?d) 5000 = ?h * ?d div 5000"
    by (simp_all add: wrap64_id in_int64_def go_div_nonneg)
  then show ?thesis by (simp add: failedRetryDelay_def Let_def)
qed

text \<open>The backoff of a failed lane lies between ten seconds and five minutes, never shrinks from one
  retry count to a larger one and is five minutes from the fifth on, whatever the slug's jitter. The count
  goes up by one on every due retry, but at 255 it starts again from zero instead of staying there, so the
  delay falls back to its shortest.\<close>

lemma retry_backoff:
  "failedRetryDelay slug r \<in> {failedRetryBase..failedRetryMax} \<and>
   failedRetryDelay slug (min r r') \<le> failedRetryDelay slug (max r r') \<and>
   failedRetryDelay slug (max 5 r) = failedRetryMax \<and>
   nextRetryCount r True = (if r = 255 then 0 else r + 1) \<and> nextRetryCount r False = 0"
proof (intro conjI)
  have h: "0 \<le> uint (fnv32a (utf8 slug) mod 1000)" by simp
  have j: "0 \<le> uint (fnv32a (utf8 slug) mod 1000) * retry_loop n failedRetryBase div 5000" for n
    using h retry_loop_bounds(1) [of n] by (simp add: failedRetryBase_def pos_imp_zdiv_nonneg_iff)
  show "failedRetryDelay slug r \<in> {failedRetryBase..failedRetryMax}"
    using retry_loop_bounds(1) [of "unat r"] j [of "unat r"]
    by (simp add: failedRetryDelay_eq Let_def) (simp add: failedRetryBase_def failedRetryMax_def)
  have le: "unat (min r r') \<le> unat (max r r')" by (auto simp: word_le_nat_alt [symmetric] min_def max_def)
  have "uint (fnv32a (utf8 slug) mod 1000) * retry_loop (unat (min r r')) failedRetryBase div 5000
      \<le> uint (fnv32a (utf8 slug) mod 1000) * retry_loop (unat (max r r')) failedRetryBase div 5000"
    using retry_loop_bounds(3) [OF le] h by (intro zdiv_mono1 mult_left_mono) simp_all
  then show "failedRetryDelay slug (min r r') \<le> failedRetryDelay slug (max r r')"
    unfolding failedRetryDelay_eq Let_def by (intro min.mono add_mono retry_loop_bounds(3) [OF le] order_refl)
  have "5 \<le> unat (max 5 r)"
    using word_le_nat_alt [of 5 "max 5 r"] by simp
  then have "retry_loop (unat (max 5 r)) failedRetryBase = failedRetryMax" by (simp add: retry_loop_base)
  then show "failedRetryDelay slug (max 5 r) = failedRetryMax"
    using j [of "unat (max 5 r)"] by (simp add: failedRetryDelay_eq Let_def)
  have "r < NOT 0 \<longleftrightarrow> r \<noteq> 255" 
  proof -
    have "unat r < 256" using unsigned_less [of r, where 'a = nat] by simp
    moreover have "r = 255 \<longleftrightarrow> unat r = 255" by (metis unat_255(1) word_eq_iff_unsigned)
    moreover have "r < NOT 0 \<longleftrightarrow> unat r < 255" by (simp add: word_less_nat_alt unat_255)
    ultimately show ?thesis by linarith
  qed
  then show "nextRetryCount r True = (if r = 255 then 0 else r + 1)" by (simp add: nextRetryCount_def)
qed (simp add: nextRetryCount_def)

text \<open>A lane that ended by itself stays down: neither an event nor a tick starts it again while its
  definition is unchanged, unless it failed and its backoff has run out, and then the retry is a new
  incarnation that waits for the old one and counts one more failure.\<close>

lemma ended_lane_stays_down:
  assumes "lane_of rt (s_Slug s) = Some reg" "r_state reg = laneExited"
    "s_revision (r_spec reg) = s_revision s" "sameDefinition (r_spec reg) s"
  shows "if rs_State (Runtime s) = StateFailed \<and> due (rt_now rt) reg
    then reconcile_one s rt = [CLaunch s True] \<and>
      (\<exists>i rt' p reg'. launch s pre rt = (Some i, rt') \<and> rt_procs rt' (id_gen i) = Some p \<and> l_prev p = Some (r_gen reg) \<and>
         lane_of rt' (s_Slug s) = Some reg' \<and> r_state reg' = laneRunning \<and> r_retries reg' = nextRetryCount (r_retries reg) True)
    else launch s pre rt = (None, rt) \<and> reconcile_one s rt = []"
  using assms by (simp add: reconcile_one_def needs_replacement_def launch_def laneDisposition_def Let_def)

lemma ended_lane_stays_down_witness:
  "launch demo_session False ((NewRuntime demo_store)\<lparr>rt_lanes := [(str ''talk'',
       \<lparr>r_spec = demo_session, r_retryAt = None, r_gen = 1, r_retries = 0, r_state = laneExited\<rparr>)]\<rparr>) =
     (None, (NewRuntime demo_store)\<lparr>rt_lanes := [(str ''talk'',
       \<lparr>r_spec = demo_session, r_retryAt = None, r_gen = 1, r_retries = 0, r_state = laneExited\<rparr>)]\<rparr>)"
proof -
  let ?reg = "\<lparr>r_spec = demo_session, r_retryAt = None, r_gen = 1, r_retries = 0, r_state = laneExited\<rparr>"
  let ?rt = "(NewRuntime demo_store)\<lparr>rt_lanes := [(str ''talk'', ?reg)]\<rparr>"
  have c: "s_Slug demo_session = str ''talk'' \<and> sameDefinition demo_session demo_session \<and>
      rs_State (Runtime demo_session) \<noteq> StateFailed" by code_simp
  have "lane_of ?rt (s_Slug demo_session) = Some ?reg" using c by (simp add: lane_of_def)
  from ended_lane_stays_down [OF this] show ?thesis using c by simp
qed

end
