(* ===== verification/Vtt.thy ===== *)
theory Vtt
  imports Floats Lane Fmt
begin

text \<open>
  \<^verbatim>\<open>internal/media/egress/vtt\<close>: the rolling WebVTT document of one language: wrapping and
  splitting of captions into timed cues (layout.go), the bounded document and its rendering (vtt.go), the
  registry of live writers (registry.go). The rounding of a
  \<open>float64\<close> operation is the argument \<open>rnd\<close>.
\<close>

section \<open>Wrapping\<close>

definition MaxLineChars :: nat where "MaxLineChars = 42"
definition MaxLines :: nat where "MaxLines = 2"
definition maxCues :: nat where "maxCues = 200"
definition nominalCueDuration :: duration where "nominalCueDuration = second"

record Cue =
  Lines :: "gostr list"
  Start :: duration
  End :: duration

text \<open>\<open>split\<close>; the loop needs a positive width, and the only caller gives 42.\<close>

fun split_runes :: "nat \<Rightarrow> gostr \<Rightarrow> gostr list" where
  "split_runes width runes =
     (if 0 < width \<and> width < length runes
      then take width runes # split_runes width (drop width runes) else [runes])"

declare split_runes.simps [simp del]

definition split_word :: "gostr \<Rightarrow> nat \<Rightarrow> gostr list" where
  "split_word word width = (if length word \<le> width then [word] else split_runes width word)"

definition wrap_piece :: "nat \<Rightarrow> gostr \<Rightarrow> gostr list \<times> gostr \<Rightarrow> gostr list \<times> gostr" where
  "wrap_piece width piece st =
     (case st of (lines, current) \<Rightarrow>
        if current = [] then (lines, piece)
        else if length current + 1 + length piece \<le> width then (lines, current @ [32] @ piece)
        else (lines @ [current], piece))"

definition wrap_text :: "gostr \<Rightarrow> nat \<Rightarrow> gostr list" where
  "wrap_text text width =
     (case fold (\<lambda>word st. fold (wrap_piece width) (split_word word width) st) (str_fields text) ([], []) of
        (lines, current) \<Rightarrow> if current \<noteq> [] then lines @ [current] else lines)"

section \<open>Layout\<close>

text \<open>The loop takes the lines two by two.\<close>

function line_groups :: "gostr list \<Rightarrow> gostr list list" where
  "line_groups lines = (if lines = [] then [] else take MaxLines lines # line_groups (drop MaxLines lines))"
  by auto
termination by (relation "measure length") (auto simp: MaxLines_def)

declare line_groups.simps [simp del]

definition share :: "(rat \<Rightarrow> rat) \<Rightarrow> duration \<Rightarrow> nat \<Rightarrow> nat \<Rightarrow> duration" where
  "share rnd dur chars whole =
     trunc_rat (rnd (rnd (rnd (of_int dur) * rnd (of_nat chars)) / rnd (of_nat whole)))"

definition chars_of :: "gostr list \<Rightarrow> nat" where
  "chars_of lines = sum_list (map length lines)"

fun lay_groups :: "(rat \<Rightarrow> rat) \<Rightarrow> duration \<Rightarrow> nat \<Rightarrow> duration \<Rightarrow> duration \<Rightarrow> gostr list list \<Rightarrow> Cue list" where
  "lay_groups rnd dur whole stop cueStart [] = []"
| "lay_groups rnd dur whole stop cueStart (g # groups) =
     (let e = (if groups = [] then stop else cueStart + share rnd dur (chars_of g) whole)
      in \<lparr>Lines = g, Start = cueStart, End = e\<rparr> # lay_groups rnd dur whole stop e groups)"

definition Layout :: "(rat \<Rightarrow> rat) \<Rightarrow> gostr \<Rightarrow> duration \<Rightarrow> duration \<Rightarrow> Cue list" where
  "Layout rnd text start dur =
     (let lines = wrap_text text MaxLineChars
      in lay_groups rnd dur (chars_of lines) (start + dur) start (line_groups lines))"

section \<open>The rolling document\<close>

definition push_cue :: "Cue \<Rightarrow> Cue list \<Rightarrow> Cue list" where
  "push_cue c cues = (if length cues = maxCues then tl cues else cues) @ [c]"

text \<open>A writer is its list of cues.\<close>

definition NewWriter :: "Cue list" where "NewWriter = []"

definition seg_cues :: "(rat \<Rightarrow> rat) \<Rightarrow> TranslatedSegment \<Rightarrow> Cue list" where
  "seg_cues rnd seg =
     (let text = trim_space (TText seg); dur = (if TDuration seg \<le> 0 then nominalCueDuration else TDuration seg)
      in if text = [] then [] else Layout rnd text (ScheduleAt seg) dur)"

definition append_caption :: "(rat \<Rightarrow> rat) \<Rightarrow> TranslatedSegment \<Rightarrow> Cue list \<Rightarrow> Cue list" where
  "append_caption rnd seg cues = fold push_cue (seg_cues rnd seg) cues"

definition escape_rune :: "rune \<Rightarrow> gostr" where
  "escape_rune r = (if r = 38 then str ''&amp;'' else if r = 60 then str ''&lt;'' else if r = 62 then str ''&gt;'' else [r])"

definition escapeCue :: "gostr \<Rightarrow> gostr" where
  "escapeCue text = concat (map escape_rune text)"

definition CueText :: "Cue \<Rightarrow> gostr" where
  "CueText c = escapeCue (join [10] (Lines c))"

definition Timestamp :: "duration \<Rightarrow> gostr" where
  "Timestamp d0 =
     (let d = (if d0 < 0 then 0 else d0);
          h = go_div d hour; m = go_div (go_mod d hour) minute; s = go_div (go_mod d minute) second;
          ms = go_div (go_mod d second) millisecond
      in pad0 2 h @ [58] @ pad0 2 m @ [58] @ pad0 2 s @ [46] @ pad0 3 ms)"

definition cue_block :: "Cue \<Rightarrow> gostr" where
  "cue_block c = [10] @ Timestamp (Start c) @ str '' --> '' @ Timestamp (End c) @ [10] @ CueText c @ [10]"

definition Document :: "Cue list \<Rightarrow> gostr" where
  "Document cues = str ''WEBVTT'' @ [10] @ concat (map cue_block cues)"

section \<open>The registry\<close>

text \<open>One writer per session and language; a lane restart starts a fresh document.\<close>

type_synonym caption_registry = "(gostr \<times> lang) \<Rightarrow> Cue list option"

definition reg_Create :: "gostr \<Rightarrow> lang \<Rightarrow> caption_registry \<Rightarrow> caption_registry" where
  "reg_Create slug lang r = r((slug, lang) \<mapsto> NewWriter)"

definition reg_Append :: "(rat \<Rightarrow> rat) \<Rightarrow> gostr \<Rightarrow> lang \<Rightarrow> TranslatedSegment \<Rightarrow> caption_registry \<Rightarrow> caption_registry" where
  "reg_Append rnd slug lang seg r = r((slug, lang) := map_option (append_caption rnd seg) (r (slug, lang)))"

definition reg_Document :: "gostr \<Rightarrow> lang \<Rightarrow> caption_registry \<Rightarrow> gostr option" where
  "reg_Document slug lang r = map_option Document (r (slug, lang))"

definition reg_Drop :: "gostr \<Rightarrow> caption_registry \<Rightarrow> caption_registry" where
  "reg_Drop slug r = (\<lambda>(s, lang). if s = slug then None else r (s, lang))"

section \<open>Every line fits and no text is lost\<close>

lemma split_runes_concat: "concat (split_runes width s) = s"
  by (induction width s rule: split_runes.induct) (subst split_runes.simps, auto)

lemma split_runes_pieces:
  "0 < width \<Longrightarrow> p \<in> set (split_runes width s) \<Longrightarrow> length p \<le> width \<and> (s \<noteq> [] \<longrightarrow> p \<noteq> []) \<and> set p \<subseteq> set s"
proof (induction width s rule: split_runes.induct)
  case (1 width s)
  show ?case
  proof (cases "width < length s")
    case True
    then have "p = take width s \<or> p \<in> set (split_runes width (drop width s))"
      using 1(2,3) by (subst (asm) split_runes.simps) auto
    then show ?thesis
    proof
      assume "p \<in> set (split_runes width (drop width s))"
      then show ?thesis using 1 True set_drop_subset [of width s] by fastforce
    qed (use True 1(2) set_take_subset [of width s] in auto)
  next
    case False
    then show ?thesis using 1(2,3) by (subst (asm) split_runes.simps) auto
  qed
qed

lemma split_word_props:
  assumes "0 < width" "w \<noteq> []"
  shows "concat (split_word w width) = w" "\<And>p. p \<in> set (split_word w width) \<Longrightarrow> p \<noteq> [] \<and> length p \<le> width \<and> set p \<subseteq> set w"
  using split_runes_concat split_runes_pieces [OF assms(1)] assms(2) by (auto simp: split_word_def split: if_splits)

definition nonspace :: "gostr \<Rightarrow> gostr" where
  "nonspace s = filter (\<lambda>r. \<not> is_space r) s"

definition good_line :: "nat \<Rightarrow> gostr \<Rightarrow> bool" where
  "good_line width l \<longleftrightarrow> l \<noteq> [] \<and> length l \<le> width \<and> (\<forall>r \<in> set l. is_space r \<longrightarrow> r = 32)"

definition wrap_inv :: "nat \<Rightarrow> gostr list \<times> gostr \<Rightarrow> bool" where
  "wrap_inv width st \<longleftrightarrow> (\<forall>l \<in> set (fst st). good_line width l) \<and> (snd st = [] \<or> good_line width (snd st))"

definition wrap_out :: "gostr list \<times> gostr \<Rightarrow> gostr" where
  "wrap_out st = nonspace (concat (fst st) @ snd st)"

lemma space_32: "is_space 32" by (simp add: is_space_def)

lemma wrap_piece_ok:
  assumes "wrap_inv width st" "p \<noteq> []" "length p \<le> width" "\<And>r. r \<in> set p \<Longrightarrow> \<not> is_space r"
  shows "wrap_inv width (wrap_piece width p st)" "wrap_out (wrap_piece width p st) = wrap_out st @ p"
  using assms by (auto simp: wrap_inv_def wrap_out_def wrap_piece_def good_line_def nonspace_def space_32 split: prod.splits)

lemma wrap_pieces_ok:
  "wrap_inv width st \<Longrightarrow> \<forall>p \<in> set ps. p \<noteq> [] \<and> length p \<le> width \<and> (\<forall>r \<in> set p. \<not> is_space r) \<Longrightarrow>
   wrap_inv width (fold (wrap_piece width) ps st) \<and> wrap_out (fold (wrap_piece width) ps st) = wrap_out st @ concat ps"
proof (induction ps arbitrary: st)
  case (Cons p ps)
  then have p: "p \<noteq> []" "length p \<le> width" "\<And>r. r \<in> set p \<Longrightarrow> \<not> is_space r" by simp_all
  note w = wrap_piece_ok [OF Cons.prems(1) p]
  show ?case using Cons.IH [OF w(1)] Cons.prems(2) w(2) by simp
qed simp

lemma wrap_words_ok:
  assumes "0 < width" "wrap_inv width st" "\<And>w. w \<in> set ws \<Longrightarrow> w \<noteq> [] \<and> (\<forall>r \<in> set w. \<not> is_space r)"
  shows "wrap_inv width (fold (\<lambda>word st. fold (wrap_piece width) (split_word word width) st) ws st) \<and>
    wrap_out (fold (\<lambda>word st. fold (wrap_piece width) (split_word word width) st) ws st) = wrap_out st @ concat ws"
  using assms(2,3)
proof (induction ws arbitrary: st)
  case (Cons w ws)
  let ?st = "fold (wrap_piece width) (split_word w width) st"
  have w: "w \<noteq> []" "\<forall>r \<in> set w. \<not> is_space r" using Cons.prems(2) [of w] by simp_all
  note s = split_word_props [OF assms(1) w(1)]
  have st: "wrap_inv width ?st \<and> wrap_out ?st = wrap_out st @ concat (split_word w width)"
    using s(2) w(2) by (intro wrap_pieces_ok [OF Cons.prems(1)]) blast
  have "wrap_inv width (fold (\<lambda>word st. fold (wrap_piece width) (split_word word width) st) ws ?st) \<and>
    wrap_out (fold (\<lambda>word st. fold (wrap_piece width) (split_word word width) st) ws ?st) = wrap_out ?st @ concat ws"
    by (rule Cons.IH) (use st Cons.prems(2) in auto)
  then show ?case using st s(1) by simp
qed simp

lemma wrap_text_ok:
  assumes "0 < width"
  shows "\<forall>l \<in> set (wrap_text text width). good_line width l" "nonspace (concat (wrap_text text width)) = nonspace text"
proof -
  define st where "st = fold (\<lambda>word st. fold (wrap_piece width) (split_word word width) st) (str_fields text) ([], [])"
  have f: "w \<noteq> [] \<and> (\<forall>r \<in> set w. \<not> is_space r)" if "w \<in> set (str_fields text)" for w
    using that fields_nonempty fields_no_space by blast
  have "wrap_inv width ([], [])" by (simp add: wrap_inv_def)
  from wrap_words_ok [OF assms this f] have i: "wrap_inv width st" and o': "wrap_out st = nonspace text"
    by (simp_all add: st_def concat_fields nonspace_def wrap_out_def)
  have e: "wrap_text text width = (if snd st \<noteq> [] then fst st @ [snd st] else fst st)"
    by (simp add: wrap_text_def st_def split: prod.split)
  show "\<forall>l \<in> set (wrap_text text width). good_line width l" using i by (auto simp: e wrap_inv_def)
  show "nonspace (concat (wrap_text text width)) = nonspace text" using o' by (auto simp: e wrap_out_def)
qed

lemma wrap_text_empty: "wrap_text text width = [] \<Longrightarrow> 0 < width \<Longrightarrow> nonspace text = []"
  by (metis concat.simps(1) filter.simps(1) nonspace_def wrap_text_ok(2))

lemma line_groups_props:
  "concat (line_groups ls) = ls" "g \<in> set (line_groups ls) \<Longrightarrow> g \<noteq> [] \<and> length g \<le> MaxLines" "line_groups ls = [] \<longleftrightarrow> ls = []"
proof (induction ls rule: line_groups.induct)
  case (1 ls)
  have m: "0 < MaxLines" by (simp add: MaxLines_def)
  { case 1 then show ?case using "1.IH"(1) by (subst line_groups.simps) auto }
  { case 2 then show ?case using "1.IH"(2) m by (subst (asm) line_groups.simps) (auto split: if_splits) }
  { case 3 show ?case by (subst line_groups.simps) auto }
qed

lemma lay_groups_lines: "map Lines (lay_groups rnd dur whole stop s gs) = gs"
  by (induction gs arbitrary: s) (simp_all add: Let_def)

lemma Layout_lines: "map Lines (Layout rnd text start dur) = line_groups (wrap_text text MaxLineChars)"
  by (simp add: Layout_def Let_def lay_groups_lines)

definition good_cue :: "Cue \<Rightarrow> bool" where
  "good_cue c \<longleftrightarrow> Lines c \<noteq> [] \<and> length (Lines c) \<le> MaxLines \<and> (\<forall>l \<in> set (Lines c). good_line MaxLineChars l)"

lemma Layout_good: assumes "c \<in> set (Layout rnd text start dur)" shows "good_cue c"
proof -
  have "Lines c \<in> set (line_groups (wrap_text text MaxLineChars))"
    using assms by (metis Layout_lines image_eqI list.set_map)
  then have a: "Lines c \<noteq> [] \<and> length (Lines c) \<le> MaxLines" and
      b: "set (Lines c) \<subseteq> set (concat (line_groups (wrap_text text MaxLineChars)))"
    using line_groups_props(2) by auto
  show ?thesis
    using a b wrap_text_ok(1) [of MaxLineChars] unfolding line_groups_props(1) good_cue_def
    by (auto simp: MaxLineChars_def)
qed

lemma Layout_text: "nonspace (concat (concat (map Lines (Layout rnd text start dur)))) = nonspace text"
  by (simp add: Layout_lines line_groups_props(1) wrap_text_ok(2) MaxLineChars_def)

section \<open>Cues tile their segment\<close>

text \<open>A share is not negative and exceeds the exact one by a relative \<open>2^-51\<close> at most.\<close>

lemma share_bounds:
  assumes "ieee rnd" "0 < dur" "dur \<le> 2 ^ 53" "0 < chars" "chars \<le> whole" "whole \<le> 2 ^ 50"
  shows "0 \<le> share rnd dur chars whole"
    "of_int (share rnd dur chars whole) \<le> of_int dur * of_nat chars / of_nat whole * (1 + 1 / 2 ^ 51 :: rat)"
proof -
  let ?d = "of_int dur :: rat" and ?c = "of_nat chars :: rat" and ?w = "of_nat whole :: rat" and ?e = "1 + 1 / 2 ^ 53 :: rat"
  have ex: "rnd (of_int n) = of_int n" if "\<bar>n\<bar> \<le> 2 ^ 53" for n using assms(1) that unfolding ieee_def by blast
  have rel: "rnd x \<le> x * ?e" if "1 / 2 ^ 1000 \<le> x" "x \<le> 2 ^ 1000" for x using assms(1) that unfolding ieee_def by blast
  have mono: "rnd x \<le> rnd y" if "x \<le> y" for x y using assms(1) that unfolding ieee_def by blast
  have c: "1 \<le> ?c" "?c \<le> ?w" using assms(4,5) by simp_all
  have "?w \<le> of_nat (2 ^ 50)" using assms(6) by (simp only: of_nat_le_iff)
  then have w: "1 \<le> ?w" "?w \<le> 2 ^ 50" using c by simp_all
  have "?d \<le> of_int (2 ^ 53)" using assms(3) by (simp only: of_int_le_iff)
  then have d: "1 \<le> ?d" "?d \<le> 2 ^ 53" using assms(2) by simp_all
  have r: "rnd ?d = ?d" "rnd ?c = ?c" "rnd ?w = ?w"
    using ex [of dur] ex [of "int chars"] ex [of "int whole"] assms(2-6) by simp_all
  have p1: "1 \<le> ?d * ?c" using mult_mono [of 1 ?d 1 ?c] c d by simp
  have p2: "?d * ?c \<le> 2 ^ 53 * 2 ^ 50" using c d w by (intro mult_mono) simp_all
  have p: "rnd (?d * ?c) \<le> ?d * ?c * ?e" using p1 p2 by (intro rel) (auto simp: field_simps)
  let ?x = "?d * ?c * ?e / ?w"
  have x1: "1 / 2 ^ 50 \<le> ?x"
    using frac_le [of 1 "?d * ?c * ?e" ?w "2 ^ 50"] p1 w by (simp add: field_simps)
  have x2: "?x \<le> 2 ^ 53 * 2 ^ 50 * 2"
    using frac_le [of "?d * ?c * ?e" "2 ^ 53 * 2 ^ 50 * 2" 1 ?w] p2 w by (simp add: field_simps)
  have "rnd (rnd (?d * ?c) / ?w) \<le> rnd ?x" using p w by (intro mono divide_right_mono) simp_all
  also have "\<dots> \<le> ?x * ?e" by (rule rel [OF order_trans [OF _ x1] order_trans [OF x2]]) simp_all
  also have "\<dots> = ?d * ?c / ?w * (?e * ?e)" by simp
  also have "\<dots> \<le> ?d * ?c / ?w * (1 + 1 / 2 ^ 51)" using c d w by (intro mult_left_mono) (simp_all add: field_simps)
  finally have q: "rnd (rnd (?d * ?c) / ?w) \<le> ?d * ?c / ?w * (1 + 1 / 2 ^ 51)" .
  have n: "0 \<le> rnd (rnd (?d * ?c) / ?w)"
    using p1 w by (intro ieee_nonneg [OF assms(1)] divide_nonneg_nonneg) simp_all
  show "0 \<le> share rnd dur chars whole" "of_int (share rnd dur chars whole) \<le> ?d * ?c / ?w * (1 + 1 / 2 ^ 51 :: rat)"
    using trunc_rat_bounds [OF n] q by (simp_all add: share_def r)
qed

fun tiles :: "duration \<Rightarrow> duration \<Rightarrow> Cue list \<Rightarrow> bool" where
  "tiles s e [] \<longleftrightarrow> s = e"
| "tiles s e (c # cs) \<longleftrightarrow> Start c = s \<and> s \<le> End c \<and> tiles (End c) e cs"

lemma lay_groups_tile:
  assumes "ieee rnd" "0 < dur" "dur \<le> 2 ^ 53" "whole \<le> 2 ^ 50"
  shows "gs \<noteq> [] \<Longrightarrow> \<forall>g \<in> set gs. 0 < chars_of g \<Longrightarrow> used + sum_list (map chars_of gs) = whole \<Longrightarrow>
    of_int (s - start) \<le> of_int dur * of_nat used / of_nat whole * (1 + 1 / 2 ^ 51 :: rat) \<Longrightarrow>
    tiles s (start + dur) (lay_groups rnd dur whole (start + dur) s gs)"
proof (induction gs arbitrary: s used)
  case (Cons g gs)
  let ?d = "of_int dur :: rat" and ?w = "of_nat whole :: rat" and ?k = "1 + 1 / 2 ^ 51 :: rat"
  have g: "0 < chars_of g" "chars_of g \<le> whole" using Cons.prems(2,3) by simp_all
  have w: "0 < ?w" using g by simp
  show ?case
  proof (cases "gs = []")
    case True
    have "of_nat used + 1 \<le> ?w" using Cons.prems(3) True g(1) by (simp flip: of_nat_Suc)
    moreover have "?w \<le> of_nat (2 ^ 50)" using assms(4) by (simp only: of_nat_le_iff)
    ultimately have "of_nat used * ?k \<le> ?w" by (simp add: field_simps)
    then have "of_nat used * ?k / ?w \<le> 1" using w by simp
    then have "?d * (of_nat used * ?k / ?w) \<le> ?d * 1" using assms(2) by (intro mult_left_mono) simp_all
    then have "of_int (s - start) \<le> ?d" using Cons.prems(4) by (simp add: field_simps)
    then have "s - start \<le> dur" by (simp only: of_int_le_iff)
    then show ?thesis using True by simp
  next
    case False
    let ?h = "share rnd dur (chars_of g) whole"
    note h = share_bounds [OF assms(1-3) g assms(4)]
    have "of_int (s + ?h - start) = of_int (s - start) + (of_int ?h :: rat)" by simp
    also have "\<dots> \<le> ?d * of_nat used / ?w * ?k + ?d * of_nat (chars_of g) / ?w * ?k"
      by (intro add_mono Cons.prems(4) h(2))
    also have "\<dots> = ?d * of_nat (used + chars_of g) / ?w * ?k" using w by (simp add: field_simps)
    finally have "tiles (s + ?h) (start + dur) (lay_groups rnd dur whole (start + dur) (s + ?h) gs)"
      by (intro Cons.IH [OF False, of "used + chars_of g"]) (use Cons.prems(2,3) in auto)
    then show ?thesis using False h(1) by (simp add: Let_def)
  qed
qed simp

lemma sum_list_chars_concat: "sum_list (map chars_of gs) = chars_of (concat gs)"
  by (induction gs) (simp_all add: chars_of_def)

section \<open>The document reads back as its cues\<close>

text \<open>A reader of WebVTT: lines, blocks between blank lines, the timing line of each block, its text.\<close>

fun blocks :: "gostr list \<Rightarrow> gostr list \<Rightarrow> gostr list list" where
  "blocks cur [] = (if cur = [] then [] else [cur])"
| "blocks cur (l # ls) =
     (if l \<noteq> [] then blocks (cur @ [l]) ls else if cur = [] then blocks [] ls else cur # blocks [] ls)"

fun unescape :: "gostr \<Rightarrow> gostr" where
  "unescape [] = []"
| "unescape (r # rs) =
     (if r = 38 \<and> has_prefix rs (str ''amp;'') then 38 # unescape (drop 4 rs)
      else if r = 38 \<and> has_prefix rs (str ''lt;'') then 60 # unescape (drop 3 rs)
      else if r = 38 \<and> has_prefix rs (str ''gt;'') then 62 # unescape (drop 3 rs)
      else r # unescape rs)"

definition read_stamp :: "gostr \<Rightarrow> int" where
  "read_stamp t =
     (case str_split 58 t of
        [h, m, r] \<Rightarrow> (case str_split 46 r of [s, ms] \<Rightarrow> ((number h * 60 + number m) * 60 + number s) * 1000 + number ms | _ \<Rightarrow> -1)
      | _ \<Rightarrow> -1)"

definition read_block :: "gostr list \<Rightarrow> (int \<times> int \<times> gostr list) option" where
  "read_block b =
     (case b of
        [] \<Rightarrow> None
      | timing # texts \<Rightarrow>
          (case str_split 32 timing of
             [a, arrow, b] \<Rightarrow> if arrow = str ''-->'' then Some (read_stamp a, read_stamp b, map unescape texts) else None
           | _ \<Rightarrow> None))"

definition read_document :: "gostr \<Rightarrow> (int \<times> int \<times> gostr list) option list" where
  "read_document doc = (case blocks [] (str_split 10 doc) of [] \<Rightarrow> [] | h # bs \<Rightarrow> if h = [str ''WEBVTT''] then map read_block bs else [])"

definition in_ms :: "duration \<Rightarrow> int" where
  "in_ms d = max 0 d div millisecond"

lemma split_sep: "sep \<notin> set s \<Longrightarrow> str_split sep (s @ sep # t) = s # str_split sep t"
  by (simp add: str_split_def split_acc_append)

lemma split_last: "sep \<notin> set s \<Longrightarrow> str_split sep s = [s]"
  by (simp add: str_split_def split_acc_no_sep)

lemma unescape_escape: "unescape (escapeCue s) = s"
proof (induction s)
  case (Cons r s)
  then show ?case by (auto simp: escapeCue_def escape_rune_def str_def has_prefix_def)
qed (simp add: escapeCue_def)

lemma set_escape: "r \<in> set (escapeCue s) \<Longrightarrow> r \<in> set s \<or> r \<in> set (str ''&amp;lt;gt;'')"
  by (auto simp: escapeCue_def escape_rune_def str_def split: if_splits)

lemma escape_line:
  "l \<noteq> [] \<Longrightarrow> escapeCue l \<noteq> []" "10 \<notin> set l \<Longrightarrow> 10 \<notin> set (escapeCue l)"
  using set_escape [of 10 l] by (cases l; auto simp: escapeCue_def escape_rune_def str_def)+

lemma escape_append: "escapeCue (s @ t) = escapeCue s @ escapeCue t"
  by (simp add: escapeCue_def)

lemma escape_join: "escapeCue (join [10] ls) = join [10] (map escapeCue ls)"
proof (induction ls rule: induct_list012)
  case (3 x y ls)
  have "escapeCue [10] = [10]" by (simp add: escapeCue_def escape_rune_def)
  then have "escapeCue (10 # s) = 10 # escapeCue s" for s using escape_append [of "[10]" s] by simp
  with 3(2) show ?case by (simp add: escape_append)
qed (simp_all add: escapeCue_def)

lemma split_joined: "ls \<noteq> [] \<Longrightarrow> \<forall>l \<in> set ls. 10 \<notin> set l \<Longrightarrow> str_split 10 (join [10] ls @ 10 # t) = ls @ str_split 10 t"
  by (induction ls rule: induct_list012) (simp_all add: split_sep)

lemma go_div_pos: "0 \<le> a \<Longrightarrow> 0 < b \<Longrightarrow> 0 \<le> go_div a b" by (simp add: go_div_nonneg pos_imp_zdiv_nonneg_iff)

lemma clock_fields:
  assumes "d = hour * h + r1" "r1 = minute * m + r2" "r2 = second * s + r3" "r3 = millisecond * ms + r4" "0 \<le> r4" "r4 < millisecond"
  shows "d div millisecond = ((h * 60 + m) * 60 + s) * 1000 + ms"
  by (rule int_div_pos_eq [where r = r4]) (use assms in simp_all)

lemma Timestamp_form:
  obtains h m s ms where "Timestamp d = pad0 2 h @ [58] @ pad0 2 m @ [58] @ pad0 2 s @ [46] @ pad0 3 ms"
    "0 \<le> h" "0 \<le> m" "0 \<le> s" "0 \<le> ms" "((h * 60 + m) * 60 + s) * 1000 + ms = in_ms d"
proof -
  let ?d = "max 0 d"
  let ?h = "?d div hour" and ?m = "?d mod hour div minute" and ?s = "?d mod minute div second" and ?ms = "?d mod second div millisecond"
  have d: "(if d < 0 then 0 else d) = ?d" by simp
  have "Timestamp d = pad0 2 ?h @ [58] @ pad0 2 ?m @ [58] @ pad0 2 ?s @ [46] @ pad0 3 ?ms"
    unfolding Timestamp_def Let_def d by (simp add: go_div_nonneg go_mod_nonneg)
  moreover have "0 \<le> ?h" "0 \<le> ?m" "0 \<le> ?s" "0 \<le> ?ms" by (simp_all add: pos_imp_zdiv_nonneg_iff)
  moreover have "((?h * 60 + ?m) * 60 + ?s) * 1000 + ?ms = in_ms d"
  proof -
    have h: "?d = hour * ?h + ?d mod hour" by (simp only: mult_div_mod_eq)
    have m: "?d mod hour = minute * ?m + ?d mod hour mod minute" by (simp only: mult_div_mod_eq)
    have mm: "?d mod hour mod minute = ?d mod minute" by (rule mod_mod_cancel) simp
    have s: "?d mod minute = second * ?s + ?d mod minute mod second" by (simp only: mult_div_mod_eq)
    have ss: "?d mod minute mod second = ?d mod second" by (rule mod_mod_cancel) simp
    have ms: "?d mod second = millisecond * ?ms + ?d mod second mod millisecond" by (simp only: mult_div_mod_eq)
    have "?d div millisecond = ((?h * 60 + ?m) * 60 + ?s) * 1000 + ?ms"
      by (rule clock_fields [OF h m [unfolded mm] s [unfolded ss] ms]) simp_all
    then show ?thesis unfolding in_ms_def by (rule sym)
  qed
  ultimately show ?thesis using that by blast
qed

lemma read_stamp_Timestamp: "read_stamp (Timestamp d) = in_ms d"
proof -
  obtain h m s ms where f: "Timestamp d = pad0 2 h @ [58] @ pad0 2 m @ [58] @ pad0 2 s @ [46] @ pad0 3 ms"
    and n: "0 \<le> h" "0 \<le> m" "0 \<le> s" "0 \<le> ms" "((h * 60 + m) * 60 + s) * 1000 + ms = in_ms d"
    by (rule Timestamp_form)
  have no: "58 \<notin> set (pad0 w x)" "46 \<notin> set (pad0 w x)" if "0 \<le> x" for w x
    using pad0_no [OF that] by (simp_all add: is_digit_def)
  show ?thesis
    unfolding f read_stamp_def using n by (simp add: split_sep split_last no number_pad0)
qed

lemma Timestamp_chars: "r \<in> set (Timestamp d) \<Longrightarrow> r \<noteq> 10 \<and> r \<noteq> 32"
proof -
  assume r: "r \<in> set (Timestamp d)"
  obtain h m s ms where f: "Timestamp d = pad0 2 h @ [58] @ pad0 2 m @ [58] @ pad0 2 s @ [46] @ pad0 3 ms"
    and n: "0 \<le> h" "0 \<le> m" "0 \<le> s" "0 \<le> ms" by (rule Timestamp_form)
  have "is_digit r \<or> r = 58 \<or> r = 46" using r n pad0_digits unfolding f by auto
  then show ?thesis by (auto simp: is_digit_def)
qed

definition timing :: "Cue \<Rightarrow> gostr" where
  "timing c = Timestamp (Start c) @ str '' --> '' @ Timestamp (End c)"

lemma timing_props: "timing c \<noteq> []" "10 \<notin> set (timing c)" "str_split 32 (timing c) = [Timestamp (Start c), str ''-->'', Timestamp (End c)]"
proof -
  have a: "10 \<notin> set (Timestamp d)" "32 \<notin> set (Timestamp d)" for d using Timestamp_chars by blast+
  show "timing c \<noteq> []" "10 \<notin> set (timing c)" using a by (auto simp: timing_def str_def)
  have s: "str '' --> '' = 32 # str ''-->'' @ [32]" "32 \<notin> set (str ''-->'')" by (simp_all add: str_def)
  show "str_split 32 (timing c) = [Timestamp (Start c), str ''-->'', Timestamp (End c)]"
    unfolding timing_def s(1) using a s(2) by (simp add: split_sep split_last)
qed

lemma good_line_no_newline: assumes "good_line w l" shows "10 \<notin> set l"
proof
  assume "10 \<in> set l"
  then have "is_space 10 \<longrightarrow> (10 :: int) = 32" using assms unfolding good_line_def by blast
  then show False by (simp add: is_space_def)
qed

lemma split_block:
  assumes "good_cue c"
  shows "str_split 10 (cue_block c @ t) = [] # timing c # map escapeCue (Lines c) @ str_split 10 t"
proof -
  have l: "Lines c \<noteq> []" "\<forall>l \<in> set (Lines c). 10 \<notin> set l"
    using assms good_line_no_newline by (auto simp: good_cue_def)
  then have e: "map escapeCue (Lines c) \<noteq> []" "\<forall>l \<in> set (map escapeCue (Lines c)). 10 \<notin> set l"
    using escape_line(2) by auto
  have b: "cue_block c @ t = [] @ 10 # timing c @ 10 # join [10] (map escapeCue (Lines c)) @ 10 # t"
    by (simp add: cue_block_def timing_def CueText_def escape_join)
  have "str_split 10 (cue_block c @ t) = [] # str_split 10 (timing c @ 10 # join [10] (map escapeCue (Lines c)) @ 10 # t)"
    unfolding b by (rule split_sep) simp
  also have "\<dots> = [] # timing c # str_split 10 (join [10] (map escapeCue (Lines c)) @ 10 # t)"
    by (simp only: split_sep [OF timing_props(2)])
  also have "\<dots> = [] # timing c # map escapeCue (Lines c) @ str_split 10 t"
    by (simp only: split_joined [OF e])
  finally show ?thesis .
qed

lemma split_blocks:
  "\<forall>c \<in> set cs. good_cue c \<Longrightarrow>
   str_split 10 (concat (map cue_block cs)) = concat (map (\<lambda>c. [] # timing c # map escapeCue (Lines c)) cs) @ [[]]"
  by (induction cs) (simp_all add: split_block split_last)

lemma blocks_take: "[] \<notin> set ls \<Longrightarrow> blocks cur (ls @ ls') = blocks (cur @ ls) ls'"
  by (induction ls arbitrary: cur) auto

lemma blocks_cues:
  "\<forall>c \<in> set cs. good_cue c \<Longrightarrow> cur \<noteq> [] \<Longrightarrow>
   blocks cur (concat (map (\<lambda>c. [] # timing c # map escapeCue (Lines c)) cs) @ [[]]) =
     cur # map (\<lambda>c. timing c # map escapeCue (Lines c)) cs"
proof (induction cs arbitrary: cur)
  case (Cons c cs)
  have "[] \<notin> set (map escapeCue (Lines c))"
  proof
    assume "[] \<in> set (map escapeCue (Lines c))"
    then obtain l where "l \<in> set (Lines c)" "escapeCue l = []" by auto
    then show False using Cons.prems(1) escape_line(1) [of l] by (auto simp: good_cue_def good_line_def)
  qed
  then show ?case using Cons by (simp add: timing_props(1) blocks_take)
qed simp

lemma read_block_cue: "read_block (timing c # map escapeCue (Lines c)) = Some (in_ms (Start c), in_ms (End c), Lines c)"
  by (simp add: read_block_def timing_props(3) read_stamp_Timestamp comp_def unescape_escape)

lemma Document_reads_back:
  assumes "\<forall>c \<in> set cs. good_cue c"
  shows "read_document (Document cs) = map (\<lambda>c. Some (in_ms (Start c), in_ms (End c), Lines c)) cs"
proof -
  have "str_split 10 (Document cs) = str ''WEBVTT'' # str_split 10 (concat (map cue_block cs))"
    unfolding Document_def append_Cons append_Nil by (rule split_sep) (simp add: str_def)
  then have "blocks [] (str_split 10 (Document cs)) = [str ''WEBVTT''] # map (\<lambda>c. timing c # map escapeCue (Lines c)) cs"
    using blocks_cues [OF assms, of "[str ''WEBVTT'']"] by (simp add: split_blocks [OF assms] str_def)
  then show ?thesis by (simp add: read_document_def read_block_cue comp_def)
qed

section \<open>The rolling document\<close>

definition newest :: "nat \<Rightarrow> 'a list \<Rightarrow> 'a list" where
  "newest n xs = drop (length xs - n) xs"

lemma newest_snoc: "0 < n \<Longrightarrow> newest n (xs @ [x]) = (if length (newest n xs) = n then tl (newest n xs) else newest n xs) @ [x]"
  by (auto simp: newest_def drop_Suc [symmetric] Suc_diff_le tl_drop)

lemma push_cues: "fold push_cue cs (newest maxCues old) = newest maxCues (old @ cs)"
proof (induction cs arbitrary: old)
  case (Cons c cs)
  have "push_cue c (newest maxCues old) = newest maxCues (old @ [c])"
    by (simp add: push_cue_def newest_snoc maxCues_def)
  then show ?case using Cons [of "old @ [c]"] by simp
qed simp

lemma writer_is_newest:
  "fold (append_caption rnd) segs (newest maxCues old) = newest maxCues (old @ concat (map (seg_cues rnd) segs))"
  by (induction segs arbitrary: old) (simp_all add: append_caption_def push_cues)

lemma seg_cues_good: "c \<in> set (seg_cues rnd seg) \<Longrightarrow> good_cue c"
  by (auto simp: seg_cues_def Let_def Layout_good split: if_splits)

lemma set_newest: "set (newest n xs) \<subseteq> set xs"
  by (simp add: newest_def set_drop_subset)

text \<open>The rendered document reads back exactly: whatever captions were appended, a reader that splits
  it at blank lines finds the newest two hundred cues, in order, each with its two times to the millisecond
  and its lines; no caption text can forge a timing line, end a cue early or inject markup.\<close>

lemma document_reads_back:
  "read_document (Document (fold (append_caption rnd) segs NewWriter)) =
     map (\<lambda>c. Some (in_ms (Start c), in_ms (End c), Lines c)) (newest 200 (concat (map (seg_cues rnd) segs)))"
proof -
  have "NewWriter = newest maxCues []" by (simp add: NewWriter_def newest_def)
  then have w: "fold (append_caption rnd) segs NewWriter = newest maxCues (concat (map (seg_cues rnd) segs))"
    using writer_is_newest [of rnd segs "[]"] by simp
  show ?thesis
    unfolding w using set_newest seg_cues_good
    by (subst Document_reads_back) (fastforce simp: maxCues_def)+
qed

text \<open>A caption fits its cues and loses nothing: every cue has one or two lines of one to forty-two
  runes whose only white space is the blank, and the lines of the cues in order spell the text, white space
  apart.\<close>

lemma layout_fits_and_keeps_text:
  "list_all (\<lambda>c. length (Lines c) \<in> {1..2} \<and>
      list_all (\<lambda>l. length l \<in> {1..42} \<and> list_all (\<lambda>r. is_space r = (r = 32)) l) (Lines c)) (Layout rnd txt0 start dur) \<and>
   filter (\<lambda>r. \<not> is_space r) (concat (concat (map Lines (Layout rnd txt0 start dur)))) = filter (\<lambda>r. \<not> is_space r) txt0"
proof (unfold list_all_iff, intro conjI ballI)
  fix c assume "c \<in> set (Layout rnd txt0 start dur)"
  from Layout_good [OF this] have g: "good_cue c" .
  show "length (Lines c) \<in> {1..2}" using g by (cases "Lines c") (auto simp: good_cue_def MaxLines_def)
  fix l assume "l \<in> set (Lines c)"
  then have l: "good_line MaxLineChars l" using g by (simp add: good_cue_def)
  show "length l \<in> {1..42}" using l by (cases l) (auto simp: good_line_def MaxLineChars_def)
  fix r assume "r \<in> set l" then show "is_space r = (r = 32)" using l space_32 by (auto simp: good_line_def)
next
  show "filter (\<lambda>r. \<not> is_space r) (concat (concat (map Lines (Layout rnd txt0 start dur)))) = filter (\<lambda>r. \<not> is_space r) txt0"
    using Layout_text unfolding nonspace_def .
qed

text \<open>The cues of a caption tile its time: the first starts with it, each starts where the one before
  ends, none ends before it starts and the last ends with the caption, for any text of up to 2^50 runes, any
  duration up to 2^53 ns and any rounding that behaves as IEEE double precision.\<close>

lemma cues_tile_the_caption:
  assumes "ieee rnd" "0 < dur" "dur \<le> 2 ^ 53" "nonspace txt0 \<noteq> []" "length (concat (wrap_text txt0 MaxLineChars)) \<le> 2 ^ 50"
  shows "tiles start (start + dur) (Layout rnd txt0 start dur)"
proof -
  let ?ls = "wrap_text txt0 MaxLineChars"
  have m: "0 < MaxLineChars" by (simp add: MaxLineChars_def)
  have c: "chars_of ?ls = length (concat ?ls)" by (simp add: chars_of_def length_concat)
  have ne: "?ls \<noteq> []" using wrap_text_empty m assms(4) by blast
  have pos: "0 < chars_of g" if g: "g \<in> set (line_groups ?ls)" for g
  proof -
    obtain l ls where l: "g = l # ls" using line_groups_props(2) [OF g] by (cases g) auto
    then have "l \<in> set (concat (line_groups ?ls))" using g by force
    then have "l \<noteq> []" using wrap_text_ok(1) [OF m, of txt0] unfolding line_groups_props(1) by (auto simp: good_line_def)
    then show ?thesis by (simp add: chars_of_def l)
  qed
  show ?thesis
    unfolding Layout_def Let_def
    by (rule lay_groups_tile [OF assms(1-3), of _ _ 0])
      (use assms(5) c ne pos in \<open>simp_all add: line_groups_props sum_list_chars_concat\<close>)
qed

lemma cues_tile_the_caption_witness:
  "tiles 0 second (Layout (\<lambda>x. x) (str ''one two'') 0 second)"
proof -
  have "nonspace (str ''one two'') \<noteq> [] \<and> length (concat (wrap_text (str ''one two'') MaxLineChars)) = 7" by code_simp
  then show ?thesis using cues_tile_the_caption [OF ieee_id, of second "str ''one two''" 0] by simp
qed

lemma registry_isolation:
  "reg_Document slug lang (reg_Create slug lang r) = Some (str ''WEBVTT'' @ [10])"
  "(s, l) \<noteq> (slug, lang) \<Longrightarrow> reg_Document s l (reg_Append rnd slug lang seg r) = reg_Document s l r"
  "reg_Document s l (reg_Drop slug r) = (if s = slug then None else reg_Document s l r)"
  by (auto simp: reg_Document_def reg_Create_def reg_Append_def reg_Drop_def NewWriter_def Document_def)

end
