(* ===== verification/Hls.thy ===== *)
theory Hls
  imports Vtt
begin

text \<open>
  \<^verbatim>\<open>internal/media/egress/hls\<close>: the per-session HLS tree (hls.go), the resolution of request paths
  (resolve.go), the subtitle rendition (segmenter.go) and the burn-in overlay (overlay.go). A path is its
  list of components, which \<open>filepath.Join\<close> concatenates; the results of the operating system (which
  writes, removals and directory operations fail, which files exist) are arguments. \<open>writeAtomic\<close>
  replaces a file or leaves it as it was.
\<close>

type_synonym path = "gostr list"

section \<open>Names\<close>

definition videoDir :: gostr where "videoDir = str ''video''"
definition audioDir :: gostr where "audioDir = str ''audio''"
definition subsDir :: gostr where "subsDir = str ''subs''"
definition playlist :: gostr where "playlist = str ''index.m3u8''"
definition nominalBandwidth :: int where "nominalBandwidth = 2500000"
definition langUnknown :: gostr where "langUnknown = [0]"

text \<open>The two name patterns are \<open>seg%05d\<close> and an extension.\<close>

definition segTS :: gostr where "segTS = str ''.ts''"
definition segVTT :: gostr where "segVTT = str ''.vtt''"

definition seg_name :: "gostr \<Rightarrow> int \<Rightarrow> gostr" where
  "seg_name ext n = str ''seg'' @ pad0 5 n @ ext"

text \<open>\<open>fmt.Sscanf\<close> with such a pattern: in a scan verb \<open>05\<close> is a width, so at most five runes are read, of
  which leading blanks and a sign count; input behind the pattern is not looked at.\<close>

definition scan_int :: "nat \<Rightarrow> gostr \<Rightarrow> (int \<times> gostr) option" where
  "scan_int width s =
     (let blank = (\<lambda>r. is_space r \<and> r \<noteq> 10);
          skipped = takeWhile blank (take width s);
          window = dropWhile blank (take width s);
          sign = takeWhile (\<lambda>r. r = 43 \<or> r = 45) (take 1 window);
          ds = takeWhile is_digit (drop (length sign) window)
      in if ds = [] then None
         else Some ((if sign = [45] then - number ds else number ds), drop (length skipped + length sign + length ds) s))"

definition scan_seg :: "gostr \<Rightarrow> gostr \<Rightarrow> int option" where
  "scan_seg ext file =
     (if \<not> has_prefix file (str ''seg'') then None
      else (case scan_int 5 (drop 3 file) of
              None \<Rightarrow> None
            | Some (n, rest) \<Rightarrow> if has_prefix rest ext then Some n else None))"

section \<open>The overlay\<close>

text \<open>
  Times are relative to the anchor. A timer is its identity, the instant it is due, the generation it
  belongs to and the text it writes; the runtime fires it at some instant from then on. Writing the overlay
  is taken to succeed; a failure leaves the file as it was.
\<close>

record timer =
  tm_id :: int
  tm_due :: duration
  tm_gen :: int
  tm_text :: gostr

record live_cue =
  lv_file :: gostr
  lv_timers :: "timer list"
  lv_gen :: int
  lv_closed :: bool
  lv_now :: duration

definition newLiveCue :: live_cue where
  "newLiveCue = \<lparr>lv_file = [], lv_timers = [], lv_gen = 0, lv_closed = False, lv_now = 0\<rparr>"

definition after :: "timer \<Rightarrow> live_cue \<Rightarrow> live_cue" where
  "after t c = c\<lparr>lv_timers := filter (\<lambda>u. tm_id u \<noteq> tm_id t) (lv_timers c) @ [t]\<rparr>"

definition owned :: "int \<Rightarrow> gostr \<Rightarrow> live_cue \<Rightarrow> live_cue" where
  "owned gen txt0 c = (if lv_closed c \<or> gen \<noteq> lv_gen c then c else c\<lparr>lv_file := txt0\<rparr>)"

definition Schedule :: "Cue \<Rightarrow> live_cue \<Rightarrow> live_cue" where
  "Schedule cue c =
     (let txt0 = join [10] (Lines cue) in
      if lv_closed c then c
      else if End cue - lv_now c \<le> 0 then c
      else
        let gen = lv_gen c + 1; c1 = c\<lparr>lv_gen := gen\<rparr>;
            c2 = (if Start cue - lv_now c \<le> 0 then c1\<lparr>lv_file := txt0\<rparr>
                  else after \<lparr>tm_id = gen * 2, tm_due = Start cue, tm_gen = gen, tm_text = txt0\<rparr> c1)
        in after \<lparr>tm_id = gen * 2 + 1, tm_due = End cue, tm_gen = gen, tm_text = []\<rparr> c2)"

definition Close_overlay :: "live_cue \<Rightarrow> live_cue" where
  "Close_overlay c = c\<lparr>lv_closed := True, lv_timers := []\<rparr>"

datatype lv_op = LvTick duration | LvFire int | LvClose

definition lv_fire :: "int \<Rightarrow> live_cue \<Rightarrow> live_cue" where
  "lv_fire i c =
     (case find (\<lambda>t. tm_id t = i \<and> tm_due t \<le> lv_now c) (lv_timers c) of
        None \<Rightarrow> c
      | Some t \<Rightarrow> (owned (tm_gen t) (tm_text t) c)\<lparr>lv_timers := filter (\<lambda>u. tm_id u \<noteq> i) (lv_timers c)\<rparr>)"

fun lv_do :: "lv_op \<Rightarrow> live_cue \<Rightarrow> live_cue" where
  "lv_do (LvTick dt) c = c\<lparr>lv_now := lv_now c + max 0 dt\<rparr>"
| "lv_do (LvFire i) c = lv_fire i c"
| "lv_do LvClose c = Close_overlay c"

section \<open>The subtitle rendition\<close>

definition segmentSeconds :: int where "segmentSeconds = 6"
definition segmentLength :: duration where "segmentLength = segmentSeconds * second"
definition windowSegments :: int where "windowSegments = 5"

definition timestampMap :: gostr where
  "timestampMap = str ''X-TIMESTAMP-MAP=LOCAL:00:00:00.000,MPEGTS:126000'' @ [10]"

text \<open>\<open>sg_files\<close> is the directory of the rendition.\<close>

record segmenter =
  sg_cues :: "int \<Rightarrow> Cue list option"
  sg_parts :: "int set"
  sg_cue :: live_cue
  sg_top :: int
  sg_files :: "gostr \<Rightarrow> gostr option"

definition newSegmenter :: segmenter where
  "newSegmenter = \<lparr>sg_cues = (\<lambda>_. None), sg_parts = {}, sg_cue = newLiveCue, sg_top = -1, sg_files = (\<lambda>_. None)\<rparr>"

definition partName :: "int \<Rightarrow> gostr" where
  "partName idx = seg_name segVTT idx"

definition part_body :: "Cue list \<Rightarrow> gostr" where
  "part_body cs = str ''WEBVTT'' @ [10] @ timestampMap @ concat (map cue_block cs)"

text \<open>What fails: \<open>badw\<close> the writing and \<open>badr\<close> the removal of a file.\<close>

definition writePart :: "(gostr \<Rightarrow> bool) \<Rightarrow> int \<Rightarrow> segmenter \<Rightarrow> bool \<times> segmenter" where
  "writePart badw idx s =
     (if badw (partName idx) then (False, s)
      else (True, s\<lparr>sg_files := (sg_files s)(partName idx \<mapsto> part_body (case sg_cues s idx of None \<Rightarrow> [] | Some cs \<Rightarrow> cs)),
                    sg_parts := insert idx (sg_parts s)\<rparr>))"

definition playlist_head :: "int \<Rightarrow> gostr" where
  "playlist_head first =
     str ''#EXTM3U'' @ [10] @ str ''#EXT-X-VERSION:4'' @ [10] @ str ''#EXT-X-TARGETDURATION:'' @ itoa segmentSeconds @ [10] @
     str ''#EXT-X-MEDIA-SEQUENCE:'' @ itoa first @ [10]"

definition playlist_entry :: "int \<Rightarrow> gostr" where
  "playlist_entry idx = str ''#EXTINF:'' @ itoa segmentSeconds @ str ''.0,'' @ [10] @ partName idx @ [10]"

fun playlist_loop :: "(gostr \<Rightarrow> bool) \<Rightarrow> int list \<Rightarrow> gostr \<Rightarrow> segmenter \<Rightarrow> gostr option \<times> segmenter" where
  "playlist_loop badw [] b s = (Some b, s)"
| "playlist_loop badw (idx # idxs) b s =
     (if idx \<in> sg_parts s then playlist_loop badw idxs (b @ playlist_entry idx) s
      else (case writePart badw idx s of
              (False, s') \<Rightarrow> (None, s')
            | (True, s') \<Rightarrow> playlist_loop badw idxs (b @ playlist_entry idx) s'))"

definition window_first :: "int \<Rightarrow> int" where
  "window_first t = t - windowSegments + 1"

definition writePlaylist :: "(gostr \<Rightarrow> bool) \<Rightarrow> segmenter \<Rightarrow> segmenter" where
  "writePlaylist badw s =
     (let first = max (window_first (sg_top s)) 0 in
      case playlist_loop badw [first..sg_top s] (playlist_head first) s of
        (None, s') \<Rightarrow> s'
      | (Some b, s') \<Rightarrow> if badw playlist then s' else s'\<lparr>sg_files := (sg_files s')(playlist \<mapsto> b)\<rparr>)"

definition evict :: "(gostr \<Rightarrow> bool) \<Rightarrow> segmenter \<Rightarrow> segmenter" where
  "evict badr s =
     (let first = window_first (sg_top s); gone = {idx \<in> sg_parts s. idx < first} in
      s\<lparr>sg_cues := (\<lambda>idx. if idx < first then None else sg_cues s idx),
        sg_parts := sg_parts s - gone,
        sg_files := (\<lambda>name. if name \<in> partName ` gone \<and> \<not> badr name then None else sg_files s name)\<rparr>)"

definition first_part :: "Cue \<Rightarrow> int" where
  "first_part c = go_div (Start c) segmentLength"

definition last_part :: "Cue \<Rightarrow> int" where
  "last_part c = go_div (End c - millisecond) segmentLength"

definition add_cue :: "Cue \<Rightarrow> int \<Rightarrow> segmenter \<Rightarrow> segmenter" where
  "add_cue c idx s =
     s\<lparr>sg_cues := (sg_cues s)(idx \<mapsto> (case sg_cues s idx of None \<Rightarrow> [] | Some cs \<Rightarrow> cs) @ [c]), sg_top := max idx (sg_top s)\<rparr>"

definition take_cue :: "Cue \<Rightarrow> segmenter \<Rightarrow> segmenter" where
  "take_cue c s = fold (add_cue c) [first_part c..last_part c] (s\<lparr>sg_cue := Schedule c (sg_cue s)\<rparr>)"

definition touched :: "Cue list \<Rightarrow> int list" where
  "touched cs = remdups (concat (map (\<lambda>c. [first_part c..last_part c]) cs))"

definition Append_segment ::
  "(rat \<Rightarrow> rat) \<Rightarrow> (gostr \<Rightarrow> bool) \<Rightarrow> (gostr \<Rightarrow> bool) \<Rightarrow> TranslatedSegment \<Rightarrow> segmenter \<Rightarrow> segmenter" where
  "Append_segment rnd badw badr seg s =
     (if trim_space (TText seg) = [] then s
      else
        let cs = seg_cues rnd seg;
            s1 = fold take_cue cs s;
            s2 = fold (\<lambda>idx s. snd (writePart badw idx s)) (touched cs) s1
        in evict badr (writePlaylist badw s2))"

section \<open>The session tree\<close>

record tree =
  tr_dir :: path
  tr_langs :: "lang list"
  tr_subtitleLangs :: "lang list"
  tr_segmenters :: "(lang \<times> segmenter) list"

record hls_store =
  hs_root :: path
  hs_trees :: "(gostr \<times> tree) list"

datatype hls_error = ResetFailed gostr | MkdirFailed gostr path

definition closeTree :: "tree \<Rightarrow> tree" where
  "closeTree t = t\<lparr>tr_segmenters := map (\<lambda>(l, s). (l, s\<lparr>sg_cue := Close_overlay (sg_cue s)\<rparr>)) (tr_segmenters t)\<rparr>"

definition VideoDir :: "tree \<Rightarrow> path" where "VideoDir t = tr_dir t @ [videoDir]"
definition AudioDir :: "tree \<Rightarrow> lang \<Rightarrow> path" where "AudioDir t l = tr_dir t @ [audioDir, l]"

definition tree_dirs :: "path \<Rightarrow> lang list \<Rightarrow> lang list \<Rightarrow> path list" where
  "tree_dirs dir langs subtitleLangs =
     [dir @ [videoDir]] @ map (\<lambda>l. dir @ [audioDir, l]) langs @ map (\<lambda>l. dir @ [subsDir, l]) subtitleLangs"

text \<open>\<open>bad_rm\<close> and \<open>bad_mk\<close>: the directories that cannot be removed or made. The middle result is the
  previous tree, closed; a lane may still hold it.\<close>

definition CreateWithSubtitles ::
  "(path \<Rightarrow> bool) \<Rightarrow> (path \<Rightarrow> bool) \<Rightarrow> gostr \<Rightarrow> lang list \<Rightarrow> lang list \<Rightarrow> hls_store \<Rightarrow>
     (hls_error + tree) \<times> tree option \<times> hls_store" where
  "CreateWithSubtitles bad_rm bad_mk slug langs subtitleLangs hs =
     (let dir = hs_root hs @ [slug];
          previous = map_option closeTree (map_of (hs_trees hs) slug);
          hs1 = hs\<lparr>hs_trees := AList.delete slug (hs_trees hs)\<rparr>
      in if bad_rm dir then (Inl (ResetFailed slug), previous, hs1)
         else (case find bad_mk (tree_dirs dir langs subtitleLangs) of
                 Some d \<Rightarrow> (Inl (MkdirFailed slug d), previous, hs1)
               | None \<Rightarrow>
                   let t = \<lparr>tr_dir = dir, tr_langs = langs, tr_subtitleLangs = subtitleLangs,
                            tr_segmenters = map (\<lambda>l. (l, newSegmenter)) (remdups subtitleLangs)\<rparr>
                   in (Inr t, previous, hs1\<lparr>hs_trees := AList.update slug t (hs_trees hs1)\<rparr>)))"

definition Create_tree ::
  "(path \<Rightarrow> bool) \<Rightarrow> (path \<Rightarrow> bool) \<Rightarrow> gostr \<Rightarrow> lang list \<Rightarrow> hls_store \<Rightarrow> (hls_error + tree) \<times> tree option \<times> hls_store" where
  "Create_tree bad_rm bad_mk slug langs hs = CreateWithSubtitles bad_rm bad_mk slug langs langs hs"

text \<open>A directory that cannot be removed on \<open>Drop\<close> is logged and left.\<close>

definition Drop_tree :: "gostr \<Rightarrow> hls_store \<Rightarrow> tree option \<times> hls_store" where
  "Drop_tree slug hs =
     (map_option closeTree (map_of (hs_trees hs) slug), hs\<lparr>hs_trees := AList.delete slug (hs_trees hs)\<rparr>)"

text \<open>\<open>exists\<close>: the files there are, \<open>quote\<close>: \<open>%q\<close>.\<close>

definition hasVideo :: "(path \<Rightarrow> bool) \<Rightarrow> tree \<Rightarrow> bool" where
  "hasVideo exists t = exists (VideoDir t @ [playlist])"

definition audioLanguages :: "(path \<Rightarrow> bool) \<Rightarrow> tree \<Rightarrow> lang list" where
  "audioLanguages exists t = filter (\<lambda>l. exists (AudioDir t l @ [playlist])) (tr_langs t)"

definition subtitleGroup :: "tree \<Rightarrow> gostr" where
  "subtitleGroup t = (if tr_subtitleLangs t = [] then [] else str '',SUBTITLES=\"subs\"'')"

definition variantGroups :: "lang list \<Rightarrow> tree \<Rightarrow> gostr" where
  "variantGroups audio t = (if audio \<noteq> [] then str '',AUDIO=\"dub\"'' else []) @ subtitleGroup t"

definition media_line :: "(gostr \<Rightarrow> gostr) \<Rightarrow> gostr \<Rightarrow> gostr \<Rightarrow> gostr \<Rightarrow> gostr \<Rightarrow> lang \<Rightarrow> gostr" where
  "media_line quote kind grp flag dir l =
     str ''#EXT-X-MEDIA:TYPE='' @ kind @ str '',GROUP-ID=\"'' @ grp @ str ''\",NAME='' @ quote l @ str '',LANGUAGE='' @ quote l @
     str '',AUTOSELECT=YES,DEFAULT='' @ flag @ str '',URI=\"'' @ dir @ [47] @ l @ [47] @ playlist @ str ''\"'' @ [10]"

fun audio_lines :: "(gostr \<Rightarrow> gostr) \<Rightarrow> gostr \<Rightarrow> lang list \<Rightarrow> gostr" where
  "audio_lines quote flag [] = []"
| "audio_lines quote flag (l # ls) = media_line quote (str ''AUDIO'') (str ''dub'') flag audioDir l @ audio_lines quote (str ''NO'') ls"

definition master :: "(path \<Rightarrow> bool) \<Rightarrow> (gostr \<Rightarrow> gostr) \<Rightarrow> tree \<Rightarrow> gostr" where
  "master exists quote t =
     (let audio = audioLanguages exists t in
      str ''#EXTM3U'' @ [10] @ str ''#EXT-X-VERSION:4'' @ [10] @ audio_lines quote (str ''YES'') audio @
      concat (map (media_line quote (str ''SUBTITLES'') (str ''subs'') (str ''NO'') subsDir) (tr_subtitleLangs t)) @
      (if hasVideo exists t
       then str ''#EXT-X-STREAM-INF:BANDWIDTH='' @ itoa nominalBandwidth @ variantGroups audio t @ [10] @ videoDir @ [47] @ playlist @ [10]
       else (case audio of
               [] \<Rightarrow> []
             | l # ls \<Rightarrow> str ''#EXT-X-STREAM-INF:BANDWIDTH='' @ itoa (go_div nominalBandwidth 16) @
                 str '',CODECS=\"mp4a.40.2\",AUDIO=\"dub\"'' @ subtitleGroup t @ [10] @ audioDir @ [47] @ l @ [47] @ playlist @ [10])))"

definition MasterPlaylist :: "(path \<Rightarrow> bool) \<Rightarrow> (gostr \<Rightarrow> gostr) \<Rightarrow> gostr \<Rightarrow> hls_store \<Rightarrow> gostr option" where
  "MasterPlaylist exists quote slug hs = map_option (master exists quote) (map_of (hs_trees hs) slug)"

definition VideoPlaylist :: "(path \<Rightarrow> bool) \<Rightarrow> gostr \<Rightarrow> hls_store \<Rightarrow> path option" where
  "VideoPlaylist exists slug hs =
     (case map_of (hs_trees hs) slug of
        None \<Rightarrow> None
      | Some t \<Rightarrow> if hasVideo exists t then Some (VideoDir t @ [playlist]) else None)"

definition cueFileName :: gostr where "cueFileName = str ''current.txt''"

definition CueFile :: "gostr \<Rightarrow> lang \<Rightarrow> hls_store \<Rightarrow> path option" where
  "CueFile slug l hs =
     (case map_of (hs_trees hs) slug of
        None \<Rightarrow> None
      | Some t \<Rightarrow> (case map_of (tr_segmenters t) l of None \<Rightarrow> None | Some s \<Rightarrow> Some (tr_dir t @ [subsDir, l, cueFileName])))"

section \<open>Resolution of request paths\<close>

definition owned_tag :: "lang list \<Rightarrow> gostr \<Rightarrow> gostr" where
  "owned_tag langs tag = (case find (\<lambda>l. l = tag) langs of Some l \<Rightarrow> l | None \<Rightarrow> langUnknown)"

definition rebuild :: "path \<Rightarrow> gostr \<Rightarrow> gostr \<Rightarrow> gostr \<Rightarrow> gostr \<Rightarrow> path option" where
  "rebuild dir kind l file ext =
     (if l = langUnknown then None
      else
        let base = dir @ [kind] @ (if l \<noteq> [] then [l] else []) in
        if file = playlist then Some (base @ [playlist])
        else (case scan_seg ext file of
                None \<Rightarrow> None
              | Some n \<Rightarrow> if n < 0 \<or> seg_name ext n \<noteq> file then None else Some (base @ [seg_name ext n])))"

definition resolve :: "tree \<Rightarrow> gostr \<Rightarrow> path option" where
  "resolve t rest =
     (case str_split 47 rest of
        [kind, file] \<Rightarrow> if kind = videoDir then rebuild (tr_dir t) videoDir [] file segTS else None
      | [kind, l, file] \<Rightarrow>
          if kind = audioDir then rebuild (tr_dir t) audioDir (owned_tag (tr_langs t) l) file segTS
          else if kind = subsDir then rebuild (tr_dir t) subsDir (owned_tag (tr_subtitleLangs t) l) file segVTT
          else None
      | _ \<Rightarrow> None)"

definition Open :: "(path \<Rightarrow> bool) \<Rightarrow> gostr \<Rightarrow> gostr \<Rightarrow> hls_store \<Rightarrow> path option" where
  "Open exists slug rest hs =
     (case map_of (hs_trees hs) slug of
        None \<Rightarrow> None
      | Some t \<Rightarrow> (case resolve t rest of None \<Rightarrow> None | Some p \<Rightarrow> if exists p then Some p else None))"

section \<open>The overlay shows the newest cue only\<close>

definition lv_ok :: "live_cue \<Rightarrow> bool" where
  "lv_ok c \<longleftrightarrow> (\<forall>t \<in> set (lv_timers c). tm_gen t \<le> lv_gen c)"

definition lv_bound :: "gostr set \<Rightarrow> gostr set \<Rightarrow> live_cue \<Rightarrow> bool" where
  "lv_bound A B c \<longleftrightarrow> lv_file c \<in> A \<union> B \<and> (\<forall>t \<in> set (lv_timers c). tm_gen t = lv_gen c \<longrightarrow> tm_text t \<in> B)"

lemma find_in_set: "find P xs = Some x \<Longrightarrow> x \<in> set xs"
  by (induction xs) (auto split: if_splits)

lemma lv_bound_do: "lv_bound A B c \<Longrightarrow> lv_bound A B (lv_do op c)"
proof (cases op)
  case (LvFire i)
  assume b: "lv_bound A B c"
  show ?thesis
  proof (cases "find (\<lambda>t. tm_id t = i \<and> tm_due t \<le> lv_now c) (lv_timers c)")
    case None then show ?thesis using b LvFire by (simp add: lv_fire_def)
  next
    case (Some t)
    then have "t \<in> set (lv_timers c)" by (rule find_in_set)
    then show ?thesis using b LvFire Some by (simp add: lv_bound_def lv_fire_def owned_def)
  qed
qed (simp_all add: lv_bound_def Close_overlay_def)

lemma lv_bound_run: "lv_bound A B c \<Longrightarrow> lv_bound A B (fold lv_do ops c)"
  by (induction ops arbitrary: c) (simp_all add: lv_bound_do)

lemma lv_ok_do: "lv_ok c \<Longrightarrow> lv_ok (lv_do op c)"
  by (cases op) (auto simp: lv_ok_def lv_fire_def owned_def Close_overlay_def split: option.split)

lemma lv_ok_Schedule: "lv_ok c \<Longrightarrow> lv_ok (Schedule cue c)"
  by (auto simp: lv_ok_def Schedule_def after_def Let_def)

lemma lv_ok_new: "lv_ok newLiveCue" by (simp add: lv_ok_def newLiveCue_def)

lemma Schedule_bound:
  assumes "lv_ok c" "\<not> lv_closed c" "lv_now c < End cue"
  shows "lv_bound {lv_file c} {join [10] (Lines cue), []} (Schedule cue c)"
  using assms by (auto simp: lv_bound_def lv_ok_def Schedule_def after_def Let_def)

text \<open>Only the newest cue is shown: when a cue is scheduled before the one scheduled last has started,
  that one is never shown at all. Whatever time passes and whichever timers fire afterwards, the overlay
  holds what it held before the two, the newest cue's text, or nothing; so of a caption that spans several
  cues, all scheduled at once, only the last one ever reaches the picture.\<close>

lemma only_newest_cue_is_shown:
  assumes "lv_ok c" "\<not> lv_closed c" "lv_now c < Start c1" "lv_now c < End c1" "lv_now c < End c2"
  shows "lv_file (fold lv_do ops (Schedule c2 (Schedule c1 c))) \<in> {lv_file c, join [10] (Lines c2), []}"
proof -
  let ?c = "Schedule c1 c"
  have f: "lv_file ?c = lv_file c" "\<not> lv_closed ?c" "lv_now ?c = lv_now c"
    using assms(2-4) by (simp_all add: Schedule_def after_def Let_def)
  have "lv_bound {lv_file ?c} {join [10] (Lines c2), []} (Schedule c2 ?c)"
    by (rule Schedule_bound [OF lv_ok_Schedule [OF assms(1)]]) (use f assms(5) in simp_all)
  from lv_bound_run [OF this, of ops] show ?thesis by (auto simp: lv_bound_def f)
qed

definition demo_cue :: "string \<Rightarrow> duration \<Rightarrow> duration \<Rightarrow> Cue" where
  "demo_cue t a b = \<lparr>Lines = [str t], Start = a, End = b\<rparr>"

lemma only_newest_cue_is_shown_witness:
  "lv_file (fold lv_do [LvTick (3 * second), LvFire 2, LvFire 4]
     (Schedule (demo_cue ''two'' (2 * second) (4 * second)) (Schedule (demo_cue ''one'' second (2 * second)) newLiveCue)))
     \<in> {[], str ''two''}"
  using only_newest_cue_is_shown [OF lv_ok_new, of "demo_cue ''one'' second (2 * second)" "demo_cue ''two'' (2 * second) (4 * second)"
      "[LvTick (3 * second), LvFire 2, LvFire 4]"]
  by (simp add: demo_cue_def newLiveCue_def insert_commute)

section \<open>Names resolve exactly\<close>

lemma div10_less: "(n :: int) div 10 < x \<longleftrightarrow> n < 10 * x"
proof
  assume "n div 10 < x" then have "n div 10 + 1 \<le> x" by simp
  then show "n < 10 * x" using mult_div_mod_eq [of 10 n] pos_mod_bound [of 10 n] by linarith
next
  assume "n < 10 * x" then show "n div 10 < x" using mult_div_mod_eq [of 10 n] pos_mod_sign [of 10 n] by linarith
qed

lemma length_digits: "0 \<le> n \<Longrightarrow> length (digits n) \<le> k \<longleftrightarrow> 0 < k \<and> n < 10 ^ k"
proof (induction n arbitrary: k rule: digits.induct)
  case (1 n)
  show ?case
  proof (cases "n < 10")
    case True
    have "n < 10 ^ k" if "0 < k"
    proof -
      have "(10 :: int) ^ 1 \<le> 10 ^ k" using that by (intro power_increasing) simp_all
      then show ?thesis using True by simp
    qed
    then show ?thesis using True by (subst digits.simps) auto
  next
    case False
    then have l: "length (digits n) = Suc (length (digits (n div 10)))" by (subst digits.simps) simp
    show ?thesis
    proof (cases k)
      case 0 then show ?thesis using l by simp
    next
      case (Suc j)
      have e: "length (digits (n div 10)) \<le> j \<longleftrightarrow> 0 < j \<and> n div 10 < 10 ^ j" using 1 False by simp
      have p: "n div 10 < 10 ^ j \<longleftrightarrow> n < 10 ^ Suc j" by (simp only: power_Suc div10_less)
      have z: "j = 0 \<Longrightarrow> \<not> n < 10 ^ Suc j" using False by simp
      have "length (digits n) \<le> k \<longleftrightarrow> length (digits (n div 10)) \<le> j" using Suc l by simp
      also have "\<dots> \<longleftrightarrow> n < 10 ^ Suc j" using e p z by blast
      finally show ?thesis using Suc by simp
    qed
  qed
qed

lemma seg_name_small:
  assumes "0 \<le> n" "n < 100000" shows "length (pad0 5 n) = 5" "r \<in> set (pad0 5 n) \<Longrightarrow> is_digit r"
  using length_digits [OF assms(1), of 5] assms pad0_digits [OF assms(1)] by (simp add: pad0_def, blast)

lemma takeWhile_all: "\<forall>x \<in> set xs. p x \<Longrightarrow> takeWhile p xs = xs" by (induction xs) auto

lemma digit_props: "is_digit r \<Longrightarrow> \<not> is_space r \<and> r \<noteq> 43 \<and> r \<noteq> 45"
  by (auto simp: is_digit_def is_space_def)

text \<open>Five digits are read whole; of more, the first five.\<close>

lemma scan_int_digits:
  assumes "5 \<le> length ds" "\<forall>r \<in> set (take 5 ds). is_digit r"
  shows "scan_int 5 (ds @ ext) = Some (number (take 5 ds), drop 5 ds @ ext)"
proof -
  let ?w = "take 5 ds"
  have w: "take 5 (ds @ ext) = ?w" using assms(1) by simp
  have ne: "?w \<noteq> []" using assms(1) by auto
  then have ne: "?w \<noteq> []" "is_digit (hd ?w)" using assms(2) hd_in_set by blast+
  have b: "takeWhile (\<lambda>r. is_space r \<and> r \<noteq> 10) ?w = []" "dropWhile (\<lambda>r. is_space r \<and> r \<noteq> 10) ?w = ?w"
    using ne digit_props by (cases ?w; auto)+
  have g: "takeWhile (\<lambda>r. r = 43 \<or> r = 45) (take 1 ?w) = []"
    using ne digit_props by (cases ?w) auto
  have l: "length ?w = 5" using assms(1) by simp
  show ?thesis
    unfolding scan_int_def w Let_def b g using ne(1) assms(1) l
    by (simp add: takeWhile_all [OF assms(2)] del: length_take)
qed

lemma str_seg: "length (str ''seg'') = 3" by (simp add: str_def)

lemma has_prefix_append [simp]: "has_prefix (p @ s) p" by (simp add: has_prefix_def)

lemma scan_seg_name:
  assumes "ext \<noteq> []" "\<not> is_digit (hd ext)" "0 \<le> n"
  shows "scan_seg ext (seg_name ext n) = (if n < 100000 then Some n else None)"
proof -
  have l5: "5 \<le> length (pad0 5 n)" using length_pad0 [OF assms(3)] by blast
  have dg: "\<forall>r \<in> set (take 5 (pad0 5 n)). is_digit r" using pad0_digits [OF assms(3)] by (auto dest: in_set_takeD)
  have d: "drop 3 (seg_name ext n) = pad0 5 n @ ext" by (simp add: seg_name_def str_def)
  have s: "scan_seg ext (seg_name ext n) =
      (if has_prefix (drop 5 (pad0 5 n) @ ext) ext then Some (number (take 5 (pad0 5 n))) else None)"
    unfolding scan_seg_def d scan_int_digits [OF l5 dg] by (simp add: seg_name_def)
  show ?thesis
  proof (cases "n < 100000")
    case True
    then show ?thesis using s seg_name_small(1) [OF assms(3)] number_pad0 [OF assms(3)] by (simp add: has_prefix_def)
  next
    case False
    then have "\<not> length (digits n) \<le> 5" using length_digits [OF assms(3), of 5] by simp
    then have p: "pad0 5 n = digits n" "5 < length (digits n)" using assms(3) by (simp_all add: pad0_def)
    then obtain x xs where x: "drop 5 (digits n) = x # xs" by (cases "drop 5 (digits n)") auto
    then have "x \<in> set (digits n)" by (metis in_set_dropD list.set_intros(1))
    then have "is_digit x" using digits_are_digits assms(3) by blast
    then have "\<not> has_prefix (drop 5 (pad0 5 n) @ ext) ext"
      using assms(1,2) unfolding p(1) x has_prefix_def by (cases ext) auto
    then show ?thesis using s False by simp
  qed
qed

lemma ext_props: "segTS \<noteq> []" "\<not> is_digit (hd segTS)" "segVTT \<noteq> []" "\<not> is_digit (hd segVTT)"
  by (simp_all add: segTS_def segVTT_def str_def is_digit_def)

definition served_file :: "gostr \<Rightarrow> gostr \<Rightarrow> bool" where
  "served_file ext f \<longleftrightarrow> f = playlist \<or> (\<exists>n \<in> {0..99999}. f = seg_name ext n)"

lemma rebuild_iff:
  assumes "ext \<noteq> []" "\<not> is_digit (hd ext)"
  shows "rebuild dir kind l file ext = Some p \<longleftrightarrow>
    l \<noteq> langUnknown \<and> served_file ext file \<and> p = dir @ [kind] @ (if l \<noteq> [] then [l] else []) @ [file]"
proof (cases "l = langUnknown \<or> file = playlist")
  case True
  then show ?thesis by (auto simp: rebuild_def served_file_def Let_def)
next
  case False
  show ?thesis
  proof (cases "\<exists>n \<in> {0..99999}. file = seg_name ext n")
    case True
    then obtain n where n: "0 \<le> n" "n \<le> 99999" "file = seg_name ext n" by auto
    then have "scan_seg ext file = Some n" using scan_seg_name [OF assms n(1)] by simp
    then show ?thesis using n False by (auto simp: rebuild_def served_file_def Let_def)
  next
    case no: False
    have "rebuild dir kind l file ext = None"
    proof (cases "scan_seg ext file")
      case (Some n)
      have "n < 0 \<or> seg_name ext n \<noteq> file"
        using no Some scan_seg_name [OF assms, of n] by (cases "n < 100000") auto
      then show ?thesis using Some False by (auto simp: rebuild_def Let_def)
    qed (use False in \<open>auto simp: rebuild_def Let_def\<close>)
    then show ?thesis using no False by (simp add: served_file_def)
  qed
qed

lemma split_acc_nonempty: "split_acc sep cur s \<noteq> []"
  by (induction sep cur s rule: split_acc.induct) simp_all

lemma split_acc_join: "join [sep] (split_acc sep cur s) = cur @ s"
proof (induction sep cur s rule: split_acc.induct)
  case (2 sep cur r rs)
  obtain y ys where "split_acc sep [] rs = y # ys" using split_acc_nonempty by (cases "split_acc sep [] rs") auto
  with 2 show ?case by auto
qed simp

lemma split_join_back: "join [sep] (str_split sep s) = s"
  by (simp add: str_split_def split_acc_join)

lemma split_no_sep: "sep \<notin> set cur \<Longrightarrow> x \<in> set (split_acc sep cur s) \<Longrightarrow> sep \<notin> set x"
  by (induction sep cur s rule: split_acc.induct) (auto split: if_splits)

lemma seg_name_no_slash: "0 \<le> n \<Longrightarrow> 47 \<notin> set (seg_name segTS n) \<and> 47 \<notin> set (seg_name segVTT n)"
  using pad0_no [of n 47 5] by (simp add: seg_name_def segTS_def segVTT_def str_def is_digit_def)

lemma served_no_slash: "served_file segTS f \<or> served_file segVTT f \<Longrightarrow> 47 \<notin> set f"
  using seg_name_no_slash by (auto simp: served_file_def playlist_def str_def)

lemma split_two: "str_split 47 rest = [a, b] \<longleftrightarrow> rest = a @ 47 # b \<and> 47 \<notin> set a \<and> 47 \<notin> set b"
proof
  assume s: "str_split 47 rest = [a, b]"
  then have "rest = join [47] [a, b]" using split_join_back by metis
  moreover have "47 \<notin> set x" if "x \<in> set [a, b]" for x
    using that split_no_sep [of 47 "[]" x rest] s by (simp add: str_split_def)
  ultimately show "rest = a @ 47 # b \<and> 47 \<notin> set a \<and> 47 \<notin> set b" by simp
qed (auto simp: split_sep split_last)

lemma split_three:
  "str_split 47 rest = [a, b, c] \<longleftrightarrow> rest = a @ 47 # b @ 47 # c \<and> 47 \<notin> set a \<and> 47 \<notin> set b \<and> 47 \<notin> set c"
proof
  assume s: "str_split 47 rest = [a, b, c]"
  then have "rest = join [47] [a, b, c]" using split_join_back by metis
  moreover have "47 \<notin> set x" if "x \<in> set [a, b, c]" for x
    using that split_no_sep [of 47 "[]" x rest] s by (simp add: str_split_def)
  ultimately show "rest = a @ 47 # b @ 47 # c \<and> 47 \<notin> set a \<and> 47 \<notin> set b \<and> 47 \<notin> set c" by simp
qed (auto simp: split_sep split_last)

lemma dir_props: "47 \<notin> set videoDir" "47 \<notin> set audioDir" "47 \<notin> set subsDir" "audioDir \<noteq> subsDir"
  by (simp_all add: videoDir_def audioDir_def subsDir_def str_def)

definition clean_tags :: "lang list \<Rightarrow> bool" where
  "clean_tags langs \<longleftrightarrow> (\<forall>l \<in> set langs. l \<noteq> [] \<and> l \<noteq> langUnknown \<and> 47 \<notin> set l)"

lemma owned_tag_iff:
  assumes "clean_tags langs"
  shows "owned_tag langs l = (if l \<in> set langs then l else langUnknown)"
proof -
  have "find (\<lambda>x. x = l) langs = (if l \<in> set langs then Some l else None)"
    by (induction langs) auto
  then show ?thesis by (simp add: owned_tag_def)
qed

lemma resolve_two:
  assumes "str_split 47 rest = [kind, f]"
  shows "resolve t rest = Some p \<longleftrightarrow> kind = videoDir \<and> served_file segTS f \<and> p = tr_dir t @ [videoDir, f]"
  using rebuild_iff [OF ext_props(1,2), of "tr_dir t" videoDir "[]" f p] assms
  by (auto simp: resolve_def langUnknown_def)

lemma resolve_three:
  assumes "str_split 47 rest = [kind, l, f]" "clean_tags (tr_langs t)" "clean_tags (tr_subtitleLangs t)"
  shows "resolve t rest = Some p \<longleftrightarrow>
    kind = audioDir \<and> l \<in> set (tr_langs t) \<and> served_file segTS f \<and> p = tr_dir t @ [audioDir, l, f] \<or>
    kind = subsDir \<and> l \<in> set (tr_subtitleLangs t) \<and> served_file segVTT f \<and> p = tr_dir t @ [subsDir, l, f]"
proof -
  have l: "x \<noteq> []" "x \<noteq> langUnknown" if "x \<in> set (tr_langs t) \<union> set (tr_subtitleLangs t)" for x
    using that assms(2,3) by (auto simp: clean_tags_def)
  show ?thesis
    using rebuild_iff [OF ext_props(1,2), of "tr_dir t" audioDir "owned_tag (tr_langs t) l" f p]
      rebuild_iff [OF ext_props(3,4), of "tr_dir t" subsDir "owned_tag (tr_subtitleLangs t) l" f p]
      owned_tag_iff [OF assms(2), of l] owned_tag_iff [OF assms(3), of l] assms(1) l [of l] dir_props(4)
    by (auto simp: resolve_def)
qed

text \<open>A request names a file only through the session's own parts: a path resolves exactly when it is
  a rendition's playlist or a segment with a canonical number below 100000, under the video directory or
  under the directory of a language the session carries; every other path, any traversal included, resolves
  to nothing. Segment 100000 and later, which the six-second segmenters reach after a week, do not resolve.\<close>

lemma path_resolves_iff_owned:
  assumes "clean_tags (tr_langs t)" "clean_tags (tr_subtitleLangs t)"
  shows "resolve t rest = Some p \<longleftrightarrow>
    (\<exists>f. rest = videoDir @ [47] @ f \<and> served_file segTS f \<and> p = tr_dir t @ [videoDir, f]) \<or>
    (\<exists>l \<in> set (tr_langs t). \<exists>f. rest = audioDir @ [47] @ l @ [47] @ f \<and> served_file segTS f \<and> p = tr_dir t @ [audioDir, l, f]) \<or>
    (\<exists>l \<in> set (tr_subtitleLangs t). \<exists>f. rest = subsDir @ [47] @ l @ [47] @ f \<and> served_file segVTT f \<and>
       p = tr_dir t @ [subsDir, l, f])" (is "_ \<longleftrightarrow> ?V \<or> ?A \<or> ?S")
proof
  assume r: "resolve t rest = Some p"
  then consider (two) kind f where "str_split 47 rest = [kind, f]" | (three) kind l f where "str_split 47 rest = [kind, l, f]"
    by (auto simp: resolve_def split: list.splits)
  then show "?V \<or> ?A \<or> ?S"
  proof cases
    case two
    then show ?thesis using r resolve_two [OF two, of t p] split_two by auto
  next
    case three
    then show ?thesis using r resolve_three [OF three assms, of p] split_three by auto
  qed
next
  assume "?V \<or> ?A \<or> ?S"
  then show "resolve t rest = Some p"
  proof (elim disjE exE bexE conjE)
    fix f assume "rest = videoDir @ [47] @ f" "served_file segTS f" "p = tr_dir t @ [videoDir, f]"
    moreover then have "str_split 47 rest = [videoDir, f]" using served_no_slash dir_props by (simp add: split_two)
    ultimately show ?thesis using resolve_two by blast
  next
    fix l f assume a: "l \<in> set (tr_langs t)" "rest = audioDir @ [47] @ l @ [47] @ f" "served_file segTS f" "p = tr_dir t @ [audioDir, l, f]"
    then have "str_split 47 rest = [audioDir, l, f]"
      using served_no_slash dir_props assms(1) by (simp add: split_three clean_tags_def)
    from resolve_three [OF this assms] a show ?thesis by blast
  next
    fix l f assume a: "l \<in> set (tr_subtitleLangs t)" "rest = subsDir @ [47] @ l @ [47] @ f" "served_file segVTT f" "p = tr_dir t @ [subsDir, l, f]"
    then have "str_split 47 rest = [subsDir, l, f]"
      using served_no_slash dir_props assms(2) by (simp add: split_three clean_tags_def)
    from resolve_three [OF this assms] a show ?thesis by blast
  qed
qed

lemma path_resolves_iff_owned_witness:
  "let t = \<lparr>tr_dir = [str ''media'', str ''talk''], tr_langs = [str ''it''], tr_subtitleLangs = [str ''it''], tr_segmenters = []\<rparr>
   in resolve t (str ''subs/it/seg00007.vtt'') = Some [str ''media'', str ''talk'', str ''subs'', str ''it'', str ''seg00007.vtt'']"
proof -
  let ?t = "\<lparr>tr_dir = [str ''media'', str ''talk''], tr_langs = [str ''it''], tr_subtitleLangs = [str ''it''], tr_segmenters = []\<rparr>"
  have c: "clean_tags (tr_langs ?t)" "clean_tags (tr_subtitleLangs ?t)" by (simp_all add: clean_tags_def str_def langUnknown_def)
  have d: "digits 7 = [55]" by (subst digits.simps) simp
  have "str ''seg00007.vtt'' = seg_name segVTT 7" by (simp add: seg_name_def pad0_def d str_def segVTT_def numeral_eq_Suc)
  then have "served_file segVTT (str ''seg00007.vtt'')" by (auto simp: served_file_def)
  then show ?thesis
    unfolding Let_def path_resolves_iff_owned [OF c] by (simp add: subsDir_def str_def)
qed

section \<open>The rendition matches the captions\<close>

lemma pad0_inj: "pad0 5 n = pad0 5 m \<longleftrightarrow> n = m"
proof
  assume e: "pad0 5 n = pad0 5 m"
  have sign: "hd (pad0 5 k) = 45 \<longleftrightarrow> k < 0" for k
  proof (cases "k < 0")
    case True then show ?thesis by (simp add: pad0_def)
  next
    case False
    then have "is_digit (hd (pad0 5 k))" using pad0_digits [of k _ 5] pad0_nonempty by simp
    then show ?thesis using False by (auto simp: is_digit_def)
  qed
  have val: "number (tl (pad0 5 k)) = - k" if "k < 0" for k
    using that by (simp add: pad0_def number_zeros number_digits)
  show "n = m"
  proof (cases "n < 0")
    case True
    moreover then have "m < 0" using sign e by metis
    ultimately show ?thesis using val e by (metis neg_equal_iff_equal)
  next
    case False
    moreover then have "\<not> m < 0" using sign e by metis
    ultimately show ?thesis using number_pad0 e by (metis linorder_not_less)
  qed
qed simp

lemma partName_inj [simp]: "partName i = partName j \<longleftrightarrow> i = j"
  by (simp add: partName_def seg_name_def pad0_inj)

lemma partName_playlist [simp]: "partName i \<noteq> playlist" "playlist \<noteq> partName i"
  by (simp_all add: partName_def seg_name_def playlist_def str_def)

definition cues_of :: "segmenter \<Rightarrow> int \<Rightarrow> Cue list" where
  "cues_of s idx = (case sg_cues s idx of None \<Rightarrow> [] | Some cs \<Rightarrow> cs)"

definition overlaps :: "int \<Rightarrow> Cue \<Rightarrow> bool" where
  "overlaps idx c \<longleftrightarrow> first_part c \<le> idx \<and> idx \<le> last_part c"

text \<open>Adding the cues of a caption.\<close>

lemma add_cue_fold:
  "distinct idxs \<Longrightarrow>
   (\<forall>idx. cues_of (fold (add_cue c) idxs s) idx = cues_of s idx @ (if idx \<in> set idxs then [c] else [])) \<and>
   sg_parts (fold (add_cue c) idxs s) = sg_parts s \<and> sg_files (fold (add_cue c) idxs s) = sg_files s \<and>
   sg_top s \<le> sg_top (fold (add_cue c) idxs s) \<and> (\<forall>i \<in> set idxs. i \<le> sg_top (fold (add_cue c) idxs s))"
proof (induction idxs arbitrary: s)
  case (Cons i idxs)
  let ?s = "add_cue c i s"
  have a: "cues_of ?s idx = cues_of s idx @ (if idx = i then [c] else [])" for idx
    by (simp add: add_cue_def cues_of_def split: option.split)
  have b: "sg_parts ?s = sg_parts s" "sg_files ?s = sg_files s" "sg_top s \<le> sg_top ?s" "i \<le> sg_top ?s"
    by (simp_all add: add_cue_def)
  show ?case using Cons.IH [of ?s] Cons.prems a b by auto
qed simp

lemma take_cue_props:
  "cues_of (take_cue c s) idx = cues_of s idx @ (if overlaps idx c then [c] else [])"
  "sg_parts (take_cue c s) = sg_parts s" "sg_files (take_cue c s) = sg_files s"
  "sg_top s \<le> sg_top (take_cue c s)" "overlaps idx c \<Longrightarrow> idx \<le> sg_top (take_cue c s)"
proof -
  let ?s = "s\<lparr>sg_cue := Schedule c (sg_cue s)\<rparr>" and ?i = "[first_part c..last_part c]"
  have q: "cues_of ?s = cues_of s" by (simp add: cues_of_def fun_eq_iff)
  show "cues_of (take_cue c s) idx = cues_of s idx @ (if overlaps idx c then [c] else [])"
    using add_cue_fold [of ?i c ?s] by (simp add: take_cue_def q overlaps_def)
  show "sg_parts (take_cue c s) = sg_parts s" "sg_files (take_cue c s) = sg_files s"
    using add_cue_fold [of ?i c ?s] by (simp_all add: take_cue_def)
  show "sg_top s \<le> sg_top (take_cue c s)" using add_cue_fold [of ?i c ?s] by (simp add: take_cue_def)
  show "idx \<le> sg_top (take_cue c s)" if "overlaps idx c"
    using add_cue_fold [of ?i c ?s] that by (simp add: take_cue_def overlaps_def)
qed

lemma take_cues_props:
  "(\<forall>idx. cues_of (fold take_cue cs s) idx = cues_of s idx @ filter (overlaps idx) cs) \<and>
   sg_parts (fold take_cue cs s) = sg_parts s \<and> sg_files (fold take_cue cs s) = sg_files s \<and>
   sg_top s \<le> sg_top (fold take_cue cs s) \<and>
   (\<forall>c \<in> set cs. \<forall>idx. overlaps idx c \<longrightarrow> idx \<le> sg_top (fold take_cue cs s))"
proof (induction cs arbitrary: s)
  case (Cons d cs)
  have t: "cues_of (take_cue d s) idx = cues_of s idx @ (if overlaps idx d then [d] else [])" for idx
    by (rule take_cue_props)
  have p: "sg_parts (take_cue d s) = sg_parts s" "sg_files (take_cue d s) = sg_files s" "sg_top s \<le> sg_top (take_cue d s)"
    by (rule take_cue_props)+
  have o': "\<forall>idx. overlaps idx d \<longrightarrow> idx \<le> sg_top (take_cue d s)" using take_cue_props(5) by blast
  show ?case using Cons.IH [of "take_cue d s"] t p o' by (auto intro: order_trans)
qed simp

text \<open>Writing parts, when no write fails.\<close>

abbreviation no_fail :: "gostr \<Rightarrow> bool" where "no_fail \<equiv> \<lambda>_. False"

definition current :: "segmenter \<Rightarrow> int \<Rightarrow> bool" where
  "current s idx \<longleftrightarrow> idx \<in> sg_parts s \<and> sg_files s (partName idx) = Some (part_body (cues_of s idx))"

lemma writePart_props:
  "fst (writePart no_fail idx s)"
  "cues_of (snd (writePart no_fail idx s)) = cues_of s" "sg_top (snd (writePart no_fail idx s)) = sg_top s"
  "sg_parts (snd (writePart no_fail idx s)) = insert idx (sg_parts s)"
  "current (snd (writePart no_fail idx s)) j \<longleftrightarrow> j = idx \<or> current s j"
proof -
  show c: "cues_of (snd (writePart no_fail idx s)) = cues_of s" by (simp add: writePart_def cues_of_def fun_eq_iff)
  have e: "(case sg_cues s idx of None \<Rightarrow> [] | Some cs \<Rightarrow> cs) = cues_of s idx" by (simp add: cues_of_def)
  show "current (snd (writePart no_fail idx s)) j \<longleftrightarrow> j = idx \<or> current s j"
    unfolding current_def c by (auto simp: writePart_def e)
qed (simp_all add: writePart_def)

lemma write_fold:
  "cues_of (fold (\<lambda>idx s. snd (writePart no_fail idx s)) idxs s) = cues_of s \<and>
   sg_top (fold (\<lambda>idx s. snd (writePart no_fail idx s)) idxs s) = sg_top s \<and>
   sg_parts (fold (\<lambda>idx s. snd (writePart no_fail idx s)) idxs s) = set idxs \<union> sg_parts s \<and>
   (\<forall>j. current (fold (\<lambda>idx s. snd (writePart no_fail idx s)) idxs s) j \<longleftrightarrow> j \<in> set idxs \<or> current s j)"
  by (induction idxs arbitrary: s) (auto simp: writePart_props)

lemma playlist_loop_props:
  "\<exists>s'. playlist_loop no_fail idxs b s = (Some (b @ concat (map playlist_entry idxs)), s') \<and>
     cues_of s' = cues_of s \<and> sg_top s' = sg_top s \<and> sg_parts s' = set idxs \<union> sg_parts s \<and>
     (\<forall>j. current s' j \<longleftrightarrow> j \<in> set idxs - sg_parts s \<or> current s j)"
proof (induction idxs arbitrary: b s)
  case (Cons i idxs)
  show ?case
  proof (cases "i \<in> sg_parts s")
    case True
    then show ?thesis using Cons.IH [of "b @ playlist_entry i" s] by auto
  next
    case False
    obtain s1 where w: "writePart no_fail i s = (True, s1)" by (simp add: writePart_def)
    note p = writePart_props [of i s, unfolded w snd_conv]
    obtain s' where s': "playlist_loop no_fail idxs (b @ playlist_entry i) s1 = (Some ((b @ playlist_entry i) @ concat (map playlist_entry idxs)), s')"
      "cues_of s' = cues_of s1" "sg_top s' = sg_top s1" "sg_parts s' = set idxs \<union> sg_parts s1"
      "\<forall>j. current s' j \<longleftrightarrow> j \<in> set idxs - sg_parts s1 \<or> current s1 j"
      using Cons.IH [of "b @ playlist_entry i" s1] by blast
    show ?thesis using False w s' p by (intro exI [of _ s']) (auto simp: current_def)
  qed
qed simp

definition seg_inv :: "segmenter \<Rightarrow> Cue list \<Rightarrow> bool" where
  "seg_inv s cs \<longleftrightarrow> (\<forall>idx \<ge> window_first (sg_top s). cues_of s idx = filter (overlaps idx) cs) \<and>
     (\<forall>idx \<in> sg_parts s. window_first (sg_top s) \<le> idx \<and> current s idx) \<and>
     (\<forall>c \<in> set cs. \<forall>idx. overlaps idx c \<longrightarrow> idx \<le> sg_top s)"

definition playlist_of :: "int \<Rightarrow> gostr" where
  "playlist_of t = playlist_head (max (window_first t) 0) @ concat (map playlist_entry [max (window_first t) 0..t])"

lemma set_touched: "j \<in> set (touched cs) \<longleftrightarrow> (\<exists>c \<in> set cs. overlaps j c)"
  by (auto simp: touched_def overlaps_def)

lemma writePlaylist_props:
  "cues_of (writePlaylist no_fail s) = cues_of s \<and> sg_top (writePlaylist no_fail s) = sg_top s \<and>
   sg_parts (writePlaylist no_fail s) = {max (window_first (sg_top s)) 0..sg_top s} \<union> sg_parts s \<and>
   sg_files (writePlaylist no_fail s) playlist = Some (playlist_of (sg_top s)) \<and>
   (\<forall>j. current (writePlaylist no_fail s) j \<longleftrightarrow> j \<in> {max (window_first (sg_top s)) 0..sg_top s} - sg_parts s \<or> current s j)"
proof -
  let ?i = "[max (window_first (sg_top s)) 0..sg_top s]"
  obtain s' where s': "playlist_loop no_fail ?i (playlist_head (max (window_first (sg_top s)) 0)) s = (Some (playlist_of (sg_top s)), s')"
    "cues_of s' = cues_of s" "sg_top s' = sg_top s" "sg_parts s' = set ?i \<union> sg_parts s"
    "\<forall>j. current s' j \<longleftrightarrow> j \<in> set ?i - sg_parts s \<or> current s j"
    unfolding playlist_of_def using playlist_loop_props [of ?i "playlist_head (max (window_first (sg_top s)) 0)" s] by blast
  have w: "writePlaylist no_fail s = s'\<lparr>sg_files := (sg_files s')(playlist \<mapsto> playlist_of (sg_top s))\<rparr>" (is "_ = ?w")
    unfolding writePlaylist_def Let_def s'(1) by simp
  have c: "cues_of ?w = cues_of s'" by (simp add: cues_of_def fun_eq_iff)
  then have "current ?w j \<longleftrightarrow> current s' j" for j by (simp add: current_def)
  then show ?thesis unfolding w using s' c by simp
qed

lemma evict_props:
  assumes "\<forall>j \<in> sg_parts s. current s j"
  shows "sg_top (evict badr s) = sg_top s" "sg_parts (evict badr s) = {j \<in> sg_parts s. window_first (sg_top s) \<le> j}"
    "sg_files (evict badr s) playlist = sg_files s playlist"
    "window_first (sg_top s) \<le> j \<Longrightarrow> cues_of (evict badr s) j = cues_of s j"
    "j \<in> sg_parts (evict badr s) \<Longrightarrow> current (evict badr s) j"
proof -
  show c: "window_first (sg_top s) \<le> j \<Longrightarrow> cues_of (evict badr s) j = cues_of s j" for j
    by (simp add: evict_def cues_of_def Let_def)
  show p: "sg_parts (evict badr s) = {j \<in> sg_parts s. window_first (sg_top s) \<le> j}"
    by (auto simp: evict_def Let_def)
  show "sg_files (evict badr s) playlist = sg_files s playlist"
    by (auto simp: evict_def Let_def)
  have f: "window_first (sg_top s) \<le> j \<Longrightarrow> sg_files (evict badr s) (partName j) = sg_files s (partName j)" for j
    by (auto simp: evict_def Let_def)
  show "j \<in> sg_parts (evict badr s) \<Longrightarrow> current (evict badr s) j"
    using assms c [of j] f [of j] by (simp add: p current_def)
qed (simp add: evict_def Let_def)

lemma Append_segment_inv:
  assumes inv: "seg_inv s cs" and nonblank: "trim_space (TText seg) \<noteq> []"
  shows "seg_inv (Append_segment rnd no_fail badr seg s) (cs @ seg_cues rnd seg)"
    "sg_files (Append_segment rnd no_fail badr seg s) playlist = Some (playlist_of (sg_top (Append_segment rnd no_fail badr seg s)))"
    "{max (window_first (sg_top (Append_segment rnd no_fail badr seg s))) 0..sg_top (Append_segment rnd no_fail badr seg s)}
       \<subseteq> sg_parts (Append_segment rnd no_fail badr seg s)"
proof -
  define ds where "ds = seg_cues rnd seg"
  define s1 where "s1 = fold take_cue ds s"
  define s2 where "s2 = fold (\<lambda>idx s. snd (writePart no_fail idx s)) (touched ds) s1"
  define s3 where "s3 = writePlaylist no_fail s2"
  define s' where "s' = evict badr s3"
  have r: "Append_segment rnd no_fail badr seg s = s'"
    using nonblank by (simp add: Append_segment_def Let_def s'_def s3_def s2_def s1_def ds_def)
  note t = take_cues_props [of ds s, folded s1_def]
  note w = write_fold [of "touched ds" s1, folded s2_def]
  note p = writePlaylist_props [of s2, folded s3_def]
  have cur1: "current s1 j" if "j \<in> sg_parts s" "j \<notin> set (touched ds)" for j
  proof -
    have "filter (overlaps j) ds = []" using that(2) by (simp add: set_touched filter_empty_conv)
    then have "cues_of s1 j = cues_of s j" using t by simp
    then show ?thesis using inv that(1) t by (simp add: seg_inv_def current_def)
  qed
  have cur2: "current s2 j" if "j \<in> sg_parts s2" for j
    using w cur1 t that by (cases "j \<in> set (touched ds)") simp_all
  have cur3: "\<forall>j \<in> sg_parts s3. current s3 j"
  proof
    fix j assume "j \<in> sg_parts s3"
    then show "current s3 j" using p cur2 [of j] by (cases "j \<in> sg_parts s2") simp_all
  qed
  note e = evict_props [OF cur3, where badr = badr, folded s'_def]
  have top: "sg_top s \<le> sg_top s3" "sg_top s3 = sg_top s1" using t w p by simp_all
  have c3: "cues_of s3 j = cues_of s j @ filter (overlaps j) ds" for j using t w p by simp
  have "cues_of s' j = filter (overlaps j) (cs @ ds)" if "window_first (sg_top s') \<le> j" for j
  proof -
    have a: "window_first (sg_top s3) \<le> j" using that e(1) by simp
    then have b: "window_first (sg_top s) \<le> j" using top by (simp add: window_first_def)
    have "cues_of s j = filter (overlaps j) cs" using inv b by (simp add: seg_inv_def)
    then show ?thesis using e(4) [OF a] by (simp add: c3)
  qed
  moreover have "idx \<le> sg_top s'" if "c \<in> set (cs @ ds)" "overlaps idx c" for c idx
  proof (cases "c \<in> set ds")
    case True
    then show ?thesis using t that(2) e(1) top by simp
  next
    case False
    then have "idx \<le> sg_top s" using inv that by (auto simp: seg_inv_def)
    then show ?thesis using e(1) top by simp
  qed
  moreover have "window_first (sg_top s') \<le> j \<and> current s' j" if "j \<in> sg_parts s'" for j
    using that e(1,2) e(5) by simp
  ultimately show "seg_inv (Append_segment rnd no_fail badr seg s) (cs @ seg_cues rnd seg)"
    unfolding r seg_inv_def ds_def [symmetric] by blast
  have s2: "sg_top s3 = sg_top s2" "sg_files s3 playlist = Some (playlist_of (sg_top s2))"
    "sg_parts s3 = {max (window_first (sg_top s2)) 0..sg_top s2} \<union> sg_parts s2"
    using p by blast+
  show "sg_files (Append_segment rnd no_fail badr seg s) playlist = Some (playlist_of (sg_top (Append_segment rnd no_fail badr seg s)))"
    unfolding r e(1) e(3) s2(1) by (rule s2(2))
  show "{max (window_first (sg_top (Append_segment rnd no_fail badr seg s))) 0..sg_top (Append_segment rnd no_fail badr seg s)}
       \<subseteq> sg_parts (Append_segment rnd no_fail badr seg s)"
    unfolding r e(1) e(2) s2(1) s2(3) by auto
qed

definition append_all :: "(rat \<Rightarrow> rat) \<Rightarrow> (TranslatedSegment \<times> (gostr \<Rightarrow> bool)) list \<Rightarrow> segmenter \<Rightarrow> segmenter" where
  "append_all rnd hist = fold (\<lambda>(seg, badr). Append_segment rnd no_fail badr seg) hist"

definition all_cues :: "(rat \<Rightarrow> rat) \<Rightarrow> (TranslatedSegment \<times> (gostr \<Rightarrow> bool)) list \<Rightarrow> Cue list" where
  "all_cues rnd hist = concat (map (\<lambda>(seg, _). seg_cues rnd seg) hist)"

lemma append_all_inv:
  "seg_inv (append_all rnd hist newSegmenter) (all_cues rnd hist) \<and>
   ((\<exists>(seg, _) \<in> set hist. trim_space (TText seg) \<noteq> []) \<longrightarrow>
     (let s = append_all rnd hist newSegmenter in sg_files s playlist = Some (playlist_of (sg_top s)) \<and>
        {max (window_first (sg_top s)) 0..sg_top s} \<subseteq> sg_parts s))"
proof (induction hist rule: rev_induct)
  case Nil
  show ?case by (simp add: append_all_def all_cues_def seg_inv_def newSegmenter_def cues_of_def)
next
  case (snoc x hist)
  obtain seg badr where x: "x = (seg, badr)" by (cases x)
  let ?s = "append_all rnd hist newSegmenter"
  have s: "append_all rnd (hist @ [x]) newSegmenter = Append_segment rnd no_fail badr seg ?s"
    by (simp add: append_all_def x)
  have c: "all_cues rnd (hist @ [x]) = all_cues rnd hist @ seg_cues rnd seg" by (simp add: all_cues_def x)
  show ?case
  proof (cases "trim_space (TText seg) = []")
    case True
    then have "Append_segment rnd no_fail badr seg ?s = ?s" "seg_cues rnd seg = []"
      by (simp_all add: Append_segment_def seg_cues_def)
    then show ?thesis unfolding s c using snoc True by (simp add: x)
  next
    case False
    have inv: "seg_inv ?s (all_cues rnd hist)" using snoc by blast
    show ?thesis unfolding s c Let_def using Append_segment_inv [OF inv False, of rnd badr] by blast
  qed
qed

text \<open>C19. The subtitle rendition is the captions: after any captions, whichever old parts could not be
  removed, the playlist lists exactly the five newest parts, and each of their files is the document of
  exactly the cues that overlap it, in the order they came; no cue lies beyond the newest part.\<close>

theorem rendition_is_the_captions:
  assumes "(seg, badr) \<in> set hist" "trim_space (TText seg) \<noteq> []"
  shows "let s = append_all rnd hist newSegmenter; t = sg_top s; f = max (t - 4) 0 in
    sg_files s playlist = Some (playlist_head f @ concat (map playlist_entry [f..t])) \<and>
    (\<forall>idx \<in> {f..t}. sg_files s (partName idx) =
       Some (part_body (filter (\<lambda>c. first_part c \<le> idx \<and> idx \<le> last_part c) (all_cues rnd hist)))) \<and>
    (\<forall>c \<in> set (all_cues rnd hist). first_part c \<le> last_part c \<longrightarrow> last_part c \<le> t)"
proof -
  let ?s = "append_all rnd hist newSegmenter"
  have w: "window_first (sg_top ?s) = sg_top ?s - 4" by (simp add: window_first_def windowSegments_def)
  have o': "overlaps idx = (\<lambda>c. first_part c \<le> idx \<and> idx \<le> last_part c)" for idx by (simp add: overlaps_def fun_eq_iff)
  have i: "seg_inv ?s (all_cues rnd hist)" "sg_files ?s playlist = Some (playlist_of (sg_top ?s))"
    "{max (window_first (sg_top ?s)) 0..sg_top ?s} \<subseteq> sg_parts ?s"
    using append_all_inv [of rnd hist] assms unfolding Let_def by blast+
  have "sg_files ?s (partName idx) = Some (part_body (filter (overlaps idx) (all_cues rnd hist)))"
    if "idx \<in> {max (sg_top ?s - 4) 0..sg_top ?s}" for idx
  proof -
    have "idx \<in> sg_parts ?s" using i(3) that w by auto
    then have "current ?s idx" "window_first (sg_top ?s) \<le> idx" using i(1) by (simp_all add: seg_inv_def)
    then show ?thesis using i(1) by (simp add: current_def seg_inv_def)
  qed
  moreover have "last_part c \<le> sg_top ?s" if "c \<in> set (all_cues rnd hist)" "first_part c \<le> last_part c" for c
    using i(1) that by (auto simp: seg_inv_def overlaps_def)
  ultimately show ?thesis unfolding Let_def o' using i(2) by (simp add: playlist_of_def w)
qed

theorem rendition_is_the_captions_witness:
  "let seg = \<lparr>TSlug = str ''talk'', TText = str ''hello'', ScheduleAt = 13 * second, TDuration = second\<rparr>;
       s = append_all (\<lambda>x. x) [(seg, \<lambda>_. False)] newSegmenter
   in sg_top s = 2 \<and> sg_files s (partName 2) = Some (part_body (all_cues (\<lambda>x. x) [(seg, \<lambda>_. False)]))"
proof -
  let ?seg = "\<lparr>TSlug = str ''talk'', TText = str ''hello'', ScheduleAt = 13 * second, TDuration = second\<rparr>"
  let ?h = "[(?seg, \<lambda>_. False)] :: (TranslatedSegment \<times> (gostr \<Rightarrow> bool)) list"
  have c: "trim_space (TText ?seg) \<noteq> [] \<and> map (\<lambda>c. (first_part c, last_part c)) (all_cues (\<lambda>x. x) ?h) = [(2, 2)] \<and>
      sg_top (append_all (\<lambda>x. x) ?h newSegmenter) = 2" by code_simp
  then obtain c where a: "all_cues (\<lambda>x. x) ?h = [c]" "first_part c = 2" "last_part c = 2" by auto
  have "(?seg, \<lambda>_. False) \<in> set ?h" by simp
  from rendition_is_the_captions [OF this, of "\<lambda>x. x"] c a show ?thesis by (simp add: Let_def)
qed

end
