(* ===== verification/Dispatch.thy ===== *)
theory Dispatch
  imports Prelude "HOL-Library.Multiset"
begin

text \<open>
  \<^verbatim>\<open>internal/dispatch/dispatch.go\<close>: the bounded worker pool between the pipeline and the speech
  providers. Submitters, workers and the closer are goroutines; a step is one critical section, channel
  operation or job boundary of one of them. A job is opaque and named by a number; that jobs return is the
  step \<open>job_returns\<close>.
\<close>

section \<open>State\<close>

datatype worker = Idle | Busy nat | Stopped

datatype closer = NotClosing | Draining | Stopping | Closed

datatype submit_result = Accepted | ErrClosed | CtxErr

text \<open>\<open>pl_pending\<close>: the submitters between the accept edge and the \<open>select\<close>. \<open>pl_results\<close> and
  \<open>pl_ran\<close> record what \<open>Submit\<close> returned and which jobs ran, latest last.\<close>

record pool =
  pl_cap :: nat
  pl_queue :: "nat list"
  pl_pending :: "nat list"
  pl_workers :: "worker list"
  pl_inflight :: int
  pl_closed :: bool
  pl_done :: bool
  pl_closer :: closer
  pl_results :: "(nat \<times> submit_result) list"
  pl_ran :: "nat list"

text \<open>\<open>New\<close> panics (\<open>None\<close>) unless both sizes are positive.\<close>

definition New_pool :: "int \<Rightarrow> int \<Rightarrow> pool option" where
  "New_pool workers queue =
     (if workers < 1 \<or> queue < 1 then None
      else Some \<lparr>pl_cap = nat queue, pl_queue = [], pl_pending = [], pl_workers = replicate (nat workers) Idle,
        pl_inflight = 0, pl_closed = False, pl_done = False, pl_closer = NotClosing, pl_results = [], pl_ran = []\<rparr>)"

section \<open>Operations\<close>

text \<open>\<open>Submit\<close>: the accept edge, then the \<open>select\<close> between room in the queue and the context.\<close>

definition submit_accept :: "nat \<Rightarrow> pool \<Rightarrow> pool" where
  "submit_accept job p =
     (if pl_closed p then p\<lparr>pl_results := pl_results p @ [(job, ErrClosed)]\<rparr>
      else p\<lparr>pl_inflight := pl_inflight p + 1, pl_pending := pl_pending p @ [job]\<rparr>)"

definition submit_send :: "nat \<Rightarrow> pool \<Rightarrow> pool" where
  "submit_send job p = p\<lparr>pl_queue := pl_queue p @ [job], pl_pending := remove1 job (pl_pending p),
     pl_results := pl_results p @ [(job, Accepted)]\<rparr>"

definition submit_cancel :: "nat \<Rightarrow> pool \<Rightarrow> pool" where
  "submit_cancel job p = p\<lparr>pl_inflight := pl_inflight p - 1, pl_pending := remove1 job (pl_pending p),
     pl_results := pl_results p @ [(job, CtxErr)]\<rparr>"

definition worker_take :: "nat \<Rightarrow> nat \<Rightarrow> nat list \<Rightarrow> pool \<Rightarrow> pool" where
  "worker_take w job rest p = p\<lparr>pl_queue := rest, pl_workers := (pl_workers p)[w := Busy job]\<rparr>"

text \<open>\<open>run\<close>: the job, then the deferred \<open>inflight.Done\<close>.\<close>

definition job_return :: "nat \<Rightarrow> nat \<Rightarrow> pool \<Rightarrow> pool" where
  "job_return w job p = p\<lparr>pl_workers := (pl_workers p)[w := Idle], pl_inflight := pl_inflight p - 1,
     pl_ran := pl_ran p @ [job]\<rparr>"

definition worker_stop :: "nat \<Rightarrow> pool \<Rightarrow> pool" where
  "worker_stop w p = p\<lparr>pl_workers := (pl_workers p)[w := Stopped]\<rparr>"

definition close_begin :: "pool \<Rightarrow> pool" where
  "close_begin p = (if pl_closed p then p else p\<lparr>pl_closed := True, pl_closer := Draining\<rparr>)"

definition close_drained :: "pool \<Rightarrow> pool" where
  "close_drained p = p\<lparr>pl_done := True, pl_closer := Stopping\<rparr>"

definition close_return :: "pool \<Rightarrow> pool" where
  "close_return p = p\<lparr>pl_closer := Closed\<rparr>"

definition Metrics :: "pool \<Rightarrow> nat \<times> nat" where
  "Metrics p = (length (pl_queue p), pl_cap p)"

text \<open>\<open>outside\<close> marks what the callers of the pool do; the rest the pool does by itself.\<close>

inductive pool_step :: "bool \<Rightarrow> pool \<Rightarrow> pool \<Rightarrow> bool" where
  submits: "pool_step True p (submit_accept job p)"
| cancels: "job \<in> set (pl_pending p) \<Longrightarrow> pool_step True p (submit_cancel job p)"
| closes: "pool_step True p (close_begin p)"
| sends: "job \<in> set (pl_pending p) \<Longrightarrow> length (pl_queue p) < pl_cap p \<Longrightarrow> pool_step False p (submit_send job p)"
| takes: "w < length (pl_workers p) \<Longrightarrow> pl_workers p ! w = Idle \<Longrightarrow> pl_queue p = job # rest \<Longrightarrow>
    pool_step False p (worker_take w job rest p)"
| returns: "w < length (pl_workers p) \<Longrightarrow> pl_workers p ! w = Busy job \<Longrightarrow> pool_step False p (job_return w job p)"
| stops: "w < length (pl_workers p) \<Longrightarrow> pl_workers p ! w = Idle \<Longrightarrow> pl_done p \<Longrightarrow> pool_step False p (worker_stop w p)"
| drained: "pl_closer p = Draining \<Longrightarrow> pl_inflight p = 0 \<Longrightarrow> pool_step False p (close_drained p)"
| closed: "pl_closer p = Stopping \<Longrightarrow> set (pl_workers p) \<subseteq> {Stopped} \<Longrightarrow> pool_step False p (close_return p)"

section \<open>Invariant\<close>

definition busy_jobs :: "worker list \<Rightarrow> nat list" where
  "busy_jobs ws = concat (map (\<lambda>w. case w of Busy j \<Rightarrow> [j] | _ \<Rightarrow> []) ws)"

definition accepted :: "pool \<Rightarrow> nat list" where
  "accepted p = map fst (filter (\<lambda>r. snd r = Accepted) (pl_results p))"

definition pool_inv :: "nat \<Rightarrow> nat \<Rightarrow> pool \<Rightarrow> bool" where
  "pool_inv workers queue p \<longleftrightarrow>
     pl_cap p = queue \<and> length (pl_workers p) = workers \<and> length (pl_queue p) \<le> queue \<and>
     pl_inflight p = int (length (pl_pending p) + length (pl_queue p) + length (busy_jobs (pl_workers p))) \<and>
     mset (accepted p) = mset (pl_queue p) + mset (busy_jobs (pl_workers p)) + mset (pl_ran p) \<and>
     (pl_closed p \<longleftrightarrow> pl_closer p \<noteq> NotClosing) \<and> (pl_done p \<longleftrightarrow> pl_closer p = Stopping \<or> pl_closer p = Closed) \<and>
     (pl_done p \<longrightarrow> pl_inflight p = 0) \<and> (Stopped \<in> set (pl_workers p) \<longrightarrow> pl_done p) \<and>
     (pl_closer p = Closed \<longrightarrow> set (pl_workers p) \<subseteq> {Stopped})"

lemma busy_update:
  assumes "w < length ws"
  shows "mset (busy_jobs (ws[w := x])) + mset (busy_jobs [ws ! w]) = mset (busy_jobs ws) + mset (busy_jobs [x])"
proof -
  have u: "ws[w := x] = take w ws @ [x] @ drop (Suc w) ws" using assms by (simp add: upd_conv_take_nth_drop)
  have o': "ws = take w ws @ [ws ! w] @ drop (Suc w) ws" using assms by (simp add: id_take_nth_drop)
  have b: "mset (busy_jobs ws) = mset (busy_jobs (take w ws)) + mset (busy_jobs [ws ! w]) + mset (busy_jobs (drop (Suc w) ws))"
    by (subst o') (simp add: busy_jobs_def)
  show ?thesis unfolding u b by (simp add: busy_jobs_def)
qed

lemma pending_length: "job \<in> set js \<Longrightarrow> length js = Suc (length (remove1 job js))"
  by (simp add: length_remove1) (metis Suc_pred length_pos_if_in_set)

lemma pool_inv_new: "New_pool workers queue = Some p \<Longrightarrow> pool_inv (nat workers) (nat queue) p"
  by (auto simp: New_pool_def pool_inv_def busy_jobs_def accepted_def split: if_splits)

lemma pool_inv_step:
  assumes "pool_step b p p'" "pool_inv workers queue p" shows "pool_inv workers queue p'"
  using assms
proof (induction rule: pool_step.induct)
  case (submits p job)
  then show ?case by (auto simp: pool_inv_def submit_accept_def accepted_def)
next
  case (cancels job p)
  note l = pending_length [OF cancels(1)]
  have nd: "\<not> pl_done p" using cancels(2) l unfolding pool_inv_def by linarith
  show ?case using cancels(2) l nd by (simp add: pool_inv_def submit_cancel_def accepted_def)
next
  case (closes p)
  then show ?case by (auto simp: pool_inv_def close_begin_def accepted_def)
next
  case (sends job p)
  note l = pending_length [OF sends(1)]
  have nd: "\<not> pl_done p" using sends(3) l unfolding pool_inv_def by linarith
  show ?case using sends(2,3) l nd by (simp add: pool_inv_def submit_send_def accepted_def)
next
  case (takes w p job rest)
  note u = busy_update [OF takes(1), of "Busy job"]
  have m: "mset (busy_jobs ((pl_workers p)[w := Busy job])) = mset (busy_jobs (pl_workers p)) + {#job#}"
    using u takes(2) by (simp add: busy_jobs_def)
  then have l: "length (busy_jobs ((pl_workers p)[w := Busy job])) = Suc (length (busy_jobs (pl_workers p)))"
    by (metis add_mset_add_single size_add_mset size_mset)
  have nd: "\<not> pl_done p" using takes by (auto simp: pool_inv_def)
  then have "Stopped \<notin> set ((pl_workers p)[w := Busy job])"
    using takes(4) by (auto simp: pool_inv_def dest!: set_update_subset_insert [THEN subsetD])
  then show ?case
    using takes m l nd by (auto simp: pool_inv_def worker_take_def accepted_def)
next
  case (returns w p job)
  note u = busy_update [OF returns(1), of Idle]
  have m: "mset (busy_jobs (pl_workers p)) = mset (busy_jobs ((pl_workers p)[w := Idle])) + {#job#}"
    using u returns(2) by (simp add: busy_jobs_def)
  then have l: "length (busy_jobs (pl_workers p)) = Suc (length (busy_jobs ((pl_workers p)[w := Idle])))"
    by (metis add_mset_add_single size_add_mset size_mset)
  have nd: "\<not> pl_done p" using returns l by (auto simp: pool_inv_def)
  then have "Stopped \<notin> set ((pl_workers p)[w := Idle])"
    using returns(3) by (auto simp: pool_inv_def dest!: set_update_subset_insert [THEN subsetD])
  then show ?case
    using returns m l nd by (auto simp: pool_inv_def job_return_def accepted_def)
next
  case (stops w p)
  note u = busy_update [OF stops(1), of Stopped]
  have m: "mset (busy_jobs ((pl_workers p)[w := Stopped])) = mset (busy_jobs (pl_workers p))"
    using u stops(2) by (simp add: busy_jobs_def)
  then have l: "length (busy_jobs ((pl_workers p)[w := Stopped])) = length (busy_jobs (pl_workers p))"
    by (metis size_mset)
  have "set ((pl_workers p)[w := Stopped]) \<subseteq> insert Stopped (set (pl_workers p))" by (rule set_update_subset_insert)
  then show ?case
    using stops m l by (auto simp: pool_inv_def worker_stop_def accepted_def)
next
  case (drained p)
  then show ?case by (auto simp: pool_inv_def close_drained_def accepted_def)
next
  case (closed p)
  then show ?case by (auto simp: pool_inv_def close_return_def accepted_def)
qed

definition pool_any :: "pool \<Rightarrow> pool \<Rightarrow> bool" where
  "pool_any p p' \<longleftrightarrow> (\<exists>b. pool_step b p p')"

definition pool_reach :: "int \<Rightarrow> int \<Rightarrow> pool \<Rightarrow> bool" where
  "pool_reach workers queue p \<longleftrightarrow>
     (\<exists>p0. New_pool workers queue = Some p0 \<and> rtranclp pool_any p0 p)"

lemma pool_reach_inv: assumes "pool_reach workers queue p" shows "pool_inv (nat workers) (nat queue) p" "1 \<le> workers" "1 \<le> queue"
proof -
  obtain p0 where p0: "New_pool workers queue = Some p0" "rtranclp pool_any p0 p"
    using assms by (auto simp: pool_reach_def)
  show "1 \<le> workers" "1 \<le> queue" using p0(1) by (simp_all add: New_pool_def split: if_splits)
  from p0(2) show "pool_inv (nat workers) (nat queue) p"
    by (induction rule: rtranclp_induct) (use p0(1) pool_inv_new pool_inv_step in \<open>auto simp: pool_any_def\<close>)
qed

lemma nothing_inflight:
  assumes "pool_inv workers queue p" "pl_inflight p = 0"
  shows "pl_pending p = []" "pl_queue p = []" "busy_jobs (pl_workers p) = []"
proof -
  have "int (length (pl_pending p) + length (pl_queue p) + length (busy_jobs (pl_workers p))) = 0"
    using assms by (simp only: pool_inv_def)
  then have "length (pl_pending p) + length (pl_queue p) + length (busy_jobs (pl_workers p)) = 0" by linarith
  then show "pl_pending p = []" "pl_queue p = []" "busy_jobs (pl_workers p) = []" by simp_all
qed

section \<open>Properties\<close>

text \<open>C31. Close loses no accepted job: every job is accepted at most as often as it is submitted, is at any
  time queued, running or run, and once \<open>Close\<close> has let the workers go each accepted job has run exactly
  once and no submitter is left that could still be accepted.\<close>

theorem close_runs_every_accepted_job:
  assumes "pool_reach workers queue p"
  shows "mset (accepted p) = mset (pl_queue p) + mset (busy_jobs (pl_workers p)) + mset (pl_ran p) \<and>
    length (pl_queue p) \<le> nat queue \<and>
    (pl_done p \<longrightarrow> mset (pl_ran p) = mset (accepted p) \<and> pl_pending p = [])"
proof -
  note inv = pool_reach_inv(1) [OF assms]
  have "pl_queue p = [] \<and> busy_jobs (pl_workers p) = [] \<and> pl_pending p = []" if "pl_done p"
  proof -
    have "pl_inflight p = 0" using inv that by (simp add: pool_inv_def)
    then show ?thesis using nothing_inflight [OF inv] by simp
  qed
  then show ?thesis using inv by (simp add: pool_inv_def)
qed

fun worker_cost :: "worker \<Rightarrow> nat" where
  "worker_cost Stopped = 0" | "worker_cost Idle = 1" | "worker_cost (Busy j) = 2"

fun closer_cost :: "closer \<Rightarrow> nat" where
  "closer_cost Closed = 0" | "closer_cost Stopping = 1" | "closer_cost Draining = 2" | "closer_cost NotClosing = 3"

definition pool_cost :: "pool \<Rightarrow> nat" where
  "pool_cost p = 3 * length (pl_pending p) + 2 * length (pl_queue p) + sum_list (map worker_cost (pl_workers p)) + closer_cost (pl_closer p)"

lemma cost_update:
  "w < length ws \<Longrightarrow> sum_list (map worker_cost (ws[w := x])) + worker_cost (ws ! w) = sum_list (map worker_cost ws) + worker_cost x"
  by (induction ws arbitrary: w) (auto split: nat.split simp: nth_Cons')

lemma pool_step_cost: assumes "pool_step False p p'" shows "pool_cost p' < pool_cost p"
  using assms
proof (cases rule: pool_step.cases)
  case (sends job)
  then show ?thesis using pending_length [OF sends(2)] by (simp add: submit_send_def pool_cost_def)
next
  case (takes w job rest)
  then show ?thesis using cost_update [of w "pl_workers p" "Busy job"] by (simp add: worker_take_def pool_cost_def)
next
  case (returns w job)
  then show ?thesis using cost_update [of w "pl_workers p" Idle] by (simp add: job_return_def pool_cost_def)
next
  case (stops w)
  then show ?thesis using cost_update [of w "pl_workers p" Stopped] by (simp add: worker_stop_def pool_cost_def)
qed (simp_all add: close_drained_def close_return_def pool_cost_def)

lemma pool_progress:
  assumes inv: "pool_inv workers queue p" and sz: "0 < workers" "0 < queue"
    and busy: "pl_pending p \<noteq> [] \<or> pl_closer p = Draining \<or> pl_closer p = Stopping"
  shows "\<exists>p'. pool_step False p p'"
proof (cases "pl_inflight p = 0")
  case True
  then have c: "pl_closer p = Draining \<or> pl_closer p = Stopping" using busy nothing_inflight(1) [OF inv] by simp
  show ?thesis
  proof (cases "pl_closer p = Draining")
    case True then show ?thesis using pool_step.drained \<open>pl_inflight p = 0\<close> by blast
  next
    case False
    then have s: "pl_closer p = Stopping" "pl_done p" using c inv by (auto simp: pool_inv_def)
    show ?thesis
    proof (cases "set (pl_workers p) \<subseteq> {Stopped}")
      case True then show ?thesis using pool_step.closed s by blast
    next
      case False
      then obtain x where "x \<in> set (pl_workers p)" "x \<noteq> Stopped" by blast
      then obtain w where w: "w < length (pl_workers p)" "pl_workers p ! w \<noteq> Stopped" by (metis in_set_conv_nth)
      then show ?thesis
        using pool_step.stops [OF w(1) _ s(2)] pool_step.returns [OF w(1)] by (cases "pl_workers p ! w") blast+
    qed
  qed
next
  case False
  then have nd: "Stopped \<notin> set (pl_workers p)" using inv by (auto simp: pool_inv_def)
  have l: "0 < length (pl_workers p)" using inv sz by (simp add: pool_inv_def)
  then have w0: "pl_workers p ! 0 \<noteq> Stopped" using nd by (metis nth_mem)
  show ?thesis
  proof (cases "\<exists>w j. w < length (pl_workers p) \<and> pl_workers p ! w = Busy j")
    case True then show ?thesis using pool_step.returns by blast
  next
    case no: False
    then have idle: "pl_workers p ! 0 = Idle" using w0 l by (cases "pl_workers p ! 0") auto
    have "busy_jobs (pl_workers p) = []"
      using no by (auto simp: busy_jobs_def in_set_conv_nth split: worker.splits)
    then have q: "pl_queue p \<noteq> [] \<or> pl_pending p \<noteq> []" using False inv by (auto simp: pool_inv_def)
    show ?thesis
    proof (cases "pl_queue p")
      case Nil
      then obtain job where "job \<in> set (pl_pending p)" using q by (cases "pl_pending p") auto
      then show ?thesis using pool_step.sends [of job p] Nil sz inv by (auto simp: pool_inv_def)
    next
      case (Cons job rest)
      then show ?thesis using pool_step.takes [OF l idle Cons] by blast
    qed
  qed
qed

text \<open>The pool never stalls: while a submitter waits for room or \<open>Close\<close> has not returned, the pool has
  a step of its own, and each such step lowers a cost fixed by what is pending, queued, running and left to
  stop; so with jobs that return, every submission is decided and \<open>Close\<close> returns.\<close>

lemma pool_never_stalls:
  assumes "pool_reach workers queue p" "pl_pending p \<noteq> [] \<or> pl_closed p \<and> pl_closer p \<noteq> Closed"
  shows "(\<exists>p'. pool_step False p p') \<and> (\<forall>p'. pool_step False p p' \<longrightarrow> pool_cost p' < pool_cost p)"
proof -
  note inv = pool_reach_inv [OF assms(1)]
  have "pl_pending p \<noteq> [] \<or> pl_closer p = Draining \<or> pl_closer p = Stopping"
    using assms(2) inv(1) by (cases "pl_closer p") (auto simp: pool_inv_def)
  then have "\<exists>p'. pool_step False p p'" using inv by (intro pool_progress [OF inv(1)]) simp_all
  then show ?thesis using pool_step_cost by blast
qed

definition demo_pool :: pool where
  "demo_pool = close_begin (submit_send 7 (submit_accept 7 (the (New_pool 1 1))))"

lemma demo_pool_reach: "pool_reach 1 1 demo_pool"
proof -
  let ?p0 = "the (New_pool 1 1)" let ?p1 = "submit_accept 7 ?p0" let ?p2 = "submit_send 7 ?p1"
  have s: "pool_any ?p0 ?p1" "pool_any ?p2 demo_pool"
    using pool_step.submits pool_step.closes unfolding demo_pool_def pool_any_def by blast+
  have t: "pool_any ?p1 ?p2"
    using pool_step.sends [of 7 ?p1] by (auto simp: New_pool_def submit_accept_def pool_any_def)
  have "rtranclp pool_any ?p0 demo_pool"
    by (rule converse_rtranclp_into_rtranclp [of pool_any, OF s(1)], rule converse_rtranclp_into_rtranclp [of pool_any, OF t],
      rule r_into_rtranclp [of pool_any], rule s(2))
  then show ?thesis by (auto simp: pool_reach_def New_pool_def)
qed

theorem close_runs_every_accepted_job_witness:
  "accepted demo_pool = [7] \<and> mset (accepted demo_pool) = mset (pl_queue demo_pool) + mset (busy_jobs (pl_workers demo_pool)) + mset (pl_ran demo_pool)"
proof -
  have "accepted demo_pool = [7]" by code_simp
  then show ?thesis using close_runs_every_accepted_job [OF demo_pool_reach] by simp
qed

lemma pool_never_stalls_witness:
  "\<exists>p'. pool_step False demo_pool p' \<and> pool_cost p' < pool_cost demo_pool"
proof -
  have "pl_closed demo_pool \<and> pl_closer demo_pool \<noteq> Closed" by code_simp
  then show ?thesis using pool_never_stalls [OF demo_pool_reach] by blast
qed

end
