(* ===== verification/Mixer.thy ===== *)
theory Mixer
  imports Session VoiceQueue Track Floats
begin

text \<open>
  \<^verbatim>\<open>internal/core/pipeline/mix.go\<close>: the broadcast playout of one language, the bed ducked under the
  dubbed voice, with an independent cursor per sink. A cursor's mutex covers its whole pull. \<open>float64\<close>
  is the rationals; the rounding of the operations, the fused or unfused multiply-add the compiler may
  choose and the two functions of \<^verbatim>\<open>math\<close> are the argument \<open>fl\<close>. The reading of the clock is \<open>now\<close>.
\<close>

section \<open>State\<close>

record float_ops =
  fl_rnd :: "rat \<Rightarrow> rat"
  fl_muladd :: "rat \<Rightarrow> rat \<Rightarrow> rat \<Rightarrow> rat"
  fl_pow10 :: "rat \<Rightarrow> rat"
  fl_exp :: "rat \<Rightarrow> rat"

definition duckAttack :: duration where "duckAttack = 50 * millisecond"
definition duckRelease :: duration where "duckRelease = 300 * millisecond"
definition duckThresholdS16 :: int where "duckThresholdS16 = 328"

record mixer =
  m_bed :: track
  m_voice :: track
  m_group :: playoutGroup
  m_bedGain :: rat
  m_attack :: rat
  m_release :: rat
  m_muted :: bool

definition smoothing :: "float_ops \<Rightarrow> duration \<Rightarrow> rat" where
  "smoothing fl tau =
     (let r = fl_rnd fl;
          seconds = r (r (of_int (go_div tau second)) + r (r (of_int (go_mod tau second)) / 1000000000))
      in r (1 - fl_exp fl (r (- 1 / r (16000 * seconds)))))"

definition NewMixer :: "float_ops \<Rightarrow> track \<Rightarrow> track \<Rightarrow> bed_level \<Rightarrow> mixer" where
  "NewMixer fl bed voice bedDB =
     \<lparr>m_bed = bed, m_voice = voice, m_group = newPlayoutGroup,
      m_bedGain = (case bedDB of BedMuted \<Rightarrow> 0 | BedLevelDb x \<Rightarrow> fl_pow10 fl (fl_rnd fl (x / 20))),
      m_attack = smoothing fl duckAttack, m_release = smoothing fl duckRelease,
      m_muted = (bedDB = BedMuted)\<rparr>"

record mixCursor =
  mc_clock :: duration
  mc_gain :: rat
  mc_started :: bool
  mc_registered :: bool
  mc_accepted :: bool
  mc_released :: bool

definition new_cursor :: mixCursor where
  "new_cursor = \<lparr>mc_clock = 0, mc_gain = 1, mc_started = False, mc_registered = False, mc_accepted = False, mc_released = False\<rparr>"

section \<open>Operations of a cursor\<close>

definition mc_beginLocked :: "mixer \<times> mixCursor \<Rightarrow> bool \<times> mixer \<times> mixCursor" where
  "mc_beginLocked s =
     (case s of (m, c) \<Rightarrow>
        (case (if \<not> mc_registered c
               then (case group_acquire (m_group m) of (ok, g) \<Rightarrow>
                       (m\<lparr>m_group := g, m_voice := (if ok then acquirePlayout (m_voice m) else m_voice m)\<rparr>,
                        c\<lparr>mc_registered := True, mc_accepted := ok\<rparr>))
               else (m, c)) of
           (m', c') \<Rightarrow> (mc_accepted c' \<and> \<not> mc_released c', m', c')))"

text \<open>Releasing closes the group's channel at most once; closing it twice would panic (\<open>None\<close>).\<close>

definition mc_ReleasePlayout :: "mixer \<times> mixCursor \<Rightarrow> (mixer \<times> mixCursor) option" where
  "mc_ReleasePlayout s =
     (case s of (m, c) \<Rightarrow>
        if \<not> mc_registered c \<or> \<not> mc_accepted c \<or> mc_released c then Some (m, c)
        else (case group_release (m_group m) of
                None \<Rightarrow> None
              | Some g \<Rightarrow> Some (m\<lparr>m_voice := releasePlayout (m_voice m), m_group := g\<rparr>, c\<lparr>mc_released := True\<rparr>)))"

definition finiteEnd :: "mixer \<Rightarrow> duration option" where
  "finiteEnd m =
     (if \<not> t_finished (m_bed m) \<or> \<not> t_finished (m_voice m) then None
      else Some (max (track_end (m_bed m)) (track_end (m_voice m))))"

definition playoutStart :: "mixer \<Rightarrow> duration option" where
  "playoutStart m = Start (m_bed m)"

definition alignPlayoutClock :: "int \<Rightarrow> duration \<Rightarrow> nat \<Rightarrow> mixer \<Rightarrow> mixCursor \<Rightarrow> mixCursor" where
  "alignPlayoutClock now start n m c =
     (if mc_started c then c\<lparr>mc_clock := max (mc_clock c) start\<rparr>
      else c\<lparr>mc_clock := (case dueEdge now (m_bed m) of
                              None \<Rightarrow> start
                            | Some edge \<Rightarrow> max start (edge - durationFor (int n))),
             mc_started := True\<rparr>)"

definition mix_target :: "mixer \<Rightarrow> sample \<Rightarrow> rat \<times> rat" where
  "mix_target m v =
     (if sint v \<ge> duckThresholdS16 \<or> sint v \<le> - duckThresholdS16 then (m_bedGain m, m_attack m) else (1, m_release m))"

definition saturate :: "rat \<Rightarrow> sample" where
  "saturate x = (if x > 32767 then 32767 else if x < - 32768 then - 32768 else word_of_int (trunc_rat x))"

fun mix_loop :: "float_ops \<Rightarrow> mixer \<Rightarrow> rat \<Rightarrow> (sample \<times> sample) list \<Rightarrow> sample list \<times> rat" where
  "mix_loop fl m gain [] = ([], gain)"
| "mix_loop fl m gain ((b, v) # rest) =
     (case mix_target m v of (target, coeff) \<Rightarrow>
        let gain' = fl_muladd fl (fl_rnd fl (target - gain)) coeff gain;
            mixed = fl_muladd fl (of_int (sint b)) gain' (of_int (sint v))
        in (case mix_loop fl m gain' rest of (out, g) \<Rightarrow> (saturate mixed # out, g)))"

definition mixInto :: "float_ops \<Rightarrow> mixer \<Rightarrow> sample list \<Rightarrow> sample list \<Rightarrow> mixCursor \<Rightarrow> sample list \<times> mixCursor" where
  "mixInto fl m bed vox c =
     (if m_muted m then (vox, c)
      else (case mix_loop fl m (mc_gain c) (zip bed vox) of (out, g) \<Rightarrow> (out, c\<lparr>mc_gain := g\<rparr>)))"

definition render_window :: "float_ops \<Rightarrow> nat \<Rightarrow> mixer \<times> mixCursor \<Rightarrow> PCM \<times> mixer \<times> mixCursor" where
  "render_window fl n s =
     (case s of (m, c) \<Rightarrow>
        let m' = m\<lparr>m_voice := reserve (mc_clock c + durationFor (int n)) (m_voice m)\<rparr>;
            bed = Window (mc_clock c) n (m_bed m'); vox = Window (mc_clock c) n (m_voice m')
        in (case mixInto fl m' bed vox c of (out, c') \<Rightarrow> (\<lparr>Data = out, PTS = mc_clock c\<rparr>, m', c')))"

definition mc_NextInto :: "float_ops \<Rightarrow> int \<Rightarrow> nat \<Rightarrow> mixer \<times> mixCursor \<Rightarrow> PCM \<times> PullStatus \<times> mixer \<times> mixCursor" where
  "mc_NextInto fl now n s =
     (case mc_beginLocked s of (ok, m, c) \<Rightarrow>
        if \<not> ok then (no_pcm, PullEOF, m, c)
        else (case playoutStart m of
                None \<Rightarrow> (no_pcm, if finiteEnd m \<noteq> None then PullEOF else PullPending, m, c)
              | Some start \<Rightarrow>
                  let c1 = alignPlayoutClock now start n m c;
                      voiceEnd = (if t_finished (m_bed m) then track_end (m_voice m) else 0)
                  in if (case finiteEnd m of None \<Rightarrow> False | Some e \<Rightarrow> mc_clock c1 \<ge> e) then (no_pcm, PullEOF, m, c1)
                     else if \<not> ready now (mc_clock c1) n voiceEnd (m_bed m) then (no_pcm, PullPending, m, c1)
                     else (case render_window fl n (m, c1) of
                             (out, m', c') \<Rightarrow> (out, PullReady, m', c'\<lparr>mc_clock := mc_clock c' + durationFor (int n)\<rparr>))))"

text \<open>The part of \<open>WaitPlayout\<close> under the group's lock.\<close>

definition mixer_seal :: "mixer \<Rightarrow> mixer option" where
  "mixer_seal m = map_option (\<lambda>g. m\<lparr>m_group := g\<rparr>) (group_seal (m_group m))"

section \<open>A cursor keeps the playout contract\<close>

lemma Window_length: "length (Window from n t) = n"
  by (rule length_Window)

lemma mix_loop_length: "length (fst (mix_loop fl m gain bv)) = length bv"
  by (induction fl m gain bv rule: mix_loop.induct) (auto simp: Let_def split: prod.splits)

lemma mixInto_props:
  assumes "length bed = length vox" "mixInto fl m bed vox c = (out, c')"
  shows "length out = length vox" "mc_clock c' = mc_clock c" "mc_started c' = mc_started c"
    "mc_registered c' = mc_registered c" "mc_accepted c' = mc_accepted c" "mc_released c' = mc_released c"
  using assms mix_loop_length [of fl m "mc_gain c" "zip bed vox"]
  by (auto simp: mixInto_def split: if_splits prod.splits)

lemma mc_begin_cursor:
  assumes "mc_beginLocked (m, c) = (ok, m', c')"
  shows "mc_clock c' = mc_clock c" "mc_gain c' = mc_gain c" "mc_started c' = mc_started c" "mc_registered c'"
    "m_bed m' = m_bed m" "m_muted m' = m_muted m" "m_bedGain m' = m_bedGain m" "m_attack m' = m_attack m" "m_release m' = m_release m"
    "t_buf (m_voice m') = t_buf (m_voice m)" "t_base (m_voice m') = t_base (m_voice m)" "t_floor (m_voice m') = t_floor (m_voice m)"
  using assms by (auto simp: mc_beginLocked_def acquirePlayout_def split: if_splits prod.splits)

lemma render_window_props:
  assumes "render_window fl n (m, c) = (p, m', c')"
  shows "PTS p = mc_clock c" "length (Data p) = n" "m' = m\<lparr>m_voice := reserve (mc_clock c + durationFor (int n)) (m_voice m)\<rparr>"
    "mc_started c' = mc_started c" "mc_clock c' = mc_clock c"
    "mixInto fl m' (Window (mc_clock c) n (m_bed m')) (Window (mc_clock c) n (m_voice m')) c = (Data p, c')"
proof -
  let ?m = "m\<lparr>m_voice := reserve (mc_clock c + durationFor (int n)) (m_voice m)\<rparr>"
  obtain out c2 where o': "mixInto fl ?m (Window (mc_clock c) n (m_bed ?m)) (Window (mc_clock c) n (m_voice ?m)) c = (out, c2)"
    by fastforce
  then have e: "p = \<lparr>Data = out, PTS = mc_clock c\<rparr>" "m' = ?m" "c' = c2"
    using assms by (simp_all add: render_window_def Let_def)
  show "PTS p = mc_clock c" "m' = ?m" using e by simp_all
  show "mixInto fl m' (Window (mc_clock c) n (m_bed m')) (Window (mc_clock c) n (m_voice m')) c = (Data p, c')"
    unfolding e using o' by simp
  have "length (Window (mc_clock c) n (m_bed ?m)) = length (Window (mc_clock c) n (m_voice ?m))" by (simp only: Window_length)
  note i = mixInto_props [OF this o']
  show "length (Data p) = n" "mc_started c' = mc_started c" "mc_clock c' = mc_clock c"
    using i(1-3) e by (simp_all add: Window_length)
qed

text \<open>The three ways a pull ends.\<close>

lemma next_cases:
  assumes nx: "mc_NextInto fl now n (m, c) = (p, st, m', c')" and b: "mc_beginLocked (m, c) = (ok, m0, c0)"
  obtains (early) "st \<noteq> PullReady" "m' = m0" "c' = c0"
  | (aligned) start where "st \<noteq> PullReady" "m' = m0" "c' = alignPlayoutClock now start n m0 c0"
  | (ready) c1 start where "st = PullReady" "ok" "playoutStart m0 = Some start" "c1 = alignPlayoutClock now start n m0 c0"
      "ready now (mc_clock c1) n (if t_finished (m_bed m0) then track_end (m_voice m0) else 0) (m_bed m0)"
      "render_window fl n (m0, c1) = (p, m', c'\<lparr>mc_clock := mc_clock c1\<rparr>)" "mc_clock c' = mc_clock c1 + durationFor (int n)"
proof (cases ok)
  case False
  then have "mc_NextInto fl now n (m, c) = (no_pcm, PullEOF, m0, c0)" by (simp add: mc_NextInto_def b)
  then show ?thesis using nx early by simp
next
  case ok: True
  show ?thesis
  proof (cases "playoutStart m0")
    case None
    then have "mc_NextInto fl now n (m, c) = (no_pcm, if finiteEnd m0 \<noteq> None then PullEOF else PullPending, m0, c0)"
      using ok by (simp add: mc_NextInto_def b)
    then show ?thesis using nx early by (auto split: if_splits)
  next
    case (Some start)
    define c1 where "c1 = alignPlayoutClock now start n m0 c0"
    define past where "past = (case finiteEnd m0 of None \<Rightarrow> False | Some e \<Rightarrow> mc_clock c1 \<ge> e)"
    define rdy where "rdy = ready now (mc_clock c1) n (if t_finished (m_bed m0) then track_end (m_voice m0) else 0) (m_bed m0)"
    obtain out m1 c2 where r: "render_window fl n (m0, c1) = (out, m1, c2)" by (metis prod_cases3)
    have e: "mc_NextInto fl now n (m, c) =
        (if past then (no_pcm, PullEOF, m0, c1) else if \<not> rdy then (no_pcm, PullPending, m0, c1)
         else (out, PullReady, m1, c2\<lparr>mc_clock := mc_clock c2 + durationFor (int n)\<rparr>))"
      unfolding past_def rdy_def c1_def mc_NextInto_def b using ok Some r [unfolded c1_def] by (simp add: Let_def)
    note c2 = render_window_props(5) [OF r]
    show ?thesis
    proof (cases "past \<or> \<not> rdy")
      case True
      then have "st \<noteq> PullReady" "m' = m0" "c' = c1" using e nx by (auto split: if_splits)
      then show ?thesis using aligned c1_def by blast
    next
      case False
      then have f: "st = PullReady" "p = out" "m' = m1" "c' = c2\<lparr>mc_clock := mc_clock c2 + durationFor (int n)\<rparr>"
        using e nx by auto
      have g: "c'\<lparr>mc_clock := mc_clock c1\<rparr> = c2" using f(4) c2 by simp
      show ?thesis
        by (rule ready [OF f(1) ok Some c1_def]) (use False r f c2 g in \<open>simp_all add: rdy_def\<close>)
    qed
  qed
qed

definition mc_pts :: "int \<times> mixer \<times> mixCursor \<Rightarrow> duration option" where
  "mc_pts s = (case s of (now, m, c) \<Rightarrow> if mc_started c then Some (mc_clock c) else None)"

text \<open>Between its pulls everything but the cursor itself may change, the clock included.\<close>

definition mc_env :: "int \<times> mixer \<times> mixCursor \<Rightarrow> int \<times> mixer \<times> mixCursor \<Rightarrow> bool" where
  "mc_env s s' \<longleftrightarrow> snd (snd s') = snd (snd s)"

definition mc_pull :: "float_ops \<Rightarrow> nat \<Rightarrow> int \<times> mixer \<times> mixCursor \<Rightarrow> PCM \<times> PullStatus \<times> int \<times> mixer \<times> mixCursor" where
  "mc_pull fl n s = (case s of (now, mc) \<Rightarrow> case mc_NextInto fl now n mc of (p, st, mc') \<Rightarrow> (p, st, now, mc'))"

lemma align_props:
  "mc_started (alignPlayoutClock now start n m c)" "start \<le> mc_clock (alignPlayoutClock now start n m c)"
  "mc_started c \<Longrightarrow> mc_clock c \<le> mc_clock (alignPlayoutClock now start n m c)"
  by (auto simp: alignPlayoutClock_def split: option.split)

lemma next_pts_mono:
  assumes nx: "mc_NextInto fl now n (m, c) = (p, st, m', c')" and n: "int n \<le> max_samples"
  shows "mc_started c \<Longrightarrow> mc_started c' \<and> mc_clock c \<le> mc_clock c'"
proof -
  assume s: "mc_started c"
  have d: "0 \<le> durationFor (int n)" using n by (intro durationFor_nonneg) simp_all
  obtain ok m0 c0 where b: "mc_beginLocked (m, c) = (ok, m0, c0)" by (metis prod_cases3)
  have c0: "mc_started c0" "mc_clock c0 = mc_clock c" using mc_begin_cursor [OF b] s by simp_all
  show ?thesis
  proof (cases rule: next_cases [OF nx b])
    case 1
    then show ?thesis using c0 by simp
  next
    case (2 start)
    then show ?thesis using c0 align_props(1) [of now start n m0 c0] align_props(3) [of c0 now start n m0] by simp
  next
    case (3 c1 start)
    have "mc_clock c \<le> mc_clock c1" using align_props(3) [of c0 now start n m0] c0 3(4) by simp
    then show ?thesis using align_props(1) [of now start n m0 c0] render_window_props(4) [OF 3(6)] 3(4,7) d by simp
  qed
qed

interpretation mixed: playout_cursor "\<lambda>s. True" "mc_pull fl" mc_env mc_pts for fl
proof unfold_locales
  fix s s' :: "int \<times> mixer \<times> mixCursor"
  assume "mc_env s s'"
  then show "not_before (mc_pts s) (mc_pts s')" by (auto simp: mc_env_def mc_pts_def split: prod.splits)
next
  fix s n p st s' assume a: "int n \<le> max_samples" "mc_pull fl n s = (p, st, s')"
  obtain now m c where s: "s = (now, m, c)" by (metis prod_cases3)
  obtain m' c' where s': "s' = (now, m', c')" and nx: "mc_NextInto fl now n (m, c) = (p, st, m', c')"
    using a(2) by (auto simp: mc_pull_def s split: prod.splits)
  show "not_before (mc_pts s) (mc_pts s')" using next_pts_mono [OF nx a(1)] by (simp add: mc_pts_def s s')
next
  fix s n p s' assume "mc_pull fl n s = (p, PullReady, s')"
  then obtain now m c m' c' where nx: "mc_NextInto fl now n (m, c) = (p, PullReady, m', c')"
    by (cases s) (auto simp: mc_pull_def split: prod.splits)
  obtain ok m0 c0 where b: "mc_beginLocked (m, c) = (ok, m0, c0)" by (metis prod_cases3)
  show "length (Data p) = n"
    by (cases rule: next_cases [OF nx b]) (simp_all add: render_window_props(2))
next
  fix s n p s' assume a: "int n \<le> max_samples" "mc_pull fl n s = (p, PullReady, s')"
  obtain now m c where s: "s = (now, m, c)" by (metis prod_cases3)
  obtain m' c' where s': "s' = (now, m', c')" and nx: "mc_NextInto fl now n (m, c) = (p, PullReady, m', c')"
    using a(2) by (auto simp: mc_pull_def s split: prod.splits)
  have d: "0 \<le> durationFor (int n)" using a(1) by (intro durationFor_nonneg) simp_all
  obtain ok m0 c0 where b: "mc_beginLocked (m, c) = (ok, m0, c0)" by (metis prod_cases3)
  show "not_before (mc_pts s) (Some (PTS p)) \<and> not_before (Some (PTS p)) (mc_pts s')"
  proof (cases rule: next_cases [OF nx b])
    case (3 c1 start)
    note w = render_window_props [OF 3(6)]
    have "mc_started c'" using w(4) align_props(1) 3(4) by simp
    moreover have "mc_started c \<Longrightarrow> mc_clock c \<le> PTS p"
      using mc_begin_cursor [OF b] align_props(3) [of c0 now start n m0] w(1) 3(4) by simp
    ultimately show ?thesis using w(1) 3(7) d by (simp add: mc_pts_def s s')
  qed simp_all
qed simp_all
section \<open>The cursors of one mixer\<close>

text \<open>
  The sinks of a language share its mixer. Between two operations of its cursors the bed may change in
  any way, the voice by an append or the end of the session.
\<close>

datatype mixer_op =
    MixCursor
  | MixBegin nat
  | MixNext nat int nat
  | MixRelease nat
  | MixSeal
  | MixBed track
  | MixVoice int duration "sample list"
  | MixFinish

definition on_cursor :: "nat \<Rightarrow> (mixer \<times> mixCursor \<Rightarrow> (mixer \<times> mixCursor) option) \<Rightarrow> mixer \<times> mixCursor list \<Rightarrow> (mixer \<times> mixCursor list) option" where
  "on_cursor i f s =
     (case s of (m, cs) \<Rightarrow>
        if i < length cs then map_option (\<lambda>(m', c'). (m', cs[i := c'])) (f (m, cs ! i)) else Some (m, cs))"

fun mixer_step :: "float_ops \<Rightarrow> mixer_op \<Rightarrow> mixer \<times> mixCursor list \<Rightarrow> (mixer \<times> mixCursor list) option" where
  "mixer_step fl MixCursor s = Some (fst s, snd s @ [new_cursor])"
| "mixer_step fl (MixBegin i) s = on_cursor i (\<lambda>mc. Some (snd (mc_beginLocked mc))) s"
| "mixer_step fl (MixNext i now n) s = on_cursor i (\<lambda>mc. Some (snd (snd (mc_NextInto fl now n mc)))) s"
| "mixer_step fl (MixRelease i) s = on_cursor i mc_ReleasePlayout s"
| "mixer_step fl MixSeal s = map_option (\<lambda>m. (m, snd s)) (mixer_seal (fst s))"
| "mixer_step fl (MixBed t) s = Some ((fst s)\<lparr>m_bed := t\<rparr>, snd s)"
| "mixer_step fl (MixVoice now pos samples) s = Some ((fst s)\<lparr>m_voice := snd (Append now pos samples (m_voice (fst s)))\<rparr>, snd s)"
| "mixer_step fl MixFinish s = Some ((fst s)\<lparr>m_voice := Finish (m_voice (fst s))\<rparr>, snd s)"

fun mixer_run :: "float_ops \<Rightarrow> mixer_op list \<Rightarrow> mixer \<times> mixCursor list \<Rightarrow> (mixer \<times> mixCursor list) option" where
  "mixer_run fl [] s = Some s"
| "mixer_run fl (x # xs) s = Option.bind (mixer_step fl x s) (mixer_run fl xs)"

definition mc_live :: "mixCursor \<Rightarrow> bool" where
  "mc_live c \<longleftrightarrow> mc_registered c \<and> mc_accepted c \<and> \<not> mc_released c"

definition mc_ok :: "mixCursor \<Rightarrow> bool" where
  "mc_ok c \<longleftrightarrow> (mc_accepted c \<longrightarrow> mc_registered c) \<and> (mc_released c \<longrightarrow> mc_accepted c)"

definition live_count :: "mixCursor list \<Rightarrow> nat" where
  "live_count cs = length (filter mc_live cs)"

definition mixer_inv :: "mixer \<times> mixCursor list \<Rightarrow> bool" where
  "mixer_inv s \<longleftrightarrow> list_all mc_ok (snd s) \<and> group_inv (live_count (snd s)) (m_group (fst s)) \<and>
     t_consumers (m_voice (fst s)) = int (live_count (snd s))"

lemma live_count_update:
  "i < length cs \<Longrightarrow> live_count (cs[i := c]) + of_bool (mc_live (cs ! i)) = live_count cs + of_bool (mc_live c)"
proof (induction cs arbitrary: i)
  case (Cons x xs)
  then show ?case by (cases i) (auto simp: live_count_def)
qed simp

text \<open>What an operation on one cursor must do to keep the counts right.\<close>

definition keeps_count :: "(mixer \<times> mixCursor \<Rightarrow> (mixer \<times> mixCursor) option) \<Rightarrow> bool" where
  "keeps_count f \<longleftrightarrow> (\<forall>m c k. mc_ok c \<longrightarrow> group_inv (k + of_bool (mc_live c)) (m_group m) \<longrightarrow>
     t_consumers (m_voice m) = int (k + of_bool (mc_live c)) \<longrightarrow>
     (\<exists>m' c'. f (m, c) = Some (m', c') \<and> mc_ok c' \<and> group_inv (k + of_bool (mc_live c')) (m_group m') \<and>
        t_consumers (m_voice m') = int (k + of_bool (mc_live c'))))"

lemma on_cursor_inv:
  assumes k: "keeps_count f" and inv: "mixer_inv s"
  shows "\<exists>s'. on_cursor i f s = Some s' \<and> mixer_inv s'"
proof (cases s)
  case (Pair m cs)
  show ?thesis
  proof (cases "i < length cs")
    case False
    then show ?thesis using inv by (simp add: on_cursor_def Pair)
  next
    case i: True
    obtain j where j: "live_count cs = j + of_bool (mc_live (cs ! i))"
    proof
      have "\<not> mc_live new_cursor" by (simp add: mc_live_def new_cursor_def)
      then show "live_count cs = live_count (cs[i := new_cursor]) + of_bool (mc_live (cs ! i))"
        using live_count_update [OF i, of new_cursor] by simp
    qed
    have ok: "mc_ok (cs ! i)" using inv i by (simp add: mixer_inv_def Pair list_all_length)
    obtain m' c' where f: "f (m, cs ! i) = Some (m', c')" "mc_ok c'"
        "group_inv (j + of_bool (mc_live c')) (m_group m')" "t_consumers (m_voice m') = int (j + of_bool (mc_live c'))"
      using k ok inv j unfolding keeps_count_def mixer_inv_def Pair by (metis fst_conv snd_conv)
    have "live_count (cs[i := c']) = j + of_bool (mc_live c')" using live_count_update [OF i, of c'] j by simp
    moreover have "list_all mc_ok (cs[i := c'])"
    proof -
      have "set (cs[i := c']) \<subseteq> insert c' (set cs)" by (rule set_update_subset_insert)
      then show ?thesis using inv f(2) by (auto simp: mixer_inv_def Pair list_all_iff)
    qed
    ultimately show ?thesis using f i by (simp add: on_cursor_def Pair mixer_inv_def)
  qed
qed

lemma begin_keeps_count: "keeps_count (\<lambda>mc. Some (snd (mc_beginLocked mc)))"
  unfolding keeps_count_def
proof (intro allI impI)
  fix m :: mixer and c k
  assume a: "mc_ok c" "group_inv (k + of_bool (mc_live c)) (m_group m)" "t_consumers (m_voice m) = int (k + of_bool (mc_live c))"
  obtain ok g where g: "group_acquire (m_group m) = (ok, g)" by fastforce
  show "\<exists>m' c'. Some (snd (mc_beginLocked (m, c))) = Some (m', c') \<and> mc_ok c' \<and>
      group_inv (k + of_bool (mc_live c')) (m_group m') \<and> t_consumers (m_voice m') = int (k + of_bool (mc_live c'))"
  proof (cases "mc_registered c")
    case True
    then show ?thesis using a by (simp add: mc_beginLocked_def)
  next
    case False
    then have d: "\<not> mc_live c" "\<not> mc_accepted c" "\<not> mc_released c" using a(1) by (auto simp: mc_live_def mc_ok_def)
    show ?thesis
      using a d False g group_acquire_inv [OF _ g, of k]
      by (cases ok) (simp_all add: mc_beginLocked_def acquirePlayout_def mc_live_def mc_ok_def)
  qed
qed

lemma release_keeps_count: "keeps_count mc_ReleasePlayout"
  unfolding keeps_count_def
proof (intro allI impI)
  fix m :: mixer and c k
  assume a: "mc_ok c" "group_inv (k + of_bool (mc_live c)) (m_group m)" "t_consumers (m_voice m) = int (k + of_bool (mc_live c))"
  show "\<exists>m' c'. mc_ReleasePlayout (m, c) = Some (m', c') \<and> mc_ok c' \<and>
      group_inv (k + of_bool (mc_live c')) (m_group m') \<and> t_consumers (m_voice m') = int (k + of_bool (mc_live c'))"
  proof (cases "mc_live c")
    case False
    then show ?thesis using a by (auto simp: mc_ReleasePlayout_def mc_live_def)
  next
    case True
    then obtain g where "group_release (m_group m) = Some g" "group_inv k g"
      using a(2) group_release_inv [of k "m_group m"] by auto
    then show ?thesis using a True by (simp add: mc_ReleasePlayout_def releasePlayout_def mc_live_def mc_ok_def)
  qed
qed

lemma next_keeps_count: "keeps_count (\<lambda>mc. Some (snd (snd (mc_NextInto fl now n mc))))"
  unfolding keeps_count_def
proof (intro allI impI)
  fix m :: mixer and c k
  assume a: "mc_ok c" "group_inv (k + of_bool (mc_live c)) (m_group m)" "t_consumers (m_voice m) = int (k + of_bool (mc_live c))"
  obtain p st m' c' where nx: "mc_NextInto fl now n (m, c) = (p, st, m', c')" by (metis prod_cases4)
  obtain ok m0 c0 where b: "mc_beginLocked (m, c) = (ok, m0, c0)" by (metis prod_cases3)
  have i: "mc_ok c0 \<and> group_inv (k + of_bool (mc_live c0)) (m_group m0) \<and> t_consumers (m_voice m0) = int (k + of_bool (mc_live c0))"
    using begin_keeps_count [unfolded keeps_count_def] a b by fastforce
  have al: "mc_ok (alignPlayoutClock now start n m0 c0) = mc_ok c0" "mc_live (alignPlayoutClock now start n m0 c0) = mc_live c0" for start
    by (simp_all add: alignPlayoutClock_def mc_ok_def mc_live_def)
  have "mc_ok c' \<and> group_inv (k + of_bool (mc_live c')) (m_group m') \<and> t_consumers (m_voice m') = int (k + of_bool (mc_live c'))"
  proof (cases rule: next_cases [OF nx b])
    case 1
    then show ?thesis using i by simp
  next
    case (2 start)
    then show ?thesis using i al by simp
  next
    case (3 c1 start)
    note w = render_window_props [OF 3(6)]
    have "mc_ok c' = mc_ok c1" "mc_live c' = mc_live c1"
      using mixInto_props(4-6) [OF _ w(6)] by (simp_all add: mc_ok_def mc_live_def)
    then show ?thesis using i al 3(4) w(3) by simp
  qed
  then show "\<exists>m' c'. Some (snd (snd (mc_NextInto fl now n (m, c)))) = Some (m', c') \<and> mc_ok c' \<and>
      group_inv (k + of_bool (mc_live c')) (m_group m') \<and> t_consumers (m_voice m') = int (k + of_bool (mc_live c'))"
    by (simp add: nx)
qed

lemma Append_consumers: "t_consumers (snd (Append now pos samples t)) = t_consumers t"
  by (simp add: Append_raw)

lemma mixer_step_inv: "mixer_inv s \<Longrightarrow> \<exists>s'. mixer_step fl x s = Some s' \<and> mixer_inv s'"
proof (cases x)
  case MixCursor
  then show "mixer_inv s \<Longrightarrow> ?thesis"
    by (auto simp: mixer_inv_def live_count_def mc_live_def mc_ok_def new_cursor_def)
next
  case MixSeal
  assume inv: "mixer_inv s"
  obtain g where "group_seal (m_group (fst s)) = Some g" "group_inv (live_count (snd s)) g"
    using group_seal_inv inv unfolding mixer_inv_def by blast
  then show ?thesis using inv MixSeal by (simp add: mixer_seal_def mixer_inv_def)
qed (simp_all only: mixer_step.simps on_cursor_inv begin_keeps_count release_keeps_count next_keeps_count,
     simp_all add: mixer_inv_def Append_consumers Finish_def)

lemma mixer_run_inv: "mixer_inv s \<Longrightarrow> \<exists>s'. mixer_run fl xs s = Some s' \<and> mixer_inv s'"
proof (induction xs arbitrary: s)
  case (Cons x xs)
  then show ?case using mixer_step_inv [of s fl x] by fastforce
qed simp
section \<open>What the mix is\<close>

text \<open>
  What the lemmas use of the arithmetic: the difference of equal numbers is zero, a zero correction leaves
  the gain alone, and a multiply-add of small integers is exact whether fused or not.
\<close>

definition exact_on_integers :: "float_ops \<Rightarrow> bool" where
  "exact_on_integers fl \<longleftrightarrow> fl_rnd fl 0 = 0 \<and> (\<forall>k g. fl_muladd fl 0 k g = g) \<and>
     (\<forall>a b. \<bar>a\<bar> \<le> 65536 \<longrightarrow> \<bar>b\<bar> \<le> 65536 \<longrightarrow> fl_muladd fl (of_int a) 1 (of_int b) = of_int (a + b))"

definition quiet :: "sample \<Rightarrow> bool" where
  "quiet v \<longleftrightarrow> - 328 < sint v \<and> sint v < 328"

definition add_sat :: "sample \<Rightarrow> sample \<Rightarrow> sample" where
  "add_sat b v = word_of_int (max (- 32768) (min 32767 (sint b + sint v)))"

lemma sample_range: "- 32768 \<le> sint (v :: sample)" "sint (v :: sample) \<le> 32767"
  using sint_range_size [of v] by (simp_all add: word_size)

lemma saturate_int: "saturate (of_int k) = word_of_int (max (- 32768) (min 32767 k))"
proof -
  have "(of_int k > (32767 :: rat)) = (k > 32767)" "(of_int k < (- 32768 :: rat)) = (k < - 32768)"
    by linarith+
  then show ?thesis by (auto simp: saturate_def trunc_rat_def)
qed

lemma mix_quiet:
  assumes fl: "exact_on_integers fl"
  shows "list_all (\<lambda>(b, v). quiet v) bv \<Longrightarrow> mix_loop fl m 1 bv = (map (\<lambda>(b, v). add_sat b v) bv, 1)"
proof (induction bv)
  case (Cons x bv)
  obtain b v where x: "x = (b, v)" by fastforce
  have q: "mix_target m v = (1, m_release m)" using Cons.prems by (simp add: x mix_target_def quiet_def duckThresholdS16_def)
  have "fl_muladd fl (of_int (sint b)) 1 (of_int (sint v)) = of_int (sint b + sint v)"
  proof -
    have "\<bar>sint b\<bar> \<le> 65536" "\<bar>sint v\<bar> \<le> 65536"
      using sample_range [of b] sample_range [of v] by linarith+
    then show ?thesis using fl unfolding exact_on_integers_def by blast
  qed
  moreover have "fl_muladd fl (fl_rnd fl (1 - 1)) (m_release m) 1 = 1" using fl by (simp add: exact_on_integers_def)
  moreover have "mix_loop fl m 1 bv = (map (\<lambda>(b, v). add_sat b v) bv, 1)" using Cons by simp
  moreover have "saturate (of_int (sint b + sint v)) = add_sat b v" by (simp only: saturate_int add_sat_def)
  ultimately show ?case by (simp add: x q Let_def del: of_int_add)
qed simp

lemma add_sat_0: "add_sat b 0 = b"
  using sample_range [of b] by (simp add: add_sat_def)

section \<open>Properties\<close>

text \<open>C11: once a window has been played, dubbed audio that arrives later is placed behind it and
  leaves the voice in it as it was rendered.\<close>

theorem mixed_window_is_final:
  assumes "mc_NextInto fl now n (m, c) = (p, PullReady, m', c')" and "int n \<le> max_samples"
    and "track_inv (m_voice m')" and "fits pos samples (m_voice m')"
    and "Append now' pos samples (m_voice m') = (placed, t')"
    and "PTS p - t_base (m_voice m') \<le> max_span" "t_base t' - PTS p \<le> max_span"
    and "t_buf (m_voice m') = None \<or> t_base t' \<le> PTS p"
  shows "Window (PTS p) n t' = Window (PTS p) n (m_voice m') \<and> PTS p + durationFor (int n) < placed + 62500"
proof -
  obtain ok m0 c0 where b: "mc_beginLocked (m, c) = (ok, m0, c0)" by (metis prod_cases3)
  have r: "PTS p + durationFor (int n) \<le> t_floor (m_voice m')"
  proof (cases rule: next_cases [OF assms(1) b])
    case (3 c1 start)
    then show ?thesis using render_window_props(1,3) [OF 3(6)] by simp
  qed simp_all
  show ?thesis
  proof
    show "Window (PTS p) n t' = Window (PTS p) n (m_voice m')"
      by (rule Window_final [OF assms(3,2,4,5) r assms(6-8)])
    show "PTS p + durationFor (int n) < placed + 62500"
      using Append_not_early [OF assms(4,5,3)] r by linarith
  qed
qed

definition plain_floats :: float_ops where
  "plain_floats = \<lparr>fl_rnd = (\<lambda>x. x), fl_muladd = (\<lambda>a b c. a * b + c), fl_pow10 = (\<lambda>x. 1 / 4), fl_exp = (\<lambda>x. 1 / 2)\<rparr>"

definition bed_and_voice :: "mixer \<times> mixCursor" where
  "bed_and_voice =
     (NewMixer plain_floats (NewTrack\<lparr>t_buf := Some [5, 6, 7]\<rparr>) (NewTrack\<lparr>t_buf := Some [300, - 300]\<rparr>) (BedLevelDb (- 15)),
      new_cursor)"

lemma plain_floats_exact: "exact_on_integers plain_floats"
  by (simp add: exact_on_integers_def plain_floats_def)

lemma bed_and_voice_pull:
  "\<exists>m' c'. mc_NextInto plain_floats 0 2 bed_and_voice = (\<lparr>Data = [305, - 294], PTS = 0\<rparr>, PullReady, m', c') \<and>
     m_voice m' = NewTrack\<lparr>t_buf := Some [300, - 300], t_consumers := 1, t_floor := 125000\<rparr>"
proof -
  let ?r = "mc_NextInto plain_floats 0 2 bed_and_voice"
  have "fst ?r = \<lparr>Data = [305, - 294], PTS = 0\<rparr>" "fst (snd ?r) = PullReady"
    "m_voice (fst (snd (snd ?r))) = NewTrack\<lparr>t_buf := Some [300, - 300], t_consumers := 1, t_floor := 125000\<rparr>"
    by code_simp+
  then show ?thesis by (metis prod.collapse)
qed

theorem mixed_window_is_final_witness:
  "\<exists>m' c'. mc_NextInto plain_floats 0 2 bed_and_voice = (\<lparr>Data = [305, - 294], PTS = 0\<rparr>, PullReady, m', c') \<and>
     Window 0 2 (snd (Append 0 0 [9] (m_voice m'))) = Window 0 2 (m_voice m')"
proof -
  obtain m' c' where p: "mc_NextInto plain_floats 0 2 bed_and_voice = (\<lparr>Data = [305, - 294], PTS = 0\<rparr>, PullReady, m', c')"
    and v: "m_voice m' = NewTrack\<lparr>t_buf := Some [300, - 300], t_consumers := 1, t_floor := 125000\<rparr>"
    using bed_and_voice_pull by blast
  let ?t = "NewTrack\<lparr>t_buf := Some [300, - 300], t_consumers := 1, t_floor := 125000\<rparr>"
  have pre: "int 2 \<le> max_samples" "track_inv ?t" "fits 0 [9] ?t" "t_base ?t = 0" "t_base (snd (Append 0 0 [9] ?t)) = 0" "max_span \<ge> 0"
    by code_simp+
  have "Append 0 0 [9] ?t = (fst (Append 0 0 [9] ?t), snd (Append 0 0 [9] ?t))" by simp
  from mixed_window_is_final [OF p [unfolded bed_and_voice_def] pre(1), unfolded v, OF pre(2,3) this] pre(4-6)
  show ?thesis using p v by auto
qed

text \<open>With the bed muted a window is the voice; before anybody has spoken it is the saturating
  sum of both, so a silent voice leaves the bed bit for bit.\<close>

lemma mix_of_bed_and_voice:
  assumes "mc_NextInto fl now n (m, c) = (p, PullReady, m', c')"
  shows "(m_muted m \<longrightarrow> Data p = Window (PTS p) n (m_voice m')) \<and>
    (\<not> m_muted m \<longrightarrow> exact_on_integers fl \<longrightarrow> mc_gain c = 1 \<longrightarrow> list_all quiet (Window (PTS p) n (m_voice m')) \<longrightarrow>
       Data p = map2 add_sat (Window (PTS p) n (m_bed m)) (Window (PTS p) n (m_voice m')) \<and> mc_gain c' = 1) \<and>
    (\<not> m_muted m \<longrightarrow> exact_on_integers fl \<longrightarrow> mc_gain c = 1 \<longrightarrow> Window (PTS p) n (m_voice m') = replicate n 0 \<longrightarrow>
       Data p = Window (PTS p) n (m_bed m) \<and> mc_gain c' = 1)"
    (is "(_ \<longrightarrow> ?A) \<and> ?B \<and> (_ \<longrightarrow> _ \<longrightarrow> _ \<longrightarrow> _ \<longrightarrow> ?C)")
proof -
  obtain ok m0 c0 where b: "mc_beginLocked (m, c) = (ok, m0, c0)" by (metis prod_cases3)
  note frame = mc_begin_cursor [OF b]
  show ?thesis
  proof (cases rule: next_cases [OF assms b])
    case (3 c1 start)
    note w = render_window_props [OF 3(6)]
    have bed: "m_bed m' = m_bed m" and mu: "m_muted m' = m_muted m" using w(3) frame by simp_all
    have g1: "mc_gain c1 = mc_gain c" using 3(4) frame(2) by (simp add: alignPlayoutClock_def)
    have cl: "mc_clock c1 = PTS p" using w(1) by simp
    have mix: "mixInto fl m' (Window (PTS p) n (m_bed m)) (Window (PTS p) n (m_voice m')) c1 = (Data p, c'\<lparr>mc_clock := mc_clock c1\<rparr>)"
      using w(6) bed cl by simp
    have A: "m_muted m \<longrightarrow> ?A" using mix mu by (auto simp: mixInto_def)
    have B: ?B
    proof (intro impI)
      assume h: "\<not> m_muted m" "exact_on_integers fl" "mc_gain c = 1" "list_all quiet (Window (PTS p) n (m_voice m'))"
      let ?bv = "zip (Window (PTS p) n (m_bed m)) (Window (PTS p) n (m_voice m'))"
      have "list_all (\<lambda>(b, v). quiet v) ?bv" using h(4) by (auto simp: list_all_iff dest: set_zip_rightD)
      from mix_quiet [OF h(2) this] have "mixInto fl m' (Window (PTS p) n (m_bed m)) (Window (PTS p) n (m_voice m')) c1
          = (map (\<lambda>(b, v). add_sat b v) ?bv, c1\<lparr>mc_gain := 1\<rparr>)"
        using h(1,3) mu g1 by (simp add: mixInto_def)
      with mix have e: "Data p = map (\<lambda>(b, v). add_sat b v) ?bv" "c'\<lparr>mc_clock := mc_clock c1\<rparr> = c1\<lparr>mc_gain := 1\<rparr>" by simp_all
      from arg_cong [OF e(2), of mc_gain] e(1)
      show "Data p = map2 add_sat (Window (PTS p) n (m_bed m)) (Window (PTS p) n (m_voice m')) \<and> mc_gain c' = 1" by simp
    qed
    have C: ?C if h: "\<not> m_muted m" "exact_on_integers fl" "mc_gain c = 1" "Window (PTS p) n (m_voice m') = replicate n 0"
    proof -
      have "list_all quiet (Window (PTS p) n (m_voice m'))" by (simp add: h(4) list_all_length quiet_def)
      with B h(1-3) have "Data p = map2 add_sat (Window (PTS p) n (m_bed m)) (replicate n 0)" "mc_gain c' = 1"
        unfolding h(4) by blast+
      moreover have "map2 add_sat xs (replicate n 0) = xs" if "length xs = n" for xs
        by (rule nth_equalityI) (use that in \<open>simp_all add: add_sat_0\<close>)
      ultimately show ?thesis by (simp add: Window_length)
    qed
    show ?thesis using A B C by blast
  qed simp_all
qed

lemma mix_of_bed_and_voice_witness:
  "\<exists>m' c'. mc_NextInto plain_floats 0 2 bed_and_voice = (\<lparr>Data = [305, - 294], PTS = 0\<rparr>, PullReady, m', c') \<and>
     [305, - 294] = map2 add_sat (Window 0 2 (m_bed (fst bed_and_voice))) (Window 0 2 (m_voice m')) \<and> mc_gain c' = 1"
proof -
  obtain m' c' where p: "mc_NextInto plain_floats 0 2 bed_and_voice = (\<lparr>Data = [305, - 294], PTS = 0\<rparr>, PullReady, m', c')"
    and v: "m_voice m' = NewTrack\<lparr>t_buf := Some [300, - 300], t_consumers := 1, t_floor := 125000\<rparr>"
    using bed_and_voice_pull by blast
  have pre: "\<not> m_muted (fst bed_and_voice)" "mc_gain (snd bed_and_voice) = 1"
    "list_all quiet (Window 0 2 (NewTrack\<lparr>t_buf := Some [300, - 300], t_consumers := 1, t_floor := 125000\<rparr>))"
    by code_simp+
  obtain m c where e: "bed_and_voice = (m, c)" by fastforce
  from mix_of_bed_and_voice [OF p [unfolded e]]
  have "[305, - 294] = map2 add_sat (Window 0 2 (m_bed m)) (Window 0 2 (m_voice m')) \<and> mc_gain c' = 1"
    using pre plain_floats_exact by (simp add: e v)
  then show ?thesis using p by (simp add: e)
qed

text \<open>Every schedule of begins, pulls, releases and the final seal, with audio arriving in
  between, keeps the group's count and the voice's fence equal to the cursors that are playing, and
  never closes the group's channel twice.\<close>

lemma mixer_never_panics:
  assumes "t_consumers voice = 0"
  shows "\<exists>s'. mixer_run fl ops (NewMixer fl bed voice db, []) = Some s' \<and> mixer_inv s'"
proof (rule mixer_run_inv)
  show "mixer_inv (NewMixer fl bed voice db, [])"
    using assms group_inv_new by (simp add: mixer_inv_def NewMixer_def live_count_def)
qed

lemma mixer_never_panics_witness:
  "\<exists>s'. mixer_run plain_floats [MixCursor, MixNext 0 0 2, MixSeal, MixRelease 0, MixRelease 0]
     (NewMixer plain_floats NewTrack NewTrack BedMuted, []) = Some s' \<and> mixer_inv s'"
  by (rule mixer_never_panics) (simp add: NewTrack_def)

text \<open>The timestamps of one mixer cursor's ready windows never decrease, whatever happens to the
  tracks, the clock and the other cursors between its pulls.\<close>

lemma mixed_pts_never_decrease:
  assumes "playout_cursor.legal (mc_pull fl) mc_env s es"
  shows "sorted (map PTS (playout_cursor.ready_windows (mc_pull fl) s es))"
  using assms by (rule mixed.pts_never_decreases [OF TrueI])

lemma mixed_pts_never_decrease_witness:
  "sorted (map PTS (playout_cursor.ready_windows (mc_pull plain_floats) (0, bed_and_voice) [Pull 2, Pull 1]))"
proof (rule mixed_pts_never_decrease)
  show "playout_cursor.legal (mc_pull plain_floats) mc_env (0, bed_and_voice) [Pull 2, Pull 1]"
    by (simp add: max_samples_def)
qed

end
