(* ===== verification/DeviceUrl.thy ===== *)
theory DeviceUrl
  imports Prelude
begin

text \<open>
  \<^verbatim>\<open>internal/media/deviceurl/deviceurl.go\<close>: the \<open>device://\<close> grammar, with the query escaping of
  \<^verbatim>\<open>net/url\<close> it relies on. A label comes out of percent-decoding, so it is a string of any bytes.
\<close>

section \<open>Query escaping\<close>

definition unreserved :: "byte \<Rightarrow> bool" where
  "unreserved b \<longleftrightarrow> (97 \<le> uint b \<and> uint b \<le> 122) \<or> (65 \<le> uint b \<and> uint b \<le> 90) \<or> (48 \<le> uint b \<and> uint b \<le> 57) \<or>
     uint b \<in> {45, 95, 46, 126}"

definition hex_digit :: "int \<Rightarrow> rune" where
  "hex_digit d = (if d < 10 then 48 + d else 55 + d)"

definition escape_byte :: "byte \<Rightarrow> gostr" where
  "escape_byte b =
     (if unreserved b then [uint b] else if uint b = 32 then [43] else [37, hex_digit (uint b div 16), hex_digit (uint b mod 16)])"

definition QueryEscape :: "byte list \<Rightarrow> gostr" where
  "QueryEscape bs = concat (map escape_byte bs)"

definition unhex :: "byte \<Rightarrow> int option" where
  "unhex b =
     (if 48 \<le> uint b \<and> uint b \<le> 57 then Some (uint b - 48)
      else if 97 \<le> uint b \<and> uint b \<le> 102 then Some (uint b - 87)
      else if 65 \<le> uint b \<and> uint b \<le> 70 then Some (uint b - 55) else None)"

fun unescape :: "byte list \<Rightarrow> byte list option" where
  "unescape [] = Some []"
| "unescape (b # bs) =
     (if uint b = 37
      then (case bs of
              h # l # rest \<Rightarrow>
                (case (unhex h, unhex l) of
                   (Some x, Some y) \<Rightarrow> map_option ((#) (word_of_int (16 * x + y))) (unescape rest)
                 | _ \<Rightarrow> None)
            | _ \<Rightarrow> None)
      else map_option ((#) (if uint b = 43 then 32 else b)) (unescape bs))"

text \<open>\<open>url.ParseQuery\<close>: every pair is read, \<open>None\<close> when any of them is malformed.\<close>

fun parse_pairs :: "gostr list \<Rightarrow> (byte list \<times> byte list) list option" where
  "parse_pairs [] = Some []"
| "parse_pairs (p # ps) =
     (if 59 \<in> set p then None
      else if p = [] then parse_pairs ps
      else (case str_cut p [61] of (k, v, _) \<Rightarrow>
              (case (unescape (utf8 k), unescape (utf8 v)) of
                 (Some k', Some v') \<Rightarrow> map_option ((#) (k', v')) (parse_pairs ps)
               | _ \<Rightarrow> None)))"

definition ParseQuery :: "gostr \<Rightarrow> (byte list \<times> byte list) list option" where
  "ParseQuery q = parse_pairs (str_split 38 q)"

definition query_get :: "(byte list \<times> byte list) list \<Rightarrow> byte list \<Rightarrow> byte list" where
  "query_get values key = (case map_of values key of None \<Rightarrow> [] | Some v \<Rightarrow> v)"

section \<open>Device URLs\<close>

definition Scheme :: gostr where "Scheme = str ''device://''"
definition labelKey :: gostr where "labelKey = str ''label''"

datatype dev_kind = Audio | Video | AV

definition kind_text :: "dev_kind \<Rightarrow> gostr" where
  "kind_text k = (case k of Audio \<Rightarrow> str ''audio'' | Video \<Rightarrow> str ''video'' | AV \<Rightarrow> str ''av'')"

definition NativeVideo :: gostr where "NativeVideo = Scheme @ kind_text Video @ str ''/prukka''"

definition known_kind :: "gostr \<Rightarrow> dev_kind option" where
  "known_kind k =
     (if k = kind_text Audio then Some Audio else if k = kind_text Video then Some Video
      else if k = kind_text AV then Some AV else None)"

record dev_ref =
  ref_Kind :: dev_kind
  ref_ID :: gostr
  ref_Label :: "byte list"

datatype dev_error = ShapeError gostr | UnknownKind gostr gostr | EmptyID gostr | PairError gostr

definition ParseDevice :: "gostr \<Rightarrow> dev_error + dev_ref" where
  "ParseDevice raw =
     (if \<not> has_prefix raw Scheme then Inl (ShapeError raw)
      else case str_cut (drop (length Scheme) raw) (str ''/'') of (kind, dev, found) \<Rightarrow>
        if \<not> found \<or> kind = [] \<or> dev = [] then Inl (ShapeError raw)
        else (case known_kind kind of
                None \<Rightarrow> Inl (UnknownKind raw kind)
              | Some k \<Rightarrow>
                  (case str_cut dev (str ''?'') of (bare, query, tagged) \<Rightarrow>
                     let dev' = (if tagged then bare else dev);
                         label = (if tagged then (case ParseQuery query of None \<Rightarrow> [] | Some vs \<Rightarrow> query_get vs (utf8 labelKey)) else [])
                     in if dev' = [] then Inl (EmptyID raw)
                        else Inr \<lparr>ref_Kind = k, ref_ID = dev', ref_Label = label\<rparr>)))"

definition RefString :: "dev_ref \<Rightarrow> gostr" where
  "RefString r =
     (let raw = Scheme @ kind_text (ref_Kind r) @ str ''/'' @ ref_ID r
      in if ref_Label r = [] then raw else raw @ str ''?'' @ labelKey @ str ''='' @ QueryEscape (ref_Label r))"

definition Pair_halves :: "dev_ref \<Rightarrow> dev_error + gostr \<times> gostr" where
  "Pair_halves r =
     (case str_cut (ref_ID r) (str ''|'') of (camera, microphone, found) \<Rightarrow>
        if ref_Kind r \<noteq> AV \<or> \<not> found \<or> camera = [] \<or> microphone = [] then Inl (PairError (RefString r))
        else Inr (camera, microphone))"

definition IsDevice :: "gostr \<Rightarrow> bool" where
  "IsDevice raw = has_prefix raw Scheme"

definition IsKind :: "gostr \<Rightarrow> dev_kind \<Rightarrow> bool" where
  "IsKind raw kind = (case ParseDevice raw of Inl _ \<Rightarrow> False | Inr r \<Rightarrow> ref_Kind r = kind)"

definition IsNativeVideo :: "gostr \<Rightarrow> bool" where
  "IsNativeVideo t = (t = NativeVideo)"

definition AudioLabel :: "gostr \<Rightarrow> byte list" where
  "AudioLabel raw = (case ParseDevice raw of Inl _ \<Rightarrow> [] | Inr r \<Rightarrow> if ref_Kind r \<noteq> Audio then [] else ref_Label r)"

section \<open>Escaping is undone\<close>

definition hex_ok :: "nat \<Rightarrow> bool" where
  "hex_ok n =
     (let r = hex_digit (int n)
      in 0 \<le> r \<and> r < 128 \<and> r \<notin> {38, 59, 61} \<and> unhex (word_of_int r) = Some (int n))"

lemma hex_ok_all: "list_all hex_ok [0..<16]"
  by code_simp

lemma hex_digit_ok:
  assumes "0 \<le> d" "d < 16"
  shows "0 \<le> hex_digit d \<and> hex_digit d < 128 \<and> hex_digit d \<notin> {38, 59, 61}" "unhex (word_of_int (hex_digit d)) = Some d"
proof -
  have "hex_ok (nat d)" using hex_ok_all assms unfolding list_all_iff by auto
  then show "0 \<le> hex_digit d \<and> hex_digit d < 128 \<and> hex_digit d \<notin> {38, 59, 61}" "unhex (word_of_int (hex_digit d)) = Some d"
    using assms by (simp_all add: hex_ok_def Let_def)
qed

lemma utf8_ascii: "\<forall>r \<in> set s. r < 128 \<Longrightarrow> utf8 s = map word_of_int s"
  by (induction s) (simp_all add: utf8_def utf8_rune_def)

lemma uint_byte: "0 \<le> uint (b :: byte)" "uint (b :: byte) < 256"
  using unsigned_less [of b, where ?'a = int] by simp_all

lemma escape_byte_ok:
  "\<forall>r \<in> set (escape_byte b). 0 \<le> r \<and> r < 128 \<and> r \<noteq> 38 \<and> r \<noteq> 59 \<and> r \<noteq> 61" (is ?A)
  "unescape (utf8 (escape_byte b)) = Some [b]" (is ?B)
proof -
  have d: "0 \<le> uint b div 16" "uint b div 16 < 16" "0 \<le> uint b mod 16" "uint b mod 16 < 16"
    using uint_byte [of b] div_mult_mod_eq [of "uint b" 16] by linarith+
  have p: "uint (37 :: byte) = 37" "uint (43 :: byte) = 43" by simp_all
  show A: ?A
    using hex_digit_ok(1) [OF d(1,2)] hex_digit_ok(1) [OF d(3,4)] uint_byte [of b]
    by (auto simp: escape_byte_def unreserved_def)
  then have u: "utf8 (escape_byte b) = map word_of_int (escape_byte b)" by (intro utf8_ascii) auto
  have w: "16 * (uint b div 16) + uint b mod 16 = uint b" by simp
  have rd: "word_of_int (uint b) = b" by simp
  show ?B
  proof (cases "unreserved b")
    case True
    then show ?thesis unfolding u by (auto simp: escape_byte_def unreserved_def)
  next
    case no: False
    show ?thesis
    proof (cases "uint b = 32")
      case True
      then have "b = 32" by (metis rd of_int_numeral word_of_int_numeral)
      then show ?thesis unfolding u using no by (simp add: escape_byte_def)
    next
      case False
      then have "escape_byte b = [37, hex_digit (uint b div 16), hex_digit (uint b mod 16)]" using no by (simp add: escape_byte_def)
      then show ?thesis unfolding u using hex_digit_ok(2) [OF d(1,2)] hex_digit_ok(2) [OF d(3,4)] w rd by simp
    qed
  qed
qed

lemma utf8_append: "utf8 (s @ t) = utf8 s @ utf8 t"
  by (simp add: utf8_def)

lemma unescape_append: "unescape xs = Some ys \<Longrightarrow> unescape (xs @ zs) = map_option ((@) ys) (unescape zs)"
proof (induction xs arbitrary: ys rule: unescape.induct)
  case (2 b bs)
  show ?case
  proof (cases "uint b = 37")
    case False
    obtain ys' where y: "unescape bs = Some ys'" "ys = (if uint b = 43 then 32 else b) # ys'"
      using "2.prems" False by auto
    then show ?thesis using "2.IH"(2) [OF False y(1)] False by (simp add: option.map_comp comp_def)
  next
    case True
    obtain h l rest x y ys' where p: "bs = h # l # rest" "unhex h = Some x" "unhex l = Some y"
        "unescape rest = Some ys'" "ys = word_of_int (16 * x + y) # ys'"
      using "2.prems" True by (auto split: list.splits option.splits)
    have "unescape (rest @ zs) = map_option ((@) ys') (unescape zs)"
      using "2.IH"(1) [OF True p(1) refl refl p(2,3,4)] by simp
    then show ?thesis using True p by (simp add: option.map_comp comp_def)
  qed
next
  case 1
  then show ?case by (cases "unescape zs") simp_all
qed

lemma unescape_QueryEscape: "unescape (utf8 (QueryEscape bs)) = Some bs"
proof (induction bs)
  case (Cons b bs)
  have "utf8 (QueryEscape (b # bs)) = utf8 (escape_byte b) @ utf8 (QueryEscape bs)" by (simp add: QueryEscape_def utf8_append)
  then show ?case using unescape_append [OF escape_byte_ok(2)] Cons by simp
qed (simp add: QueryEscape_def utf8_def)

lemma QueryEscape_plain: "38 \<notin> set (QueryEscape bs)" "59 \<notin> set (QueryEscape bs)" "61 \<notin> set (QueryEscape bs)"
  using escape_byte_ok(1) by (auto simp: QueryEscape_def)

section \<open>Properties\<close>

lemma label_query: "ParseQuery (labelKey @ str ''='' @ QueryEscape l) = Some [(utf8 labelKey, l)]"
proof -
  have no: "38 \<notin> set (labelKey @ str ''='' @ QueryEscape l)" "59 \<notin> set (labelKey @ str ''='' @ QueryEscape l)"
    using QueryEscape_plain by (auto simp: labelKey_def str_def)
  have e: "61 \<notin> set labelKey" by (simp add: labelKey_def str_def)
  have c: "str_cut (labelKey @ str ''='' @ QueryEscape l) [61] = (labelKey, QueryEscape l, True)"
    using str_cut_first [OF e, of "QueryEscape l"] by (simp add: str_def)
  have u: "unescape (utf8 labelKey) = Some (utf8 labelKey)" by code_simp
  have ne: "labelKey @ str ''='' @ QueryEscape l \<noteq> []" by (simp add: labelKey_def str_def)
  show ?thesis using no ne unfolding ParseQuery_def str_split_def
    by (simp add: split_acc_no_sep c u unescape_QueryEscape del: append_is_Nil_conv)
qed

text \<open>A device URL reads back: whatever names a device and carries a label of any bytes is written and
  parsed to itself, and an accepted URL names a known kind and an identifier that is not empty.\<close>

lemma device_url_reads_back:
  "(ref_ID r \<noteq> [] \<longrightarrow> 63 \<notin> set (ref_ID r) \<longrightarrow> ParseDevice (RefString r) = Inr r) \<and>
   (ParseDevice raw = Inr r' \<longrightarrow> ref_ID r' \<noteq> [] \<and> 63 \<notin> set (ref_ID r') \<and>
      ParseDevice (RefString r') = Inr r' \<and> IsDevice raw)"
proof -
  have A: "ParseDevice (RefString q) = Inr q" if i: "ref_ID q \<noteq> []" "63 \<notin> set (ref_ID q)" for q
  proof -
    have k: "47 \<notin> set (kind_text (ref_Kind q))" "kind_text (ref_Kind q) \<noteq> []" "known_kind (kind_text (ref_Kind q)) = Some (ref_Kind q)"
      by (cases "ref_Kind q"; simp add: kind_text_def known_kind_def str_def)+
    define tail where "tail = (if ref_Label q = [] then [] else 63 # labelKey @ str ''='' @ QueryEscape (ref_Label q))"
    have raw: "RefString q = Scheme @ kind_text (ref_Kind q) @ 47 # ref_ID q @ tail"
      by (simp add: RefString_def tail_def str_def Let_def)
    have cut: "str_cut (drop (length Scheme) (RefString q)) (str ''/'') = (kind_text (ref_Kind q), ref_ID q @ tail, True)"
      using str_cut_first [OF k(1)] by (simp add: raw str_def)
    have pre: "has_prefix (RefString q) Scheme" by (simp add: raw has_prefix_def)
    show ?thesis
    proof (cases "ref_Label q = []")
      case True
      then have "str_cut (ref_ID q @ tail) (str ''?'') = (ref_ID q, [], False)" using str_cut_none [OF i(2)] by (simp add: tail_def str_def)
      moreover have "tail = []" using True by (simp add: tail_def)
      ultimately show ?thesis using True pre cut k i by (simp add: ParseDevice_def)
    next
      case False
      then have "str_cut (ref_ID q @ tail) (str ''?'') = (ref_ID q, labelKey @ str ''='' @ QueryEscape (ref_Label q), True)"
        using str_cut_first [OF i(2)] by (simp add: tail_def str_def)
      then show ?thesis using pre cut k i by (simp add: ParseDevice_def label_query query_get_def)
    qed
  qed
  have B: "ref_ID r' \<noteq> [] \<and> 63 \<notin> set (ref_ID r') \<and> IsDevice raw" if p: "ParseDevice raw = Inr r'"
  proof -
    obtain kind dev found where c: "str_cut (drop (length Scheme) raw) (str ''/'') = (kind, dev, found)" by (metis prod_cases3)
    obtain bare query tagged where t: "str_cut dev (str ''?'') = (bare, query, tagged)" by (metis prod_cases3)
    have s: "has_prefix raw Scheme" using p by (auto simp: ParseDevice_def split: if_splits)
    have q: "ref_ID r' = (if tagged then bare else dev)" "ref_ID r' \<noteq> []"
      using p s by (auto simp: ParseDevice_def c t Let_def split: if_splits option.splits)
    have "63 \<notin> set (if tagged then bare else dev)"
      using t by (cases rule: str_cut_cases [of dev 63]) (auto simp: str_def)
    then show ?thesis using q s by (simp add: IsDevice_def)
  qed
  show ?thesis using A B by blast
qed

lemma device_url_reads_back_witness:
  "ParseDevice (RefString \<lparr>ref_Kind = Audio, ref_ID = str ''3'', ref_Label = [72, 255, 38, 32]\<rparr>) =
     Inr \<lparr>ref_Kind = Audio, ref_ID = str ''3'', ref_Label = [72, 255, 38, 32]\<rparr>"
  using device_url_reads_back [of "\<lparr>ref_Kind = Audio, ref_ID = str ''3'', ref_Label = [72, 255, 38, 32]\<rparr>"] by (simp add: str_def)

end
