(* ===== verification/FfArgs.thy ===== *)
theory FfArgs
  imports DeviceUrl Fmt Lang
begin

text \<open>
  The argument vectors of \<^verbatim>\<open>internal/media/ffmpeg\<close> (supervisor.go, devices.go, mux.go, font.go,
  miccapture.go). An argument is a string of bytes, as \<open>exec\<close> takes it; \<open>fixed3\<close> renders seconds with three
  decimals and \<open>resolve\<close> is the lookup of a device's current index. ffmpeg itself is outside.
\<close>

type_synonym arg = "byte list"

datatype goos = Darwin | Linux | Windows | OtherOS

definition lit :: "string \<Rightarrow> arg" where
  "lit s = utf8 (str s)"

definition flagInput :: arg where "flagInput = lit ''-i''"
definition flagFormat :: arg where "flagFormat = lit ''-f''"
definition flagMap :: arg where "flagMap = lit ''-map''"
definition flagRealtime :: arg where "flagRealtime = lit ''-re''"
definition flagAudioCodec :: arg where "flagAudioCodec = lit ''-c:a''"
definition codecPCM16LE :: arg where "codecPCM16LE = lit ''pcm_s16le''"
definition pipeIn :: arg where "pipeIn = lit ''pipe:0''"
definition pipeOut :: arg where "pipeOut = lit ''pipe:1''"
definition fmtPulse :: arg where "fmtPulse = lit ''pulse''"
definition fmtAVFoundation :: arg where "fmtAVFoundation = lit ''avfoundation''"
definition mapFirstAudio :: arg where "mapFirstAudio = lit ''0:a:0''"
definition mapFirstVideo :: arg where "mapFirstVideo = lit ''0:v:0''"
definition mapSecondAudio :: arg where "mapSecondAudio = lit ''1:a:0''"

definition quietArgs :: "arg list" where
  "quietArgs = [lit ''-hide_banner'', lit ''-nostdin'', lit ''-loglevel'', lit ''error'']"

definition deviceQuietArgs :: "arg list" where
  "deviceQuietArgs = [lit ''-hide_banner'', lit ''-nostdin'', lit ''-loglevel'', lit ''warning'']"

definition quietArgsFor :: "gostr \<Rightarrow> arg list" where
  "quietArgsFor src = (if IsDevice src then deviceQuietArgs else quietArgs)"

definition s16le :: "arg list" where
  "s16le = [flagFormat, lit ''s16le'', lit ''-ar'', lit ''16000'', lit ''-ac'', lit ''1'']"

section \<open>Outputs\<close>

definition OutputArgs :: "arg \<Rightarrow> arg \<Rightarrow> arg list" where
  "OutputArgs format target =
     (if format = lit ''mpegts'' then [lit ''-muxdelay'', lit ''0'', lit ''-muxpreload'', lit ''0'', lit ''-flush_packets'', lit ''1''] else []) @
     [flagFormat, format, target]"

definition HLSOutput :: "(duration \<Rightarrow> arg) \<Rightarrow> arg \<Rightarrow> duration \<Rightarrow> arg list \<Rightarrow> arg list" where
  "HLSOutput fixed3 dir offset codec =
     codec @ (if offset > 0 then [lit ''-output_ts_offset'', fixed3 offset] else []) @
     [flagFormat, lit ''hls'', lit ''-hls_time'', lit ''4'', lit ''-hls_list_size'', lit ''6'',
      lit ''-hls_flags'', lit ''delete_segments+independent_segments'',
      lit ''-hls_segment_filename'', dir @ lit ''/seg%05d.ts'', dir @ lit ''/index.m3u8'']"

definition mux_args :: "arg list" where
  "mux_args = quietArgs @ s16le @ [flagInput, pipeIn] @ [flagAudioCodec, lit ''aac'', lit ''-b:a'', lit ''128k''] @ OutputArgs (lit ''mpegts'') pipeOut"

text \<open>\<open>None\<close>: an empty output is refused.\<close>

definition sink_args :: "arg list \<Rightarrow> arg list option" where
  "sink_args output = (if output = [] then None else Some (quietArgs @ s16le @ [flagInput, pipeIn] @ output))"

definition av_sink_args :: "arg \<Rightarrow> arg \<Rightarrow> arg list \<Rightarrow> arg list option" where
  "av_sink_args playlist vf output =
     (if output = [] then None
      else Some (quietArgs @ [flagRealtime, flagInput, playlist] @ s16le @ [flagInput, pipeIn] @
        [flagMap, mapFirstVideo, flagMap, mapSecondAudio, lit ''-shortest''] @
        (if vf \<noteq> [] then [lit ''-vf'', vf] else []) @ output))"

section \<open>Captures\<close>

text \<open>The product with the byte rate is a 64-bit one.\<close>

definition deviceCaptureArgs :: "goos \<Rightarrow> duration \<Rightarrow> arg list" where
  "deviceCaptureArgs os d =
     (if d \<le> 0 then []
      else case os of
        Windows \<Rightarrow> [lit ''-audio_buffer_size'', utf8 (itoa (max 1 (go_div (wrap64 (d + millisecond - 1)) millisecond)))]
      | Linux \<Rightarrow> [lit ''-fragment_size'', utf8 (itoa (max 1 (go_div (wrap64 (wrap64 (d * 192000) + second - 1)) second)))]
      | _ \<Rightarrow> [])"

datatype capture_error = UrlError dev_error | NotAudio gostr | NoCamera dev_ref goos

definition usable_label :: "dev_ref \<Rightarrow> bool" where
  "usable_label r \<longleftrightarrow> ref_Label r \<noteq> [] \<and> 58 \<notin> set (ref_Label r)"

definition deviceInputArgsFor :: "goos \<Rightarrow> gostr \<Rightarrow> duration \<Rightarrow> capture_error + arg list" where
  "deviceInputArgsFor os url buffer =
     (case ParseDevice url of
        Inl e \<Rightarrow> Inl (UrlError e)
      | Inr r \<Rightarrow>
          if ref_Kind r \<noteq> Audio then Inl (NotAudio url)
          else Inr (case os of
            Darwin \<Rightarrow> [flagFormat, fmtAVFoundation, flagInput, 58 # (if usable_label r then ref_Label r else utf8 (ref_ID r))]
          | Windows \<Rightarrow> [flagFormat, lit ''dshow''] @ deviceCaptureArgs os buffer @ [flagInput, lit ''audio='' @ utf8 (ref_ID r)]
          | _ \<Rightarrow> [flagFormat, fmtPulse] @ deviceCaptureArgs os buffer @ [flagInput, utf8 (ref_ID r)]))"

record avSource =
  av_audioMap :: arg
  av_videoMap :: arg
  av_input :: "arg list"

definition avInputArgs :: "goos \<Rightarrow> dev_ref \<Rightarrow> duration \<Rightarrow> capture_error + avSource" where
  "avInputArgs os r buffer =
     (case Pair_halves r of
        Inl e \<Rightarrow> Inl (UrlError e)
      | Inr (video, audio) \<Rightarrow>
          (case os of
             Darwin \<Rightarrow> Inr \<lparr>av_audioMap = mapFirstAudio, av_videoMap = mapFirstVideo,
               av_input = [flagFormat, fmtAVFoundation, lit ''-framerate'', lit ''30'', flagInput,
                 utf8 video @ lit '':'' @ (if usable_label r then ref_Label r else utf8 audio)]\<rparr>
           | Windows \<Rightarrow> Inr \<lparr>av_audioMap = mapFirstAudio, av_videoMap = mapFirstVideo,
               av_input = [flagFormat, lit ''dshow''] @ deviceCaptureArgs os buffer @
                 [flagInput, lit ''video='' @ utf8 video @ lit '':audio='' @ utf8 audio]\<rparr>
           | Linux \<Rightarrow> Inr \<lparr>av_audioMap = mapSecondAudio, av_videoMap = mapFirstVideo,
               av_input = [flagFormat, lit ''v4l2'', flagInput, utf8 video, flagFormat, fmtPulse] @
                 deviceCaptureArgs os buffer @ [flagInput, utf8 audio]\<rparr>
           | OtherOS \<Rightarrow> Inl (NoCamera r os)))"

definition deviceAVConfiguredFor :: "goos \<Rightarrow> gostr \<Rightarrow> duration \<Rightarrow> capture_error + avSource" where
  "deviceAVConfiguredFor os url buffer =
     (case ParseDevice url of Inl e \<Rightarrow> Inl (UrlError e) | Inr r \<Rightarrow> avInputArgs os r buffer)"

definition contains :: "gostr \<Rightarrow> gostr \<Rightarrow> bool" where
  "contains s sub \<longleftrightarrow> snd (snd (str_cut s sub))"

definition listenQuery :: "gostr \<Rightarrow> gostr" where
  "listenQuery src = (if contains src (str ''?'') then str ''&mode=listener'' else str ''?mode=listener'')"

definition sourceInput :: "goos \<Rightarrow> gostr \<Rightarrow> duration \<Rightarrow> capture_error + arg list" where
  "sourceInput os src buffer =
     (if has_prefix src (str ''rtmp://'') then Inr [lit ''-listen'', lit ''1'', flagInput, utf8 src]
      else if has_prefix src (str ''srt://'') \<and> \<not> contains src (str ''mode='') then Inr [flagInput, utf8 (src @ listenQuery src)]
      else if has_prefix src (str ''srt://'') then Inr [flagInput, utf8 src]
      else if IsDevice src then deviceInputArgsFor os src buffer
      else Inr [flagRealtime, flagInput, utf8 src])"

definition deviceTimelineArgs :: "goos \<Rightarrow> gostr \<Rightarrow> arg list" where
  "deviceTimelineArgs os src =
     (if os \<noteq> Darwin \<or> \<not> IsDevice src then []
      else [lit ''-af'', lit ''aresample=16000:async=1:min_hard_comp=0.001:first_pts=0''])"

definition hlsVideoArgs :: "(duration \<Rightarrow> arg) \<Rightarrow> arg \<Rightarrow> duration \<Rightarrow> arg list" where
  "hlsVideoArgs fixed3 dir delay = HLSOutput fixed3 dir delay [flagMap, lit ''0:v:0?'', lit ''-c:v'', lit ''copy'']"

definition avArgs :: "(duration \<Rightarrow> arg) \<Rightarrow> avSource \<Rightarrow> arg \<Rightarrow> duration \<Rightarrow> arg list \<Rightarrow> arg list" where
  "avArgs fixed3 av videoDir delay timeline =
     deviceQuietArgs @ av_input av @ [flagMap, av_audioMap av, lit ''-vn'', lit ''-sn'', lit ''-dn''] @ timeline @ s16le @ [pipeOut] @
     (if videoDir = [] then []
      else HLSOutput fixed3 videoDir delay [flagMap, av_videoMap av, lit ''-c:v'', lit ''libx264'', lit ''-preset'', lit ''veryfast'',
        lit ''-b:v'', lit ''2500k'', lit ''-pix_fmt'', lit ''yuv420p'', lit ''-g'', lit ''60''])"

definition pcmArgs :: "(duration \<Rightarrow> arg) \<Rightarrow> goos \<Rightarrow> gostr \<Rightarrow> arg \<Rightarrow> duration \<Rightarrow> duration \<Rightarrow> capture_error + arg list" where
  "pcmArgs fixed3 os src videoDir delay buffer =
     (if IsKind src AV
      then map_sum id (\<lambda>av. avArgs fixed3 av videoDir delay (deviceTimelineArgs os src)) (deviceAVConfiguredFor os src buffer)
      else map_sum id
        (\<lambda>input. quietArgsFor src @ input @ [flagMap, mapFirstAudio, lit ''-vn'', lit ''-sn'', lit ''-dn''] @
           deviceTimelineArgs os src @ s16le @ [pipeOut] @ (if videoDir = [] then [] else hlsVideoArgs fixed3 videoDir delay))
        (sourceInput os src buffer))"

section \<open>Device outputs\<close>

definition outputIndex :: "(arg \<Rightarrow> int option) option \<Rightarrow> dev_ref \<Rightarrow> arg" where
  "outputIndex resolve r =
     (case resolve of
        None \<Rightarrow> utf8 (ref_ID r)
      | Some f \<Rightarrow> (if ref_Label r = [] then utf8 (ref_ID r)
                    else case f (ref_Label r) of None \<Rightarrow> utf8 (ref_ID r) | Some k \<Rightarrow> utf8 (itoa k)))"

datatype output_error = OutUrl dev_error | NoOutput gostr dev_kind goos

definition deviceOutputArgs :: "(arg \<Rightarrow> int option) option \<Rightarrow> goos \<Rightarrow> gostr \<Rightarrow> output_error + arg list" where
  "deviceOutputArgs resolve os url =
     (case ParseDevice url of
        Inl e \<Rightarrow> Inl (OutUrl e)
      | Inr r \<Rightarrow>
          if ref_Kind r = Audio \<and> os = Darwin
          then Inr [flagAudioCodec, codecPCM16LE, flagFormat, lit ''audiotoolbox'', lit ''-audio_device_index'', outputIndex resolve r, lit ''-'']
          else if ref_Kind r = Audio \<and> os = Linux
          then Inr [flagAudioCodec, codecPCM16LE, flagFormat, fmtPulse, lit ''-device'', utf8 (ref_ID r), lit ''prukka-dub'']
          else if ref_Kind r = Video \<and> os = Linux
          then Inr [lit ''-pix_fmt'', lit ''yuyv422'', flagFormat, lit ''rawvideo'', utf8 (ref_ID r)]
          else Inl (NoOutput url (ref_Kind r) os))"

definition linuxWebcamFilter :: arg where "linuxWebcamFilter = lit ''scale=1280:720,fps=30''"

definition deviceVideoFilter :: "goos \<Rightarrow> gostr \<Rightarrow> arg" where
  "deviceVideoFilter os target = (if os \<noteq> Linux \<or> \<not> IsKind target Video then [] else linuxWebcamFilter)"

section \<open>The burn-in filter\<close>

text \<open>Backslash, colon, quote, comma, semicolon and brackets.\<close>

definition filter_special :: "byte list" where
  "filter_special = [92, 58, 39, 44, 59, 91, 93]"

definition escapeFilterArg :: "arg \<Rightarrow> arg" where
  "escapeFilterArg a = concat (map (\<lambda>b. if b \<in> set filter_special then [92, b] else [b]) a)"

definition BurnFilter :: "arg \<Rightarrow> arg \<Rightarrow> arg" where
  "BurnFilter cueFile fontFile =
     lit ''drawtext=textfile='' @ escapeFilterArg cueFile @ lit '':reload=1:fontfile='' @ escapeFilterArg fontFile @
     lit '':fontsize=28:fontcolor=white:borderw=2:bordercolor=black'' @ lit '':x=(w-text_w)/2:y=h-text_h-24''"

section \<open>The microphone helper\<close>

definition micCaptureName :: "gostr \<Rightarrow> arg option" where
  "micCaptureName src =
     (case ParseDevice src of
        Inl _ \<Rightarrow> None
      | Inr r \<Rightarrow> if ref_Kind r \<noteq> Audio then None else if usable_label r then Some (ref_Label r) else Some (utf8 (ref_ID r)))"

definition micCaptureArgs :: "arg \<Rightarrow> arg list" where
  "micCaptureArgs name = [lit ''--device'', name, lit ''--rate'', lit ''16000'']"

definition micCaptureCommand :: "goos \<Rightarrow> arg \<Rightarrow> gostr \<Rightarrow> arg \<Rightarrow> (arg \<times> arg list) option" where
  "micCaptureCommand os helper src videoDir =
     (if helper = [] \<or> videoDir \<noteq> [] \<or> os \<noteq> Darwin then None
      else map_option (\<lambda>name. (helper, micCaptureArgs name)) (micCaptureName src))"

text \<open>Reading an escaped value up to the first special byte that no backslash precedes.\<close>

fun read_value :: "arg \<Rightarrow> arg \<times> arg" where
  "read_value [] = ([], [])"
| "read_value (b # bs) =
     (if b = 92 then (case bs of [] \<Rightarrow> ([92], []) | x # rest \<Rightarrow> (case read_value rest of (v, r) \<Rightarrow> (x # v, r)))
      else if b \<in> set filter_special then ([], b # bs) else (case read_value bs of (v, r) \<Rightarrow> (b # v, r)))"

lemma read_escaped: "read_value (escapeFilterArg a @ rest) = (a @ fst (read_value rest), snd (read_value rest))"
proof (induction a)
  case (Cons b a)
  have e: "escapeFilterArg (b # a) = (if b \<in> set filter_special then [92, b] else [b]) @ escapeFilterArg a"
    by (simp add: escapeFilterArg_def)
  have n: "b \<noteq> 92" if "b \<notin> set filter_special" using that by (auto simp: filter_special_def)
  show ?case unfolding e using Cons n by (cases "b \<in> set filter_special") (simp_all add: split_beta)
qed (simp add: escapeFilterArg_def)

section \<open>What ffmpeg reads as options\<close>

text \<open>An argument that starts with a dash is read as an option unless it is the value of \<open>-i\<close>.\<close>

fun options_of :: "arg list \<Rightarrow> arg list" where
  "options_of [] = []"
| "options_of [a] = (if take 1 a = [45] then [a] else [])"
| "options_of (a # b # rest) =
     (if a = flagInput then a # options_of rest
      else if take 1 a = [45] then a # options_of (b # rest) else options_of (b # rest))"

fun wants_value :: "arg list \<Rightarrow> bool" where
  "wants_value [] = False"
| "wants_value [a] = (a = flagInput)"
| "wants_value (a # b # rest) = (if a = flagInput then wants_value rest else wants_value (b # rest))"

lemma options_append: "\<not> wants_value xs \<Longrightarrow> options_of (xs @ ys) = options_of xs @ options_of ys"
proof (induction xs rule: wants_value.induct)
  case (2 a)
  then show ?case by (cases ys) auto
qed auto

lemma wants_append: "\<not> wants_value xs \<Longrightarrow> wants_value (xs @ ys) = wants_value ys"
proof (induction xs rule: wants_value.induct)
  case (2 a)
  then show ?case by (cases ys) auto
qed auto

lemma options_input: "options_of [flagInput, v] = [flagInput]" "\<not> wants_value [flagInput, v]"
  by simp_all
definition capture_options :: "arg list" where
  "capture_options = map lit [''-hide_banner'', ''-nostdin'', ''-loglevel'', ''-listen'', ''-i'', ''-re'', ''-f'', ''-map'', ''-vn'',
     ''-sn'', ''-dn'', ''-af'', ''-ar'', ''-ac'', ''-c:v'', ''-preset'', ''-b:v'', ''-pix_fmt'', ''-g'', ''-framerate'',
     ''-audio_buffer_size'', ''-fragment_size'', ''-output_ts_offset'', ''-hls_time'', ''-hls_list_size'', ''-hls_flags'', ''-hls_segment_filename'']"

definition plain_group :: "arg list \<Rightarrow> bool" where
  "plain_group xs \<longleftrightarrow> \<not> wants_value xs \<and> set (options_of xs) \<subseteq> set capture_options"

lemma plain_append: "plain_group xs \<Longrightarrow> plain_group ys \<Longrightarrow> plain_group (xs @ ys)"
  by (simp add: plain_group_def options_append wants_append)

lemma plain_value: "take 1 v \<noteq> [45] \<Longrightarrow> plain_group [v]"
proof -
  assume v: "take 1 v \<noteq> [45]"
  have "take 1 flagInput = [45]" by code_simp
  then show ?thesis using v by (auto simp: plain_group_def)
qed

lemma plain_input: "plain_group [flagInput, v]"
  by (simp add: plain_group_def capture_options_def flagInput_def)

lemma plain_literals:
  "plain_group []" "plain_group quietArgs" "plain_group deviceQuietArgs" "plain_group s16le" "plain_group [pipeOut]"
  "plain_group [lit ''-listen'', lit ''1'']" "plain_group [flagRealtime]" "plain_group [flagFormat, fmtAVFoundation]"
  "plain_group [flagFormat, lit ''dshow'']" "plain_group [flagFormat, fmtPulse]" "plain_group [flagFormat, lit ''v4l2'']"
  "plain_group [flagFormat, fmtAVFoundation, lit ''-framerate'', lit ''30'']"
  "plain_group [flagMap, mapFirstAudio, lit ''-vn'', lit ''-sn'', lit ''-dn'']"
  "plain_group [flagMap, mapSecondAudio, lit ''-vn'', lit ''-sn'', lit ''-dn'']"
  "plain_group [lit ''-af'', lit ''aresample=16000:async=1:min_hard_comp=0.001:first_pts=0'']"
  "plain_group [flagMap, lit ''0:v:0?'', lit ''-c:v'', lit ''copy'']"
  "plain_group [flagMap, mapFirstVideo, lit ''-c:v'', lit ''libx264'', lit ''-preset'', lit ''veryfast'',
     lit ''-b:v'', lit ''2500k'', lit ''-pix_fmt'', lit ''yuv420p'', lit ''-g'', lit ''60'']"
  "plain_group [lit ''-output_ts_offset'']" "plain_group [lit ''-audio_buffer_size'']" "plain_group [lit ''-fragment_size'']"
  "plain_group [flagFormat, lit ''hls'', lit ''-hls_time'', lit ''4'', lit ''-hls_list_size'', lit ''6'',
      lit ''-hls_flags'', lit ''delete_segments+independent_segments'', lit ''-hls_segment_filename'']"
  by code_simp+

lemmas plain_rules = plain_append plain_input plain_literals

lemma plain_cons: "plain_group [a] \<Longrightarrow> plain_group xs \<Longrightarrow> plain_group (a # xs)"
  using plain_append [of "[a]" xs] by simp

lemma itoa_plain: "1 \<le> n \<Longrightarrow> plain_group [utf8 (itoa n)]"
proof (rule plain_value)
  assume n: "1 \<le> n"
  obtain r rs where d: "digits n = r # rs" using digits_nonempty [of n] by (cases "digits n") auto
  have "is_digit r" using digits_are_digits [of n r] n d by simp
  then have "48 \<le> r" "r \<le> 57" by (simp_all add: is_digit_def)
  then have "r = 48 \<or> r = 49 \<or> r = 50 \<or> r = 51 \<or> r = 52 \<or> r = 53 \<or> r = 54 \<or> r = 55 \<or> r = 56 \<or> r = 57" by presburger
  then show "take 1 (utf8 (itoa n)) \<noteq> [45]" using n d by (auto simp: itoa_def utf8_def utf8_rune_def)
qed

lemma capture_plain: "plain_group (deviceCaptureArgs os d)"
proof -
  have w: "plain_group [lit ''-audio_buffer_size'', utf8 (itoa (max 1 k))]" "plain_group [lit ''-fragment_size'', utf8 (itoa (max 1 k))]" for k
    by (rule plain_cons; simp add: plain_literals itoa_plain)+
  show ?thesis by (cases os) (simp_all add: deviceCaptureArgs_def w plain_literals(1))
qed

lemma HLS_plain:
  assumes "plain_group codec" "take 1 dir = [47]" "\<And>d. 0 < d \<Longrightarrow> take 1 (fixed3 d) \<noteq> [45]"
  shows "plain_group (HLSOutput fixed3 dir offset codec)"
proof -
  have s: "plain_group (if offset > 0 then [lit ''-output_ts_offset'', fixed3 offset] else [])"
    using assms(3) by (auto intro: plain_cons simp: plain_literals plain_value)
  have d: "plain_group [dir @ lit ''/seg%05d.ts'', dir @ lit ''/index.m3u8'']"
    using assms(2) by (intro plain_cons [OF plain_value plain_value]) (cases dir; simp)+
  have "HLSOutput fixed3 dir offset codec = codec @ (if offset > 0 then [lit ''-output_ts_offset'', fixed3 offset] else []) @
      [flagFormat, lit ''hls'', lit ''-hls_time'', lit ''4'', lit ''-hls_list_size'', lit ''6'',
      lit ''-hls_flags'', lit ''delete_segments+independent_segments'', lit ''-hls_segment_filename''] @
      [dir @ lit ''/seg%05d.ts'', dir @ lit ''/index.m3u8'']" by (simp add: HLSOutput_def)
  then show ?thesis using plain_append [OF assms(1) plain_append [OF s plain_append [OF plain_literals(21) d]]] by simp
qed

lemma av_plain:
  assumes "avInputArgs os r buffer = Inr av"
  shows "plain_group (av_input av)" "av_audioMap av \<in> {mapFirstAudio, mapSecondAudio}" "av_videoMap av = mapFirstVideo"
proof -
  have l: "[flagFormat, lit ''v4l2'', flagInput, v, flagFormat, fmtPulse] = [flagFormat, lit ''v4l2''] @ [flagInput, v] @ [flagFormat, fmtPulse]"
    "[flagFormat, fmtAVFoundation, lit ''-framerate'', lit ''30'', flagInput, v] = [flagFormat, fmtAVFoundation, lit ''-framerate'', lit ''30''] @ [flagInput, v]"
    "[flagFormat, lit ''dshow''] @ deviceCaptureArgs os buffer @ [flagInput, v] = ([flagFormat, lit ''dshow''] @ deviceCaptureArgs os buffer) @ [flagInput, v]" for v
    by simp_all
  show "plain_group (av_input av)" "av_audioMap av \<in> {mapFirstAudio, mapSecondAudio}" "av_videoMap av = mapFirstVideo"
    using assms unfolding avInputArgs_def l
    by (auto split: sum.splits goos.splits intro!: plain_rules capture_plain simp del: append.simps)
qed

lemma device_plain:
  assumes "deviceInputArgsFor os url buffer = Inr args"
  shows "plain_group args"
proof -
  have l: "[flagFormat, x, flagInput, v] = [flagFormat, x] @ [flagInput, v]" for x v by simp
  show ?thesis using assms unfolding deviceInputArgsFor_def l
    by (auto split: sum.splits if_splits goos.splits intro!: plain_rules capture_plain simp del: append.simps)
qed

lemma source_plain:
  assumes "sourceInput os src buffer = Inr args"
  shows "plain_group args"
proof -
  have l: "[lit ''-listen'', lit ''1'', flagInput, v] = [lit ''-listen'', lit ''1''] @ [flagInput, v]"
    "[flagRealtime, flagInput, v] = [flagRealtime] @ [flagInput, v]" for v by simp_all
  show ?thesis using assms unfolding sourceInput_def l
    by (auto split: if_splits intro!: plain_rules intro: device_plain simp del: append.simps)
qed

section \<open>Properties\<close>

text \<open>Nothing of a source URL can become an option of the capture: whatever ffmpeg reads as an option
  is one of the fixed ones, on every platform, with and without the video tap.\<close>

lemma source_is_never_an_option:
  assumes "pcmArgs fixed3 os src videoDir delay buffer = Inr args"
    and "videoDir = [] \<or> take 1 videoDir = [47]" and "\<And>d. 0 < d \<Longrightarrow> take 1 (fixed3 d) \<noteq> [45]"
  shows "set (options_of args) \<subseteq> set capture_options"
proof -
  have q: "plain_group (quietArgsFor src)" by (simp add: quietArgsFor_def plain_literals)
  have t: "plain_group (deviceTimelineArgs os src)" by (simp add: deviceTimelineArgs_def plain_literals)
  have v: "plain_group (if videoDir = [] then [] else HLSOutput fixed3 videoDir delay codec)" if "plain_group codec" for codec
    using HLS_plain [OF that _ assms(3)] assms(2) by (auto simp: plain_literals)
  have "plain_group args"
  proof (cases "IsKind src AV")
    case True
    then obtain av where a: "deviceAVConfiguredFor os src buffer = Inr av"
        "args = avArgs fixed3 av videoDir delay (deviceTimelineArgs os src)"
      using assms(1) by (cases "deviceAVConfiguredFor os src buffer") (auto simp: pcmArgs_def)
    then obtain r where r: "avInputArgs os r buffer = Inr av" by (auto simp: deviceAVConfiguredFor_def split: sum.splits)
    have m: "plain_group [flagMap, av_audioMap av, lit ''-vn'', lit ''-sn'', lit ''-dn'']"
      using av_plain(2) [OF r] plain_literals(13,14) by auto
    show ?thesis unfolding a(2) avArgs_def av_plain(3) [OF r]
      by (intro plain_append plain_literals m t v av_plain(1) [OF r])
  next
    case False
    then obtain input where a: "sourceInput os src buffer = Inr input"
        "args = quietArgsFor src @ input @ [flagMap, mapFirstAudio, lit ''-vn'', lit ''-sn'', lit ''-dn''] @
           deviceTimelineArgs os src @ s16le @ [pipeOut] @ (if videoDir = [] then [] else hlsVideoArgs fixed3 videoDir delay)"
      using assms(1) by (cases "sourceInput os src buffer") (auto simp: pcmArgs_def)
    show ?thesis unfolding a(2) hlsVideoArgs_def
      by (intro plain_append plain_literals q t v source_plain [OF a(1)])
  qed
  then show ?thesis by (simp add: plain_group_def)
qed

lemma source_is_never_an_option_witness:
  "\<exists>args. pcmArgs (\<lambda>d. lit ''0.000'') Linux (str ''-y'') [] 0 0 = Inr args \<and> set (options_of args) \<subseteq> set capture_options"
proof -
  obtain args where a: "pcmArgs (\<lambda>d. lit ''0.000'') Linux (str ''-y'') [] 0 0 = Inr args"
    using sum.exhaust_sel [of "pcmArgs (\<lambda>d. lit ''0.000'') Linux (str ''-y'') [] 0 0"]
    by (simp add: pcmArgs_def IsKind_def ParseDevice_def sourceInput_def IsDevice_def has_prefix_def Scheme_def str_def)
  have "take 1 (lit ''0.000'') \<noteq> [45]" by code_simp
  with source_is_never_an_option [OF a] have "set (options_of args) \<subseteq> set capture_options" by simp
  with a show ?thesis by blast
qed

end
