(* ===== verification/Outputs.thy ===== *)
theory Outputs
  imports FfArgs Playout Session "HOL-Library.Multiset"
begin

text \<open>
  \<^verbatim>\<open>internal/media/egress/audio/audio.go\<close> and \<^verbatim>\<open>push.go\<close>: the registry of the live outputs. This part holds
  the state under \<open>liveState\<close>'s mutex and one definition per critical section. A map is an association list;
  no property depends on its order. A gate and a job's \<open>done\<close> channel are shared by reference: gates live in
  a heap of their own, named by a number, and a channel is named by its job's generation. A template is
  named by a number and stands for its consumer group; \<open>Cursor().BeginPlayout()\<close> is \<open>group_acquire\<close>.
\<close>

section \<open>State\<close>

type_synonym pairID = "gostr \<times> lang"

datatype jobKind = kindHLS | kindPush

record jobID =
  jid_kind :: jobKind
  jid_pair :: pairID
  jid_target :: gostr

record feedConfig =
  fc_quantum :: duration
  fc_samples :: int

text \<open>\<open>SamplesInQuantum\<close> panics (\<open>None\<close>) on a quantum that is not a whole number of samples.\<close>

definition makeFeedConfig :: "duration \<Rightarrow> feedConfig option" where
  "makeFeedConfig quantum = map_option (\<lambda>n. \<lparr>fc_quantum = quantum, fc_samples = n\<rparr>) (SamplesInQuantum quantum)"

definition DefaultFeedQuantum :: duration where "DefaultFeedQuantum = 100 * millisecond"

definition defaultFeedConfig :: feedConfig where "defaultFeedConfig = the (makeFeedConfig DefaultFeedQuantum)"

record registration =
  rg_template :: nat
  rg_pacing :: feedConfig

datatype jobFeed = jobSelfFed | jobMixFed

record job =
  jb_gen :: nat
  jb_feed :: jobFeed

record gate =
  gt_canceled :: bool
  gt_replays :: nat
  gt_finishing :: bool

record out_stream =
  os_slug :: gostr

record liveState =
  lv_pairs :: "(pairID \<times> registration) list"
  lv_jobs :: "(jobID \<times> job) list"
  lv_gates :: "(gostr \<times> nat) list"
  lv_heap :: "gate list"
  lv_routes :: "(jobID \<times> gostr) list"
  lv_streams :: "(nat \<times> out_stream) list"
  lv_nextJob :: nat
  lv_nextOut :: nat
  lv_teardowns :: nat

definition live_start :: liveState where
  "live_start = \<lparr>lv_pairs = [], lv_jobs = [], lv_gates = [], lv_heap = [], lv_routes = [], lv_streams = [],
     lv_nextJob = 0, lv_nextOut = 0, lv_teardowns = 0\<rparr>"

definition maxPushTargetsPerPair :: nat where "maxPushTargetsPerPair = 8"

datatype push_error = NotReady gostr | PushLimit pairID | Refused gostr

section \<open>Critical sections\<close>

definition is_push :: "pairID \<Rightarrow> jobID \<Rightarrow> bool" where
  "is_push pair i \<longleftrightarrow> jid_kind i = kindPush \<and> jid_pair i = pair"

definition admitPushTargetLocked :: "jobID \<Rightarrow> liveState \<Rightarrow> bool" where
  "admitPushTargetLocked i s =
     (if map_of (lv_jobs s) i \<noteq> None \<or> map_of (lv_routes s) i \<noteq> None then True
      else length (filter (is_push (jid_pair i)) (map fst (lv_jobs s))) +
        length (filter (\<lambda>e. map_of (lv_jobs s) e = None \<and> is_push (jid_pair i) e) (map fst (lv_routes s)))
        < maxPushTargetsPerPair)"

definition liveGateLocked :: "gostr \<Rightarrow> liveState \<Rightarrow> nat option" where
  "liveGateLocked slug s =
     (case map_of (lv_gates s) slug of
        None \<Rightarrow> None
      | Some g \<Rightarrow> if gt_finishing (lv_heap s ! g) then None else Some g)"

definition createPair :: "pairID \<Rightarrow> registration \<Rightarrow> liveState \<Rightarrow> nat \<times> liveState" where
  "createPair pair reg s =
     (case (case map_of (lv_gates s) (fst pair) of
              Some g \<Rightarrow> (g, s)
            | None \<Rightarrow> (length (lv_heap s),
                s\<lparr>lv_heap := lv_heap s @ [\<lparr>gt_canceled = False, gt_replays = 0, gt_finishing = False\<rparr>],
                  lv_gates := AList.update (fst pair) (length (lv_heap s)) (lv_gates s)\<rparr>)) of
        (g, s1) \<Rightarrow>
          (g, s1\<lparr>lv_pairs := AList.update pair reg (lv_pairs s1),
                 lv_heap := (lv_heap s1)[g := (lv_heap s1 ! g)\<lparr>gt_replays := gt_replays (lv_heap s1 ! g) + 1\<rparr>]\<rparr>))"

text \<open>What \<open>WaitPlayout\<close> waits for: templates, generations of jobs, identities of streams.\<close>

definition finishSnapshot :: "gostr \<Rightarrow> liveState \<Rightarrow> (nat list \<times> nat list \<times> nat list) option \<times> liveState" where
  "finishSnapshot slug s =
     (case map_of (lv_gates s) slug of
        None \<Rightarrow> (None, s)
      | Some g \<Rightarrow>
          (Some (map (rg_template \<circ> snd) (filter (\<lambda>(p, _). fst p = slug) (lv_pairs s)),
                 map (jb_gen \<circ> snd) (filter (\<lambda>(i, j). jb_feed j = jobMixFed \<and> fst (jid_pair i) = slug) (lv_jobs s)),
                 map fst (filter (\<lambda>(_, o'). os_slug o' = slug) (lv_streams s))),
           s\<lparr>lv_heap := (lv_heap s)[g := (lv_heap s ! g)\<lparr>gt_finishing := True\<rparr>]\<rparr>))"

definition forgetRoutes :: "gostr \<Rightarrow> liveState \<Rightarrow> liveState" where
  "forgetRoutes slug s =
     s\<lparr>lv_routes := filter (\<lambda>(i, _). \<not> (jid_kind i = kindPush \<and> fst (jid_pair i) = slug)) (lv_routes s),
       lv_teardowns := lv_teardowns s + 1\<rparr>"

definition cancel_gate :: "nat \<Rightarrow> liveState \<Rightarrow> liveState" where
  "cancel_gate g s = s\<lparr>lv_heap := (lv_heap s)[g := (lv_heap s ! g)\<lparr>gt_canceled := True\<rparr>]\<rparr>"

definition retireGate :: "gostr \<Rightarrow> liveState \<Rightarrow> nat option \<times> liveState" where
  "retireGate slug s =
     (case map_of (lv_gates s) slug of
        None \<Rightarrow> (None, s)
      | Some g \<Rightarrow> (Some g, (cancel_gate g s)\<lparr>lv_gates := AList.delete slug (lv_gates s)\<rparr>))"

text \<open>The jobs it cancels are the ones whose channels it returns.\<close>

definition stopSession :: "gostr \<Rightarrow> liveState \<Rightarrow> nat list \<times> liveState" where
  "stopSession slug s =
     (let s1 = s\<lparr>lv_pairs := filter (\<lambda>(p, _). fst p \<noteq> slug) (lv_pairs s),
                 lv_jobs := filter (\<lambda>(i, _). fst (jid_pair i) \<noteq> slug) (lv_jobs s)\<rparr>;
          s2 = (case map_of (lv_gates s1) slug of
                  None \<Rightarrow> s1
                | Some late \<Rightarrow> (cancel_gate late s1)\<lparr>lv_gates := AList.delete slug (lv_gates s1)\<rparr>)
      in (map (jb_gen \<circ> snd) (filter (\<lambda>(i, _). fst (jid_pair i) = slug) (lv_jobs s)),
          s2\<lparr>lv_streams := filter (\<lambda>(_, o'). os_slug o' \<noteq> slug) (lv_streams s2)\<rparr>))"

definition pushRoutes :: "pairID \<Rightarrow> liveState \<Rightarrow> (jobID \<times> gostr) list" where
  "pushRoutes pair s = filter (\<lambda>(i, _). is_push pair i) (lv_routes s)"

datatype remembered = Recorded nat | Dropped

definition rememberPush :: "jobID \<Rightarrow> gostr \<Rightarrow> bool \<Rightarrow> nat \<Rightarrow> liveState \<Rightarrow> (push_error + remembered) \<times> liveState" where
  "rememberPush i subs started teardowns s =
     (if map_of (lv_gates s) (fst (jid_pair i)) = None \<and> teardowns \<noteq> lv_teardowns s then (Inr Dropped, s)
      else if \<not> started \<and> \<not> admitPushTargetLocked i s then (Inl (PushLimit (jid_pair i)), s)
      else let s' = s\<lparr>lv_routes := AList.update i subs (lv_routes s)\<rparr> in (Inr (Recorded (length (lv_routes s'))), s'))"

definition beginStart :: "jobID \<Rightarrow> jobFeed \<Rightarrow> liveState \<Rightarrow> push_error + job option \<times> liveState" where
  "beginStart i feed s =
     (if feed = jobMixFed \<and> map_of (lv_pairs s) (jid_pair i) = None then Inl (NotReady (str ''no dubbed audio''))
      else if jid_kind i = kindPush \<and> \<not> admitPushTargetLocked i s then Inl (PushLimit (jid_pair i))
      else if liveGateLocked (fst (jid_pair i)) s = None then Inl (NotReady (str ''playout is finishing''))
      else Inr (map_of (lv_jobs s) i, s\<lparr>lv_jobs := AList.delete i (lv_jobs s)\<rparr>))"

definition registerJobLocked :: "jobID \<Rightarrow> jobFeed \<Rightarrow> liveState \<Rightarrow> job \<times> liveState" where
  "registerJobLocked i feed s =
     (let n = lv_nextJob s + 1; j = \<lparr>jb_gen = n, jb_feed = feed\<rparr>
      in (j, s\<lparr>lv_nextJob := n, lv_jobs := AList.update i j (lv_jobs s)\<rparr>))"

type_synonym templates = "nat \<Rightarrow> playoutGroup"

text \<open>\<open>Cursor\<close> and \<open>BeginPlayout\<close> on a template; refused once its group is sealed.\<close>

definition begin_cursor :: "nat \<Rightarrow> templates \<Rightarrow> bool \<times> templates" where
  "begin_cursor t gs = (case group_acquire (gs t) of (ok, g) \<Rightarrow> (ok, gs(t := g)))"

definition admitMixFedJob :: "jobID \<Rightarrow> liveState \<Rightarrow> templates \<Rightarrow> (registration \<times> job) option \<times> liveState \<times> templates" where
  "admitMixFedJob i s gs =
     (case map_of (lv_pairs s) (jid_pair i) of
        None \<Rightarrow> (None, s, gs)
      | Some reg \<Rightarrow>
          if liveGateLocked (fst (jid_pair i)) s = None then (None, s, gs)
          else (case begin_cursor (rg_template reg) gs of
                  (False, gs') \<Rightarrow> (None, s, gs')
                | (True, gs') \<Rightarrow> (case registerJobLocked i jobMixFed s of (j, s') \<Rightarrow> (Some (reg, j), s', gs'))))"

definition admitSelfFedJob :: "jobID \<Rightarrow> liveState \<Rightarrow> job option \<times> liveState" where
  "admitSelfFedJob i s =
     (if liveGateLocked (fst (jid_pair i)) s = None then (None, s)
      else (case registerJobLocked i jobSelfFed s of (j, s') \<Rightarrow> (Some j, s')))"

definition live_retireJob :: "jobID \<Rightarrow> nat \<Rightarrow> liveState \<Rightarrow> liveState" where
  "live_retireJob i gen s =
     (case map_of (lv_jobs s) i of
        None \<Rightarrow> s
      | Some current \<Rightarrow> if jb_gen current = gen then s\<lparr>lv_jobs := AList.delete i (lv_jobs s)\<rparr> else s)"

datatype pairState = pairBusy | pairCurrent registration | pairGone

text \<open>\<open>locked\<close>: whether \<open>TryRLock\<close> got the lock.\<close>

definition pairSnapshot :: "bool \<Rightarrow> pairID \<Rightarrow> liveState \<Rightarrow> pairState" where
  "pairSnapshot locked pair s =
     (if \<not> locked then pairBusy
      else case map_of (lv_pairs s) pair of
        None \<Rightarrow> pairGone
      | Some reg \<Rightarrow> if liveGateLocked (fst pair) s = None then pairGone else pairCurrent reg)"

definition pacingFor :: "pairID \<Rightarrow> liveState \<Rightarrow> feedConfig" where
  "pacingFor pair s = (case map_of (lv_pairs s) pair of None \<Rightarrow> defaultFeedConfig | Some reg \<Rightarrow> rg_pacing reg)"

definition openStream :: "pairID \<Rightarrow> liveState \<Rightarrow> templates \<Rightarrow> (nat \<times> nat \<times> registration) option \<times> liveState \<times> templates" where
  "openStream pair s gs =
     (case map_of (lv_pairs s) pair of
        None \<Rightarrow> (None, s, gs)
      | Some reg \<Rightarrow>
          (case liveGateLocked (fst pair) s of
             None \<Rightarrow> (None, s, gs)
           | Some g \<Rightarrow>
               (case begin_cursor (rg_template reg) gs of
                  (False, gs') \<Rightarrow> (None, s, gs')
                | (True, gs') \<Rightarrow>
                    let n = lv_nextOut s + 1
                    in (Some (n, g, reg),
                        s\<lparr>lv_nextOut := n, lv_streams := AList.update n \<lparr>os_slug = fst pair\<rparr> (lv_streams s)\<rparr>, gs'))))"

definition closeStream :: "nat \<Rightarrow> liveState \<Rightarrow> liveState" where
  "closeStream n s = s\<lparr>lv_streams := AList.delete n (lv_streams s)\<rparr>"

section \<open>Where a push goes\<close>

text \<open>
  \<open>push.go\<close>: the target decides which process is started and whether the job draws the mix. What the
  daemon knows at that moment is \<open>out_env\<close>: the platform, the supervisor, the session's video, the cue file,
  the fonts, the helper and the reading of a URL (scheme and host).
\<close>

record out_env =
  ev_os :: goos
  ev_sup :: bool
  ev_video :: "gostr \<Rightarrow> arg option"
  ev_cue :: "gostr \<Rightarrow> lang \<Rightarrow> arg option"
  ev_font :: arg
  ev_helper :: arg
  ev_resolve :: "(arg \<Rightarrow> int option) option"
  ev_parse :: "gostr \<Rightarrow> (gostr \<times> gostr) option"

datatype push_launch =
    StartSink "arg list"
  | StartAVSink arg arg "arg list"
  | StartVideoDevice arg gostr
  | OpenWasapi gostr duration
  | StartPlayback arg arg
  | StartDeviceSink gostr

datatype push_plan = PlanErr push_error | PlanLaunch jobFeed push_launch

definition aacArgs :: "arg list" where
  "aacArgs = [lit ''-c:a'', lit ''aac'', lit ''-b:a'', lit ''128k'']"

definition networkMux :: "out_env \<Rightarrow> gostr \<Rightarrow> push_error + arg" where
  "networkMux e target =
     (case ev_parse e target of
        None \<Rightarrow> Inl (Refused target)
      | Some (scheme, host) \<Rightarrow>
          if host = [] then Inl (Refused target)
          else let s = ToLower ascii_tables scheme in
            if s = str ''rtmp'' \<or> s = str ''rtmps'' then Inr (lit ''flv'')
            else if s = str ''srt'' then Inr (lit ''mpegts'')
            else Inl (Refused target))"

definition burnFilter :: "out_env \<Rightarrow> pairID \<Rightarrow> gostr \<Rightarrow> arg" where
  "burnFilter e pair subs =
     (if subs \<noteq> SubsBurn then []
      else case ev_cue e (fst pair) (snd pair) of
        None \<Rightarrow> []
      | Some cueFile \<Rightarrow> if ev_font e = [] then [] else BurnFilter cueFile (ev_font e))"

definition deviceVideoChain :: "out_env \<Rightarrow> jobID \<Rightarrow> gostr \<Rightarrow> arg" where
  "deviceVideoChain e i subs =
     (let vf = burnFilter e (jid_pair i) subs; deviceVF = deviceVideoFilter (ev_os e) (jid_target i)
      in if deviceVF = [] then vf else if vf = [] then deviceVF else deviceVF @ lit '','' @ vf)"

definition deviceBufferDuration :: "feedConfig \<Rightarrow> duration" where
  "deviceBufferDuration pacing = wrap64 (2 * fc_quantum pacing)"

definition requireSupervisor :: "out_env \<Rightarrow> push_plan \<Rightarrow> push_plan" where
  "requireSupervisor e p = (if ev_sup e then p else PlanErr (NotReady (str ''ffmpeg is unavailable'')))"

definition startDeviceAudioJob :: "out_env \<Rightarrow> jobID \<Rightarrow> dev_ref \<Rightarrow> push_plan" where
  "startDeviceAudioJob e i r =
     (if ref_Label r \<noteq> [] \<and> ev_helper e \<noteq> [] then PlanLaunch jobMixFed (StartPlayback (ev_helper e) (ref_Label r))
      else requireSupervisor e
        (case deviceOutputArgs (ev_resolve e) (ev_os e) (jid_target i) of
           Inl _ \<Rightarrow> PlanErr (Refused (jid_target i))
         | Inr _ \<Rightarrow> PlanLaunch jobMixFed (StartDeviceSink (jid_target i))))"

definition needs_video :: "out_env \<Rightarrow> gostr \<Rightarrow> (arg \<Rightarrow> push_plan) \<Rightarrow> push_plan" where
  "needs_video e slug f =
     (case ev_video e slug of
        None \<Rightarrow> PlanErr (NotReady (str ''device target needs the session video rendition''))
      | Some playlist \<Rightarrow> f playlist)"

definition pushDevice :: "out_env \<Rightarrow> feedConfig \<Rightarrow> jobID \<Rightarrow> gostr \<Rightarrow> push_plan" where
  "pushDevice e pacing i subs =
     (let target = jid_target i; slug = fst (jid_pair i) in
      if IsNativeVideo target
      then (if subs = SubsBurn then PlanErr (Refused target)
            else needs_video e slug (\<lambda>playlist. PlanLaunch jobSelfFed (StartVideoDevice playlist target)))
      else case ParseDevice target of
        Inl _ \<Rightarrow> PlanErr (Refused target)
      | Inr r \<Rightarrow>
          if ref_Kind r = Audio
          then (if ev_os e = Windows then PlanLaunch jobMixFed (OpenWasapi target (deviceBufferDuration pacing))
                else startDeviceAudioJob e i r)
          else (case deviceOutputArgs (ev_resolve e) (ev_os e) target of
                  Inl _ \<Rightarrow> PlanErr (Refused target)
                | Inr out \<Rightarrow> needs_video e slug (\<lambda>playlist. requireSupervisor e
                    (PlanLaunch jobMixFed (StartAVSink playlist (deviceVideoChain e i subs) (lit ''-an'' # out))))))"

definition dispatchPush :: "out_env \<Rightarrow> feedConfig \<Rightarrow> jobID \<Rightarrow> gostr \<Rightarrow> push_plan" where
  "dispatchPush e pacing i subs =
     (let target = jid_target i in
      if IsDevice target then pushDevice e pacing i subs
      else case networkMux e target of
        Inl err \<Rightarrow> PlanErr err
      | Inr format \<Rightarrow>
          (case ev_video e (fst (jid_pair i)) of
             None \<Rightarrow> requireSupervisor e (PlanLaunch jobMixFed (StartSink (aacArgs @ OutputArgs format (utf8 target))))
           | Some playlist \<Rightarrow> requireSupervisor e
               (PlanLaunch jobMixFed (StartAVSink playlist (burnFilter e (jid_pair i) subs)
                 ([lit ''-c:v'', lit ''libx264'', lit ''-preset'', lit ''veryfast'', lit ''-b:v'', lit ''2500k''] @
                  aacArgs @ OutputArgs format (utf8 target))))))"

section \<open>The goroutines\<close>

text \<open>
  \<open>startMu\<close> is modelled by what its holder does: a launch between its two windows, or a reset waiting for
  the jobs it stopped. The other callers are actors, the jobs are runners; a runner's \<open>done\<close> channel is closed
  when no running runner has its generation. A launch remembers who asked for it.
\<close>

type_synonym routes = "(jobID \<times> gostr) list"

datatype cont = KHLS | KPush gostr nat | KReplay nat pairID routes

datatype actor =
    APush jobID gostr nat
  | ALaunch jobID jobFeed cont
  | ARemember jobID gostr bool nat
  | AReplay nat pairID "routes option"
  | AReset gostr bool
  | ADrain nat gostr bool
  | AStop gostr bool
  | AForget gostr
  | AFinish gostr
  | AWaiting "nat list" "nat list" "nat list"

datatype lphase = LCancel nat | LReap nat | LStart | LAdmit

datatype held = Free | HLaunch jobID jobFeed lphase cont | HReset gostr "nat list" bool

record runner =
  rn_id :: jobID
  rn_gen :: nat
  rn_canceled :: bool
  rn_running :: bool

record outputs =
  ou_live :: liveState
  ou_held :: held
  ou_actors :: "actor multiset"
  ou_runners :: "runner list"

definition NewRegistry :: outputs where
  "NewRegistry = \<lparr>ou_live = live_start, ou_held = Free, ou_actors = {#}, ou_runners = []\<rparr>"

definition done_closed :: "outputs \<Rightarrow> nat \<Rightarrow> bool" where
  "done_closed s n \<longleftrightarrow> list_all (\<lambda>r. rn_gen r = n \<longrightarrow> \<not> rn_running r) (ou_runners s)"

definition cancel_runners :: "nat list \<Rightarrow> runner list \<Rightarrow> runner list" where
  "cancel_runners ns rs = map (\<lambda>r. if rn_gen r \<in> set ns then r\<lparr>rn_canceled := True\<rparr> else r) rs"

definition become :: "actor \<Rightarrow> actor list \<Rightarrow> outputs \<Rightarrow> outputs" where
  "become a bs s = s\<lparr>ou_actors := ou_actors s - {#a#} + mset bs\<rparr>"

text \<open>What the caller of a launch does with its result; \<open>None\<close> is success.\<close>

definition after_launch :: "push_error option \<Rightarrow> jobID \<Rightarrow> cont \<Rightarrow> actor list" where
  "after_launch err i k =
     (case k of
        KHLS \<Rightarrow> []
      | KPush subs n \<Rightarrow>
          (case err of
             None \<Rightarrow> [ARemember i subs True n]
           | Some (NotReady _) \<Rightarrow> [ARemember i subs False n]
           | Some _ \<Rightarrow> [])
      | KReplay g pair rest \<Rightarrow> [AReplay g pair (Some rest)])"

definition do_create :: "pairID \<Rightarrow> registration \<Rightarrow> outputs \<Rightarrow> outputs" where
  "do_create pair reg s =
     (case createPair pair reg (ou_live s) of
        (g, l) \<Rightarrow> s\<lparr>ou_live := l, ou_actors := ou_actors s + {#AReplay g pair None#}\<rparr>)"

definition start_push :: "out_env \<Rightarrow> jobID \<Rightarrow> gostr \<Rightarrow> cont \<Rightarrow> outputs \<Rightarrow> actor list" where
  "start_push e i subs k s =
     (case dispatchPush e (pacingFor (jid_pair i) (ou_live s)) i subs of
        PlanErr err \<Rightarrow> after_launch (Some err) i k
      | PlanLaunch feed _ \<Rightarrow> [ALaunch i feed k])"

text \<open>The first window of a launch.\<close>

definition launch_begin :: "bool \<Rightarrow> jobID \<Rightarrow> jobFeed \<Rightarrow> cont \<Rightarrow> outputs \<Rightarrow> outputs" where
  "launch_begin hasSup i feed k s =
     (if feed = jobSelfFed \<and> \<not> hasSup then become (ALaunch i feed k) (after_launch (Some (NotReady (str ''ffmpeg is unavailable''))) i k) s
      else case beginStart i feed (ou_live s) of
        Inl err \<Rightarrow> become (ALaunch i feed k) (after_launch (Some err) i k) s
      | Inr (old, l) \<Rightarrow>
          (become (ALaunch i feed k) [] s)
            \<lparr>ou_live := l, ou_held := HLaunch i feed (case old of None \<Rightarrow> LStart | Some j \<Rightarrow> LCancel (jb_gen j)) k\<rparr>)"

definition launch_end :: "push_error option \<Rightarrow> jobID \<Rightarrow> cont \<Rightarrow> outputs \<Rightarrow> outputs" where
  "launch_end err i k s = s\<lparr>ou_held := Free, ou_actors := ou_actors s + mset (after_launch err i k)\<rparr>"

text \<open>The second window: \<open>gs\<close> is what the templates' groups are at that moment.\<close>

definition launch_admit :: "templates \<Rightarrow> jobID \<Rightarrow> jobFeed \<Rightarrow> cont \<Rightarrow> outputs \<Rightarrow> outputs" where
  "launch_admit gs i feed k s =
     (case (case feed of
              jobMixFed \<Rightarrow> (case admitMixFedJob i (ou_live s) gs of (r, l, _) \<Rightarrow> (map_option snd r, l))
            | jobSelfFed \<Rightarrow> admitSelfFedJob i (ou_live s)) of
        (None, _) \<Rightarrow> launch_end (Some (NotReady (str ''playout is finishing''))) i k s
      | (Some j, l) \<Rightarrow> launch_end None i k
          (s\<lparr>ou_live := l, ou_runners := ou_runners s @ [\<lparr>rn_id = i, rn_gen = jb_gen j, rn_canceled = False, rn_running = True\<rparr>]\<rparr>))"

definition run_end :: "nat \<Rightarrow> outputs \<Rightarrow> outputs" where
  "run_end n s = s\<lparr>ou_runners := map (\<lambda>r. if rn_gen r = n then r\<lparr>rn_running := False\<rparr> else r) (ou_runners s)\<rparr>"

definition run_retire :: "runner \<Rightarrow> outputs \<Rightarrow> outputs" where
  "run_retire r s = s\<lparr>ou_live := live_retireJob (rn_id r) (rn_gen r) (ou_live s), ou_runners := remove1 r (ou_runners s)\<rparr>"

definition do_retireGate :: "gostr \<Rightarrow> bool \<Rightarrow> outputs \<Rightarrow> outputs" where
  "do_retireGate slug forget s =
     (case retireGate slug (ou_live s) of
        (None, _) \<Rightarrow> become (AReset slug forget) [AStop slug forget] s
      | (Some g, l) \<Rightarrow> (become (AReset slug forget) [ADrain g slug forget] s)\<lparr>ou_live := l\<rparr>)"

definition do_stop :: "gostr \<Rightarrow> bool \<Rightarrow> outputs \<Rightarrow> outputs" where
  "do_stop slug forget s =
     (case stopSession slug (ou_live s) of
        (ns, l) \<Rightarrow> (become (AStop slug forget) [] s)
          \<lparr>ou_live := l, ou_runners := cancel_runners ns (ou_runners s), ou_held := HReset slug ns forget\<rparr>)"

definition reset_done :: "gostr \<Rightarrow> bool \<Rightarrow> outputs \<Rightarrow> outputs" where
  "reset_done slug forget s =
     s\<lparr>ou_held := Free, ou_actors := ou_actors s + (if forget then {#AForget slug#} else {#})\<rparr>"

definition replay_return :: "nat \<Rightarrow> liveState \<Rightarrow> liveState" where
  "replay_return g l = l\<lparr>lv_heap := (lv_heap l)[g := (lv_heap l ! g)\<lparr>gt_replays := gt_replays (lv_heap l ! g) - 1\<rparr>]\<rparr>"

text \<open>One turn of \<open>relaunchRoutes\<close>.\<close>

definition replay_step :: "out_env \<Rightarrow> nat \<Rightarrow> pairID \<Rightarrow> routes option \<Rightarrow> outputs \<Rightarrow> outputs" where
  "replay_step e g pair rs s =
     (let a = AReplay g pair rs in
      case rs of
        None \<Rightarrow> become a [AReplay g pair (Some (pushRoutes pair (ou_live s)))] s
      | Some [] \<Rightarrow> (become a [] s)\<lparr>ou_live := replay_return g (ou_live s)\<rparr>
      | Some ((i, subs) # rest) \<Rightarrow>
          if gt_canceled (lv_heap (ou_live s) ! g) then (become a [] s)\<lparr>ou_live := replay_return g (ou_live s)\<rparr>
          else become a (start_push e i subs (KReplay g pair rest) s) s)"

definition do_remember :: "jobID \<Rightarrow> gostr \<Rightarrow> bool \<Rightarrow> nat \<Rightarrow> outputs \<Rightarrow> outputs" where
  "do_remember i subs started n s =
     (become (ARemember i subs started n) [] s)\<lparr>ou_live := snd (rememberPush i subs started n (ou_live s))\<rparr>"

definition do_finish :: "gostr \<Rightarrow> outputs \<Rightarrow> outputs" where
  "do_finish slug s =
     (case finishSnapshot slug (ou_live s) of
        (None, _) \<Rightarrow> become (AFinish slug) [] s
      | (Some (ts, js, os), l) \<Rightarrow> (become (AFinish slug) [AWaiting ts js os] s)\<lparr>ou_live := l\<rparr>)"

text \<open>\<open>outside\<close> marks what the daemon's other parts, the clients and the encoders do.\<close>

inductive out_step :: "bool \<Rightarrow> outputs \<Rightarrow> outputs \<Rightarrow> bool" where
  create: "out_step True s (do_create pair reg s)"
| push: "jid_kind i = kindPush \<Longrightarrow> out_step True s (s\<lparr>ou_actors := ou_actors s + {#APush i subs (lv_teardowns (ou_live s))#}\<rparr>)"
| hls: "jid_kind i = kindHLS \<Longrightarrow> out_step True s (s\<lparr>ou_actors := ou_actors s + {#ALaunch i jobMixFed KHLS#}\<rparr>)"
| reset: "out_step True s (s\<lparr>ou_actors := ou_actors s + {#AReset slug forget#}\<rparr>)"
| finish: "out_step True s (s\<lparr>ou_actors := ou_actors s + {#AFinish slug#}\<rparr>)"
| serve: "openStream pair (ou_live s) gs = (r, l, gs') \<Longrightarrow> out_step True s (s\<lparr>ou_live := l\<rparr>)"
| served: "out_step True s (s\<lparr>ou_live := closeStream n (ou_live s)\<rparr>)"
| ends: "r \<in> set (ou_runners s) \<Longrightarrow> out_step True s (run_end (rn_gen r) s)"
| waited: "AWaiting ts js os \<in># ou_actors s \<Longrightarrow> list_all (done_closed s) js \<Longrightarrow>
    list_all (\<lambda>n. map_of (lv_streams (ou_live s)) n = None) os \<Longrightarrow> out_step True s (become (AWaiting ts js os) [] s)"
| gives_up: "AWaiting ts js os \<in># ou_actors s \<Longrightarrow> out_step True s (become (AWaiting ts js os) [] s)"
| plans: "APush i subs n \<in># ou_actors s \<Longrightarrow> out_step False s (become (APush i subs n) (start_push e i subs (KPush subs n) s) s)"
| begins: "ou_held s = Free \<Longrightarrow> ALaunch i feed k \<in># ou_actors s \<Longrightarrow> out_step False s (launch_begin hasSup i feed k s)"
| cancels: "ou_held s = HLaunch i feed (LCancel n) k \<Longrightarrow>
    out_step False s (s\<lparr>ou_runners := cancel_runners [n] (ou_runners s), ou_held := HLaunch i feed (LReap n) k\<rparr>)"
| reaped: "ou_held s = HLaunch i feed (LReap n) k \<Longrightarrow> done_closed s n \<Longrightarrow> out_step False s (s\<lparr>ou_held := HLaunch i feed LStart k\<rparr>)"
| starts: "ou_held s = HLaunch i feed LStart k \<Longrightarrow> out_step False s (s\<lparr>ou_held := HLaunch i feed LAdmit k\<rparr>)"
| fails: "ou_held s = HLaunch i feed LStart k \<Longrightarrow> out_step False s (launch_end (Some err) i k s)"
| admits: "ou_held s = HLaunch i feed LAdmit k \<Longrightarrow> out_step False s (launch_admit gs i feed k s)"
| obeys: "r \<in> set (ou_runners s) \<Longrightarrow> rn_canceled r \<Longrightarrow> rn_running r \<Longrightarrow> out_step False s (run_end (rn_gen r) s)"
| retires: "r \<in> set (ou_runners s) \<Longrightarrow> \<not> rn_running r \<Longrightarrow> out_step False s (run_retire r s)"
| ungates: "AReset slug forget \<in># ou_actors s \<Longrightarrow> out_step False s (do_retireGate slug forget s)"
| drains: "ADrain g slug forget \<in># ou_actors s \<Longrightarrow> gt_replays (lv_heap (ou_live s) ! g) = 0 \<Longrightarrow>
    out_step False s (become (ADrain g slug forget) [AStop slug forget] s)"
| stops: "ou_held s = Free \<Longrightarrow> AStop slug forget \<in># ou_actors s \<Longrightarrow> out_step False s (do_stop slug forget s)"
| joins: "ou_held s = HReset slug (n # ns) forget \<Longrightarrow> done_closed s n \<Longrightarrow> out_step False s (s\<lparr>ou_held := HReset slug ns forget\<rparr>)"
| resets: "ou_held s = HReset slug [] forget \<Longrightarrow> out_step False s (reset_done slug forget s)"
| forgets: "AForget slug \<in># ou_actors s \<Longrightarrow>
    out_step False s ((become (AForget slug) [] s)\<lparr>ou_live := forgetRoutes slug (ou_live s)\<rparr>)"
| remembers: "ARemember i subs started n \<in># ou_actors s \<Longrightarrow> out_step False s (do_remember i subs started n s)"
| replays: "AReplay g pair rs \<in># ou_actors s \<Longrightarrow> out_step False s (replay_step e g pair rs s)"
| finishes: "ou_held s = Free \<Longrightarrow> AFinish slug \<in># ou_actors s \<Longrightarrow> out_step False s (do_finish slug s)"

section \<open>Every running job is accounted for\<close>

definition slug_of :: "jobID \<Rightarrow> gostr" where
  "slug_of i = fst (jid_pair i)"

definition waited_for :: "held \<Rightarrow> nat set" where
  "waited_for h = (case h of HLaunch _ _ (LReap n) _ \<Rightarrow> {n} | HReset _ ns _ \<Rightarrow> set ns | _ \<Rightarrow> {})"

text \<open>The running jobs a launch or a reset has taken out of the registry.\<close>

definition detached :: "held \<Rightarrow> jobID \<Rightarrow> nat \<Rightarrow> bool" where
  "detached h i n =
     (case h of
        HLaunch i' _ (LCancel m) _ \<Rightarrow> i = i' \<and> n = m
      | HLaunch i' _ (LReap m) _ \<Rightarrow> i = i' \<and> n = m
      | HReset slug ns _ \<Rightarrow> slug_of i = slug \<and> n \<in> set ns
      | _ \<Rightarrow> False)"

definition unregistered :: "held \<Rightarrow> jobID \<Rightarrow> bool" where
  "unregistered h i = (case h of HLaunch i' _ _ _ \<Rightarrow> i = i' | HReset slug _ _ \<Rightarrow> slug_of i = slug | Free \<Rightarrow> False)"

definition jobs_inv :: "(jobID \<times> job) list \<Rightarrow> nat \<Rightarrow> held \<Rightarrow> runner list \<Rightarrow> bool" where
  "jobs_inv jobs next h rs \<longleftrightarrow>
     distinct (map rn_gen rs) \<and> (\<forall>r \<in> set rs. rn_gen r \<le> next) \<and>
     (\<forall>i j. map_of jobs i = Some j \<longrightarrow> \<not> unregistered h i \<and> (\<exists>r \<in> set rs. rn_gen r = jb_gen j \<and> rn_id r = i)) \<and>
     (\<forall>r \<in> set rs. rn_running r \<longrightarrow>
        (\<exists>j. map_of jobs (rn_id r) = Some j \<and> jb_gen j = rn_gen r) \<or> detached h (rn_id r) (rn_gen r)) \<and>
     (\<forall>r \<in> set rs. rn_gen r \<in> waited_for h \<longrightarrow> rn_canceled r) \<and>
     (\<forall>r \<in> set rs. \<forall>r' \<in> set rs. rn_running r \<longrightarrow> rn_running r' \<longrightarrow> rn_id r = rn_id r' \<longrightarrow> r = r')"

definition job_state :: "outputs \<Rightarrow> bool" where
  "job_state s \<longleftrightarrow> distinct (map fst (lv_jobs (ou_live s))) \<and>
     jobs_inv (lv_jobs (ou_live s)) (lv_nextJob (ou_live s)) (ou_held s) (ou_runners s)"

lemma unique_gen: "distinct (map rn_gen rs) \<Longrightarrow> r \<in> set rs \<Longrightarrow> r' \<in> set rs \<Longrightarrow> rn_gen r = rn_gen r' \<Longrightarrow> r = r'"
  by (simp add: distinct_map inj_on_def)

text \<open>What changes neither the registered jobs nor who holds \<open>startMu\<close>.\<close>

lemma job_state_frame:
  "lv_jobs (ou_live s') = lv_jobs (ou_live s) \<Longrightarrow> lv_nextJob (ou_live s') = lv_nextJob (ou_live s) \<Longrightarrow>
   ou_held s' = ou_held s \<Longrightarrow> ou_runners s' = ou_runners s \<Longrightarrow> job_state s' = job_state s"
  by (simp add: job_state_def)

lemma become_simps [simp]:
  "ou_live (become a bs s) = ou_live s" "ou_held (become a bs s) = ou_held s" "ou_runners (become a bs s) = ou_runners s"
  "ou_actors (become a bs s) = ou_actors s - {#a#} + mset bs"
  by (simp_all add: become_def)

lemma live_jobs_simps [simp]:
  "createPair pair reg l = (g, l') \<Longrightarrow> lv_jobs l' = lv_jobs l"
  "createPair pair reg l = (g, l') \<Longrightarrow> lv_nextJob l' = lv_nextJob l"
  "finishSnapshot slug l = (w, l') \<Longrightarrow> lv_jobs l' = lv_jobs l"
  "finishSnapshot slug l = (w, l') \<Longrightarrow> lv_nextJob l' = lv_nextJob l"
  "lv_jobs (forgetRoutes slug l) = lv_jobs l" "lv_nextJob (forgetRoutes slug l) = lv_nextJob l"
  "lv_jobs (cancel_gate g l) = lv_jobs l" "lv_nextJob (cancel_gate g l) = lv_nextJob l"
  "retireGate slug l = (o', l') \<Longrightarrow> lv_jobs l' = lv_jobs l"
  "retireGate slug l = (o', l') \<Longrightarrow> lv_nextJob l' = lv_nextJob l"
  "lv_jobs (snd (rememberPush i subs b n l)) = lv_jobs l" "lv_nextJob (snd (rememberPush i subs b n l)) = lv_nextJob l"
  "openStream pair l gs = (r, l', gs') \<Longrightarrow> lv_jobs l' = lv_jobs l"
  "openStream pair l gs = (r, l', gs') \<Longrightarrow> lv_nextJob l' = lv_nextJob l"
  "lv_jobs (closeStream n l) = lv_jobs l" "lv_nextJob (closeStream n l) = lv_nextJob l"
  "lv_jobs (replay_return g l) = lv_jobs l" "lv_nextJob (replay_return g l) = lv_nextJob l"
  by (auto simp: createPair_def finishSnapshot_def forgetRoutes_def cancel_gate_def retireGate_def rememberPush_def
      openStream_def closeStream_def replay_return_def Let_def split: prod.splits option.splits if_splits bool.splits)

text \<open>Jobs are taken out of the registry, runners are canceled or end; none is added.\<close>

lemma jobs_inv_shrink:
  assumes inv: "jobs_inv jobs n h rs"
    and f: "\<And>r. rn_gen (f r) = rn_gen r" "\<And>r. rn_id (f r) = rn_id r" "\<And>r. rn_running (f r) \<Longrightarrow> rn_running r"
      "\<And>r. rn_canceled r \<Longrightarrow> rn_canceled (f r)"
    and sub: "\<And>i j. map_of jobs' i = Some j \<Longrightarrow> map_of jobs i = Some j \<and> \<not> unregistered h' i"
    and kept: "\<And>r j. r \<in> set rs \<Longrightarrow> rn_running (f r) \<Longrightarrow> map_of jobs (rn_id r) = Some j \<Longrightarrow> jb_gen j = rn_gen r \<Longrightarrow>
      map_of jobs' (rn_id r) = Some j \<or> detached h' (rn_id r) (rn_gen r)"
    and det: "\<And>r. r \<in> set rs \<Longrightarrow> rn_running (f r) \<Longrightarrow> detached h (rn_id r) (rn_gen r) \<Longrightarrow> detached h' (rn_id r) (rn_gen r)"
    and canc: "\<And>r. r \<in> set rs \<Longrightarrow> rn_gen r \<in> waited_for h' \<Longrightarrow> rn_canceled (f r)"
  shows "jobs_inv jobs' n h' (map f rs)"
proof -
  note i = inv [unfolded jobs_inv_def]
  have g: "map rn_gen (map f rs) = map rn_gen rs" using f(1) by simp
  have s: "set (map f rs) = f ` set rs" by simp
  have 1: "\<forall>r \<in> f ` set rs. rn_gen r \<le> n" using i f(1) by simp
  have 2: "\<forall>i j. map_of jobs' i = Some j \<longrightarrow> \<not> unregistered h' i \<and> (\<exists>r \<in> f ` set rs. rn_gen r = jb_gen j \<and> rn_id r = i)"
  proof (intro allI impI conjI)
    fix k j assume m: "map_of jobs' k = Some j"
    show "\<not> unregistered h' k" using sub [OF m] by simp
    obtain r where "r \<in> set rs" "rn_gen r = jb_gen j" "rn_id r = k" using i sub [OF m] by blast
    then show "\<exists>r \<in> f ` set rs. rn_gen r = jb_gen j \<and> rn_id r = k"
      by (intro bexI [of _ "f r"]) (simp_all add: f(1,2))
  qed
  have 3: "\<forall>r \<in> f ` set rs. rn_running r \<longrightarrow>
        (\<exists>j. map_of jobs' (rn_id r) = Some j \<and> jb_gen j = rn_gen r) \<or> detached h' (rn_id r) (rn_gen r)"
  proof (intro ballI impI)
    fix r' assume "r' \<in> f ` set rs" "rn_running r'"
    then obtain r where r: "r \<in> set rs" "r' = f r" "rn_running (f r)" by blast
    then have "(\<exists>j. map_of jobs (rn_id r) = Some j \<and> jb_gen j = rn_gen r) \<or> detached h (rn_id r) (rn_gen r)" using i f(3) by blast
    then show "(\<exists>j. map_of jobs' (rn_id r') = Some j \<and> jb_gen j = rn_gen r') \<or> detached h' (rn_id r') (rn_gen r')"
      using kept [OF r(1,3)] det [OF r(1,3)] r(2) f(1,2) by auto
  qed
  have 4: "\<forall>r \<in> f ` set rs. rn_gen r \<in> waited_for h' \<longrightarrow> rn_canceled r" using canc f(1) by auto
  have 5: "\<forall>r \<in> f ` set rs. \<forall>r' \<in> f ` set rs. rn_running r \<longrightarrow> rn_running r' \<longrightarrow> rn_id r = rn_id r' \<longrightarrow> r = r'"
  proof (intro ballI impI)
    fix a b assume "a \<in> f ` set rs" "b \<in> f ` set rs" "rn_running a" "rn_running b" "rn_id a = rn_id b"
    then obtain r r' where "r \<in> set rs" "r' \<in> set rs" "a = f r" "b = f r'" "rn_running r" "rn_running r'" "rn_id r = rn_id r'"
      using f(2,3) by (metis imageE)
    then show "a = b" using i by blast
  qed
  show ?thesis unfolding jobs_inv_def g s using i 1 2 3 4 5 by blast
qed

lemma jobs_inv_held:
  assumes "jobs_inv jobs n h rs" "\<And>i. unregistered h' i = unregistered h i"
    "\<And>r. r \<in> set rs \<Longrightarrow> rn_running r \<Longrightarrow> detached h (rn_id r) (rn_gen r) \<Longrightarrow> detached h' (rn_id r) (rn_gen r)"
    "waited_for h' \<subseteq> waited_for h"
  shows "jobs_inv jobs n h' rs"
proof -
  have "jobs_inv jobs n h' (map (\<lambda>r. r) rs)"
  proof (rule jobs_inv_shrink [OF assms(1)])
    fix i j assume "map_of jobs i = Some j"
    then show "map_of jobs i = Some j \<and> \<not> unregistered h' i" using assms(1,2) unfolding jobs_inv_def by blast
  qed (use assms in \<open>auto simp: jobs_inv_def\<close>)
  then show ?thesis by simp
qed

lemma waits_canceled: "jobs_inv jobs n h rs \<Longrightarrow> r \<in> set rs \<Longrightarrow> rn_gen r \<in> waited_for h \<Longrightarrow> rn_canceled r"
  by (simp add: jobs_inv_def)

lemma registered_out: "jobs_inv jobs n h rs \<Longrightarrow> map_of jobs i = Some j \<Longrightarrow> \<not> unregistered h i"
  by (simp add: jobs_inv_def)

lemma job_state_end:
  assumes "job_state s" shows "job_state (run_end n s)"
proof -
  have "jobs_inv (lv_jobs (ou_live s)) (lv_nextJob (ou_live s)) (ou_held s)
      (map (\<lambda>r. if rn_gen r = n then r\<lparr>rn_running := False\<rparr> else r) (ou_runners s))"
  proof (rule jobs_inv_shrink [OF conjunct2 [OF assms [unfolded job_state_def]]])
    fix i j assume "map_of (lv_jobs (ou_live s)) i = Some j"
    then show "map_of (lv_jobs (ou_live s)) i = Some j \<and> \<not> unregistered (ou_held s) i"
      using registered_out assms by (auto simp: job_state_def)
  next
    fix r assume "r \<in> set (ou_runners s)" "rn_gen r \<in> waited_for (ou_held s)"
    then show "rn_canceled (if rn_gen r = n then r\<lparr>rn_running := False\<rparr> else r)"
      using waits_canceled assms by (auto simp: job_state_def)
  qed (auto split: if_splits)
  then show ?thesis using assms by (simp add: job_state_def run_end_def)
qed

lemma job_state_cancel:
  assumes "job_state s" "ou_held s = HLaunch i feed (LCancel n) k"
  shows "job_state (s\<lparr>ou_runners := cancel_runners [n] (ou_runners s), ou_held := HLaunch i feed (LReap n) k\<rparr>)"
proof -
  have "jobs_inv (lv_jobs (ou_live s)) (lv_nextJob (ou_live s)) (HLaunch i feed (LReap n) k) (cancel_runners [n] (ou_runners s))"
    unfolding cancel_runners_def
  proof (rule jobs_inv_shrink [OF conjunct2 [OF assms(1) [unfolded job_state_def assms(2)]]])
    fix i' j assume "map_of (lv_jobs (ou_live s)) i' = Some j"
    then show "map_of (lv_jobs (ou_live s)) i' = Some j \<and> \<not> unregistered (HLaunch i feed (LReap n) k) i'"
      using registered_out assms by (fastforce simp: job_state_def unregistered_def)
  qed (auto simp: waited_for_def detached_def split: if_splits)
  then show ?thesis using assms(1) by (simp add: job_state_def)
qed

lemma job_state_reaped:
  assumes "job_state s" "ou_held s = HLaunch i feed (LReap n) k" "done_closed s n"
  shows "job_state (s\<lparr>ou_held := HLaunch i feed LStart k\<rparr>)"
proof -
  have "jobs_inv (lv_jobs (ou_live s)) (lv_nextJob (ou_live s)) (HLaunch i feed LStart k) (ou_runners s)"
    by (rule jobs_inv_held [OF conjunct2 [OF assms(1) [unfolded job_state_def assms(2)]]])
      (use assms(3) in \<open>auto simp: waited_for_def detached_def unregistered_def done_closed_def list_all_iff\<close>)
  then show ?thesis using assms(1) by (simp add: job_state_def)
qed

lemma job_state_phase:
  assumes "job_state s" "ou_held s = HLaunch i feed LStart k"
  shows "job_state (s\<lparr>ou_held := HLaunch i feed LAdmit k\<rparr>)"
proof -
  have "jobs_inv (lv_jobs (ou_live s)) (lv_nextJob (ou_live s)) (HLaunch i feed LAdmit k) (ou_runners s)"
    by (rule jobs_inv_held [OF conjunct2 [OF assms(1) [unfolded job_state_def assms(2)]]])
      (auto simp: waited_for_def detached_def unregistered_def)
  then show ?thesis using assms(1) by (simp add: job_state_def)
qed

text \<open>The lock is given back by a launch that has reaped its predecessor, or by a reset whose jobs are gone.\<close>

lemma job_state_free:
  assumes "job_state s" "\<And>i n. \<not> detached (ou_held s) i n" "ou_live s' = ou_live s" "ou_held s' = Free" "ou_runners s' = ou_runners s"
  shows "job_state s'"
proof -
  have "jobs_inv (lv_jobs (ou_live s)) (lv_nextJob (ou_live s)) Free (map (\<lambda>r. r) (ou_runners s))"
    by (rule jobs_inv_shrink [OF conjunct2 [OF assms(1) [unfolded job_state_def]]])
      (use assms(2) in \<open>auto simp: waited_for_def unregistered_def\<close>)
  then show ?thesis using assms by (simp add: job_state_def)
qed

lemma job_state_join:
  assumes "job_state s" "ou_held s = HReset slug (n # ns) forget" "done_closed s n"
  shows "job_state (s\<lparr>ou_held := HReset slug ns forget\<rparr>)"
proof -
  have "jobs_inv (lv_jobs (ou_live s)) (lv_nextJob (ou_live s)) (HReset slug ns forget) (ou_runners s)"
    by (rule jobs_inv_held [OF conjunct2 [OF assms(1) [unfolded job_state_def assms(2)]]])
      (use assms(3) in \<open>auto simp: waited_for_def detached_def unregistered_def done_closed_def list_all_iff\<close>)
  then show ?thesis using assms(1) by (simp add: job_state_def)
qed

lemma map_of_filter_key: "map_of (filter (\<lambda>(i, _). P i) al) i = (if P i then map_of al i else None)"
  by (induction al) auto

lemma distinct_filter_keys: "distinct (map fst al) \<Longrightarrow> distinct (map fst (filter P al))"
  by (induction al) auto

lemma job_state_begin:
  assumes "job_state s" "ou_held s = Free"
  shows "job_state (launch_begin hasSup i feed k s)"
proof (cases "feed = jobSelfFed \<and> \<not> hasSup \<or> (\<exists>err. beginStart i feed (ou_live s) = Inl err)")
  case True
  then have "job_state (launch_begin hasSup i feed k s) = job_state s"
    by (intro job_state_frame) (auto simp: launch_begin_def)
  then show ?thesis using assms by simp
next
  case False
  then obtain old l where b: "beginStart i feed (ou_live s) = Inr (old, l)" and nf: "\<not> (feed = jobSelfFed \<and> \<not> hasSup)"
    by (cases "beginStart i feed (ou_live s)") auto
  then have l: "lv_jobs l = AList.delete i (lv_jobs (ou_live s))" "lv_nextJob l = lv_nextJob (ou_live s)"
      "old = map_of (lv_jobs (ou_live s)) i"
    by (auto simp: beginStart_def split: if_splits)
  let ?h = "HLaunch i feed (case old of None \<Rightarrow> LStart | Some j \<Rightarrow> LCancel (jb_gen j)) k"
  have "jobs_inv (AList.delete i (lv_jobs (ou_live s))) (lv_nextJob (ou_live s)) ?h (map (\<lambda>r. r) (ou_runners s))"
  proof (rule jobs_inv_shrink [OF conjunct2 [OF assms(1) [unfolded job_state_def assms(2)]]])
    fix r j assume "map_of (lv_jobs (ou_live s)) (rn_id r) = Some j" "jb_gen j = rn_gen r"
    then show "map_of (AList.delete i (lv_jobs (ou_live s))) (rn_id r) = Some j \<or> detached ?h (rn_id r) (rn_gen r)"
      by (auto simp: l(3) detached_def split: option.split)
  qed (auto simp: waited_for_def detached_def unregistered_def split: if_splits option.splits)
  moreover have "distinct (map fst (AList.delete i (lv_jobs (ou_live s))))"
    using assms(1) by (simp add: job_state_def keys_delete)
  moreover have "launch_begin hasSup i feed k s = (become (ALaunch i feed k) [] s)\<lparr>ou_live := l, ou_held := ?h\<rparr>"
    using nf by (auto simp: launch_begin_def b)
  ultimately show ?thesis using l by (simp add: job_state_def)
qed

lemma stopSession_jobs:
  assumes "stopSession slug l = (ns, l')"
  shows "lv_jobs l' = filter (\<lambda>(i, _). slug_of i \<noteq> slug) (lv_jobs l)" "lv_nextJob l' = lv_nextJob l"
    "ns = map (jb_gen \<circ> snd) (filter (\<lambda>(i, _). slug_of i = slug) (lv_jobs l))"
  using assms by (auto simp: stopSession_def Let_def slug_of_def split: option.splits)

lemma job_state_stop:
  assumes "job_state s" "ou_held s = Free"
  shows "job_state (do_stop slug forget s)"
proof -
  obtain ns l where st: "stopSession slug (ou_live s) = (ns, l)" by fastforce
  note l = stopSession_jobs [OF st]
  have "jobs_inv (lv_jobs l) (lv_nextJob (ou_live s)) (HReset slug ns forget) (cancel_runners ns (ou_runners s))"
    unfolding cancel_runners_def
  proof (rule jobs_inv_shrink [OF conjunct2 [OF assms(1) [unfolded job_state_def assms(2)]]])
    fix r j assume r: "map_of (lv_jobs (ou_live s)) (rn_id r) = Some j" "jb_gen j = rn_gen r"
    have "slug_of (rn_id r) = slug \<Longrightarrow> rn_gen r \<in> set ns"
      unfolding l(3) using map_of_SomeD [OF r(1)] r(2) by force
    then show "map_of (lv_jobs l) (rn_id r) = Some j \<or> detached (HReset slug ns forget) (rn_id r) (rn_gen r)"
      using r by (auto simp: l(1) map_of_filter_key detached_def)
  qed (auto simp: waited_for_def detached_def unregistered_def l(1) map_of_filter_key split: if_splits)
  moreover have "distinct (map fst (lv_jobs l))" using assms(1) by (simp add: job_state_def l(1) distinct_filter_keys)
  ultimately show ?thesis using assms by (simp add: do_stop_def st job_state_def l(2))
qed

lemma admit_jobs:
  assumes "(case feed of
              jobMixFed \<Rightarrow> (case admitMixFedJob i l gs of (r, l, _) \<Rightarrow> (map_option snd r, l))
            | jobSelfFed \<Rightarrow> admitSelfFedJob i l) = (Some j, l')"
  shows "lv_nextJob l' = lv_nextJob l + 1" "jb_gen j = lv_nextJob l + 1" "lv_jobs l' = AList.update i j (lv_jobs l)"
    "lv_gates l' = lv_gates l" "lv_heap l' = lv_heap l"
  using assms by (auto simp: admitMixFedJob_def admitSelfFedJob_def registerJobLocked_def Let_def
      split: jobFeed.splits option.splits if_splits prod.splits bool.splits)

lemma job_state_admit:
  assumes "job_state s" "ou_held s = HLaunch i feed LAdmit k"
  shows "job_state (launch_admit gs i feed k s)"
proof -
  let ?c = "(case feed of
              jobMixFed \<Rightarrow> (case admitMixFedJob i (ou_live s) gs of (r, l, _) \<Rightarrow> (map_option snd r, l))
            | jobSelfFed \<Rightarrow> admitSelfFedJob i (ou_live s))"
  obtain r l where c: "?c = (r, l)" by fastforce
  have fr: "job_state (launch_end e i k s)" for e
    by (rule job_state_free [OF assms(1)]) (simp_all add: assms(2) detached_def launch_end_def)
  show ?thesis
  proof (cases r)
    case None
    then show ?thesis using fr c by (simp add: launch_admit_def)
  next
    case (Some j)
    note a = admit_jobs [OF c [unfolded Some]]
    let ?new = "\<lparr>rn_id = i, rn_gen = jb_gen j, rn_canceled = False, rn_running = True\<rparr>"
    let ?n = "lv_nextJob (ou_live s)"
    note inv = assms(1) [unfolded job_state_def jobs_inv_def assms(2)]
    have idle: "\<not> (rn_running r \<and> rn_id r = i)" if "r \<in> set (ou_runners s)" for r
    proof
      assume r: "rn_running r \<and> rn_id r = i"
      then have "(\<exists>j. map_of (lv_jobs (ou_live s)) i = Some j) \<or> detached (HLaunch i feed LAdmit k) i (rn_gen r)"
        using inv that by blast
      then obtain j where "map_of (lv_jobs (ou_live s)) i = Some j" by (auto simp: detached_def)
      then have "\<not> unregistered (HLaunch i feed LAdmit k) i" using inv by blast
      then show False by (simp add: unregistered_def)
    qed
    have lower: "rn_gen r \<le> ?n" if "r \<in> set (ou_runners s)" for r using inv that by blast
    have "jobs_inv (AList.update i j (lv_jobs (ou_live s))) (?n + 1) Free (ou_runners s @ [?new])"
      unfolding jobs_inv_def
    proof (intro conjI)
      show "distinct (map rn_gen (ou_runners s @ [?new]))" 
      proof -
        have "rn_gen ?new \<notin> set (map rn_gen (ou_runners s))" using a(2) lower by fastforce
        moreover have "distinct (map rn_gen (ou_runners s))" using inv by blast
        ultimately show ?thesis by simp
      qed
      show "\<forall>r \<in> set (ou_runners s @ [?new]). rn_gen r \<le> ?n + 1" using lower a(2) by force
      show "\<forall>i' j'. map_of (AList.update i j (lv_jobs (ou_live s))) i' = Some j' \<longrightarrow> \<not> unregistered Free i' \<and>
          (\<exists>r \<in> set (ou_runners s @ [?new]). rn_gen r = jb_gen j' \<and> rn_id r = i')"
      proof (intro allI impI conjI)
        fix i' j' assume m: "map_of (AList.update i j (lv_jobs (ou_live s))) i' = Some j'"
        show "\<not> unregistered Free i'" by (simp add: unregistered_def)
        show "\<exists>r \<in> set (ou_runners s @ [?new]). rn_gen r = jb_gen j' \<and> rn_id r = i'"
        proof (cases "i' = i")
          case False
          then have "map_of (lv_jobs (ou_live s)) i' = Some j'" using m by simp
          then obtain r where "r \<in> set (ou_runners s)" "rn_gen r = jb_gen j'" "rn_id r = i'" using inv by blast
          then show ?thesis by auto
        qed (use m in simp)
      qed
      show "\<forall>r \<in> set (ou_runners s @ [?new]). rn_running r \<longrightarrow>
          (\<exists>j'. map_of (AList.update i j (lv_jobs (ou_live s))) (rn_id r) = Some j' \<and> jb_gen j' = rn_gen r) \<or> detached Free (rn_id r) (rn_gen r)"
      proof (intro ballI impI)
        fix r assume r: "r \<in> set (ou_runners s @ [?new])" "rn_running r"
        show "(\<exists>j'. map_of (AList.update i j (lv_jobs (ou_live s))) (rn_id r) = Some j' \<and> jb_gen j' = rn_gen r) \<or> detached Free (rn_id r) (rn_gen r)"
        proof (cases "r = ?new")
          case False
          then have o': "r \<in> set (ou_runners s)" using r(1) by simp
          then have "rn_id r \<noteq> i" using idle r(2) by blast
          moreover have "(\<exists>j'. map_of (lv_jobs (ou_live s)) (rn_id r) = Some j' \<and> jb_gen j' = rn_gen r) \<or> detached (HLaunch i feed LAdmit k) (rn_id r) (rn_gen r)"
            using inv o' r(2) by blast
          ultimately show ?thesis by (simp add: detached_def)
        qed simp
      qed
      show "\<forall>r \<in> set (ou_runners s @ [?new]). rn_gen r \<in> waited_for Free \<longrightarrow> rn_canceled r" by (simp add: waited_for_def)
      show "\<forall>r \<in> set (ou_runners s @ [?new]). \<forall>r' \<in> set (ou_runners s @ [?new]). rn_running r \<longrightarrow> rn_running r' \<longrightarrow>
          rn_id r = rn_id r' \<longrightarrow> r = r'"
      proof (intro ballI impI)
        fix r r' assume r: "r \<in> set (ou_runners s @ [?new])" "r' \<in> set (ou_runners s @ [?new])" "rn_running r" "rn_running r'" "rn_id r = rn_id r'"
        have n: "x = ?new" if "x \<in> set (ou_runners s @ [?new])" "rn_running x" "rn_id x = i" for x using that idle by auto
        show "r = r'"
        proof (cases "rn_id r = i")
          case True
          then show ?thesis using n r by metis
        next
          case False
          then have "r \<in> set (ou_runners s)" "r' \<in> set (ou_runners s)" using r by auto
          then show ?thesis using inv r(3-5) by blast
        qed
      qed
    qed
    moreover have "distinct (map fst (AList.update i j (lv_jobs (ou_live s))))" using inv by (simp add: distinct_update)
    ultimately show ?thesis using c Some a by (simp add: launch_admit_def launch_end_def job_state_def)
  qed
qed

lemma job_state_retire:
  assumes "job_state s" "r \<in> set (ou_runners s)" "\<not> rn_running r"
  shows "job_state (run_retire r s)"
proof -
  let ?l = "live_retireJob (rn_id r) (rn_gen r) (ou_live s)"
  note inv = assms(1) [unfolded job_state_def jobs_inv_def]
  have m: "map_of (lv_jobs ?l) i = (if i = rn_id r \<and> (\<exists>j. map_of (lv_jobs (ou_live s)) i = Some j \<and> jb_gen j = rn_gen r) then None
      else map_of (lv_jobs (ou_live s)) i)" for i
    by (auto simp: live_retireJob_def split: option.split)
  have n: "lv_nextJob ?l = lv_nextJob (ou_live s)" by (simp add: live_retireJob_def split: option.split)
  have d: "distinct (map fst (lv_jobs ?l))" using inv by (auto simp: live_retireJob_def keys_delete split: option.split)
  have s: "set (remove1 r (ou_runners s)) = set (ou_runners s) - {r}"
    using inv by (intro set_remove1_eq) (auto simp: distinct_map)
  have "jobs_inv (lv_jobs ?l) (lv_nextJob ?l) (ou_held s) (remove1 r (ou_runners s))"
    unfolding jobs_inv_def s
  proof (intro conjI)
    have "distinct (remove1 r (ou_runners s))" "inj_on rn_gen (set (ou_runners s) - {r})"
      using inv by (auto simp: distinct_map inj_on_diff)
    then show "distinct (map rn_gen (remove1 r (ou_runners s)))" by (simp add: distinct_map s)
    show "\<forall>i j. map_of (lv_jobs ?l) i = Some j \<longrightarrow> \<not> unregistered (ou_held s) i \<and>
        (\<exists>r' \<in> set (ou_runners s) - {r}. rn_gen r' = jb_gen j \<and> rn_id r' = i)"
    proof (intro allI impI conjI)
      fix i j assume l: "map_of (lv_jobs ?l) i = Some j"
      then have o': "map_of (lv_jobs (ou_live s)) i = Some j" and ne: "\<not> (i = rn_id r \<and> jb_gen j = rn_gen r)"
        by (auto simp: m split: if_splits)
      show "\<not> unregistered (ou_held s) i" using inv o' by blast
      obtain r' where "r' \<in> set (ou_runners s)" "rn_gen r' = jb_gen j" "rn_id r' = i" using inv o' by blast
      then show "\<exists>r' \<in> set (ou_runners s) - {r}. rn_gen r' = jb_gen j \<and> rn_id r' = i" using ne by auto
    qed
    show "\<forall>r' \<in> set (ou_runners s) - {r}. rn_running r' \<longrightarrow>
        (\<exists>j. map_of (lv_jobs ?l) (rn_id r') = Some j \<and> jb_gen j = rn_gen r') \<or> detached (ou_held s) (rn_id r') (rn_gen r')"
    proof (intro ballI impI)
      fix r' assume r': "r' \<in> set (ou_runners s) - {r}" "rn_running r'"
      then have "rn_gen r' \<noteq> rn_gen r" using inv assms(2) unique_gen by blast
      then show "(\<exists>j. map_of (lv_jobs ?l) (rn_id r') = Some j \<and> jb_gen j = rn_gen r') \<or> detached (ou_held s) (rn_id r') (rn_gen r')"
        using inv r' by (auto simp: m)
    qed
  qed (use inv n in auto)
  then show ?thesis using d n by (simp add: job_state_def run_retire_def)
qed

end
