(* ===== verification/OutputRuns.thy ===== *)
theory OutputRuns
  imports Outputs
begin


lemma job_state_step: assumes "out_step b s s'" "job_state s" shows "job_state s'"
  using assms
proof (induction rule: out_step.induct)
  case (create s pair reg)
  then show ?case by (auto simp: do_create_def intro: job_state_frame [THEN iffD2] split: prod.split)
next
  case (serve pair s gs r l gs')
  then show ?case by (auto intro: job_state_frame [THEN iffD2])
next
  case (ends r s)
  then show ?case by (simp add: job_state_end)
next
  case (begins s i feed k hasSup)
  then show ?case by (simp add: job_state_begin)
next
  case (cancels s i feed n k)
  then show ?case by (simp add: job_state_cancel)
next
  case (reaped s i feed n k)
  then show ?case by (simp add: job_state_reaped)
next
  case (starts s i feed k)
  then show ?case by (simp add: job_state_phase)
next
  case (fails s i feed k)
  show ?case by (rule job_state_free [OF fails(2)]) (simp_all add: fails(1) detached_def launch_end_def)
next
  case (admits s i feed k gs)
  then show ?case by (simp add: job_state_admit)
next
  case (obeys r s)
  then show ?case by (simp add: job_state_end)
next
  case (retires r s)
  then show ?case by (simp add: job_state_retire)
next
  case (ungates slug forget s)
  then show ?case by (auto simp: do_retireGate_def intro: job_state_frame [THEN iffD2] split: prod.split option.split)
next
  case (stops s slug forget)
  then show ?case by (simp add: job_state_stop)
next
  case (joins s slug n ns forget)
  then show ?case by (simp add: job_state_join)
next
  case (resets s slug forget)
  show ?case by (rule job_state_free [OF resets(2)]) (simp_all add: resets(1) detached_def reset_done_def)
next
  case (remembers i subs started n s)
  then show ?case by (auto simp: do_remember_def intro: job_state_frame [THEN iffD2])
next
  case (replays g pair rs s e)
  then show ?case
    by (auto simp: replay_step_def Let_def intro: job_state_frame [THEN iffD2] split: option.split list.split prod.split)
next
  case (finishes s slug)
  then show ?case by (auto simp: do_finish_def intro: job_state_frame [THEN iffD2] split: prod.split option.split)
qed (auto intro: job_state_frame [THEN iffD2])

section \<open>Every replay is accounted for\<close>

text \<open>The gate whose drain a replay, or the launch it is in, holds open.\<close>

definition cont_gate :: "cont \<Rightarrow> nat option" where
  "cont_gate k = (case k of KReplay g _ _ \<Rightarrow> Some g | _ \<Rightarrow> None)"

definition actor_gate :: "actor \<Rightarrow> nat option" where
  "actor_gate a = (case a of AReplay g _ _ \<Rightarrow> Some g | ALaunch _ _ k \<Rightarrow> cont_gate k | _ \<Rightarrow> None)"

definition held_gate :: "held \<Rightarrow> nat option" where
  "held_gate h = (case h of HLaunch _ _ _ k \<Rightarrow> cont_gate k | _ \<Rightarrow> None)"

definition replaying :: "outputs \<Rightarrow> nat \<Rightarrow> nat" where
  "replaying s g = size {#a \<in># ou_actors s. actor_gate a = Some g#} + of_bool (held_gate (ou_held s) = Some g)"

definition replay_state :: "outputs \<Rightarrow> bool" where
  "replay_state s \<longleftrightarrow>
     (\<forall>g < length (lv_heap (ou_live s)). gt_replays (lv_heap (ou_live s) ! g) = replaying s g) \<and>
     (\<forall>g. length (lv_heap (ou_live s)) \<le> g \<longrightarrow> replaying s g = 0) \<and>
     (\<forall>slug g. map_of (lv_gates (ou_live s)) slug = Some g \<longrightarrow> g < length (lv_heap (ou_live s))) \<and>
     (\<forall>g slug forget. ADrain g slug forget \<in># ou_actors s \<longrightarrow> g < length (lv_heap (ou_live s)))"

lemma size_become:
  assumes "a \<in># A"
  shows "size {#x \<in># A - {#a#} + mset bs. P x#} + of_bool (P a) = size {#x \<in># A. P x#} + length (filter P bs)"
proof -
  obtain B where B: "A = add_mset a B" using assms by (metis insert_DiffM)
  show ?thesis by (simp add: B flip: mset_filter)
qed

text \<open>Steps that neither start nor end a replay and leave the heap's counts alone.\<close>

lemma replay_state_frame:
  assumes "replay_state s" "\<And>g. replaying s' g = replaying s g"
    "length (lv_heap (ou_live s')) = length (lv_heap (ou_live s))"
    "\<And>g. gt_replays (lv_heap (ou_live s') ! g) = gt_replays (lv_heap (ou_live s) ! g)"
    "\<And>slug g. map_of (lv_gates (ou_live s')) slug = Some g \<Longrightarrow> map_of (lv_gates (ou_live s)) slug = Some g"
    "\<And>g slug forget. ADrain g slug forget \<in># ou_actors s' \<Longrightarrow> ADrain g slug forget \<in># ou_actors s \<or> g < length (lv_heap (ou_live s))"
  shows "replay_state s'"
  using assms unfolding replay_state_def by (metis (no_types, lifting))


lemma actor_gate_simps [simp]:
  "actor_gate (AReplay g p rs) = Some g" "actor_gate (ALaunch i feed k) = cont_gate k" "actor_gate (APush i subs n) = None"
  "actor_gate (ARemember i subs started n) = None" "actor_gate (AReset slug forget) = None" "actor_gate (ADrain g slug forget) = None"
  "actor_gate (AStop slug forget) = None" "actor_gate (AForget slug) = None" "actor_gate (AFinish slug) = None"
  "actor_gate (AWaiting ts js os) = None" "cont_gate KHLS = None" "cont_gate (KPush subs n) = None" "cont_gate (KReplay g p rest) = Some g"
  by (simp_all add: actor_gate_def cont_gate_def)

lemma after_launch_gate:
  "length (filter (\<lambda>a. actor_gate a = Some g) (after_launch err i k)) = of_bool (cont_gate k = Some g)"
  "ADrain g' slug forget \<notin> set (after_launch err i k)"
  by (auto simp: after_launch_def split: cont.splits option.splits push_error.splits)

lemma start_push_gate:
  "length (filter (\<lambda>a. actor_gate a = Some g) (start_push e i subs k s)) = of_bool (cont_gate k = Some g)"
  "ADrain g' slug forget \<notin> set (start_push e i subs k s)"
  by (cases "dispatchPush e (pacingFor (jid_pair i) (ou_live s)) i subs"; simp add: start_push_def after_launch_gate)+

lemma heap_simps [simp]:
  "lv_heap (forgetRoutes slug l) = lv_heap l" "lv_gates (forgetRoutes slug l) = lv_gates l"
  "lv_heap (closeStream n l) = lv_heap l" "lv_gates (closeStream n l) = lv_gates l"
  by (simp_all add: forgetRoutes_def closeStream_def)

lemma heap_remember [simp]:
  "lv_heap (snd (rememberPush i subs b n l)) = lv_heap l" "lv_gates (snd (rememberPush i subs b n l)) = lv_gates l"
  by (simp_all add: rememberPush_def Let_def)

lemma heap_retire [simp]:
  "lv_heap (live_retireJob i n l) = lv_heap l" "lv_gates (live_retireJob i n l) = lv_gates l"
  by (simp_all add: live_retireJob_def split: option.split)

lemma heap_begin [simp]:
  "beginStart i feed l = Inr (old, l') \<Longrightarrow> lv_heap l' = lv_heap l" "beginStart i feed l = Inr (old, l') \<Longrightarrow> lv_gates l' = lv_gates l"
  by (auto simp: beginStart_def split: if_splits)

lemma heap_open [simp]:
  assumes "openStream pair l gs = (r, l', gs')"
  shows "lv_heap l' = lv_heap l" "lv_gates l' = lv_gates l"
  using assms by (auto simp: openStream_def Let_def split: prod.splits option.splits bool.splits)

lemma heap_update_replays:
  "gt_replays ((h[g := (h ! g)\<lparr>gt_canceled := True\<rparr>]) ! i) = gt_replays (h ! i)"
  "gt_replays ((h[g := (h ! g)\<lparr>gt_finishing := True\<rparr>]) ! i) = gt_replays (h ! i)"
  by (cases "g < length h"; cases "g = i"; simp add: list_update_beyond)+

lemma cancel_gate_heap [simp]:
  "length (lv_heap (cancel_gate g l)) = length (lv_heap l)" "gt_replays (lv_heap (cancel_gate g l) ! i) = gt_replays (lv_heap l ! i)"
  "lv_gates (cancel_gate g l) = lv_gates l"
  by (simp_all add: cancel_gate_def heap_update_replays)

lemma retire_heap:
  assumes "retireGate slug l = (r, l')"
  shows "length (lv_heap l') = length (lv_heap l)" "gt_replays (lv_heap l' ! i) = gt_replays (lv_heap l ! i)"
    "map_of (lv_gates l') x = Some g \<Longrightarrow> map_of (lv_gates l) x = Some g" "r = map_of (lv_gates l) slug" "map_of (lv_gates l') slug = None"
  using assms by (auto simp: retireGate_def split: option.splits if_splits)

lemma stop_heap:
  assumes "stopSession slug l = (r, l')"
  shows "length (lv_heap l') = length (lv_heap l)" "gt_replays (lv_heap l' ! i) = gt_replays (lv_heap l ! i)"
    "map_of (lv_gates l') x = Some g \<Longrightarrow> map_of (lv_gates l) x = Some g" "map_of (lv_gates l') slug = None"
proof -
  have "lv_heap l' = (case map_of (lv_gates l) slug of None \<Rightarrow> lv_heap l | Some late \<Rightarrow> lv_heap (cancel_gate late l))"
    "lv_gates l' = (case map_of (lv_gates l) slug of None \<Rightarrow> lv_gates l | Some late \<Rightarrow> AList.delete slug (lv_gates l))"
    using assms by (auto simp: stopSession_def Let_def cancel_gate_def split: option.split)
  then show "length (lv_heap l') = length (lv_heap l)" "gt_replays (lv_heap l' ! i) = gt_replays (lv_heap l ! i)"
    "map_of (lv_gates l') x = Some g \<Longrightarrow> map_of (lv_gates l) x = Some g" "map_of (lv_gates l') slug = None"
    by (auto split: option.splits if_splits)
qed

lemma finish_heap:
  assumes "finishSnapshot slug l = (r, l')"
  shows "length (lv_heap l') = length (lv_heap l)" "gt_replays (lv_heap l' ! i) = gt_replays (lv_heap l ! i)" "lv_gates l' = lv_gates l"
proof -
  have "l' = l \<or> (\<exists>g. l' = l\<lparr>lv_heap := (lv_heap l)[g := (lv_heap l ! g)\<lparr>gt_finishing := True\<rparr>]\<rparr>)"
    using assms by (cases "map_of (lv_gates l) slug") (auto simp: finishSnapshot_def)
  then show "length (lv_heap l') = length (lv_heap l)" "gt_replays (lv_heap l' ! i) = gt_replays (lv_heap l ! i)" "lv_gates l' = lv_gates l"
    using heap_update_replays(2) by auto
qed

lemma replaying_become:
  assumes "a \<in># ou_actors s"
  shows "replaying (become a bs s) g + of_bool (actor_gate a = Some g) =
    replaying s g + length (filter (\<lambda>b. actor_gate b = Some g) bs)"
  using size_become [OF assms, where P = "\<lambda>b. actor_gate b = Some g" and bs = bs] by (simp add: replaying_def)

lemma replaying_update [simp]: "replaying (s\<lparr>ou_live := l\<rparr>) g = replaying s g" "replaying (s\<lparr>ou_runners := rs\<rparr>) g = replaying s g"
  by (simp_all add: replaying_def)

lemma drain_become: "ADrain g slug forget \<in># ou_actors (become a bs s) \<Longrightarrow> ADrain g slug forget \<in># ou_actors s \<or> ADrain g slug forget \<in> set bs"
  by (auto dest: in_diffD)

text \<open>Actors that hold no gate open are replaced by others of the same kind, or by one that holds the same gate.\<close>

lemma replay_state_become:
  assumes inv: "replay_state s" and a: "a \<in># ou_actors s"
    and bs: "\<And>g. length (filter (\<lambda>b. actor_gate b = Some g) bs) = of_bool (actor_gate a = Some g)"
    and dr: "\<And>g slug forget. ADrain g slug forget \<in> set bs \<Longrightarrow> g < length (lv_heap (ou_live s))"
    and l: "length (lv_heap l) = length (lv_heap (ou_live s))" "\<And>g. gt_replays (lv_heap l ! g) = gt_replays (lv_heap (ou_live s) ! g)"
      "\<And>slug g. map_of (lv_gates l) slug = Some g \<Longrightarrow> map_of (lv_gates (ou_live s)) slug = Some g"
  shows "replay_state ((become a bs s)\<lparr>ou_live := l\<rparr>)"
proof (rule replay_state_frame [OF inv])
  fix g show "replaying ((become a bs s)\<lparr>ou_live := l\<rparr>) g = replaying s g" using replaying_become [OF a, of bs g] bs [of g] by simp
next
  fix g slug forget assume "ADrain g slug forget \<in># ou_actors ((become a bs s)\<lparr>ou_live := l\<rparr>)"
  then show "ADrain g slug forget \<in># ou_actors s \<or> g < length (lv_heap (ou_live s))" using drain_become dr by fastforce
qed (use l in simp_all)

lemma become_live_same: "become a bs s = (become a bs s)\<lparr>ou_live := ou_live s\<rparr>"
  by simp

lemma replay_state_spawn:
  assumes "replay_state s" "actor_gate a = None" "\<And>g slug forget. a \<noteq> ADrain g slug forget"
  shows "replay_state (s\<lparr>ou_actors := ou_actors s + {#a#}\<rparr>)"
  by (rule replay_state_frame [OF assms(1)]) (use assms(2,3) in \<open>auto simp: replaying_def\<close>)

lemma replay_state_held:
  assumes "replay_state s" "held_gate h = held_gate (ou_held s)"
  shows "replay_state (s\<lparr>ou_held := h, ou_runners := rs\<rparr>)" "replay_state (s\<lparr>ou_runners := rs, ou_held := h\<rparr>)" "replay_state (s\<lparr>ou_held := h\<rparr>)"
  by (rule replay_state_frame [OF assms(1)]; use assms(2) in \<open>simp add: replaying_def\<close>)+

lemma replay_state_launch_end:
  assumes "replay_state s" "ou_held s = HLaunch i feed p k"
    and l: "lv_heap l = lv_heap (ou_live s)" "lv_gates l = lv_gates (ou_live s)"
  shows "replay_state (launch_end err i k (s\<lparr>ou_live := l, ou_runners := rs\<rparr>))" "replay_state (launch_end err i k s)"
proof -
  have c: "size {#a \<in># mset (after_launch err i k). actor_gate a = Some g#} = of_bool (cont_gate k = Some g)" for g
    using after_launch_gate(1) [of g err i k] by (simp flip: mset_filter)
  show "replay_state (launch_end err i k (s\<lparr>ou_live := l, ou_runners := rs\<rparr>))" "replay_state (launch_end err i k s)"
    by (rule replay_state_frame [OF assms(1)];
        use assms(2) l after_launch_gate(2) in \<open>auto simp: launch_end_def replaying_def held_gate_def c\<close>)+
qed

lemma replay_state_begin:
  assumes inv: "replay_state s" and h: "ou_held s = Free" and a: "ALaunch i feed k \<in># ou_actors s"
  shows "replay_state (launch_begin hasSup i feed k s)"
proof -
  have al: "replay_state (become (ALaunch i feed k) (after_launch err i k) s)" for err
    by (subst become_live_same, rule replay_state_become [OF inv a])
      (simp_all add: after_launch_gate)
  show ?thesis
  proof (cases "beginStart i feed (ou_live s)")
    case (Inl err)
    then show ?thesis using al by (auto simp: launch_begin_def)
  next
    case (Inr r)
    obtain old l where r: "r = (old, l)" by fastforce
    have "replay_state ((become (ALaunch i feed k) [] s)\<lparr>ou_live := l, ou_held := HLaunch i feed p k\<rparr>)" for p
    proof (rule replay_state_frame [OF inv])
      fix g show "replaying ((become (ALaunch i feed k) [] s)\<lparr>ou_live := l, ou_held := HLaunch i feed p k\<rparr>) g = replaying s g"
        using replaying_become [OF a, of "[]" g] h by (simp add: replaying_def held_gate_def actor_gate_def)
    qed (use Inr r in \<open>auto dest: in_diffD\<close>)
    then show ?thesis using al Inr r by (auto simp: launch_begin_def)
  qed
qed

lemma replay_state_create:
  assumes inv: "replay_state s"
  shows "replay_state (do_create pair reg s)"
proof -
  let ?l = "ou_live s"
  obtain g l where c: "createPair pair reg ?l = (g, l)" by fastforce
  have d: "do_create pair reg s = s\<lparr>ou_live := l, ou_actors := ou_actors s + {#AReplay g pair None#}\<rparr>" by (simp add: do_create_def c)
  have r: "replaying (do_create pair reg s) x = replaying s x + of_bool (x = g)" for x
    by (simp add: d replaying_def actor_gate_def)
  have g: "g < length (lv_heap l)" "length (lv_heap ?l) \<le> length (lv_heap l)"
    "\<And>x. x < length (lv_heap l) \<Longrightarrow> gt_replays (lv_heap l ! x) = (if x < length (lv_heap ?l) then gt_replays (lv_heap ?l ! x) else 0) + of_bool (x = g)"
    "\<And>slug x. map_of (lv_gates l) slug = Some x \<Longrightarrow> map_of (lv_gates ?l) slug = Some x \<or> x = g"
    "g < length (lv_heap ?l) \<or> length (lv_heap l) = Suc (length (lv_heap ?l))"
  proof -
    show "g < length (lv_heap l)" "length (lv_heap ?l) \<le> length (lv_heap l)"
      "\<And>x. x < length (lv_heap l) \<Longrightarrow> gt_replays (lv_heap l ! x) = (if x < length (lv_heap ?l) then gt_replays (lv_heap ?l ! x) else 0) + of_bool (x = g)"
      "\<And>slug x. map_of (lv_gates l) slug = Some x \<Longrightarrow> map_of (lv_gates ?l) slug = Some x \<or> x = g"
      "g < length (lv_heap ?l) \<or> length (lv_heap l) = Suc (length (lv_heap ?l))"
      using c inv by (auto simp: createPair_def replay_state_def nth_append nth_list_update less_Suc_eq split: option.splits if_splits)
  qed
  have z: "replaying s x = 0" if "length (lv_heap ?l) \<le> x" for x using inv that by (simp add: replay_state_def)
  show ?thesis unfolding replay_state_def
  proof (intro conjI allI impI)
    fix x assume "x < length (lv_heap (ou_live (do_create pair reg s)))"
    then have x: "x < length (lv_heap l)" by (simp add: d)
    show "gt_replays (lv_heap (ou_live (do_create pair reg s)) ! x) = replaying (do_create pair reg s) x"
    proof (cases "x < length (lv_heap ?l)")
      case True
      then show ?thesis using g(3) [OF x] r inv by (simp add: d replay_state_def)
    next
      case False
      then show ?thesis using g(3) [OF x] r z by (simp add: d)
    qed
  next
    fix x assume "length (lv_heap (ou_live (do_create pair reg s))) \<le> x"
    then show "replaying (do_create pair reg s) x = 0" using g(1,2) z r by (simp add: d)
  next
    fix slug x assume "map_of (lv_gates (ou_live (do_create pair reg s))) slug = Some x"
    then have "map_of (lv_gates ?l) slug = Some x \<or> x = g" using g(4) by (simp add: d)
    then show "x < length (lv_heap (ou_live (do_create pair reg s)))"
    proof
      assume "map_of (lv_gates ?l) slug = Some x"
      then have "x < length (lv_heap ?l)" using inv unfolding replay_state_def by blast
      then show ?thesis using g(2) by (simp add: d)
    qed (simp add: d g(1))
  next
    fix x slug forget assume "ADrain x slug forget \<in># ou_actors (do_create pair reg s)"
    then have "ADrain x slug forget \<in># ou_actors s" by (simp add: d)
    then have "x < length (lv_heap ?l)" using inv unfolding replay_state_def by blast
    then show "x < length (lv_heap (ou_live (do_create pair reg s)))" using g(2) by (simp add: d)
  qed
qed


lemma replay_state_turn:
  assumes inv: "replay_state s" and a: "AReplay g pair rs \<in># ou_actors s"
  shows "replay_state (replay_step e g pair rs s)"
proof -
  have keep: "replay_state (become (AReplay g pair rs) bs s)"
    if "\<And>g'. length (filter (\<lambda>b. actor_gate b = Some g') bs) = of_bool (g = g')"
      "\<And>g' slug forget. ADrain g' slug forget \<notin> set bs" for bs
    by (subst become_live_same, rule replay_state_become [OF inv a]) (use that in auto)
  have fin: "replay_state ((become (AReplay g pair rs) [] s)\<lparr>ou_live := replay_return g (ou_live s)\<rparr>)"
  proof -
    let ?s = "(become (AReplay g pair rs) [] s)\<lparr>ou_live := replay_return g (ou_live s)\<rparr>"
    have r: "replaying ?s x + of_bool (x = g) = replaying s x" for x
      using replaying_become [OF a, of "[]" x] by (auto split: if_splits)
    have h: "length (lv_heap (ou_live ?s)) = length (lv_heap (ou_live s))" "lv_gates (ou_live ?s) = lv_gates (ou_live s)"
      "x < length (lv_heap (ou_live s)) \<Longrightarrow> gt_replays (lv_heap (ou_live ?s) ! x) = gt_replays (lv_heap (ou_live s) ! x) - of_bool (x = g)" for x
      by (auto simp: replay_return_def nth_list_update)
    show ?thesis unfolding replay_state_def
    proof (intro conjI allI impI)
      fix x assume "x < length (lv_heap (ou_live ?s))"
      then have x: "x < length (lv_heap (ou_live s))" using h(1) by simp
      then have "gt_replays (lv_heap (ou_live s) ! x) = replaying s x" using inv by (simp add: replay_state_def)
      then show "gt_replays (lv_heap (ou_live ?s) ! x) = replaying ?s x" using h(3) [OF x] r [of x] by simp
    next
      fix x assume "length (lv_heap (ou_live ?s)) \<le> x"
      then have "replaying s x = 0" using inv h(1) by (simp add: replay_state_def)
      then show "replaying ?s x = 0" using r [of x] by simp
    next
      fix slug x assume "map_of (lv_gates (ou_live ?s)) slug = Some x"
      then show "x < length (lv_heap (ou_live ?s))" using inv unfolding h(1,2) replay_state_def by blast
    next
      fix x slug forget assume "ADrain x slug forget \<in># ou_actors ?s"
      then have "ADrain x slug forget \<in># ou_actors s" by (auto dest: in_diffD)
      then show "x < length (lv_heap (ou_live ?s))" using inv unfolding h(1) replay_state_def by blast
    qed
  qed
  show ?thesis
  proof (cases rs)
    case None
    then show ?thesis using keep [of "[AReplay g pair (Some (pushRoutes pair (ou_live s)))]"] by (simp add: replay_step_def)
  next
    case (Some rr)
    show ?thesis
    proof (cases rr)
      case Nil
      then show ?thesis using fin Some by (simp add: replay_step_def)
    next
      case (Cons r rest)
      obtain i subs where r: "r = (i, subs)" by fastforce
      have "replay_state (become (AReplay g pair rs) (start_push e i subs (KReplay g pair rest) s) s)"
        by (rule keep) (simp_all add: start_push_gate)
      then show ?thesis using fin Some Cons r by (simp add: replay_step_def Let_def)
    qed
  qed
qed

lemma replay_state_swap:
  assumes "replay_state s" "a \<in># ou_actors s" "actor_gate a = None" "\<And>b. b \<in> set bs \<Longrightarrow> actor_gate b = None"
    "\<And>g slug forget. ADrain g slug forget \<in> set bs \<Longrightarrow> g < length (lv_heap (ou_live s))"
    "lv_heap l = lv_heap (ou_live s)" "lv_gates l = lv_gates (ou_live s)"
  shows "replay_state ((become a bs s)\<lparr>ou_live := l\<rparr>)"
proof (rule replay_state_become [OF assms(1,2)])
  fix g have "filter (\<lambda>b. actor_gate b = Some g) bs = []" using assms(4) by (auto simp: filter_empty_conv)
  then show "length (filter (\<lambda>b. actor_gate b = Some g) bs) = of_bool (actor_gate a = Some g)" using assms(3) by simp
qed (use assms in auto)

lemma replay_state_step: assumes "out_step b s s'" "replay_state s" shows "replay_state s'"
  using assms
proof (induction rule: out_step.induct)
  case (create s pair reg)
  then show ?case by (simp add: replay_state_create)
next
  case (push i s subs)
  then show ?case by (intro replay_state_spawn) auto
next
  case (hls i s)
  then show ?case by (intro replay_state_spawn) auto
next
  case (reset s slug forget)
  then show ?case by (intro replay_state_spawn) auto
next
  case (finish s slug)
  then show ?case by (intro replay_state_spawn) auto
next
  case (serve pair s gs r l gs')
  then show ?case by (intro replay_state_frame [OF serve(2)]) (simp_all add: replaying_def)
next
  case (served s n)
  then show ?case by (intro replay_state_frame [OF served]) (simp_all add: replaying_def)
next
  case (ends r s)
  then show ?case unfolding run_end_def by (intro replay_state_frame [OF ends(2)]) simp_all
next
  case (waited ts js os s)
  show ?case by (subst become_live_same, rule replay_state_swap [OF waited(4,1)]) simp_all
next
  case (gives_up ts js os s)
  show ?case by (subst become_live_same, rule replay_state_swap [OF gives_up(2,1)]) simp_all
next
  case (plans i subs n s e)
  show ?case by (subst become_live_same, rule replay_state_become [OF plans(2,1)]) (simp_all add: start_push_gate)
next
  case (begins s i feed k hasSup)
  then show ?case by (simp add: replay_state_begin)
next
  case (cancels s i feed n k)
  show ?case by (rule replay_state_held [OF cancels(2)]) (simp add: cancels(1) held_gate_def)
next
  case (reaped s i feed n k)
  show ?case by (rule replay_state_held [OF reaped(3)]) (simp add: reaped(1) held_gate_def)
next
  case (starts s i feed k)
  show ?case by (rule replay_state_held [OF starts(2)]) (simp add: starts(1) held_gate_def)
next
  case (fails s i feed k)
  then show ?case by (intro replay_state_launch_end(2)) simp_all
next
  case (admits s i feed k gs)
  show ?case
  proof (cases "case feed of
              jobMixFed \<Rightarrow> (case admitMixFedJob i (ou_live s) gs of (r, l, _) \<Rightarrow> (map_option snd r, l))
            | jobSelfFed \<Rightarrow> admitSelfFedJob i (ou_live s)")
    case (Pair r l)
    show ?thesis
    proof (cases r)
      case None
      then show ?thesis using Pair replay_state_launch_end(2) [OF admits(2,1)] by (simp add: launch_admit_def)
    next
      case (Some j)
      note al = admit_jobs(4,5) [OF Pair [unfolded Some]]
      show ?thesis using Pair Some replay_state_launch_end(1) [OF admits(2,1) al(2,1)] by (simp add: launch_admit_def)
    qed
  qed
next
  case (obeys r s)
  then show ?case unfolding run_end_def by (intro replay_state_frame [OF obeys(4)]) simp_all
next
  case (retires r s)
  then show ?case unfolding run_retire_def by (intro replay_state_frame [OF retires(3)]) (simp_all add: replaying_def)
next
  case (ungates slug forget s)
  obtain r l where c: "retireGate slug (ou_live s) = (r, l)" by fastforce
  note h = retire_heap [OF c]
  have g: "g < length (lv_heap (ou_live s))" if "r = Some g" for g
    using ungates(2) that unfolding h(4) replay_state_def by blast
  have "replay_state ((become (AReset slug forget) [ADrain g slug forget] s)\<lparr>ou_live := l\<rparr>)" if "r = Some g" for g
    by (rule replay_state_become [OF ungates(2,1)]) (use h g that in auto)
  moreover have "replay_state (become (AReset slug forget) [AStop slug forget] s)"
    by (subst become_live_same, rule replay_state_swap [OF ungates(2,1)]) auto
  ultimately show ?case using c by (cases r) (simp_all add: do_retireGate_def)
next
  case (drains g slug forget s)
  show ?case by (subst become_live_same, rule replay_state_swap [OF drains(3,1)]) auto
next
  case (stops s slug forget)
  obtain ns l where c: "stopSession slug (ou_live s) = (ns, l)" by fastforce
  note h = stop_heap [OF c]
  have "replay_state ((become (AStop slug forget) [] s)\<lparr>ou_live := l\<rparr>)"
    by (rule replay_state_become [OF stops(3,2)]) (use h in auto)
  then have "replay_state (((become (AStop slug forget) [] s)\<lparr>ou_live := l\<rparr>)
      \<lparr>ou_runners := cancel_runners ns (ou_runners s), ou_held := HReset slug ns forget\<rparr>)"
    by (rule replay_state_held) (simp add: stops(1) held_gate_def)
  then show ?case by (simp add: do_stop_def c)
next
  case (joins s slug n ns forget)
  show ?case by (rule replay_state_held [OF joins(3)]) (simp add: joins(1) held_gate_def)
next
  case (resets s slug forget)
  have "replay_state (s\<lparr>ou_held := Free\<rparr>)" by (rule replay_state_held [OF resets(2)]) (simp add: resets(1) held_gate_def)
  then have "replay_state ((s\<lparr>ou_held := Free\<rparr>)\<lparr>ou_actors := ou_actors (s\<lparr>ou_held := Free\<rparr>) + {#AForget slug#}\<rparr>)"
    by (rule replay_state_spawn) simp_all
  then show ?case using \<open>replay_state (s\<lparr>ou_held := Free\<rparr>)\<close> by (simp add: reset_done_def)
next
  case (forgets slug s)
  show ?case by (rule replay_state_swap [OF forgets(2,1)]) simp_all
next
  case (remembers i subs started n s)
  show ?case unfolding do_remember_def by (rule replay_state_swap [OF remembers(2,1)]) simp_all
next
  case (replays g pair rs s e)
  then show ?case by (simp add: replay_state_turn)
next
  case (finishes s slug)
  obtain r l where c: "finishSnapshot slug (ou_live s) = (r, l)" by fastforce
  note h = finish_heap [OF c]
  have 1: "replay_state ((become (AFinish slug) [AWaiting ts js os] s)\<lparr>ou_live := l\<rparr>)" for ts js os
    by (rule replay_state_become [OF finishes(3,2)]) (use h in auto)
  have 2: "replay_state (become (AFinish slug) [] s)"
    by (subst become_live_same, rule replay_state_swap [OF finishes(3,2)]) auto
  show ?case using 1 2 c by (auto simp: do_finish_def split: option.splits)
qed


section \<open>Every schedule ends\<close>

text \<open>
  A launch costs what its two windows, the job it may register and what comes after it can cost; a replay
  pays twenty for each route left. A replay that has not read the routes yet is counted apart: the list it
  will read is not bounded by anything it holds.
\<close>

definition cont_cost :: "cont \<Rightarrow> nat" where
  "cont_cost k = (case k of KHLS \<Rightarrow> 0 | KPush _ _ \<Rightarrow> 1 | KReplay _ _ rest \<Rightarrow> 20 * length rest + 1)"

definition actor_cost :: "actor \<Rightarrow> nat" where
  "actor_cost a =
     (case a of
        APush _ _ _ \<Rightarrow> 12 | ALaunch _ _ k \<Rightarrow> 10 + cont_cost k | ARemember _ _ _ _ \<Rightarrow> 1
      | AReplay _ _ None \<Rightarrow> 1 | AReplay _ _ (Some rs) \<Rightarrow> 20 * length rs + 1
      | AReset _ _ \<Rightarrow> 6 | ADrain _ _ _ \<Rightarrow> 5 | AStop _ _ \<Rightarrow> 4 | AForget _ \<Rightarrow> 1 | AFinish _ \<Rightarrow> 1 | AWaiting _ _ _ \<Rightarrow> 0)"

definition phase_cost :: "lphase \<Rightarrow> nat" where
  "phase_cost p = (case p of LCancel _ \<Rightarrow> 9 | LReap _ \<Rightarrow> 8 | LStart \<Rightarrow> 7 | LAdmit \<Rightarrow> 6)"

definition held_cost :: "held \<Rightarrow> nat" where
  "held_cost h = (case h of Free \<Rightarrow> 0 | HLaunch _ _ p k \<Rightarrow> phase_cost p + cont_cost k | HReset _ ns _ \<Rightarrow> length ns + 2)"

definition runner_cost :: "runner \<Rightarrow> nat" where
  "runner_cost r = (if rn_running r then 2 else 1)"

definition unread :: "actor \<Rightarrow> bool" where
  "unread a = (case a of AReplay _ _ None \<Rightarrow> True | _ \<Rightarrow> False)"

definition out_cost :: "outputs \<Rightarrow> nat" where
  "out_cost s = sum_mset (image_mset actor_cost (ou_actors s)) + held_cost (ou_held s) +
     sum_list (map runner_cost (ou_runners s)) + 2 * length (lv_jobs (ou_live s))"

definition out_order :: "(outputs \<times> outputs) set" where
  "out_order = inv_image (less_than <*lex*> less_than) (\<lambda>s. (size {#a \<in># ou_actors s. unread a#}, out_cost s))"

lemma wf_out_order: "wf out_order"
  unfolding out_order_def by (intro wf_inv_image wf_lex_prod wf_less_than)

lemma cost_become:
  assumes "a \<in># A"
  shows "sum_mset (image_mset actor_cost (A - {#a#} + mset bs)) + actor_cost a = sum_mset (image_mset actor_cost A) + sum_list (map actor_cost bs)"
proof -
  obtain B where B: "A = add_mset a B" using assms by (metis insert_DiffM)
  have "sum_mset (image_mset actor_cost (mset bs)) = sum_list (map actor_cost bs)" by (metis mset_map sum_mset_sum_list)
  then show ?thesis by (simp add: B)
qed

lemma unread_become:
  assumes "a \<in># A"
  shows "size {#x \<in># A - {#a#} + mset bs. unread x#} + of_bool (unread a) = size {#x \<in># A. unread x#} + length (filter unread bs)"
  by (rule size_become [OF assms])

lemma after_launch_cost: "sum_list (map actor_cost (after_launch err i k)) \<le> cont_cost k" "filter unread (after_launch err i k) = []"
  by (auto simp: after_launch_def actor_cost_def cont_cost_def unread_def split: cont.split option.split push_error.split)

lemma start_push_cost: "sum_list (map actor_cost (start_push e i subs k s)) \<le> 10 + cont_cost k" "filter unread (start_push e i subs k s) = []"
  by (cases "dispatchPush e (pacingFor (jid_pair i) (ou_live s)) i subs";
      simp add: start_push_def after_launch_cost actor_cost_def unread_def le_trans [OF after_launch_cost(1)])+

lemma order_become:
  assumes a: "a \<in># ou_actors s" and r: "filter unread bs = []"
    and s': "ou_actors s' = ou_actors s - {#a#} + mset bs"
    and c: "sum_list (map actor_cost bs) + held_cost (ou_held s') + sum_list (map runner_cost (ou_runners s')) + 2 * length (lv_jobs (ou_live s'))
      < actor_cost a + held_cost (ou_held s) + sum_list (map runner_cost (ou_runners s)) + 2 * length (lv_jobs (ou_live s))"
  shows "(s', s) \<in> out_order"
proof -
  have "size {#x \<in># ou_actors s'. unread x#} \<le> size {#x \<in># ou_actors s. unread x#}"
    using unread_become [OF a, of bs] r s' by simp
  moreover have "out_cost s' < out_cost s" using cost_become [OF a, of bs] c s' by (simp add: out_cost_def)
  ultimately show ?thesis by (auto simp: out_order_def)
qed

lemma order_held:
  assumes r: "filter unread bs = []" and s': "ou_actors s' = ou_actors s + mset bs"
    and c: "sum_list (map actor_cost bs) + held_cost (ou_held s') + sum_list (map runner_cost (ou_runners s')) + 2 * length (lv_jobs (ou_live s'))
      < held_cost (ou_held s) + sum_list (map runner_cost (ou_runners s)) + 2 * length (lv_jobs (ou_live s))"
  shows "(s', s) \<in> out_order"
proof -
  have "size {#x \<in># mset bs. unread x#} = 0" using r by (metis mset_filter mset_zero_iff size_empty)
  then have "size {#x \<in># ou_actors s'. unread x#} = size {#x \<in># ou_actors s. unread x#}" by (simp add: s')
  moreover have "sum_mset (image_mset actor_cost (mset bs)) = sum_list (map actor_cost bs)" by (metis mset_map sum_mset_sum_list)
  then have "out_cost s' < out_cost s" using c by (simp add: out_cost_def s')
  ultimately show ?thesis by (simp add: out_order_def)
qed

lemma runner_cost_cancel: "sum_list (map runner_cost (cancel_runners ns rs)) = sum_list (map runner_cost rs)"
  by (induction rs) (auto simp: cancel_runners_def runner_cost_def)

lemma runner_cost_end:
  assumes "r \<in> set rs" "rn_running r" "rn_gen r = n"
  shows "sum_list (map runner_cost (map (\<lambda>r. if rn_gen r = n then r\<lparr>rn_running := False\<rparr> else r) rs)) < sum_list (map runner_cost rs)"
proof -
  have le: "sum_list (map runner_cost (map (\<lambda>r. if rn_gen r = n then r\<lparr>rn_running := False\<rparr> else r) xs)) \<le> sum_list (map runner_cost xs)" for xs
    by (induction xs) (auto simp: runner_cost_def)
  obtain as bs where "rs = as @ r # bs" using assms(1) by (metis split_list)
  then show ?thesis using le [of as] le [of bs] assms(2,3) by (simp add: runner_cost_def)
qed

lemma runner_cost_retire: "r \<in> set rs \<Longrightarrow> sum_list (map runner_cost (remove1 r rs)) < sum_list (map runner_cost rs)"
proof -
  assume "r \<in> set rs"
  then have "sum_list (map runner_cost rs) = runner_cost r + sum_list (map runner_cost (remove1 r rs))"
    by (rule sum_list_map_remove1)
  then show ?thesis by (simp add: runner_cost_def)
qed

lemma length_delete_le: "length (AList.delete k al) \<le> length al"
  by (simp add: AList.delete_eq)

lemma retire_jobs_le: "length (lv_jobs (live_retireJob i n l)) \<le> length (lv_jobs l)"
  by (simp add: live_retireJob_def length_delete_le split: option.split)

lemma stop_jobs_length:
  assumes "stopSession slug l = (ns, l')" shows "length (lv_jobs l') + length ns = length (lv_jobs l)"
proof -
  have "length (filter (\<lambda>(i, _). slug_of i \<noteq> slug) al) + length (filter (\<lambda>(i, _). slug_of i = slug) al) = length al" for al :: "(jobID \<times> job) list"
    by (induction al) auto
  then show ?thesis using stopSession_jobs [OF assms] by simp
qed

lemma own_step_order: assumes "out_step False s s'" shows "(s', s) \<in> out_order"
  using assms
proof (cases rule: out_step.cases)
  case (plans i subs n e)
  show ?thesis unfolding plans(1)
    by (rule order_become [OF plans(2), where bs = "start_push e i subs (KPush subs n) s"])
      (use start_push_cost [of e i subs "KPush subs n" s] in \<open>simp_all add: actor_cost_def cont_cost_def\<close>)
next
  case (begins i feed k hasSup)
  show ?thesis
  proof (cases "feed = jobSelfFed \<and> \<not> hasSup \<or> (\<exists>err. beginStart i feed (ou_live s) = Inl err)")
    case True
    then obtain err where "s' = become (ALaunch i feed k) (after_launch err i k) s"
      using begins(1) by (cases "feed = jobSelfFed \<and> \<not> hasSup") (auto simp: launch_begin_def)
    then show ?thesis
      by (intro order_become [OF begins(3), where bs = "after_launch err i k"])
        (use after_launch_cost [of err i k] in \<open>simp_all add: actor_cost_def\<close>)
  next
    case False
    then obtain old l where b: "beginStart i feed (ou_live s) = Inr (old, l)" by (cases "beginStart i feed (ou_live s)") auto
    have "length (lv_jobs l) \<le> length (lv_jobs (ou_live s))"
      using b by (auto simp: beginStart_def length_delete_le split: if_splits)
    moreover have "held_cost (HLaunch i feed (case old of None \<Rightarrow> LStart | Some j \<Rightarrow> LCancel (jb_gen j)) k) \<le> 9 + cont_cost k"
      by (simp add: held_cost_def phase_cost_def split: option.split)
    moreover have "s' = (become (ALaunch i feed k) [] s)\<lparr>ou_live := l, ou_held := HLaunch i feed (case old of None \<Rightarrow> LStart | Some j \<Rightarrow> LCancel (jb_gen j)) k\<rparr>"
      using False begins(1) b by (auto simp: launch_begin_def)
    ultimately show ?thesis
      by (intro order_become [OF begins(3), where bs = "[]"]) (simp_all add: actor_cost_def begins(2) held_cost_def)
  qed
next
  case (cancels i feed n k)
  show ?thesis unfolding cancels(1)
    by (rule order_held [where bs = "[]"]) (simp_all add: cancels(2) held_cost_def phase_cost_def runner_cost_cancel)
next
  case (reaped i feed n k)
  show ?thesis unfolding reaped(1) by (rule order_held [where bs = "[]"]) (simp_all add: reaped(2) held_cost_def phase_cost_def)
next
  case (starts i feed k)
  show ?thesis unfolding starts(1) by (rule order_held [where bs = "[]"]) (simp_all add: starts(2) held_cost_def phase_cost_def)
next
  case (fails i feed k err)
  show ?thesis unfolding fails(1) launch_end_def
    by (rule order_held [where bs = "after_launch (Some err) i k"])
      (use after_launch_cost [of "Some err" i k] in \<open>simp_all add: fails(2) held_cost_def phase_cost_def\<close>)
next
  case (admits i feed k gs)
  show ?thesis
  proof (cases "case feed of
              jobMixFed \<Rightarrow> (case admitMixFedJob i (ou_live s) gs of (r, l, _) \<Rightarrow> (map_option snd r, l))
            | jobSelfFed \<Rightarrow> admitSelfFedJob i (ou_live s)")
    case (Pair r l)
    show ?thesis
    proof (cases r)
      case None
      then have "s' = launch_end (Some (NotReady (str ''playout is finishing''))) i k s" using Pair admits(1) by (simp add: launch_admit_def)
      then show ?thesis unfolding launch_end_def
        by (intro order_held [where bs = "after_launch (Some (NotReady (str ''playout is finishing''))) i k"])
          (use after_launch_cost [of "Some (NotReady (str ''playout is finishing''))" i k] in \<open>simp_all add: admits(2) held_cost_def phase_cost_def\<close>)
    next
      case (Some j)
      note al = admit_jobs(3) [OF Pair [unfolded Some]]
      have "length (lv_jobs l) \<le> Suc (length (lv_jobs (ou_live s)))"
        unfolding al by (cases "i \<in> fst ` set (lv_jobs (ou_live s))") (simp_all add: length_update_fresh length_update_present)
      moreover have "s' = launch_end None i k
          (s\<lparr>ou_live := l, ou_runners := ou_runners s @ [\<lparr>rn_id = i, rn_gen = jb_gen j, rn_canceled = False, rn_running = True\<rparr>]\<rparr>)"
        using Pair Some admits(1) by (simp add: launch_admit_def)
      ultimately show ?thesis unfolding launch_end_def
        by (intro order_held [where bs = "after_launch None i k"])
          (use after_launch_cost [of None i k] in \<open>simp_all add: admits(2) held_cost_def phase_cost_def runner_cost_def\<close>)
    qed
  qed
next
  case (obeys r)
  show ?thesis unfolding obeys(1)
    by (rule order_held [where bs = "[]"]) (use runner_cost_end [OF obeys(2,4) refl] in \<open>simp_all add: run_end_def\<close>)
next
  case (retires r)
  show ?thesis unfolding retires(1) run_retire_def
    using runner_cost_retire [OF retires(2)] retire_jobs_le [of "rn_id r" "rn_gen r" "ou_live s"]
    by (intro order_held [where bs = "[]"]) simp_all
next
  case (ungates slug forget)
  obtain r l where c: "retireGate slug (ou_live s) = (r, l)" by fastforce
  have j: "lv_jobs l = lv_jobs (ou_live s)" using c by simp
  show ?thesis
  proof (cases r)
    case None
    then have "s' = become (AReset slug forget) [AStop slug forget] s" using ungates(1) c by (simp add: do_retireGate_def)
    then show ?thesis
      by (intro order_become [OF ungates(2), where bs = "[AStop slug forget]"]) (simp_all add: actor_cost_def unread_def)
  next
    case (Some g)
    then have "s' = (become (AReset slug forget) [ADrain g slug forget] s)\<lparr>ou_live := l\<rparr>" using ungates(1) c by (simp add: do_retireGate_def)
    then show ?thesis
      by (intro order_become [OF ungates(2), where bs = "[ADrain g slug forget]"]) (simp_all add: actor_cost_def unread_def j)
  qed
next
  case (drains g slug forget)
  show ?thesis unfolding drains(1)
    by (rule order_become [OF drains(2), where bs = "[AStop slug forget]"]) (simp_all add: actor_cost_def unread_def)
next
  case (stops slug forget)
  obtain ns l where c: "stopSession slug (ou_live s) = (ns, l)" by fastforce
  show ?thesis unfolding stops(1) do_stop_def c
    using stop_jobs_length [OF c]
    by (intro order_become [OF stops(3), where bs = "[]"]) (simp_all add: actor_cost_def stops(2) held_cost_def runner_cost_cancel)
next
  case (joins slug n ns forget)
  show ?thesis unfolding joins(1) by (rule order_held [where bs = "[]"]) (simp_all add: joins(2) held_cost_def)
next
  case (resets slug forget)
  show ?thesis unfolding resets(1) reset_done_def
    by (rule order_held [where bs = "if forget then [AForget slug] else []"]) (simp_all add: resets(2) held_cost_def actor_cost_def unread_def)
next
  case (forgets slug)
  show ?thesis unfolding forgets(1)
    by (rule order_become [OF forgets(2), where bs = "[]"]) (simp_all add: actor_cost_def)
next
  case (remembers i subs started n)
  show ?thesis unfolding remembers(1) do_remember_def
    by (rule order_become [OF remembers(2), where bs = "[]"]) (simp_all add: actor_cost_def)
next
  case (replays g pair rs e)
  show ?thesis
  proof (cases rs)
    case None
    then have "ou_actors s' = ou_actors s - {#AReplay g pair rs#} + mset [AReplay g pair (Some (pushRoutes pair (ou_live s)))]"
      using replays(1) by (simp add: replay_step_def)
    then show ?thesis using unread_become [OF replays(2), of "[AReplay g pair (Some (pushRoutes pair (ou_live s)))]"] None
      by (simp add: out_order_def unread_def)
  next
    case (Some rr)
    show ?thesis
    proof (cases "rr = [] \<or> gt_canceled (lv_heap (ou_live s) ! g)")
      case True
      then have "s' = (become (AReplay g pair rs) [] s)\<lparr>ou_live := replay_return g (ou_live s)\<rparr>"
        using replays(1) Some by (cases rr) (auto simp: replay_step_def)
      then show ?thesis
        by (intro order_become [OF replays(2), where bs = "[]"]) (simp_all add: actor_cost_def Some)
    next
      case False
      then obtain i subs rest where rr: "rr = (i, subs) # rest" by (cases rr) auto
      have "s' = become (AReplay g pair rs) (start_push e i subs (KReplay g pair rest) s) s"
        using replays(1) Some rr False by (simp add: replay_step_def)
      then show ?thesis
        by (intro order_become [OF replays(2), where bs = "start_push e i subs (KReplay g pair rest) s"])
          (use start_push_cost [of e i subs "KReplay g pair rest" s] in \<open>simp_all add: actor_cost_def cont_cost_def Some rr\<close>)
    qed
  qed
next
  case (finishes slug)
  obtain r l where c: "finishSnapshot slug (ou_live s) = (r, l)" by fastforce
  have j: "lv_jobs l = lv_jobs (ou_live s)" using c by simp
  show ?thesis
  proof (cases r)
    case None
    then have "s' = become (AFinish slug) [] s" using finishes(1) c by (simp add: do_finish_def)
    then show ?thesis by (intro order_become [OF finishes(3), where bs = "[]"]) (simp_all add: actor_cost_def)
  next
    case (Some w)
    obtain ts js os where w: "w = (ts, js, os)" by (metis prod_cases3)
    have "s' = (become (AFinish slug) [AWaiting ts js os] s)\<lparr>ou_live := l\<rparr>" using finishes(1) c Some w by (simp add: do_finish_def)
    then show ?thesis
      by (intro order_become [OF finishes(3), where bs = "[AWaiting ts js os]"]) (simp_all add: actor_cost_def unread_def j)
  qed
qed simp_all


section \<open>Nobody waits for ever\<close>

definition out_reach :: "outputs \<Rightarrow> bool" where
  "out_reach s \<longleftrightarrow> rtranclp (\<lambda>x y. \<exists>b. out_step b x y) NewRegistry s"

lemma reach_inv:
  assumes "out_reach s" shows "job_state s" "replay_state s"
proof -
  have "job_state s \<and> replay_state s"
    using assms unfolding out_reach_def
  proof (induction rule: rtranclp_induct)
    case base
    show ?case by (simp add: NewRegistry_def live_start_def job_state_def jobs_inv_def replay_state_def replaying_def held_gate_def)
  next
    case (step y z)
    then show ?case using job_state_step replay_state_step by blast
  qed
  then show "job_state s" "replay_state s" by simp_all
qed

lemma waited_job_moves:
  assumes inv: "job_state s" and n: "n \<in> waited_for (ou_held s)" and no: "\<not> done_closed s n"
  shows "\<exists>s'. out_step False s s'"
proof -
  obtain r where r: "r \<in> set (ou_runners s)" "rn_gen r = n" "rn_running r"
    using no by (auto simp: done_closed_def list_all_iff)
  then have "rn_canceled r" using inv n waits_canceled by (auto simp: job_state_def)
  then show ?thesis using out_step.obeys r by blast
qed

text \<open>A call is pending while \<open>startMu\<close> is held or an actor other than a \<open>WaitPlayout\<close> is left.\<close>

definition pending_call :: "outputs \<Rightarrow> bool" where
  "pending_call s \<longleftrightarrow> ou_held s \<noteq> Free \<or> (\<exists>a \<in># ou_actors s. \<forall>ts js os. a \<noteq> AWaiting ts js os)"

lemma held_moves:
  assumes inv: "job_state s" and h: "ou_held s \<noteq> Free"
  shows "\<exists>s'. out_step False s s'"
proof (cases "ou_held s")
  case Free
  then show ?thesis using h by simp
next
  case (HLaunch i feed p k)
  show ?thesis
  proof (cases p)
    case (LCancel n)
    then show ?thesis using HLaunch out_step.cancels by blast
  next
    case (LReap n)
    then have "n \<in> waited_for (ou_held s)" using HLaunch by (simp add: waited_for_def)
    then show ?thesis using waited_job_moves [OF inv] HLaunch LReap out_step.reaped by blast
  next
    case LStart
    then show ?thesis using HLaunch out_step.starts by blast
  next
    case LAdmit
    then show ?thesis using HLaunch out_step.admits by blast
  qed
next
  case (HReset slug ns forget)
  show ?thesis
  proof (cases ns)
    case Nil
    then show ?thesis using HReset out_step.resets by blast
  next
    case (Cons n ns')
    then have "n \<in> waited_for (ou_held s)" using HReset by (simp add: waited_for_def)
    then show ?thesis using waited_job_moves [OF inv] HReset Cons out_step.joins by blast
  qed
qed

lemma actor_moves:
  assumes h: "ou_held s = Free" and a: "a \<in># ou_actors s" "\<forall>ts js os. a \<noteq> AWaiting ts js os" "\<forall>g slug forget. a \<noteq> ADrain g slug forget"
  shows "\<exists>s'. out_step False s s'"
proof (cases a)
  case (APush i subs n)
  then show ?thesis using a out_step.plans by blast
next
  case (ALaunch i feed k)
  then show ?thesis using a h out_step.begins by blast
next
  case (ARemember i subs started n)
  then show ?thesis using a out_step.remembers by blast
next
  case (AReplay g pair rs)
  then show ?thesis using a out_step.replays by blast
next
  case (AReset slug forget)
  then show ?thesis using a out_step.ungates by blast
next
  case (AStop slug forget)
  then show ?thesis using a h out_step.stops by blast
next
  case (AForget slug)
  then show ?thesis using a out_step.forgets by blast
next
  case (AFinish slug)
  then show ?thesis using a h out_step.finishes by blast
qed (use a in auto)

lemma pending_moves:
  assumes jobs: "job_state s" and rep: "replay_state s" and p: "pending_call s"
  shows "\<exists>s'. out_step False s s'"
proof (cases "ou_held s = Free")
  case False
  then show ?thesis using held_moves [OF jobs] by blast
next
  case h: True
  then obtain a where a: "a \<in># ou_actors s" "\<forall>ts js os. a \<noteq> AWaiting ts js os" using p by (auto simp: pending_call_def)
  show ?thesis
  proof (cases "\<exists>g slug forget. a = ADrain g slug forget")
    case False
    then show ?thesis using actor_moves [OF h a] by blast
  next
    case True
    then obtain g slug forget where d: "ADrain g slug forget \<in># ou_actors s" using a by blast
    then have g: "g < length (lv_heap (ou_live s))" using rep unfolding replay_state_def by blast
    show ?thesis
    proof (cases "gt_replays (lv_heap (ou_live s) ! g) = 0")
      case True
      then show ?thesis using out_step.drains [OF d] by blast
    next
      case False
      then have "replaying s g \<noteq> 0" using rep g unfolding replay_state_def by metis
      then have "{#a \<in># ou_actors s. actor_gate a = Some g#} \<noteq> {#}" using h by (auto simp: replaying_def held_gate_def)
      then obtain b where "b \<in># {#a \<in># ou_actors s. actor_gate a = Some g#}" by (meson multiset_nonemptyE)
      then have b: "b \<in># ou_actors s" "actor_gate b = Some g" by simp_all
      then have "\<forall>ts js os. b \<noteq> AWaiting ts js os" "\<forall>g slug forget. b \<noteq> ADrain g slug forget" by auto
      then show ?thesis using actor_moves [OF h b(1)] by blast
    qed
  qed
qed

section \<open>Routes and teardowns\<close>

text \<open>A push in flight carries the count of teardowns it read.\<close>

definition cont_token :: "jobID \<Rightarrow> cont \<Rightarrow> (jobID \<times> nat) set" where
  "cont_token i k = (case k of KPush _ n \<Rightarrow> {(i, n)} | _ \<Rightarrow> {})"

definition actor_token :: "actor \<Rightarrow> (jobID \<times> nat) set" where
  "actor_token a = (case a of APush i _ n \<Rightarrow> {(i, n)} | ALaunch i _ k \<Rightarrow> cont_token i k | ARemember i _ _ n \<Rightarrow> {(i, n)} | _ \<Rightarrow> {})"

definition held_token :: "held \<Rightarrow> (jobID \<times> nat) set" where
  "held_token h = (case h of HLaunch i _ _ k \<Rightarrow> cont_token i k | _ \<Rightarrow> {})"

definition tokens :: "outputs \<Rightarrow> (jobID \<times> nat) set" where
  "tokens s = (\<Union>a \<in> set_mset (ou_actors s). actor_token a) \<union> held_token (ou_held s)"

lemma token_simps [simp]:
  "actor_token (AReplay g pair rs) = {}" "actor_token (ALaunch i feed k) = cont_token i k" "actor_token (APush i subs n) = {(i, n)}"
  "actor_token (ARemember i subs started n) = {(i, n)}" "actor_token (AReset slug forget) = {}" "actor_token (ADrain g slug forget) = {}"
  "actor_token (AStop slug forget) = {}" "actor_token (AForget slug) = {}" "actor_token (AFinish slug) = {}"
  "actor_token (AWaiting ts js os) = {}" "cont_token i KHLS = {}" "cont_token i (KPush subs n) = {(i, n)}" "cont_token i (KReplay g pair rest) = {}"
  "held_token Free = {}" "held_token (HLaunch i feed p k) = cont_token i k" "held_token (HReset slug ns forget) = {}"
  by (simp_all add: actor_token_def cont_token_def held_token_def)

lemma after_launch_token: "a \<in> set (after_launch err i k) \<Longrightarrow> actor_token a \<subseteq> cont_token i k"
  by (auto simp: after_launch_def split: cont.splits option.splits push_error.splits)

lemma start_push_token: "a \<in> set (start_push e i subs k s) \<Longrightarrow> actor_token a \<subseteq> cont_token i k"
  by (cases "dispatchPush e (pacingFor (jid_pair i) (ou_live s)) i subs") (auto simp: start_push_def dest: after_launch_token)

lemma tokens_become:
  assumes "a \<in># ou_actors s" "\<And>b. b \<in> set bs \<Longrightarrow> actor_token b \<subseteq> actor_token a"
    "ou_actors s' = ou_actors s - {#a#} + mset bs" "held_token (ou_held s') \<subseteq> actor_token a \<union> held_token (ou_held s)"
  shows "tokens s' \<subseteq> tokens s"
  using assms by (fastforce simp: tokens_def dest: in_diffD)

lemma tokens_held:
  assumes "\<And>b. b \<in> set bs \<Longrightarrow> actor_token b \<subseteq> held_token (ou_held s)"
    "ou_actors s' = ou_actors s + mset bs" "held_token (ou_held s') \<subseteq> held_token (ou_held s)"
  shows "tokens s' \<subseteq> tokens s"
  using assms by (fastforce simp: tokens_def)

lemma tokens_spawn: "ou_actors s' = ou_actors s + {#a#} \<Longrightarrow> ou_held s' = ou_held s \<Longrightarrow> tokens s' = tokens s \<union> actor_token a"
  by (auto simp: tokens_def)

lemma launch_begin_cases:
  obtains (refused) err where "launch_begin hasSup i feed k s = become (ALaunch i feed k) (after_launch (Some err) i k) s"
  | (begun) old l p where "beginStart i feed (ou_live s) = Inr (old, l)"
      "launch_begin hasSup i feed k s = (become (ALaunch i feed k) [] s)\<lparr>ou_live := l, ou_held := HLaunch i feed p k\<rparr>"
proof (cases "feed = jobSelfFed \<and> \<not> hasSup")
  case True
  then show ?thesis using refused by (simp add: launch_begin_def)
next
  case no: False
  show ?thesis
  proof (cases "beginStart i feed (ou_live s)")
    case (Inl err)
    then show ?thesis using refused no by (auto simp: launch_begin_def)
  next
    case (Inr r)
    obtain old l where "r = (old, l)" by fastforce
    then show ?thesis using begun no Inr by (auto simp: launch_begin_def)
  qed
qed

lemma tokens_begin:
  assumes "ALaunch i feed k \<in># ou_actors s"
  shows "tokens (launch_begin hasSup i feed k s) \<subseteq> tokens s"
proof (cases rule: launch_begin_cases [of hasSup i feed k s])
  case (refused err)
  show ?thesis unfolding refused by (rule tokens_become [OF assms]) (auto dest: after_launch_token)
next
  case (begun old l p)
  show ?thesis unfolding begun(2) by (rule tokens_become [OF assms, where bs = "[]"]) auto
qed

lemma tokens_launch_end:
  assumes "ou_held s = HLaunch i feed p k"
  shows "tokens (launch_end err i k (s\<lparr>ou_live := l, ou_runners := rs\<rparr>)) \<subseteq> tokens s" "tokens (launch_end err i k s) \<subseteq> tokens s"
  by (rule tokens_held [where bs = "after_launch err i k"]; use assms after_launch_token in \<open>simp add: launch_end_def\<close>)+

lemma replay_step_cases:
  obtains bs l where "replay_step e g pair rs s = (become (AReplay g pair rs) bs s)\<lparr>ou_live := l\<rparr>"
    "l = ou_live s \<or> l = replay_return g (ou_live s)" "\<And>b. b \<in> set bs \<Longrightarrow> actor_token b = {}"
proof (cases "\<exists>i subs rest. rs = Some ((i, subs) # rest) \<and> \<not> gt_canceled (lv_heap (ou_live s) ! g)")
  case True
  then obtain i subs rest where r: "rs = Some ((i, subs) # rest)" "\<not> gt_canceled (lv_heap (ou_live s) ! g)" by blast
  have t: "actor_token b = {}" if "b \<in> set (start_push e i subs (KReplay g pair rest) s)" for b
    using start_push_token [OF that] by simp
  have "replay_step e g pair rs s = (become (AReplay g pair rs) (start_push e i subs (KReplay g pair rest) s) s)\<lparr>ou_live := ou_live s\<rparr>"
    using r by (simp add: replay_step_def)
  then show ?thesis using that t by blast
next
  case False
  show ?thesis
  proof (cases rs)
    case None
    have "replay_step e g pair rs s = (become (AReplay g pair rs) [AReplay g pair (Some (pushRoutes pair (ou_live s)))] s)\<lparr>ou_live := ou_live s\<rparr>"
      using None by (simp add: replay_step_def)
    then show ?thesis using that by fastforce
  next
    case (Some rr)
    have "replay_step e g pair rs s = (become (AReplay g pair rs) [] s)\<lparr>ou_live := replay_return g (ou_live s)\<rparr>"
      using Some False by (cases rr) (auto simp: replay_step_def)
    then show ?thesis using that by fastforce
  qed
qed

lemma step_tokens:
  assumes "out_step b s s'"
  shows "tokens s' \<subseteq> tokens s \<union> {(i, lv_teardowns (ou_live s)) |i. \<exists>subs. APush i subs (lv_teardowns (ou_live s)) \<in># ou_actors s'}"
  using assms
proof (cases rule: out_step.cases)
  case (create pair reg)
  then show ?thesis by (auto simp: do_create_def tokens_def split: prod.splits)
next
  case (push i subs)
  then show ?thesis by (auto simp: tokens_def)
next
  case (plans i subs n e)
  have "tokens s' \<subseteq> tokens s" unfolding plans(2)
    by (rule tokens_become [OF plans(3), where bs = "start_push e i subs (KPush subs n) s"]) (use start_push_token in fastforce)+
  then show ?thesis by blast
next
  case (begins i feed k hasSup)
  then show ?thesis using tokens_begin by blast
next
  case (cancels i feed n k)
  then show ?thesis by (simp add: tokens_def)
next
  case (reaped i feed n k)
  then show ?thesis by (simp add: tokens_def)
next
  case (starts i feed k)
  then show ?thesis by (simp add: tokens_def)
next
  case (fails i feed k)
  then show ?thesis using tokens_launch_end(2) by blast
next
  case (admits i feed k gs)
  then show ?thesis using tokens_launch_end [OF admits(3)] by (auto simp: launch_admit_def split: prod.splits option.splits; blast)
next
  case (ungates slug forget)
  have "tokens s' \<subseteq> tokens s" unfolding ungates(2) do_retireGate_def
    by (cases "retireGate slug (ou_live s)"; cases "fst (retireGate slug (ou_live s))")
      (auto simp: tokens_def dest: in_diffD)
  then show ?thesis by blast
next
  case (replays g pair rs e)
  obtain bs l where "replay_step e g pair rs s = (become (AReplay g pair rs) bs s)\<lparr>ou_live := l\<rparr>" "\<And>b. b \<in> set bs \<Longrightarrow> actor_token b = {}"
    using replay_step_cases [of e g pair rs s] by metis
  then have "tokens s' \<subseteq> tokens s" unfolding replays(2) by (intro tokens_become [OF replays(3), where bs = bs]) auto
  then show ?thesis by blast
next
  case (finishes slug)
  have "tokens s' \<subseteq> tokens s" unfolding finishes(2) do_finish_def
    by (auto simp: tokens_def dest: in_diffD split: prod.splits option.splits)
  then show ?thesis by blast
qed (auto simp: tokens_def run_end_def run_retire_def do_stop_def reset_done_def do_remember_def dest: in_diffD split: prod.splits if_splits)

lemma create_routes [simp]:
  "createPair pair reg l = (g, l') \<Longrightarrow> lv_routes l' = lv_routes l \<and> lv_teardowns l' = lv_teardowns l"
  by (cases "map_of (lv_gates l) (fst pair)") (auto simp: createPair_def)

lemma retire_routes [simp]:
  "retireGate slug l = (w, l') \<Longrightarrow> lv_routes l' = lv_routes l \<and> lv_teardowns l' = lv_teardowns l"
  by (cases "map_of (lv_gates l) slug") (auto simp: retireGate_def cancel_gate_def)

lemma live_routes_simps [simp]:
  "lv_routes (closeStream n l) = lv_routes l" "lv_teardowns (closeStream n l) = lv_teardowns l"
  "lv_routes (replay_return g l) = lv_routes l" "lv_teardowns (replay_return g l) = lv_teardowns l"
  by (simp_all add: closeStream_def replay_return_def)

lemma retireJob_routes [simp]:
  "lv_routes (live_retireJob i n l) = lv_routes l" "lv_teardowns (live_retireJob i n l) = lv_teardowns l"
  by (simp_all add: live_retireJob_def split: option.split)

lemma finish_routes [simp]:
  "finishSnapshot slug l = (w, l') \<Longrightarrow> lv_routes l' = lv_routes l \<and> lv_teardowns l' = lv_teardowns l"
  by (cases "map_of (lv_gates l) slug") (auto simp: finishSnapshot_def)

lemma open_routes: "openStream pair l gs = (r, l', gs') \<Longrightarrow> lv_routes l' = lv_routes l \<and> lv_teardowns l' = lv_teardowns l"
  by (cases "map_of (lv_pairs l) pair"; cases "liveGateLocked (fst pair) l")
    (auto simp: openStream_def Let_def split: prod.splits bool.splits)

lemma stop_routes: "stopSession slug l = (ns, l') \<Longrightarrow> lv_routes l' = lv_routes l \<and> lv_teardowns l' = lv_teardowns l"
  by (cases "map_of (lv_gates l) slug") (auto simp: stopSession_def Let_def cancel_gate_def)

lemma begin_routes: "beginStart i feed l = Inr (old, l') \<Longrightarrow> lv_routes l' = lv_routes l \<and> lv_teardowns l' = lv_teardowns l"
  by (auto simp: beginStart_def split: if_splits)

lemma admit_routes:
  assumes "(case feed of
              jobMixFed \<Rightarrow> (case admitMixFedJob i l gs of (r, l, _) \<Rightarrow> (map_option snd r, l))
            | jobSelfFed \<Rightarrow> admitSelfFedJob i l) = (r, l')"
  shows "lv_routes l' = lv_routes l \<and> lv_teardowns l' = lv_teardowns l"
  using assms by (cases feed; cases "map_of (lv_pairs l) (jid_pair i)"; cases "liveGateLocked (fst (jid_pair i)) l")
    (auto simp: admitMixFedJob_def admitSelfFedJob_def registerJobLocked_def Let_def split: prod.splits bool.splits)

text \<open>Only a push that remembers its route and a drop that forgets them touch the routes.\<close>

lemma step_routes:
  assumes "out_step b s s'"
  obtains (same) "lv_routes (ou_live s') = lv_routes (ou_live s)" "lv_teardowns (ou_live s') = lv_teardowns (ou_live s)"
  | (forgot) slug where "ou_live s' = forgetRoutes slug (ou_live s)"
  | (remembered) i subs started n where "(i, n) \<in> tokens s" "ou_live s' = snd (rememberPush i subs started n (ou_live s))"
proof (use assms in \<open>cases rule: out_step.cases\<close>)
  case (begins i feed k hasSup)
  have "lv_routes (ou_live s') = lv_routes (ou_live s) \<and> lv_teardowns (ou_live s') = lv_teardowns (ou_live s)"
    unfolding begins(2) by (cases rule: launch_begin_cases [of hasSup i feed k s]) (auto dest: begin_routes)
  then show ?thesis using same by blast
next
  case (admits i feed k gs)
  have "lv_routes (ou_live s') = lv_routes (ou_live s) \<and> lv_teardowns (ou_live s') = lv_teardowns (ou_live s)"
    unfolding admits(2) launch_admit_def using admit_routes [where feed = feed and i = i and l = "ou_live s" and gs = gs]
    by (auto simp: launch_end_def split: prod.splits option.splits)
  then show ?thesis using same by blast
next
  case (remembers i subs started n)
  have "(i, n) \<in> tokens s" using remembers(3) by (force simp: tokens_def)
  then show ?thesis using remembered remembers(2) by (simp add: do_remember_def)
next
  case (forgets slug)
  then show ?thesis using forgot by simp
next
  case (replays g pair rs e)
  have "lv_routes (ou_live s') = lv_routes (ou_live s) \<and> lv_teardowns (ou_live s') = lv_teardowns (ou_live s)"
    unfolding replays(2) by (rule replay_step_cases [of e g pair rs s]) auto
  then show ?thesis using same by blast
next
  case (stops slug forget)
  obtain ns l where "stopSession slug (ou_live s) = (ns, l)" by fastforce
  then show ?thesis using same stops(2) stop_routes by (simp add: do_stop_def)
next
  case (serve pair gs r l gs')
  then show ?thesis using same open_routes by simp
qed (use same in \<open>auto simp: do_create_def run_end_def launch_end_def run_retire_def do_retireGate_def reset_done_def do_finish_def
      split: prod.splits option.splits\<close>)

text \<open>A session that was dropped and has no gate: no route, and every push in flight is older than the drop.\<close>

definition gone :: "gostr \<Rightarrow> outputs \<Rightarrow> bool" where
  "gone slug s \<longleftrightarrow> map_of (lv_gates (ou_live s)) slug = None \<and>
     (\<forall>i. jid_kind i = kindPush \<longrightarrow> slug_of i = slug \<longrightarrow> map_of (lv_routes (ou_live s)) i = None) \<and>
     (\<forall>(i, n) \<in> tokens s. slug_of i = slug \<longrightarrow> n < lv_teardowns (ou_live s))"

text \<open>A step after which the session has no gate yet and in which nobody pushes to it anew.\<close>

definition without_session :: "gostr \<Rightarrow> outputs \<Rightarrow> outputs \<Rightarrow> bool" where
  "without_session slug s s' \<longleftrightarrow> (\<exists>b. out_step b s s') \<and> map_of (lv_gates (ou_live s')) slug = None \<and>
     (\<forall>i subs n. slug_of i = slug \<longrightarrow> APush i subs n \<in># ou_actors s' \<longrightarrow> APush i subs n \<in># ou_actors s)"

lemma token_bound:
  assumes "out_reach s" "(i, n) \<in> tokens s" shows "n \<le> lv_teardowns (ou_live s)"
proof -
  have "\<forall>(i, n) \<in> tokens s. n \<le> lv_teardowns (ou_live s)"
    using assms(1) unfolding out_reach_def
  proof (induction rule: rtranclp_induct)
    case base
    show ?case by (simp add: NewRegistry_def tokens_def)
  next
    case (step y z)
    then obtain b where b: "out_step b y z" by blast
    have m: "lv_teardowns (ou_live y) \<le> lv_teardowns (ou_live z)"
      by (cases rule: step_routes [OF b]) (auto simp: forgetRoutes_def rememberPush_def Let_def)
    show ?case
    proof (intro ballI, clarify)
      fix i n assume "(i, n) \<in> tokens z"
      then have "(i, n) \<in> tokens y \<or> n = lv_teardowns (ou_live y)" using step_tokens [OF b] by blast
      then show "n \<le> lv_teardowns (ou_live z)" using step.IH m by force
    qed
  qed
  then show ?thesis using assms(2) by blast
qed

lemma map_of_filter_routes: "map_of (filter (\<lambda>(i, _). P i) al) i = (if P i then map_of al i else None)"
  by (induction al) auto

lemma gone_step: assumes "gone slug s" "without_session slug s s'" shows "gone slug s'"
proof -
  obtain b where b: "out_step b s s'" and g: "map_of (lv_gates (ou_live s')) slug = None"
    and p: "\<And>i subs n. slug_of i = slug \<Longrightarrow> APush i subs n \<in># ou_actors s' \<Longrightarrow> APush i subs n \<in># ou_actors s"
    using assms(2) by (auto simp: without_session_def)
  have old: "(i, n) \<in> tokens s" if "(i, n) \<in> tokens s'" "slug_of i = slug" for i n
  proof -
    have "(i, n) \<in> tokens s \<or> (\<exists>subs. n = lv_teardowns (ou_live s) \<and> APush i subs n \<in># ou_actors s')" using step_tokens [OF b] that(1) by blast
    then show ?thesis using p [OF that(2)] by (force simp: tokens_def)
  qed
  have r: "map_of (lv_routes (ou_live s)) i = None" if "jid_kind i = kindPush" "slug_of i = slug" for i
    using assms(1) that by (simp add: gone_def)
  have t: "n < lv_teardowns (ou_live s)" if "(i, n) \<in> tokens s" "slug_of i = slug" for i n
    using assms(1) that by (auto simp: gone_def)
  have ng: "map_of (lv_gates (ou_live s)) slug = None" using assms(1) by (simp add: gone_def)
  show ?thesis
  proof (cases rule: step_routes [OF b])
    case 1
    note same = this
    have "n < lv_teardowns (ou_live s')" if "(i, n) \<in> tokens s'" "slug_of i = slug" for i n
      using t [OF old [OF that] that(2)] same by simp
    then show ?thesis using g r same by (auto simp: gone_def)
  next
    case (2 slug')
    note forgot = this
    then have "map_of (lv_routes (ou_live s')) i = None" if "jid_kind i = kindPush" "slug_of i = slug" for i
      using r [OF that] by (simp add: forgetRoutes_def map_of_filter_routes)
    moreover have "lv_teardowns (ou_live s') = lv_teardowns (ou_live s) + 1" using forgot by (simp add: forgetRoutes_def)
    ultimately show ?thesis using g t old by (force simp: gone_def)
  next
    case (3 i subs started n)
    note remembered = this
    have td: "lv_teardowns (ou_live s') = lv_teardowns (ou_live s)" using remembered(2) by (simp add: rememberPush_def Let_def)
    have "map_of (lv_routes (ou_live s')) i' = None" if k: "jid_kind i' = kindPush" "slug_of i' = slug" for i'
    proof (cases "i' = i")
      case True
      then have "n < lv_teardowns (ou_live s)" using t remembered(1) k by blast
      then have "ou_live s' = ou_live s" using remembered(2) ng True k by (simp add: rememberPush_def slug_of_def)
      then show ?thesis using r k by simp
    next
      case False
      then have "map_of (lv_routes (ou_live s')) i' = map_of (lv_routes (ou_live s)) i'" using remembered(2) by (simp add: rememberPush_def Let_def)
      then show ?thesis using r k by simp
    qed
    moreover have "n < lv_teardowns (ou_live s')" if "(i, n) \<in> tokens s'" "slug_of i = slug" for i n
      using t [OF old [OF that] that(2)] td by simp
    ultimately show ?thesis using g by (auto simp: gone_def)
  qed
qed

section \<open>Properties\<close>


text \<open>When a reset has joined the jobs it stopped, no encoder of the session runs, none is registered and
  none can appear before it gives \<open>startMu\<close> back; whatever runs then is in the registry.\<close>

lemma reset_leaves_no_encoder:
  assumes "out_reach s" "ou_held s = HReset slug [] forget"
  shows "(\<forall>r \<in> set (ou_runners s). slug_of (rn_id r) = slug \<longrightarrow> \<not> rn_running r) \<and>
    (\<forall>i. slug_of i = slug \<longrightarrow> map_of (lv_jobs (ou_live s)) i = None) \<and>
    (\<forall>r \<in> set (ou_runners s). rn_running r \<longrightarrow> (\<exists>j. map_of (lv_jobs (ou_live s)) (rn_id r) = Some j \<and> jb_gen j = rn_gen r))"
proof -
  note inv = reach_inv(1) [OF assms(1), unfolded job_state_def jobs_inv_def assms(2)]
  have none: "map_of (lv_jobs (ou_live s)) i = None" if "slug_of i = slug" for i
  proof (rule ccontr)
    assume "map_of (lv_jobs (ou_live s)) i \<noteq> None"
    then obtain j where "map_of (lv_jobs (ou_live s)) i = Some j" by blast
    then have "\<not> unregistered (HReset slug [] forget) i" using inv by blast
    then show False using that by (simp add: unregistered_def)
  qed
  have reg: "\<exists>j. map_of (lv_jobs (ou_live s)) (rn_id r) = Some j \<and> jb_gen j = rn_gen r" if "r \<in> set (ou_runners s)" "rn_running r" for r
  proof -
    have "(\<exists>j. map_of (lv_jobs (ou_live s)) (rn_id r) = Some j \<and> jb_gen j = rn_gen r) \<or> detached (HReset slug [] forget) (rn_id r) (rn_gen r)"
      using inv that by blast
    then show ?thesis by (simp add: detached_def)
  qed
  show ?thesis using none reg by fastforce
qed

text \<open>C17: the registry cannot deadlock: from every reachable state, while a push, a launch, a replay, a reset
  or a drop is pending, some goroutine can move, every such move lowers a well-founded order, and so with
  encoders that obey their cancellation every call returns.\<close>

theorem every_call_returns:
  assumes "out_reach s"
  shows "wf out_order \<and> (\<forall>t t'. out_step False t t' \<longrightarrow> (t', t) \<in> out_order) \<and>
    (\<exists>t. rtranclp (out_step False) s t \<and> \<not> pending_call t)"
proof -
  have "job_state s \<Longrightarrow> replay_state s \<Longrightarrow> \<exists>t. rtranclp (out_step False) s t \<and> \<not> pending_call t" for s
    using wf_out_order
  proof (induction s rule: wf_induct_rule)
    case (less s)
    show ?case
    proof (cases "pending_call s")
      case False
      then show ?thesis by blast
    next
      case True
      then obtain s' where s': "out_step False s s'" using pending_moves less.prems by blast
      then obtain t where "rtranclp (out_step False) s' t" "\<not> pending_call t"
        using less.IH [OF own_step_order [OF s']] job_state_step [OF s'] replay_state_step [OF s'] less.prems by blast
      then show ?thesis using s' converse_rtranclp_into_rtranclp [of "out_step False"] by blast
    qed
  qed
  then show ?thesis using reach_inv [OF assms] wf_out_order own_step_order by blast
qed

text \<open>C20: a dropped session stays dropped: once its routes are forgotten, no push that was in flight during the
  drop brings one back, however the rest of the daemon goes on, until somebody starts the session or pushes to
  it again.\<close>

theorem dropped_routes_stay_dropped:
  assumes "out_reach s" "AForget slug \<in># ou_actors s" "map_of (lv_gates (ou_live s)) slug = None"
    and "rtranclp (without_session slug) ((become (AForget slug) [] s)\<lparr>ou_live := forgetRoutes slug (ou_live s)\<rparr>) t"
    and "jid_kind i = kindPush" "slug_of i = slug"
  shows "map_of (lv_routes (ou_live t)) i = None"
proof -
  let ?s = "(become (AForget slug) [] s)\<lparr>ou_live := forgetRoutes slug (ou_live s)\<rparr>"
  have "n < lv_teardowns (ou_live ?s)" if "(i, n) \<in> tokens ?s" for i n
  proof -
    have "(i, n) \<in> tokens s" using that by (auto simp: tokens_def dest: in_diffD)
    then show ?thesis using token_bound [OF assms(1)] by (fastforce simp: forgetRoutes_def)
  qed
  then have "gone slug ?s" using assms(3) by (auto simp: gone_def forgetRoutes_def map_of_filter_routes slug_of_def)
  with assms(4) have "gone slug t"
    by (induction rule: rtranclp_induct) (auto intro: gone_step)
  then show ?thesis using assms(5,6) by (simp add: gone_def)
qed


section \<open>A run of the registry\<close>

lemma reach_step: "out_reach s \<Longrightarrow> out_step b s s' \<Longrightarrow> out_reach s'"
  unfolding out_reach_def by (metis (mono_tags, lifting) rtranclp.rtrancl_into_rtrancl)

definition demo_pair :: pairID where "demo_pair = (str ''talk'', str ''it'')"
definition demo_hls :: jobID where "demo_hls = \<lparr>jid_kind = kindHLS, jid_pair = demo_pair, jid_target = []\<rparr>"
definition demo_push :: jobID where "demo_push = \<lparr>jid_kind = kindPush, jid_pair = demo_pair, jid_target = str ''rtmp://x/y''\<rparr>"
definition demo_env :: out_env where
  "demo_env = \<lparr>ev_os = Linux, ev_sup = False, ev_video = (\<lambda>_. None), ev_cue = (\<lambda>_ _. None), ev_font = [], ev_helper = [],
     ev_resolve = None, ev_parse = (\<lambda>_. Some (str ''rtmp'', str ''x''))\<rparr>"

text \<open>A pair is created and its replay ends, an encoder starts, and the session is dropped.\<close>

definition run1 :: outputs where
  "run1 = replay_step demo_env 0 demo_pair (Some []) (replay_step demo_env 0 demo_pair None
     (do_create demo_pair \<lparr>rg_template = 0, rg_pacing = \<lparr>fc_quantum = 0, fc_samples = 0\<rparr>\<rparr> NewRegistry))"

definition run2 :: outputs where
  "run2 = (let s = run1\<lparr>ou_actors := ou_actors run1 + {#ALaunch demo_hls jobMixFed KHLS#}\<rparr>
     in launch_begin True demo_hls jobMixFed KHLS s)"

definition run3 :: outputs where
  "run3 = launch_admit (\<lambda>_. newPlayoutGroup) demo_hls jobMixFed KHLS (run2\<lparr>ou_held := HLaunch demo_hls jobMixFed LAdmit KHLS\<rparr>)"

definition run4 :: outputs where
  "run4 = run3\<lparr>ou_actors := ou_actors run3 + {#AReset (str ''talk'') True#}\<rparr>"

definition run5 :: outputs where
  "run5 = become (ADrain 0 (str ''talk'') True) [AStop (str ''talk'') True] (do_retireGate (str ''talk'') True run4)"

definition run6 :: outputs where
  "run6 = (run_end 1 (do_stop (str ''talk'') True run5))\<lparr>ou_held := HReset (str ''talk'') [] True\<rparr>"

definition run7 :: outputs where
  "run7 = reset_done (str ''talk'') True run6"

lemma reach1: "out_reach run1"
proof -
  let ?a = "do_create demo_pair \<lparr>rg_template = 0, rg_pacing = \<lparr>fc_quantum = 0, fc_samples = 0\<rparr>\<rparr> NewRegistry"
  have 0: "out_reach NewRegistry" by (simp add: out_reach_def)
  have 1: "out_reach ?a" by (rule reach_step [OF 0 out_step.create])
  have "AReplay 0 demo_pair None \<in># ou_actors ?a" by code_simp
  then have 2: "out_reach (replay_step demo_env 0 demo_pair None ?a)" by (rule reach_step [OF 1 out_step.replays])
  have "AReplay 0 demo_pair (Some []) \<in># ou_actors (replay_step demo_env 0 demo_pair None ?a)" by code_simp
  then show ?thesis unfolding run1_def by (rule reach_step [OF 2 out_step.replays])
qed

lemma reach2: "out_reach run2"
proof -
  let ?a = "run1\<lparr>ou_actors := ou_actors run1 + {#ALaunch demo_hls jobMixFed KHLS#}\<rparr>"
  have "jid_kind demo_hls = kindHLS" by code_simp
  then have 1: "out_reach ?a" by (rule reach_step [OF reach1 out_step.hls])
  have "ou_held ?a = Free" by code_simp
  then show ?thesis unfolding run2_def Let_def by (rule reach_step [OF 1 out_step.begins]) simp
qed

lemma reach3: "out_reach run3"
proof -
  have "ou_held run2 = HLaunch demo_hls jobMixFed LStart KHLS" by code_simp
  then have 1: "out_reach (run2\<lparr>ou_held := HLaunch demo_hls jobMixFed LAdmit KHLS\<rparr>)" by (rule reach_step [OF reach2 out_step.starts])
  show ?thesis unfolding run3_def by (rule reach_step [OF 1 out_step.admits]) simp
qed

lemma reach4: "out_reach run4"
  unfolding run4_def by (rule reach_step [OF reach3 out_step.reset])

lemma reach5: "out_reach run5"
proof -
  have "AReset (str ''talk'') True \<in># ou_actors run4" by code_simp
  then have 1: "out_reach (do_retireGate (str ''talk'') True run4)" by (rule reach_step [OF reach4 out_step.ungates])
  have "ADrain 0 (str ''talk'') True \<in># ou_actors (do_retireGate (str ''talk'') True run4)"
    "gt_replays (lv_heap (ou_live (do_retireGate (str ''talk'') True run4)) ! 0) = 0" by code_simp+
  then show ?thesis unfolding run5_def by (rule reach_step [OF 1 out_step.drains])
qed

lemma reach6: "out_reach run6"
proof -
  let ?a = "do_stop (str ''talk'') True run5"
  have "ou_held run5 = Free" "AStop (str ''talk'') True \<in># ou_actors run5" by code_simp+
  then have 1: "out_reach ?a" by (rule reach_step [OF reach5 out_step.stops])
  let ?r = "\<lparr>rn_id = demo_hls, rn_gen = 1, rn_canceled = True, rn_running = True\<rparr>"
  have r: "?r \<in> set (ou_runners ?a)" by code_simp
  have 2: "out_reach (run_end 1 ?a)" using reach_step [OF 1 out_step.obeys [OF r]] by simp
  have "ou_held (run_end 1 ?a) = HReset (str ''talk'') [1] True" "done_closed (run_end 1 ?a) 1" by code_simp+
  then show ?thesis unfolding run6_def by (rule reach_step [OF 2 out_step.joins])
qed


lemma reset_leaves_no_encoder_witness:
  "map rn_id (ou_runners run6) = [demo_hls] \<and> filter (\<lambda>r. rn_running r \<and> slug_of (rn_id r) = str ''talk'') (ou_runners run6) = []"
proof -
  have "ou_held run6 = HReset (str ''talk'') [] True" "map rn_id (ou_runners run6) = [demo_hls]" by code_simp+
  then show ?thesis using reset_leaves_no_encoder [OF reach6] unfolding filter_empty_conv by blast
qed

theorem every_call_returns_witness:
  "pending_call run5 \<and> (\<exists>t. rtranclp (out_step False) run5 t \<and> \<not> pending_call t)"
proof -
  have "AStop (str ''talk'') True \<in># ou_actors run5" by code_simp
  then have "pending_call run5" by (force simp: pending_call_def)
  then show ?thesis using every_call_returns [OF reach5] by blast
qed

theorem dropped_routes_stay_dropped_witness:
  "map_of (lv_routes (ou_live ((become (AForget (str ''talk'')) [] run7)\<lparr>ou_live := forgetRoutes (str ''talk'') (ou_live run7)\<rparr>))) demo_push = None"
proof -
  have "ou_held run6 = HReset (str ''talk'') [] True" by code_simp
  then have 7: "out_reach run7" unfolding run7_def by (rule reach_step [OF reach6 out_step.resets])
  have "AForget (str ''talk'') \<in># ou_actors run7" "map_of (lv_gates (ou_live run7)) (str ''talk'') = None"
    "jid_kind demo_push = kindPush" "slug_of demo_push = str ''talk''" by code_simp+
  then show ?thesis using dropped_routes_stay_dropped [OF 7 _ _ rtranclp.rtrancl_refl] by blast
qed

section \<open>What the shared counters do not promise\<close>

text \<open>A push that precedes its session's first pair loses its intent when another session is dropped meanwhile.\<close>

lemma early_push_lost_to_another_drop:
  "rememberPush demo_push [] False (lv_teardowns live_start) (forgetRoutes (str ''other'') live_start) =
     (Inr Dropped, forgetRoutes (str ''other'') live_start)"
  by code_simp

text \<open>The bound is checked and not reserved: with seven routes, a launch past its first window and a push that
  is not ready are both admitted, and the pair has nine targets.\<close>

definition seven_routes :: liveState where
  "seven_routes = snd (createPair demo_pair \<lparr>rg_template = 0, rg_pacing = \<lparr>fc_quantum = 0, fc_samples = 0\<rparr>\<rparr>
     (live_start\<lparr>lv_routes := map (\<lambda>n. (demo_push\<lparr>jid_target := [n]\<rparr>, [])) [1, 2, 3, 4, 5, 6, 7]\<rparr>))"

lemma push_bound_exceeded:
  "case beginStart (demo_push\<lparr>jid_target := [8]\<rparr>) jobMixFed seven_routes of
     Inl _ \<Rightarrow> False
   | Inr (_, l1) \<Rightarrow>
       (case rememberPush (demo_push\<lparr>jid_target := [9]\<rparr>) [] False 0 l1 of
          (r, l2) \<Rightarrow> r = Inr (Recorded 8) \<and>
            (case registerJobLocked (demo_push\<lparr>jid_target := [8]\<rparr>) jobMixFed l2 of
               (_, l3) \<Rightarrow> length (remdups (filter (is_push demo_pair) (map fst (lv_jobs l3) @ map fst (lv_routes l3)))) = 9))"
  by code_simp


end
