(* ===== verification/Feeder.thy ===== *)
theory Feeder
  imports Outputs Mixer VoiceQueue
begin

text \<open>
  \<^verbatim>\<open>internal/media/egress/audio/feed.go\<close>, \<^verbatim>\<open>device.go\<close> and the encoder job of \<^verbatim>\<open>audio.go\<close>: the paced feed from a
  cursor into a sink, the watcher that reopens a reconfigured device, the guard that severs a stalled one,
  and the loop that recovers a sink. The feed is proved against \<open>playout_cursor\<close>, so for the mixer and the voice
  queue alike. What a loop meets in each turn (a tick, a cancellation, the sink's reply, the state of the
  pair) is a list, so a loop that has not returned yet is a run whose list is used up (\<open>None\<close>).
\<close>

section \<open>The paced feed\<close>

datatype sinkKind = sinkEncoder | sinkDevice

definition fillsIdleTicks :: "sinkKind \<Rightarrow> bool" where
  "fillsIdleTicks k = (k = sinkDevice)"

datatype feed_error = FeedWrite | FeedShort | FeedClose | DeviceReconfigured

text \<open>What \<open>Write\<close> answers: whether it failed, and how many bytes it took.\<close>

type_synonym sink_reply = "bool \<times> int"

text \<open>The quanta handed to \<open>Write\<close> and the bytes the sink took of them.\<close>

record 's feed =
  fd_cursor :: 's
  fd_encoded :: bslice
  fd_writes :: "byte list list"
  fd_taken :: "byte list"
  fd_seen :: "PCM list"

definition feed_start :: "nat \<Rightarrow> 's \<Rightarrow> 's feed" where
  "feed_start n s = \<lparr>fd_cursor = s, fd_encoded = \<lparr>sdata = [], spare = replicate (2 * n) 0\<rparr>, fd_writes = [], fd_taken = [], fd_seen = []\<rparr>"

text \<open>The windows reported to the observers are returned beside the error.\<close>

definition feed_write :: "sink_reply \<Rightarrow> byte list \<Rightarrow> PCM \<Rightarrow> PullStatus \<Rightarrow> feed_error option \<times> PCM list" where
  "feed_write reply payload pcm status =
     (if fst reply then (Some FeedWrite, [])
      else if snd reply \<noteq> int (length payload) then (Some FeedShort, [])
      else if status \<noteq> PullReady then (None, [])
      else (None, [pcm]))"

text \<open>One tick of \<open>pace\<close>; \<open>Some\<close> of its result when it returns.\<close>

definition pace_tick ::
  "(nat \<Rightarrow> 's \<Rightarrow> PCM \<times> PullStatus \<times> 's) \<Rightarrow> sinkKind \<Rightarrow> nat \<Rightarrow> sink_reply \<Rightarrow> 's feed \<Rightarrow> feed_error option option \<times> 's feed" where
  "pace_tick next_into sink n reply f =
     (case next_into n (fd_cursor f) of (pcm, status, s) \<Rightarrow>
        let f1 = f\<lparr>fd_cursor := s\<rparr> in
        if status = PullEOF then (Some None, f1)
        else
          let encoded = (if status = PullReady
                then AppendS16LE \<lparr>sdata = [], spare = sdata (fd_encoded f1) @ spare (fd_encoded f1)\<rparr> (Data pcm)
                else fd_encoded f1);
              payload = (if status = PullReady then sdata encoded else replicate (2 * n) 0);
              f2 = f1\<lparr>fd_encoded := encoded\<rparr>
          in if \<not> (fillsIdleTicks sink \<or> status = PullReady) then (None, f2)
             else (case feed_write reply payload pcm status of (err, seen) \<Rightarrow>
               (map_option Some err, f2\<lparr>fd_writes := fd_writes f2 @ [payload],
                 fd_taken := fd_taken f2 @ take (nat (snd reply)) payload, fd_seen := fd_seen f2 @ seen\<rparr>)))"

text \<open>What the select of \<open>pace\<close> delivers; between two ticks the cursor's environment moves.\<close>

datatype 's feed_event = CtxDone | Moves 's | Ticks sink_reply

fun pace ::
  "(nat \<Rightarrow> 's \<Rightarrow> PCM \<times> PullStatus \<times> 's) \<Rightarrow> sinkKind \<Rightarrow> nat \<Rightarrow> 's feed_event list \<Rightarrow> 's feed \<Rightarrow> feed_error option option \<times> 's feed" where
  "pace next_into sink n [] f = (None, f)"
| "pace next_into sink n (CtxDone # es) f = (Some None, f)"
| "pace next_into sink n (Moves s # es) f = pace next_into sink n es (f\<lparr>fd_cursor := s\<rparr>)"
| "pace next_into sink n (Ticks reply # es) f =
     (case pace_tick next_into sink n reply f of
        (None, f') \<Rightarrow> pace next_into sink n es f'
      | (Some r, f') \<Rightarrow> (Some r, f'))"

text \<open>The sink is closed once, whoever closes it; a failure to close is the feed's error if it has no other.\<close>

definition feed_ticks ::
  "(nat \<Rightarrow> 's \<Rightarrow> PCM \<times> PullStatus \<times> 's) \<Rightarrow> sinkKind \<Rightarrow> nat \<Rightarrow> bool \<Rightarrow> 's feed_event list \<Rightarrow> 's \<Rightarrow> feed_error option option \<times> 's feed" where
  "feed_ticks next_into sink n closeFails es s =
     (case pace next_into sink n es (feed_start n s) of
        (None, f) \<Rightarrow> (None, f)
      | (Some err, f) \<Rightarrow> (Some (if closeFails \<and> err = None then Some FeedClose else err), f))"

section \<open>What a sink is written\<close>

fun pulls :: "nat \<Rightarrow> 's feed_event list \<Rightarrow> 's cursor_event list" where
  "pulls n [] = []"
| "pulls n (CtxDone # es) = pulls n es"
| "pulls n (Moves s # es) = Env s # pulls n es"
| "pulls n (Ticks reply # es) = Pull n # pulls n es"

text \<open>What a tick finds: \<open>None\<close> when no window is ready.\<close>

fun quanta :: "(nat \<Rightarrow> 's \<Rightarrow> PCM \<times> PullStatus \<times> 's) \<Rightarrow> nat \<Rightarrow> 's feed_event list \<Rightarrow> 's \<Rightarrow> PCM option list" where
  "quanta next_into n [] s = []"
| "quanta next_into n (CtxDone # es) s = quanta next_into n es s"
| "quanta next_into n (Moves s' # es) s = quanta next_into n es s'"
| "quanta next_into n (Ticks reply # es) s =
     (case next_into n s of (p, st, s') \<Rightarrow> (if st = PullReady then Some p else None) # quanta next_into n es s')"

definition window_bytes :: "PCM \<Rightarrow> byte list" where
  "window_bytes p = encode_spec (Data p)"

text \<open>An encoder is written the ready windows alone, a device a quantum at every tick.\<close>

definition sink_bytes :: "sinkKind \<Rightarrow> nat \<Rightarrow> PCM option \<Rightarrow> byte list list" where
  "sink_bytes sink n x =
     (case x of Some p \<Rightarrow> [window_bytes p] | None \<Rightarrow> if fillsIdleTicks sink then [replicate (2 * n) 0] else [])"

definition heard :: "PCM option list \<Rightarrow> PCM list" where
  "heard qs = map the (filter (\<lambda>x. x \<noteq> None) qs)"

lemma heard_simps [simp]: "heard [] = []" "heard (None # qs) = heard qs" "heard (Some p # qs) = p # heard qs"
  by (simp_all add: heard_def)

lemma encoder_bytes: "concat (map (sink_bytes sinkEncoder n) qs) = map window_bytes (heard qs)"
  by (induction qs) (auto simp: sink_bytes_def fillsIdleTicks_def heard_def split: option.splits)

lemma device_bytes: "length (concat (map (sink_bytes sinkDevice n) qs)) = length qs"
  by (induction qs) (auto simp: sink_bytes_def fillsIdleTicks_def split: option.splits)

lemma pace_tick_running:
  assumes "pace_tick next_into sink n reply f = (None, f')" "next_into n (fd_cursor f) = (p, st, s')"
  shows "st \<noteq> PullEOF" "fd_cursor f' = s'"
    "fd_writes f' = fd_writes f @ sink_bytes sink n (if st = PullReady then Some p else None)"
    "fd_taken f' = fd_taken f @ concat (sink_bytes sink n (if st = PullReady then Some p else None))"
    "fd_seen f' = fd_seen f @ (if st = PullReady then [p] else [])"
  using assms
  by (auto simp: pace_tick_def feed_write_def sink_bytes_def window_bytes_def AppendS16LE_data Let_def split: if_splits)

text \<open>While the feed runs, it has written what its ticks found, and its observers have seen the windows.\<close>

lemma pace_running:
  "pace next_into sink n es f = (None, f') \<Longrightarrow>
    fd_writes f' = fd_writes f @ concat (map (sink_bytes sink n) (quanta next_into n es (fd_cursor f))) \<and>
    fd_taken f' = fd_taken f @ concat (concat (map (sink_bytes sink n) (quanta next_into n es (fd_cursor f)))) \<and>
    fd_seen f' = fd_seen f @ heard (quanta next_into n es (fd_cursor f))"
proof (induction es arbitrary: f)
  case (Cons e es)
  show ?case
  proof (cases e)
    case (Ticks reply)
    obtain f1 where f1: "pace_tick next_into sink n reply f = (None, f1)" and rest: "pace next_into sink n es f1 = (None, f')"
      using Cons.prems Ticks by (auto split: prod.splits option.splits)
    obtain p st s' where nx: "next_into n (fd_cursor f) = (p, st, s')" by (cases "next_into n (fd_cursor f)")
    show ?thesis using pace_tick_running [OF f1 nx] Cons.IH [OF rest] by (simp add: Ticks nx)
  qed (use Cons in auto)
qed simp

text \<open>A feed that returned stopped at a cancellation, at the end, or at a write the sink did not take whole.\<close>

lemma pace_returned:
  "pace next_into sink n es f = (Some r, f') \<Longrightarrow>
    \<exists>es1 e es2 f1. es = es1 @ e # es2 \<and> pace next_into sink n es1 f = (None, f1) \<and>
      (e = CtxDone \<and> r = None \<and> f' = f1 \<or> (\<exists>reply. e = Ticks reply \<and> pace_tick next_into sink n reply f1 = (Some r, f')))"
proof (induction es arbitrary: f)
  case (Cons e es)
  have step: "\<exists>es1 e' es2 f1. e # es = es1 @ e' # es2 \<and> pace next_into sink n es1 f = (None, f1) \<and>
      (e' = CtxDone \<and> r = None \<and> f' = f1 \<or> (\<exists>reply. e' = Ticks reply \<and> pace_tick next_into sink n reply f1 = (Some r, f')))"
    if run: "\<And>xs. pace next_into sink n (e # xs) f = pace next_into sink n xs g" for g
  proof -
    have "pace next_into sink n es g = (Some r, f')" using Cons.prems run by simp
    from Cons.IH [OF this] obtain es1 e' es2 f1 where w: "es = es1 @ e' # es2" "pace next_into sink n es1 g = (None, f1)"
      "e' = CtxDone \<and> r = None \<and> f' = f1 \<or> (\<exists>reply. e' = Ticks reply \<and> pace_tick next_into sink n reply f1 = (Some r, f'))"
      by blast
    then have "e # es = (e # es1) @ e' # es2" "pace next_into sink n (e # es1) f = (None, f1)" by (simp_all add: run)
    then show ?thesis using w(3) by blast
  qed
  show ?case
  proof (cases e)
    case CtxDone
    then have "e # es = [] @ e # es \<and> pace next_into sink n [] f = (None, f) \<and> (e = CtxDone \<and> r = None \<and> f' = f)"
      using Cons.prems by simp
    then show ?thesis by blast
  next
    case (Moves s)
    then show ?thesis using step [of "f\<lparr>fd_cursor := s\<rparr>"] by simp
  next
    case (Ticks reply)
    obtain x g where g: "pace_tick next_into sink n reply f = (x, g)" by fastforce
    show ?thesis
    proof (cases x)
      case None
      then show ?thesis using step [of g] g Ticks by simp
    next
      case (Some y)
      then have "e # es = [] @ e # es \<and> pace next_into sink n [] f = (None, f) \<and> pace_tick next_into sink n reply f = (Some r, f')"
        using Cons.prems g Ticks by simp
      then show ?thesis using Ticks by blast
    qed
  qed
qed simp

context playout_cursor
begin

lemma heard_windows: "heard (quanta next_into n es s) = ready_windows s (pulls n es)"
  by (induction es arbitrary: s rule: pulls.induct) (auto split: prod.splits)

lemma ready_quanta: "x \<in> set (quanta next_into n es s) \<Longrightarrow> x = Some p \<Longrightarrow> p \<in> set (ready_windows s (pulls n es))"
  unfolding heard_windows [symmetric] by (force simp: heard_def)

lemma pulled_width: "Pull k \<in> set (pulls n es) \<Longrightarrow> k = n"
  by (induction n es rule: pulls.induct) auto

text \<open>A running feed: the sink holds what the ticks found, quantum by quantum, and the observers saw the
  cursor's windows with timestamps that never fall.\<close>

lemma feed_running:
  assumes "inv s" "legal s (pulls n es)" "pace next_into sink n es (feed_start n s) = (None, f)"
  shows "fd_writes f = concat (map (sink_bytes sink n) (quanta next_into n es s))"
    "fd_seen f = ready_windows s (pulls n es)" "sorted (map PTS (fd_seen f))"
    "\<forall>b \<in> set (fd_writes f). length b = 2 * n"
    "sink = sinkEncoder \<Longrightarrow> fd_writes f = map window_bytes (fd_seen f)"
    "sink = sinkDevice \<Longrightarrow> length (fd_writes f) = length (quanta next_into n es s)"
    "fd_taken f = concat (fd_writes f)"
proof -
  note run = pace_running [OF assms(3), unfolded feed_start_def, simplified]
  show w: "fd_writes f = concat (map (sink_bytes sink n) (quanta next_into n es s))" using run by simp
  show seen: "fd_seen f = ready_windows s (pulls n es)" using run by (simp add: heard_windows)
  show "sorted (map PTS (fd_seen f))" unfolding seen by (rule pts_never_decreases [OF assms(1,2)])
  have "length (Data p) = n" if "Some p \<in> set (quanta next_into n es s)" for p
    using windows_full [OF assms(1,2), of n p] pulled_width ready_quanta [OF that refl] by blast
  then show "\<forall>b \<in> set (fd_writes f). length b = 2 * n"
    unfolding w by (fastforce simp: sink_bytes_def window_bytes_def split: option.splits if_splits)
  show "fd_writes f = map window_bytes (fd_seen f)" if "sink = sinkEncoder"
    by (simp add: w seen heard_windows [symmetric] that encoder_bytes)
  show "length (fd_writes f) = length (quanta next_into n es s)" if "sink = sinkDevice"
    by (simp add: w that device_bytes)
  show "fd_taken f = concat (fd_writes f)" using run by (simp add: w)
qed

end

section \<open>Watching a device\<close>

definition deviceWatchInterval :: "duration \<Rightarrow> duration" where
  "deviceWatchInterval watch = (if watch > 0 then watch else 2 * second)"

text \<open>Whether the watcher cancels the feed, for the fingerprints its ticks read (\<open>None\<close>: the target does not
  resolve).\<close>

fun watchDeviceConfig :: "gostr option \<Rightarrow> gostr option list \<Rightarrow> bool" where
  "watchDeviceConfig base [] = False"
| "watchDeviceConfig base (None # stamps) = watchDeviceConfig base stamps"
| "watchDeviceConfig None (Some current # stamps) = watchDeviceConfig (Some current) stamps"
| "watchDeviceConfig (Some b) (Some current # stamps) = (current \<noteq> b \<or> watchDeviceConfig (Some b) stamps)"

text \<open>\<open>stamps\<close> is what \<open>configStamp\<close> answers: first to the feed, then to the watcher until the feed returned;
  \<open>canceled\<close> says that the job's own context is done.\<close>

definition feedWatched ::
  "sinkKind \<Rightarrow> gostr \<Rightarrow> (gostr option \<times> gostr option list) option \<Rightarrow> bool \<Rightarrow> feed_error option \<Rightarrow> feed_error option" where
  "feedWatched sink target stamps canceled err =
     (case stamps of
        None \<Rightarrow> err
      | Some (base, later) \<Rightarrow>
          if sink \<noteq> sinkDevice \<or> base = None \<and> AudioLabel target = [] then err
          else if watchDeviceConfig base later \<and> \<not> canceled then Some DeviceReconfigured
          else err)"

section \<open>The stall guard\<close>

definition deviceWriteStallTimeout :: "duration \<Rightarrow> duration" where
  "deviceWriteStallTimeout stall = (if stall > 0 then stall else 3 * second)"

text \<open>\<open>sg_closes\<close> counts the calls of the sink's own \<open>Close\<close>; \<open>writeStart\<close> is 0 when no write is in flight.\<close>

record stallGuard =
  sg_timeout :: duration
  sg_writeStart :: int
  sg_done :: bool
  sg_closes :: nat

definition newStallGuard :: "duration \<Rightarrow> stallGuard" where
  "newStallGuard timeout = \<lparr>sg_timeout = timeout, sg_writeStart = 0, sg_done = False, sg_closes = 0\<rparr>"

definition write_begins :: "int \<Rightarrow> stallGuard \<Rightarrow> stallGuard" where
  "write_begins now g = g\<lparr>sg_writeStart := now\<rparr>"

definition write_ends :: "stallGuard \<Rightarrow> stallGuard" where
  "write_ends g = g\<lparr>sg_writeStart := 0\<rparr>"

text \<open>\<open>sever\<close> behind its \<open>OnceValue\<close>.\<close>

definition guard_close :: "stallGuard \<Rightarrow> stallGuard" where
  "guard_close g = (if sg_done g then g else g\<lparr>sg_done := True, sg_closes := sg_closes g + 1\<rparr>)"

definition guard_tick :: "int \<Rightarrow> stallGuard \<Rightarrow> stallGuard" where
  "guard_tick now g =
     (if \<not> sg_done g \<and> sg_writeStart g \<noteq> 0 \<and> now - sg_writeStart g > sg_timeout g then guard_close g else g)"

text \<open>The ticks the watcher sees while one write is in flight: every half timeout from \<open>t\<close> on.\<close>

fun guard_watch :: "nat \<Rightarrow> int \<Rightarrow> stallGuard \<Rightarrow> stallGuard" where
  "guard_watch 0 t g = g"
| "guard_watch (Suc k) t g = guard_watch k (t + go_div (sg_timeout g) 2) (guard_tick t g)"

lemma guard_tick_timeout [simp]: "sg_timeout (guard_tick t g) = sg_timeout g" "sg_writeStart (guard_tick t g) = sg_writeStart g"
  by (simp_all add: guard_tick_def guard_close_def)

lemma guard_tick_done [simp]: "sg_done (guard_tick t g) \<longleftrightarrow> sg_done g \<or> (sg_writeStart g \<noteq> 0 \<and> t - sg_writeStart g > sg_timeout g)"
  by (simp add: guard_tick_def guard_close_def)

lemma guard_watch_done:
  "sg_done (guard_watch k t g) \<longleftrightarrow>
    sg_done g \<or> (\<exists>i < k. sg_writeStart g \<noteq> 0 \<and> t + int i * go_div (sg_timeout g) 2 - sg_writeStart g > sg_timeout g)"
proof (induction k arbitrary: t g)
  case (Suc k)
  let ?P = "\<lambda>i. sg_writeStart g \<noteq> 0 \<and> t + int i * go_div (sg_timeout g) 2 - sg_writeStart g > sg_timeout g"
  have "(\<exists>i < Suc k. ?P i) \<longleftrightarrow> ?P 0 \<or> (\<exists>i < k. ?P (Suc i))" by (auto simp: less_Suc_eq_0_disj)
  then show ?case by (simp add: Suc algebra_simps)
qed simp

lemma guard_tick_closes: "sg_closes g = (if sg_done g then 1 else 0) \<Longrightarrow> sg_closes (guard_tick t g) = (if sg_done (guard_tick t g) then 1 else 0)"
  by (simp add: guard_tick_def guard_close_def)

lemma guard_watch_closes: "sg_closes g = (if sg_done g then 1 else 0) \<Longrightarrow> sg_closes (guard_watch k t g) = (if sg_done (guard_watch k t g) then 1 else 0)"
  by (induction k arbitrary: t g) (simp_all add: guard_tick_closes del: guard_tick_done)

section \<open>Reopening a device\<close>

definition defaultDeviceReopenBackoff :: "duration list" where
  "defaultDeviceReopenBackoff = [250 * millisecond, 500 * millisecond, second, 2 * second, 5 * second]"

definition deviceReopenBackoff :: "duration \<Rightarrow> duration list" where
  "deviceReopenBackoff retry = (if retry > 0 then [retry] else defaultDeviceReopenBackoff)"

text \<open>\<open>Failed\<close> and \<open>Done\<close> end the job; \<open>Resume\<close> carries the next writer.\<close>

datatype 'w encoderVerdict = encoderResume 'w | encoderDone | encoderFailed

text \<open>One attempt: what the pair's entry says, whether the sink starts, and whether the pause after a failure
  ran to its end rather than into the job's cancellation.\<close>

record 'w attempt =
  at_state :: pairState
  at_start :: "'w option"
  at_paused :: bool

text \<open>The pauses it asks for, and its verdict once it has one.\<close>

fun reopen_attempts :: "duration list \<Rightarrow> nat \<Rightarrow> 'w attempt list \<Rightarrow> duration list \<times> 'w encoderVerdict option" where
  "reopen_attempts backoff n [] = ([], None)"
| "reopen_attempts backoff n (a # as) =
     (if at_state a = pairGone then ([], Some encoderDone)
      else case at_start a of
        Some w \<Rightarrow> ([], Some (encoderResume w))
      | None \<Rightarrow>
          let pause = backoff ! (min n (length backoff) - 1) in
          if \<not> at_paused a then ([pause], Some encoderDone)
          else (case reopen_attempts backoff (Suc n) as of (ps, v) \<Rightarrow> (pause # ps, v)))"

definition reopenDeviceSink ::
  "duration \<Rightarrow> feed_error option \<Rightarrow> bool \<Rightarrow> 'w attempt list \<Rightarrow> duration list \<times> 'w encoderVerdict option" where
  "reopenDeviceSink retry feedErr paused as =
     (let backoff = deviceReopenBackoff retry in
      if feedErr \<noteq> None \<and> feedErr \<noteq> Some DeviceReconfigured
      then if \<not> paused then ([backoff ! 0], Some encoderDone)
           else (case reopen_attempts backoff 1 as of (ps, v) \<Rightarrow> (backoff ! 0 # ps, v))
      else reopen_attempts backoff 1 as)"

text \<open>The pause after the \<open>k\<close>-th failure is the \<open>k\<close>-th step of the schedule, the last step repeating.\<close>

lemma reopen_pauses:
  "1 \<le> n \<Longrightarrow> k < length (fst (reopen_attempts backoff n as)) \<Longrightarrow>
    fst (reopen_attempts backoff n as) ! k = backoff ! (min (n + k) (length backoff) - 1)"
proof (induction as arbitrary: n k)
  case (Cons a as)
  show ?case
  proof (cases "at_state a = pairGone \<or> at_start a \<noteq> None \<or> \<not> at_paused a")
    case True
    then show ?thesis using Cons.prems by (auto simp: Let_def split: option.splits if_splits)
  next
    case False
    obtain ps v where r: "reopen_attempts backoff (Suc n) as = (ps, v)" by fastforce
    have run: "fst (reopen_attempts backoff n (a # as)) = backoff ! (min n (length backoff) - 1) # ps"
      using False by (auto simp: Let_def r)
    show ?thesis
    proof (cases k)
      case (Suc j)
      then show ?thesis using Cons.IH [of "Suc n" j] Cons.prems(2) r unfolding run by simp
    next
      case 0
      then show ?thesis unfolding run by simp
    qed
  qed
qed simp

lemma reopen_pause_bound:
  assumes "p \<in> set (fst (reopenDeviceSink retry err paused as))"
  shows "p \<in> set (deviceReopenBackoff retry)"
proof -
  let ?b = "deviceReopenBackoff retry"
  have ne: "0 < length ?b" by (simp add: deviceReopenBackoff_def defaultDeviceReopenBackoff_def)
  have "q \<in> set ?b" if mem: "q \<in> set (fst (reopen_attempts ?b 1 as))" for q
  proof -
    obtain k where k: "k < length (fst (reopen_attempts ?b 1 as))" "q = fst (reopen_attempts ?b 1 as) ! k"
      using mem unfolding in_set_conv_nth by blast
    have q: "q = ?b ! (min (1 + k) (length ?b) - 1)" by (rule trans [OF k(2) reopen_pauses [OF order_refl k(1)]])
    have "min (1 + k) (length ?b) - 1 < length ?b" using ne by linarith
    then show ?thesis unfolding q by (rule nth_mem)
  qed
  note sub = this
  obtain ps v where r: "reopen_attempts ?b 1 as = (ps, v)" by fastforce
  have "?b ! 0 \<in> set ?b" using ne by (rule nth_mem)
  then show ?thesis using assms sub r by (auto simp: reopenDeviceSink_def Let_def split: if_splits)
qed

section \<open>Recovering an encoder\<close>

record binding =
  bn_template :: nat
  bn_pacing :: feedConfig

text \<open>What the job does to the cursors of the templates: \<open>BeginPlayout\<close> accepted, \<open>ReleasePlayout\<close>.\<close>

datatype hold = Taken nat | Given nat

text \<open>One poll: what the pair's entry says, whether the fresh cursor is accepted, and whether the tick comes
  before the cancellation.\<close>

type_synonym poll = "pairState \<times> bool \<times> bool"

fun reattachEncoder :: "binding \<Rightarrow> poll list \<Rightarrow> hold list \<times> binding \<times> bool option" where
  "reattachEncoder b [] = ([], b, None)"
| "reattachEncoder b ((pairGone, accepts, ticks) # ps) = ([], b, Some False)"
| "reattachEncoder b ((pairBusy, accepts, ticks) # ps) = (if ticks then reattachEncoder b ps else ([], b, Some False))"
| "reattachEncoder b ((pairCurrent nx, accepts, ticks) # ps) =
     (if rg_template nx \<noteq> bn_template b
      then if accepts
        then ([Taken (rg_template nx), Given (bn_template b)], \<lparr>bn_template = rg_template nx, bn_pacing = rg_pacing nx\<rparr>, Some True)
        else ([], b, Some False)
      else if ticks then reattachEncoder b ps else ([], b, Some False))"

text \<open>What a recovery meets: the job's context, the polls, the start of an encoder, the pause before the first
  reopening and the attempts.\<close>

record 'w recovery =
  rv_canceled :: bool
  rv_polls :: "poll list"
  rv_start :: "'w option"
  rv_paused :: bool
  rv_attempts :: "'w attempt list"

definition recoverEncoder ::
  "duration \<Rightarrow> sinkKind \<Rightarrow> feed_error option \<Rightarrow> 'w recovery \<Rightarrow> binding \<Rightarrow> hold list \<times> binding \<times> 'w encoderVerdict option" where
  "recoverEncoder retry sink feedErr v b =
     (if rv_canceled v then ([], b, Some encoderDone)
      else case feedErr of
        None \<Rightarrow>
          (case reattachEncoder b (rv_polls v) of
             (hs, b', None) \<Rightarrow> (hs, b', None)
           | (hs, b', Some False) \<Rightarrow> (hs, b', Some encoderDone)
           | (hs, b', Some True) \<Rightarrow>
               if sink = sinkDevice then (hs, b', snd (reopenDeviceSink retry None (rv_paused v) (rv_attempts v)))
               else (hs, b', Some (case rv_start v of None \<Rightarrow> encoderFailed | Some w \<Rightarrow> encoderResume w)))
      | Some _ \<Rightarrow>
          if sink = sinkDevice then ([], b, snd (reopenDeviceSink retry feedErr (rv_paused v) (rv_attempts v)))
          else ([], b, Some encoderFailed))"

text \<open>One round of \<open>runEncoderJob\<close>: the state its cursor is in, what the feed and its watcher meet, whether the
  sink fails to close, and the recovery.\<close>

record ('s, 'w) round =
  rd_cursor :: 's
  rd_events :: "'s feed_event list"
  rd_stamps :: "(gostr option \<times> gostr option list) option"
  rd_closeFails :: bool
  rd_recovery :: "'w recovery"

text \<open>What the job did to the cursors, the writers it fed with what they were written, and its end. The deferred
  release gives back the cursor of the last binding.\<close>

fun runEncoderJob ::
  "(nat \<Rightarrow> nat \<Rightarrow> 's \<Rightarrow> PCM \<times> PullStatus \<times> 's) \<Rightarrow> duration \<Rightarrow> gostr \<Rightarrow> sinkKind \<Rightarrow> 'w \<Rightarrow> binding \<Rightarrow> ('s, 'w) round list \<Rightarrow>
    hold list \<times> ('w \<times> byte list list) list \<times> 'w encoderVerdict option" where
  "runEncoderJob cursors retry target sink w b [] = ([], [], None)"
| "runEncoderJob cursors retry target sink w b (r # rs) =
     (case feed_ticks (cursors (bn_template b)) sink (nat (fc_samples (bn_pacing b))) (rd_closeFails r) (rd_events r) (rd_cursor r) of
        (None, f) \<Rightarrow> ([], [(w, fd_writes f)], None)
      | (Some err, f) \<Rightarrow>
          (case recoverEncoder retry sink (feedWatched sink target (rd_stamps r) (rv_canceled (rd_recovery r)) err) (rd_recovery r) b of
             (hs, b', Some (encoderResume w')) \<Rightarrow>
               (case runEncoderJob cursors retry target sink w' b' rs of
                  (hs', fed, end) \<Rightarrow> (hs @ hs', (w, fd_writes f) # fed, end))
           | (hs, b', Some v) \<Rightarrow> (hs @ [Given (bn_template b')], [(w, fd_writes f)], Some v)
           | (hs, b', None) \<Rightarrow> (hs, [(w, fd_writes f)], None)))"

section \<open>Laws of the feed\<close>

lemma pace_tick_returned:
  assumes "pace_tick next_into sink n reply f = (Some r, f')"
  shows "fd_seen f' = fd_seen f" "r = None \<Longrightarrow> fd_writes f' = fd_writes f"
    "r = None \<Longrightarrow> fd_taken f' = fd_taken f"
    "r \<noteq> None \<Longrightarrow> \<exists>b k. fd_writes f' = fd_writes f @ [b] \<and> fd_taken f' = fd_taken f @ take k b"
  using assms by (auto simp: pace_tick_def feed_write_def Let_def split: prod.splits if_splits)

text \<open>The run of a feed up to where it returned: the events it took part in and the quantum the sink refused.\<close>

lemma feed_run:
  assumes "pace next_into sink n es f = (r, f')"
  obtains es1 es2 f1 refused where "es = es1 @ es2" "pace next_into sink n es1 f = (None, f1)" "fd_seen f' = fd_seen f1"
    "fd_writes f' = fd_writes f1 @ refused" "\<exists>k. fd_taken f' = fd_taken f1 @ take k (concat refused)" "refused = [] \<longleftrightarrow> r = None \<or> r = Some None" "length refused \<le> 1" "r = None \<Longrightarrow> es2 = []"
proof (cases r)
  case None
  then show ?thesis using that [of es "[]" f' "[]"] assms by simp
next
  case (Some x)
  from pace_returned [OF assms [unfolded Some]] obtain es1 e es2 f1 where w: "es = es1 @ e # es2"
    "pace next_into sink n es1 f = (None, f1)"
    "e = CtxDone \<and> x = None \<and> f' = f1 \<or> (\<exists>reply. e = Ticks reply \<and> pace_tick next_into sink n reply f1 = (Some x, f'))"
    by blast
  from w(3) show ?thesis
  proof
    assume "e = CtxDone \<and> x = None \<and> f' = f1"
    then show ?thesis using that [of es1 "e # es2" f1 "[]"] w(1,2) Some by simp
  next
    assume "\<exists>reply. e = Ticks reply \<and> pace_tick next_into sink n reply f1 = (Some x, f')"
    then obtain reply where t: "pace_tick next_into sink n reply f1 = (Some x, f')" by blast
    note k = pace_tick_returned [OF t]
    show ?thesis
    proof (cases x)
      case None
      then show ?thesis using that [of es1 "e # es2" f1 "[]"] w(1,2) Some k by simp
    next
      case (Some err)
      then obtain b k where "fd_writes f' = fd_writes f1 @ [b]" "fd_taken f' = fd_taken f1 @ take k b" using k(4) by blast
      then show ?thesis using that [of es1 "e # es2" f1 "[b]"] w(1,2) \<open>r = Some x\<close> Some k by simp
    qed
  qed
qed

context playout_cursor
begin

lemma legal_append: "legal s (xs @ ys) \<Longrightarrow> legal s xs"
  by (induction s xs rule: legal.induct) auto

lemma pulls_append: "pulls n (xs @ ys) = pulls n xs @ pulls n ys"
  by (induction n xs rule: pulls.induct) auto

lemma feed_delivers:
  assumes "inv s" "legal s (pulls n es)" "pace next_into sink n es (feed_start n s) = (r, f)"
  shows "\<exists>es1 es2 refused. es = es1 @ es2 \<and> (r = None \<longrightarrow> es2 = []) \<and>
    fd_seen f = ready_windows s (pulls n es1) \<and> sorted (map PTS (fd_seen f)) \<and>
    fd_writes f = concat (map (sink_bytes sink n) (quanta next_into n es1 s)) @ refused \<and>
    (refused = [] \<longleftrightarrow> r = None \<or> r = Some None) \<and> length refused \<le> 1 \<and>
    (\<exists>k. fd_taken f = concat (concat (map (sink_bytes sink n) (quanta next_into n es1 s))) @ take k (concat refused)) \<and>
    (sink = sinkEncoder \<longrightarrow> fd_writes f = map window_bytes (fd_seen f) @ refused) \<and>
    (sink = sinkDevice \<longrightarrow> length (fd_writes f) = length (quanta next_into n es1 s) + length refused)"
proof -
  from feed_run [OF assms(3)] obtain es1 es2 f1 refused where w: "es = es1 @ es2"
    "pace next_into sink n es1 (feed_start n s) = (None, f1)" "fd_seen f = fd_seen f1" "fd_writes f = fd_writes f1 @ refused"
    "\<exists>k. fd_taken f = fd_taken f1 @ take k (concat refused)" "refused = [] \<longleftrightarrow> r = None \<or> r = Some None" "length refused \<le> 1" "r = None \<Longrightarrow> es2 = []" by blast
  have "legal s (pulls n es1)" using assms(2) legal_append by (simp add: w(1) pulls_append)
  from feed_running [OF assms(1) this w(2)] w show ?thesis
    by (intro exI [of _ es1] exI [of _ es2] exI [of _ refused]) auto
qed

end

section \<open>The job's cursors\<close>

text \<open>Releasing a cursor that is not held is \<open>None\<close>.\<close>

fun held_after :: "nat multiset \<Rightarrow> hold list \<Rightarrow> nat multiset option" where
  "held_after M [] = Some M"
| "held_after M (Taken t # hs) = held_after (add_mset t M) hs"
| "held_after M (Given t # hs) = (if t \<in># M then held_after (M - {#t#}) hs else None)"

lemma held_after_append: "held_after M (xs @ ys) = (case held_after M xs of None \<Rightarrow> None | Some M' \<Rightarrow> held_after M' ys)"
  by (induction M xs rule: held_after.induct) auto

lemma reattach_held: "reattachEncoder b ps = (hs, b', r) \<Longrightarrow> held_after {#bn_template b#} hs = Some {#bn_template b'#}"
  by (induction b ps rule: reattachEncoder.induct) (auto split: if_splits)

lemma recover_held: "recoverEncoder retry sink err v b = (hs, b', r) \<Longrightarrow> held_after {#bn_template b#} hs = Some {#bn_template b'#}"
  using reattach_held [of b "rv_polls v"]
  by (auto simp: recoverEncoder_def split: if_splits option.splits prod.splits bool.splits)

text \<open>What the job still holds: nothing once it has ended.\<close>

lemma job_held:
  "runEncoderJob cursors retry target sink w b rs = (hs, fed, end) \<Longrightarrow>
    \<exists>t. held_after {#bn_template b#} hs = Some (if end = None then {#t#} else {#})"
proof (induction rs arbitrary: w b hs fed "end")
  case (Cons r rs)
  obtain res f where f: "feed_ticks (cursors (bn_template b)) sink (nat (fc_samples (bn_pacing b))) (rd_closeFails r) (rd_events r) (rd_cursor r) = (res, f)"
    by fastforce
  show ?case
  proof (cases res)
    case None
    then show ?thesis using Cons.prems f by auto
  next
    case (Some err)
    obtain gs b1 v where rec: "recoverEncoder retry sink (feedWatched sink target (rd_stamps r) (rv_canceled (rd_recovery r)) err) (rd_recovery r) b = (gs, b1, v)"
      by (metis prod_cases3)
    note held = recover_held [OF rec]
    show ?thesis
    proof (cases "\<exists>w'. v = Some (encoderResume w')")
      case True
      then obtain w' hs' fed' where v: "v = Some (encoderResume w')" and job: "runEncoderJob cursors retry target sink w' b1 rs = (hs', fed', end)"
        and hs: "hs = gs @ hs'" using Cons.prems f rec Some by (auto split: prod.splits)
      from Cons.IH [OF job] show ?thesis by (simp add: hs held_after_append held)
    next
      case False
      then have "hs = gs @ [Given (bn_template b1)] \<and> end \<noteq> None \<or> hs = gs \<and> end = None"
        using Cons.prems f rec Some by (auto split: option.splits encoderVerdict.splits)
      then show ?thesis by (auto simp: held_after_append held)
    qed
  qed
qed simp

text \<open>Once the pair's entry is seen to be gone, the recovery ends the job, whatever it met before.\<close>

lemma gone_pair_ends_recovery:
  assumes "rv_polls v = replicate k (pairBusy, accepts, True) @ (pairGone, x, y) # ps" "\<not> rv_canceled v"
  shows "recoverEncoder retry sink None v b = ([], b, Some encoderDone)"
proof -
  have "reattachEncoder b (replicate k (pairBusy, accepts, True) @ (pairGone, x, y) # ps) = ([], b, Some False)"
    by (induction k) simp_all
  then show ?thesis using assms by (simp add: recoverEncoder_def)
qed

lemma gone_pair_ends_reopening:
  "list_all (\<lambda>a. at_state a \<noteq> pairGone \<and> at_start a = None \<and> at_paused a) as \<Longrightarrow> at_state a = pairGone \<Longrightarrow>
    snd (reopen_attempts backoff n (as @ a # more')) = Some encoderDone"
  by (induction as arbitrary: n) (auto simp: Let_def split: prod.splits, metis snd_conv)

section \<open>A request's stream\<close>

datatype stream_error = StreamStart | StreamFeed feed_error | StreamWrite

text \<open>How \<open>stream\<close> ends, for whether the encoder starts, the feed's error and whether the copy to the client
  fails; the deferred release gives its cursor back.\<close>

definition serve_end :: "bool \<Rightarrow> feed_error option \<Rightarrow> bool \<Rightarrow> nat \<Rightarrow> stream_error option \<times> hold list" where
  "serve_end starts feedErr copyFails t =
     ((if \<not> starts then Some StreamStart
       else if copyFails then Some StreamWrite
       else map_option StreamFeed feedErr),
      [Given t])"

text \<open>\<open>ServeTS\<close>: what it answers and the registry after it opened and closed its stream.\<close>

definition ServeTS :: "bool \<Rightarrow> pairID \<Rightarrow> liveState \<Rightarrow> templates \<Rightarrow> bool \<times> liveState" where
  "ServeTS hasSup pair s gs =
     (if \<not> hasSup then (False, s)
      else case openStream pair s gs of
        (None, s', _) \<Rightarrow> (False, s')
      | (Some (n, _, _), s', _) \<Rightarrow> (True, closeStream n s'))"

lemma stream_holds_nothing: "held_after {#t#} (snd (serve_end starts feedErr copyFails t)) = Some {#}"
  by (simp add: serve_end_def)

lemma served_stream_leaves_no_entry:
  "list_all (\<lambda>(n, _). n \<le> lv_nextOut s) (lv_streams s) \<Longrightarrow> lv_streams (snd (ServeTS hasSup pair s gs)) = lv_streams s"
proof -
  assume below: "list_all (\<lambda>(n, _). n \<le> lv_nextOut s) (lv_streams s)"
  have "AList.delete k (AList.update k v al) = al" if "list_all (\<lambda>(n, _). n < k) al" for k :: nat and v and al :: "(nat \<times> out_stream) list"
    using that by (induction al) auto
  moreover have "list_all (\<lambda>(n, _). n < Suc (lv_nextOut s)) (lv_streams s)" using below by (auto simp: list_all_iff)
  ultimately show ?thesis
    by (auto simp: ServeTS_def openStream_def closeStream_def Let_def split: option.split prod.split bool.split)
qed

section \<open>Properties\<close>

text \<open>C23: a sink is written exactly the mix: the encoder the windows the mixer's cursor had ready, in order and
  with timestamps that never fall, a device one quantum at every tick with silence where no window was ready.
  The sink took every byte of them; the observers see a window only once it did, and the feed stops at the first
  quantum the sink refuses.\<close>

theorem sink_hears_the_mix:
  assumes "playout_cursor.legal (mc_pull fl) mc_env s (pulls n es)" and "pace (mc_pull fl) sink n es (feed_start n s) = (r, f)"
  shows "\<exists>es1 es2 refused. es = es1 @ es2 \<and> (r = None \<longrightarrow> es2 = []) \<and>
    fd_seen f = playout_cursor.ready_windows (mc_pull fl) s (pulls n es1) \<and> sorted (map PTS (fd_seen f)) \<and>
    fd_writes f = concat (map (sink_bytes sink n) (quanta (mc_pull fl) n es1 s)) @ refused \<and>
    (refused = [] \<longleftrightarrow> r = None \<or> r = Some None) \<and> length refused \<le> 1 \<and>
    (\<exists>k. fd_taken f = concat (concat (map (sink_bytes sink n) (quanta (mc_pull fl) n es1 s))) @ take k (concat refused)) \<and>
    (sink = sinkEncoder \<longrightarrow> fd_writes f = map window_bytes (fd_seen f) @ refused) \<and>
    (sink = sinkDevice \<longrightarrow> length (fd_writes f) = length (quanta (mc_pull fl) n es1 s) + length refused)"
  using mixed.feed_delivers [OF TrueI assms] .

theorem sink_hears_the_mix_witness:
  "\<exists>r f. pace (mc_pull plain_floats) sinkDevice 2 [Ticks (False, 4), Ticks (False, 3), Ticks (False, 4)] (feed_start 2 (0, bed_and_voice)) = (r, f) \<and>
     r = Some (Some FeedShort) \<and> fd_seen f = [\<lparr>Data = [305, - 294], PTS = 0\<rparr>] \<and> length (fd_writes f) = 2 \<and>
     sorted (map PTS (fd_seen f))"
proof -
  let ?es = "[Ticks (False, 4), Ticks (False, 3), Ticks (False, 4)]"
  let ?p = "pace (mc_pull plain_floats) sinkDevice 2 ?es (feed_start 2 (0, bed_and_voice))"
  have "playout_cursor.legal (mc_pull plain_floats) mc_env (0, bed_and_voice) (pulls 2 ?es)" by (simp add: max_samples_def)
  from sink_hears_the_mix [OF this surjective_pairing] have "sorted (map PTS (fd_seen (snd ?p)))" by blast
  moreover have "fst ?p = Some (Some FeedShort)" "fd_seen (snd ?p) = [\<lparr>Data = [305, - 294], PTS = 0\<rparr>]"
    "length (fd_writes (snd ?p)) = 2" by code_simp+
  ultimately show ?thesis by (metis surjective_pairing)
qed

text \<open>The same for a call, whose template is the voice queue.\<close>

lemma sink_hears_the_voice:
  assumes "vq_pinv c q" "playout_cursor.legal (vc_NextInto c) (vq_env c) q (pulls n es)"
    and "pace (vc_NextInto c) sinkEncoder n es (feed_start n q) = (None, f)"
  shows "fd_writes f = map window_bytes (playout_cursor.ready_windows (vc_NextInto c) q (pulls n es))"
  using voice.feed_running(2,5) [OF assms] by simp

text \<open>An encoder job never releases a cursor it does not hold and never plays without one; when it ends, for
  whatever reason and after any number of rebuilt pairs and reopened sinks, it holds none.\<close>

lemma finished_job_holds_no_cursor:
  assumes "runEncoderJob cursors retry target sink w b rs = (hs, fed, end)"
  shows "\<exists>t. held_after {#bn_template b#} hs = Some (if end = None then {#t#} else {#})"
  using assms by (rule job_held)

definition ended_mix :: "mixer \<times> mixCursor" where
  "ended_mix = ((fst bed_and_voice)\<lparr>m_bed := NewTrack\<lparr>t_finished := True\<rparr>, m_voice := NewTrack\<lparr>t_finished := True\<rparr>\<rparr>, snd bed_and_voice)"

definition demo_rounds :: "(int \<times> mixer \<times> mixCursor, nat) round list" where
  "demo_rounds =
     [\<lparr>rd_cursor = (0, bed_and_voice), rd_events = [Ticks (False, 4), Moves (0, ended_mix), Ticks (False, 0)], rd_stamps = None, rd_closeFails = False,
       rd_recovery = \<lparr>rv_canceled = False, rv_polls = [(pairBusy, True, True),
           (pairCurrent \<lparr>rg_template = 8, rg_pacing = \<lparr>fc_quantum = 125000, fc_samples = 2\<rparr>\<rparr>, True, True)],
         rv_start = Some 1, rv_paused = True, rv_attempts = []\<rparr>\<rparr>,
      \<lparr>rd_cursor = (0, bed_and_voice), rd_events = [Ticks (True, 0)], rd_stamps = None, rd_closeFails = False,
       rd_recovery = \<lparr>rv_canceled = False, rv_polls = [], rv_start = None, rv_paused = True, rv_attempts = []\<rparr>\<rparr>]"

lemma finished_job_holds_no_cursor_witness:
  "\<exists>hs fed. runEncoderJob (\<lambda>_. mc_pull plain_floats) 0 [] sinkEncoder 0 \<lparr>bn_template = 7, bn_pacing = \<lparr>fc_quantum = 125000, fc_samples = 2\<rparr>\<rparr> demo_rounds =
      (hs, fed, Some encoderFailed) \<and> hs = [Taken 8, Given 7, Given 8] \<and> held_after {#7#} hs = Some {#}"
proof -
  let ?b = "\<lparr>bn_template = 7, bn_pacing = \<lparr>fc_quantum = 125000, fc_samples = 2\<rparr>\<rparr>"
  let ?r = "runEncoderJob (\<lambda>_. mc_pull plain_floats) 0 [] sinkEncoder 0 ?b demo_rounds"
  have 1: "fst ?r = [Taken 8, Given 7, Given 8]" and 2: "snd (snd ?r) = Some encoderFailed" by code_simp+
  have "?r = (fst ?r, fst (snd ?r), snd (snd ?r))" by simp
  from finished_job_holds_no_cursor [OF this] have "held_after {#7#} (fst ?r) = Some {#}" by (simp add: 2)
  then show ?thesis using 1 2 by (metis surjective_pairing)
qed

text \<open>A write that makes no progress is severed at most one and a half timeouts after it began, never before the
  timeout, and the sink is closed once.\<close>

lemma stalled_write_is_severed:
  assumes "2 \<le> timeout" "timeout \<le> max_span" "began \<noteq> 0" "began < t" "t \<le> began + timeout div 2"
    and "g = write_begins began (newStallGuard timeout)"
  shows "\<exists>k. let severed = t + int k * (timeout div 2) in
    began + timeout < severed \<and> severed \<le> began + timeout + timeout div 2 \<and>
    \<not> sg_done (guard_watch k t g) \<and> sg_done (guard_watch (Suc k) t g) \<and>
    (\<forall>m > k. sg_done (guard_watch m t g) \<and> sg_closes (guard_watch m t g) = 1)"
proof -
  let ?h = "timeout div 2"
  let ?d = "began + timeout - t"
  define k where "k = nat (?d div ?h + 1)"
  have h: "1 \<le> ?h" "go_div timeout 2 = ?h" using assms(1) by (simp_all add: go_div_def)
  have d: "0 \<le> ?d" using assms(5) h(1) by linarith
  have q: "?d div ?h * ?h \<le> ?d" "?d < (?d div ?h + 1) * ?h"
    using div_floor [of ?h ?d] h(1) by simp_all
  have ik: "int k = ?d div ?h + 1" using d h(1) by (simp add: k_def pos_imp_zdiv_nonneg_iff)
  have f: "sg_timeout g = timeout" "sg_writeStart g = began" "\<not> sg_done g" "sg_closes g = 0"
    by (simp_all add: assms(6) write_begins_def newStallGuard_def)
  have late: "began + timeout < t + int m * ?h \<longleftrightarrow> k \<le> m" for m
  proof
    assume "k \<le> m"
    then have "(?d div ?h + 1) * ?h \<le> int m * ?h" using ik h(1) by (intro mult_right_mono) auto
    then show "began + timeout < t + int m * ?h" using q(2) by linarith
  next
    assume a: "began + timeout < t + int m * ?h"
    show "k \<le> m"
    proof (rule ccontr)
      assume "\<not> k \<le> m"
      then have "int m * ?h \<le> ?d div ?h * ?h" using ik h(1) by (intro mult_right_mono) auto
      then show False using a q(1) by linarith
    qed
  qed
  have closed: "sg_done (guard_watch m t g) \<longleftrightarrow> k < m" for m
  proof -
    have "sg_done (guard_watch m t g) \<longleftrightarrow> (\<exists>i < m. timeout < t + int i * ?h - began)"
      using assms(3) by (simp add: guard_watch_done f h(2))
    also have "\<dots> \<longleftrightarrow> (\<exists>i < m. k \<le> i)" using late by (metis add.commute less_diff_eq)
    also have "\<dots> \<longleftrightarrow> k < m" by (meson le_less_trans order_refl)
    finally show ?thesis .
  qed
  have once: "sg_closes (guard_watch m t g) = (if k < m then 1 else 0)" for m
    using guard_watch_closes [of g m t] f by (simp add: closed)
  have "t + int k * ?h \<le> began + timeout + ?h" using q(1) by (simp add: ik algebra_simps)
  then show ?thesis using late [of k] by (intro exI [of _ k]) (simp add: closed once del: guard_watch.simps)
qed

lemma stalled_write_is_severed_witness:
  "\<exists>k. sg_done (guard_watch k (100 + second) (write_begins 100 (newStallGuard (deviceWriteStallTimeout 0))))"
proof -
  let ?t = "deviceWriteStallTimeout 0"
  have "2 \<le> ?t" "?t \<le> max_span" "(100::int) \<noteq> 0" "100 < 100 + second" "100 + second \<le> 100 + ?t div 2" by code_simp+
  from stalled_write_is_severed [OF this refl] show ?thesis unfolding Let_def by blast
qed

end
