(* ===== verification/Whisper.thy ===== *)
theory Whisper
  imports Fmt
begin

text \<open>
  \<^verbatim>\<open>internal/speechengine/whisper.go\<close> and the option checks of \<^verbatim>\<open>common.go\<close> and \<^verbatim>\<open>stt.go\<close>: what the STT helper accepts
  on its command line, what it asks of whisper-server, which addresses it speaks to, and which answers it lets
  through. The parsers of flags, JSON, media types and URLs are arguments.
\<close>

section \<open>Language arguments\<close>

definition languageAuto :: gostr where "languageAuto = str ''auto''"

definition is_letter :: "rune \<Rightarrow> bool" where
  "is_letter c \<longleftrightarrow> \<not> ((c < 97 \<or> c > 122) \<and> (c < 65 \<or> c > 90))"

definition asciiLetters :: "gostr \<Rightarrow> bool" where
  "asciiLetters value = list_all is_letter value"

definition asciiAlphaNumeric :: "gostr \<Rightarrow> bool" where
  "asciiAlphaNumeric value = list_all (\<lambda>c. is_letter c \<or> \<not> (c < 48 \<or> c > 57)) value"

definition validLanguageArg :: "gostr \<Rightarrow> bool \<Rightarrow> bool" where
  "validLanguageArg value allowAuto =
     (if allowAuto \<and> value = languageAuto then True
      else let parts = str_split 45 value in
        if blen (hd parts) < 2 \<or> blen (hd parts) > 3 \<or> \<not> asciiLetters (hd parts) then False
        else list_all (\<lambda>part. \<not> (part = [] \<or> blen part > 8 \<or> \<not> asciiAlphaNumeric part)) (tl parts))"

definition baseLanguageTag :: "gostr \<Rightarrow> gostr" where
  "baseLanguageTag value = (if value = languageAuto then value else fst (str_cut value [45]))"

section \<open>Options\<close>

record STTTuning =
  SilenceHang :: duration
  MaxWindow :: duration
  MinSpeech :: duration

datatype tuning_field = TuneSilenceHang | TuneMaxWindow | TuneMinSpeech

datatype tuning_error = TuningRange tuning_field duration | TuningOrder

definition sttTuningMin :: duration where "sttTuningMin = 20 * millisecond"
definition sttTuningMax :: duration where "sttTuningMax = 30 * second"

fun validate_values :: "(tuning_field \<times> duration) list \<Rightarrow> tuning_error option" where
  "validate_values [] = None"
| "validate_values ((f, v) # rest) =
     (if v < sttTuningMin \<or> v > sttTuningMax then Some (TuningRange f v) else validate_values rest)"

definition validate_tuning :: "STTTuning \<Rightarrow> tuning_error option" where
  "validate_tuning t =
     (case validate_values [(TuneSilenceHang, SilenceHang t), (TuneMaxWindow, MaxWindow t), (TuneMinSpeech, MinSpeech t)] of
        Some e \<Rightarrow> Some e
      | None \<Rightarrow> if MinSpeech t > MaxWindow t then Some TuningOrder else None)"

definition sttSilenceHang :: duration where "sttSilenceHang = 300 * millisecond"
definition sttMaxWindow :: duration where "sttMaxWindow = 5 * second"
definition sttMinSpeech :: duration where "sttMinSpeech = 250 * millisecond"
definition sttPreRoll :: duration where "sttPreRoll = 100 * millisecond"
definition sttFinalMinTimeout :: duration where "sttFinalMinTimeout = 30 * second"
definition maxSTTThreads :: int where "maxSTTThreads = 64"
definition callAudioContext :: int where "callAudioContext = 512"
definition whisperEncoderPosition :: duration where "whisperEncoderPosition = 20 * millisecond"

definition defaultSTTTuning :: STTTuning where
  "defaultSTTTuning = \<lparr>SilenceHang = sttSilenceHang, MaxWindow = sttMaxWindow, MinSpeech = sttMinSpeech\<rparr>"

definition finalTimeoutFor :: "STTTuning \<Rightarrow> duration" where
  "finalTimeoutFor t = max sttFinalMinTimeout (wrap64 (3 * MaxWindow t))"

definition partialAudioContext :: "STTTuning \<Rightarrow> bool \<Rightarrow> int" where
  "partialAudioContext t fastDecode =
     (if fastDecode \<or> wrap64 (2 * MaxWindow t) > callAudioContext * whisperEncoderPosition then 0 else callAudioContext)"

definition validSampleRate :: "int \<Rightarrow> bool" where
  "validSampleRate rate \<longleftrightarrow> 8000 \<le> rate \<and> rate \<le> 192000"

record sttOptions =
  so_model :: gostr
  so_language :: gostr
  so_rate :: int
  so_threads :: int
  so_protocol :: int
  so_tuning :: STTTuning
  so_fastDecode :: bool

definition default_options :: sttOptions where
  "default_options = \<lparr>so_model = [], so_language = languageAuto, so_rate = 16000, so_threads = 1, so_protocol = 0,
     so_tuning = defaultSTTTuning, so_fastDecode = False\<rparr>"

datatype option_error = FlagError | UnexpectedArgument gostr | NoModel | ProtocolMismatch int | BadRate int | BadThreads int
  | BadTuning tuning_error | BadLanguage gostr

definition ProtocolVersion :: int where "ProtocolVersion = 2"

text \<open>\<open>flags.Parse\<close> over the defaults is an argument: an error, or the options with what is left of the command line.\<close>

definition parseSTTOptions ::
    "unicode \<Rightarrow> (sttOptions \<Rightarrow> 'args \<Rightarrow> (sttOptions \<times> gostr list) option) \<Rightarrow> 'args \<Rightarrow> option_error + sttOptions" where
  "parseSTTOptions u flags args =
     (case flags default_options args of
        None \<Rightarrow> Inl FlagError
      | Some (opts, a # _) \<Rightarrow> Inl (UnexpectedArgument a)
      | Some (opts, []) \<Rightarrow>
          if so_model opts = [] then Inl NoModel
          else if so_protocol opts \<noteq> ProtocolVersion then Inl (ProtocolMismatch (so_protocol opts))
          else if \<not> validSampleRate (so_rate opts) then Inl (BadRate (so_rate opts))
          else if so_threads opts < 1 \<or> so_threads opts > maxSTTThreads then Inl (BadThreads (so_threads opts))
          else case validate_tuning (so_tuning opts) of
            Some e \<Rightarrow> Inl (BadTuning e)
          | None \<Rightarrow>
              if \<not> validLanguageArg (so_language opts) True then Inl (BadLanguage (so_language opts))
              else Inr (opts\<lparr>so_language := baseLanguageTag (ToLower u (so_language opts))\<rparr>))"

definition whisperLoopbackHost :: gostr where "whisperLoopbackHost = str ''127.0.0.1''"

definition whisperServerArgs :: "gostr \<Rightarrow> gostr \<Rightarrow> int \<Rightarrow> gostr \<Rightarrow> gostr \<Rightarrow> bool \<Rightarrow> gostr list" where
  "whisperServerArgs model sourceLang threads port requestPath fastDecode =
     [str ''-m'', model, str ''-l'', sourceLang, str ''-t'', itoa threads]
     @ (if fastDecode then [str ''-bo'', str ''1'', str ''-ac'', itoa callAudioContext] else [])
     @ [str ''--host'', whisperLoopbackHost, str ''--port'', port, str ''--request-path'', requestPath]"

section \<open>Repetition\<close>

text \<open>\<open>strings.FieldsFunc\<close>: the maximal runs of runes that do not satisfy a predicate.\<close>

fun fields_func :: "(rune \<Rightarrow> bool) \<Rightarrow> gostr \<Rightarrow> gostr \<Rightarrow> gostr list" where
  "fields_func p cur [] = (if cur = [] then [] else [cur])"
| "fields_func p cur (r # rs) =
     (if p r then (if cur = [] then fields_func p [] rs else cur # fields_func p [] rs) else fields_func p (cur @ [r]) rs)"

definition minimumRepetitions :: nat where "minimumRepetitions = 4"
definition minimumRepeatedWords :: nat where "minimumRepeatedWords = 16"
definition maximumPatternWords :: nat where "maximumPatternWords = 64"

text \<open>The inner loop: how often the pattern is repeated at once. A width of zero is not reached.\<close>

function repeats :: "'a list \<Rightarrow> nat \<Rightarrow> 'a list \<Rightarrow> nat" where
  "repeats pat width rest =
     (if width = 0 \<or> length rest < width \<or> take width rest \<noteq> pat then 0 else Suc (repeats pat width (drop width rest)))"
  by pat_completeness auto
termination
  by (relation "measure (\<lambda>(pat, width, rest). length rest)") auto

declare repeats.simps [simp del]

definition loops_at :: "'a list \<Rightarrow> nat \<Rightarrow> nat \<Rightarrow> bool" where
  "loops_at words start width =
     (let pat = take width (drop start words);
          repetitions = Suc (repeats pat width (drop (start + width) words))
      in minimumRepetitions \<le> repetitions \<and> minimumRepeatedWords \<le> repetitions * width)"

definition max_pattern :: "'a list \<Rightarrow> nat \<Rightarrow> nat" where
  "max_pattern words start = min maximumPatternWords ((length words - start) div minimumRepetitions)"

definition repeated_words :: "'a list \<Rightarrow> bool" where
  "repeated_words words =
     list_ex (\<lambda>start. list_ex (loops_at words start) [1 ..< Suc (max_pattern words start)]) [0 ..< length words]"

definition hasPathologicalTokenRepetition :: "unicode \<Rightarrow> gostr \<Rightarrow> bool" where
  "hasPathologicalTokenRepetition u txt =
     repeated_words (fields_func (\<lambda>r. is_space r \<or> u_is_punct u r) [] (ToLower u txt))"

definition whisperTextMaxBytes :: nat where "whisperTextMaxBytes = 4096"

definition validateWhisperTranscript :: "unicode \<Rightarrow> gostr \<Rightarrow> bool" where
  "validateWhisperTranscript u txt \<longleftrightarrow> \<not> blen txt > whisperTextMaxBytes \<and> \<not> hasPathologicalTokenRepetition u txt"

text \<open>The reference: somewhere a block of at most 64 words stands at least four times in a row, over at least sixteen words.\<close>

definition loop_of :: "'a list \<Rightarrow> nat \<Rightarrow> nat \<Rightarrow> nat \<Rightarrow> bool" where
  "loop_of words start width reps \<longleftrightarrow> 1 \<le> width \<and> width \<le> 64 \<and> 4 \<le> reps \<and> 16 \<le> reps * width \<and>
     start + reps * width \<le> length words \<and>
     (\<forall>k < reps. take width (drop (start + k * width) words) = take width (drop start words))"

lemma repeats_iff:
  "n \<le> repeats pat width rest \<longleftrightarrow>
     n = 0 \<or> (0 < width \<and> n * width \<le> length rest \<and> (\<forall>k < n. take width (drop (k * width) rest) = pat))"
proof (induction pat width rest arbitrary: n rule: repeats.induct)
  case (1 pat width rest)
  show ?case
  proof (cases n)
    case 0
    then show ?thesis by simp
  next
    case (Suc m)
    show ?thesis
    proof (cases "width = 0 \<or> length rest < width \<or> take width rest \<noteq> pat")
      case True
      then have "repeats pat width rest = 0" by (simp add: repeats.simps)
      moreover have "\<not> (0 < width \<and> n * width \<le> length rest \<and> (\<forall>k < n. take width (drop (k * width) rest) = pat))"
      proof
        assume a: "0 < width \<and> n * width \<le> length rest \<and> (\<forall>k < n. take width (drop (k * width) rest) = pat)"
        then have "width \<le> n * width" using Suc by simp
        then show False using True a Suc by fastforce
      qed
      ultimately show ?thesis using Suc by simp
    next
      case False
      then have r: "repeats pat width rest = Suc (repeats pat width (drop width rest))" by (simp add: repeats.simps)
      have k: "(\<forall>k < Suc m. take width (drop (k * width) rest) = pat) \<longleftrightarrow>
          (\<forall>k < m. take width (drop (k * width) (drop width rest)) = pat)"
        using False by (auto simp: less_Suc_eq_0_disj add.commute)
      have "n \<le> repeats pat width rest \<longleftrightarrow> m \<le> repeats pat width (drop width rest)" by (simp add: r Suc)
      also have "\<dots> \<longleftrightarrow> m = 0 \<or> (0 < width \<and> m * width \<le> length rest - width \<and>
          (\<forall>k < m. take width (drop (k * width) (drop width rest)) = pat))" using "1.IH" [OF False, of m] by simp
      also have "\<dots> \<longleftrightarrow> 0 < width \<and> n * width \<le> length rest \<and> (\<forall>k < Suc m. take width (drop (k * width) rest) = pat)"
        unfolding k using False Suc by auto
      finally show ?thesis using Suc by simp
    qed
  qed
qed

lemma loops_at_iff:
  assumes "start < length words" "1 \<le> width" "width \<le> max_pattern words start"
  shows "loops_at words start width \<longleftrightarrow> (\<exists>reps. loop_of words start width reps)"
proof -
  let ?pat = "take width (drop start words)" and ?rest = "drop (start + width) words"
  have w: "width \<le> 64" "4 * width \<le> length words - start"
    using assms(3) by (auto simp: max_pattern_def maximumPatternWords_def minimumRepetitions_def)
  have eq: "n \<le> repeats ?pat width ?rest \<longleftrightarrow> start + Suc n * width \<le> length words \<and>
      (\<forall>k < Suc n. take width (drop (start + k * width) words) = ?pat)" for n
  proof -
    have "(\<forall>k < Suc n. take width (drop (start + k * width) words) = ?pat) \<longleftrightarrow>
        (\<forall>k < n. take width (drop (k * width) ?rest) = ?pat)" by (auto simp: less_Suc_eq_0_disj ac_simps)
    then show ?thesis unfolding repeats_iff using assms(2) w by (cases "n = 0") auto
  qed
  show ?thesis
  proof
    assume "loops_at words start width"
    then show "\<exists>reps. loop_of words start width reps"
      using eq [of "repeats ?pat width ?rest"] w assms(2)
      by (intro exI [of _ "Suc (repeats ?pat width ?rest)"])
        (simp add: loops_at_def loop_of_def Let_def minimumRepetitions_def minimumRepeatedWords_def)
  next
    assume "\<exists>reps. loop_of words start width reps"
    then obtain reps where l: "loop_of words start width reps" by blast
    then obtain n where n: "reps = Suc n" by (cases reps) (auto simp: loop_of_def)
    then have "n \<le> repeats ?pat width ?rest" using l eq [of n] by (simp add: loop_of_def)
    then have "reps \<le> Suc (repeats ?pat width ?rest)" by (simp add: n)
    moreover from this have "reps * width \<le> Suc (repeats ?pat width ?rest) * width" by (rule mult_le_mono1)
    ultimately show "loops_at words start width"
      using l by (simp add: loops_at_def loop_of_def Let_def minimumRepetitions_def minimumRepeatedWords_def)
  qed
qed

lemma loop_width: "loop_of words start width reps \<Longrightarrow> start < length words \<and> 1 \<le> width \<and> width \<le> max_pattern words start"
proof -
  assume a: "loop_of words start width reps"
  then have "4 * width \<le> reps * width" "start + reps * width \<le> length words" by (simp_all add: loop_of_def)
  then have "4 * width \<le> length words - start" by linarith
  then have "width \<le> (length words - start) div 4" by (simp add: less_eq_div_iff_mult_less_eq)
  then show ?thesis using a by (auto simp: loop_of_def max_pattern_def maximumPatternWords_def minimumRepetitions_def)
qed

lemma repeated_words_iff: "repeated_words words \<longleftrightarrow> (\<exists>start width reps. loop_of words start width reps)"
proof -
  have "repeated_words words \<longleftrightarrow>
      (\<exists>start width. start < length words \<and> 1 \<le> width \<and> width \<le> max_pattern words start \<and> loops_at words start width)"
    by (force simp: repeated_words_def list_ex_iff)
  also have "\<dots> \<longleftrightarrow> (\<exists>start width reps. loop_of words start width reps)" using loops_at_iff loop_width by metis
  finally show ?thesis .
qed

text \<open>The nested loops that look for a pathological repetition, with their bounds on the pattern, say exactly whether
  some block of at most 64 words stands four times or more in a row and covers sixteen words or more.\<close>

lemma repetition_is_exactly_a_loop:
  "hasPathologicalTokenRepetition u txt \<longleftrightarrow>
     (\<exists>start width reps. loop_of (fields_func (\<lambda>r. is_space r \<or> u_is_punct u r) [] (ToLower u txt)) start width reps)"
  by (simp add: hasPathologicalTokenRepetition_def repeated_words_iff)

section \<open>Addresses\<close>

text \<open>What \<open>url.Parse\<close> reports of a URL; parsing itself is an argument.\<close>

record endpoint_url =
  u_scheme :: gostr
  u_hostname :: gostr
  u_port :: gostr
  u_user :: bool
  u_path :: gostr
  u_rawpath :: gostr
  u_query :: gostr
  u_fragment :: gostr
  u_opaque :: gostr
  u_forceQuery :: bool

datatype endpoint_error = UrlUnparsed | NotPlainLoopback | PortInvalid | PortZero

definition isPlainLoopbackURL :: "endpoint_url \<Rightarrow> bool" where
  "isPlainLoopbackURL p \<longleftrightarrow> u_scheme p = str ''http'' \<and> u_hostname p = whisperLoopbackHost \<and> u_port p \<noteq> [] \<and>
     \<not> u_user p \<and> u_query p = [] \<and> u_fragment p = [] \<and> u_opaque p = [] \<and> u_rawpath p = [] \<and> \<not> u_forceQuery p"

text \<open>\<open>strconv.ParseUint(port, 10, 16)\<close>.\<close>

definition parse_port :: "gostr \<Rightarrow> int option" where
  "parse_port p = (if p \<noteq> [] \<and> list_all is_digit p \<and> number p < 65536 then Some (number p) else None)"

definition trim_right_slash :: "gostr \<Rightarrow> gostr" where
  "trim_right_slash p = rev (dropWhile (\<lambda>c. c = 47) (rev p))"

definition loopbackWhisperEndpoint :: "(gostr \<Rightarrow> endpoint_url option) \<Rightarrow> gostr \<Rightarrow> gostr \<Rightarrow> endpoint_error + endpoint_url" where
  "loopbackWhisperEndpoint parse base endpoint =
     (case parse base of
        None \<Rightarrow> Inl UrlUnparsed
      | Some p \<Rightarrow>
          if \<not> isPlainLoopbackURL p then Inl NotPlainLoopback
          else (case parse_port (u_port p) of
            None \<Rightarrow> Inl PortInvalid
          | Some port \<Rightarrow> if port = 0 then Inl PortZero else Inr (p\<lparr>u_path := trim_right_slash (u_path p) @ endpoint\<rparr>)))"

text \<open>\<open>net.SplitHostPort\<close> is an argument; the result is the address dialled.\<close>

definition dialWhisperLoopback :: "(gostr \<Rightarrow> (gostr \<times> gostr) option) \<Rightarrow> gostr \<Rightarrow> gostr option" where
  "dialWhisperLoopback split address =
     (case split address of
        None \<Rightarrow> None
      | Some (host, port) \<Rightarrow> if host \<noteq> whisperLoopbackHost \<or> port = [] then None else Some address)"

section \<open>Answers\<close>

datatype json_text = JsonInvalid | JsonShape | JsonText "gostr option" gostr

record answer =
  an_status :: int
  an_server :: "gostr list"
  an_contentType :: "gostr list"
  an_body :: gostr

text \<open>\<open>json.Valid\<close> with \<open>json.Unmarshal\<close>, and \<open>mime.ParseMediaType\<close>.\<close>

record answer_parsers =
  ap_json :: "gostr \<Rightarrow> json_text"
  ap_media :: "gostr \<Rightarrow> gostr option"

definition whisperServerName :: gostr where "whisperServerName = str ''whisper.cpp''"
definition contentTypeJSON :: gostr where "contentTypeJSON = str ''application/json''"

definition validateWhisperServerHeader :: "gostr list \<Rightarrow> bool" where
  "validateWhisperServerHeader values \<longleftrightarrow> \<not> (length values \<noteq> 1 \<or> hd values \<noteq> whisperServerName)"

definition has_suffix :: "gostr \<Rightarrow> gostr \<Rightarrow> bool" where
  "has_suffix s x \<longleftrightarrow> length x \<le> length s \<and> drop (length s - length x) s = x"

definition responseIsJSON :: "answer_parsers \<Rightarrow> gostr \<Rightarrow> bool" where
  "responseIsJSON ap contentType =
     (case ap_media ap contentType of None \<Rightarrow> False | Some m \<Rightarrow> m = contentTypeJSON \<or> has_suffix m (str ''+json''))"

datatype inference = Inferred gostr gostr | UnsafeText | InferenceFailed

definition decodeWhisperJSON :: "unicode \<Rightarrow> answer_parsers \<Rightarrow> gostr \<Rightarrow> (gostr \<times> gostr) option" where
  "decodeWhisperJSON u ap raw =
     (case ap_json ap raw of
        JsonText (Some txt) l \<Rightarrow>
          (let language = ToLower u (trim_space l) in
           if language \<noteq> [] \<and> \<not> validLanguageArg language False then None else Some (txt, language))
      | _ \<Rightarrow> None)"

definition maxResponse :: nat where "maxResponse = 4 * 1024 * 1024"

definition header_get :: "gostr list \<Rightarrow> gostr" where
  "header_get values = (case values of [] \<Rightarrow> [] | v # _ \<Rightarrow> v)"

definition decodeWhisperResponse :: "unicode \<Rightarrow> answer_parsers \<Rightarrow> answer \<Rightarrow> (gostr \<times> gostr) option" where
  "decodeWhisperResponse u ap resp =
     (if an_status resp < 200 \<or> an_status resp \<ge> 300 then None
      else if \<not> validateWhisperServerHeader (an_server resp) then None
      else if blen (an_body resp) > maxResponse then None
      else let declaredJSON = responseIsJSON ap (header_get (an_contentType resp));
               trimmed = trim_space (an_body resp);
               looksLikeObject = (trimmed \<noteq> [] \<and> hd trimmed = 123)
           in if declaredJSON \<or> looksLikeObject
              then (if ap_json ap (an_body resp) = JsonInvalid then None else decodeWhisperJSON u ap (an_body resp))
              else Some (an_body resp, []))"

text \<open>\<open>None\<close> for the answer is a request that failed or whose body could not be read.\<close>

definition whisperTranscribe :: "unicode \<Rightarrow> answer_parsers \<Rightarrow> answer option \<Rightarrow> inference" where
  "whisperTranscribe u ap resp =
     (case resp of
        None \<Rightarrow> InferenceFailed
      | Some a \<Rightarrow> (case decodeWhisperResponse u ap a of
          None \<Rightarrow> InferenceFailed
        | Some (txt, language) \<Rightarrow> if \<not> validateWhisperTranscript u txt then UnsafeText else Inferred txt language))"

text \<open>The form of one inference request, in the order its fields are written; \<open>audio_ctx\<close> is there when positive.\<close>

definition writeWhisperForm :: "bool \<Rightarrow> int \<Rightarrow> (gostr \<times> gostr) list" where
  "writeWhisperForm singlePass audioContext =
     [(str ''response_format'', str ''json''), (str ''temperature'', str ''0'')]
     @ (if singlePass then [(str ''temperature_inc'', str ''0'')] else [])
     @ (if audioContext > 0 then [(str ''audio_ctx'', itoa audioContext)] else [])"

section \<open>Becoming ready\<close>

definition whisperHealthMaxBytes :: nat where "whisperHealthMaxBytes = 64"
definition whisperHealthLoading :: gostr where "whisperHealthLoading = str ''{\"status\":\"loading model\"}''"
definition whisperHealthReady :: gostr where "whisperHealthReady = str ''{\"status\":\"ok\"}''"

text \<open>\<open>None\<close> is an error: only the two answers of whisper.cpp are understood.\<close>

definition classifyWhisperHealth :: "int \<Rightarrow> gostr \<Rightarrow> bool option" where
  "classifyWhisperHealth status body =
     (if status = 200 \<and> body = whisperHealthReady then Some True
      else if status = 503 \<and> body = whisperHealthLoading then Some False else None)"

definition validateWhisperHealthHeaders :: "answer \<Rightarrow> bool" where
  "validateWhisperHealthHeaders a \<longleftrightarrow>
     validateWhisperServerHeader (an_server a) \<and> \<not> (length (an_contentType a) \<noteq> 1 \<or> hd (an_contentType a) \<noteq> contentTypeJSON)"

definition validateWhisperHealth :: "answer \<Rightarrow> bool option" where
  "validateWhisperHealth a =
     (if blen (an_body a) > whisperHealthMaxBytes then None
      else if \<not> validateWhisperHealthHeaders a then None
      else classifyWhisperHealth (an_status a) (trim_space (an_body a)))"

text \<open>A probe: refused because it was redirected, not listening yet, its body unreadable, or answered.\<close>

datatype probe = Redirected | NotListening | BodyUnread | Answered answer

definition probeWhisperHealth :: "probe \<Rightarrow> bool option" where
  "probeWhisperHealth p =
     (case p of Redirected \<Rightarrow> None | NotListening \<Rightarrow> Some False | BodyUnread \<Rightarrow> None | Answered a \<Rightarrow> validateWhisperHealth a)"

text \<open>One turn of \<open>waitReady\<close>: whether the process had exited before the probe, the probe, whether it has after it, and
  what ended the pause: the exit, the tick or the timeout. The turns end with the timeout at the latest.\<close>

datatype wait_pause = PauseExit | PauseTick | PauseTimeout

record wait_turn =
  tn_exited :: bool
  tn_probe :: probe
  tn_gone :: bool
  tn_pause :: wait_pause

fun waitReady :: "wait_turn list \<Rightarrow> bool" where
  "waitReady [] = False"
| "waitReady (t # ts) =
     (if tn_exited t then False
      else case probeWhisperHealth (tn_probe t) of
        None \<Rightarrow> False
      | Some True \<Rightarrow> \<not> tn_gone t
      | Some False \<Rightarrow> if tn_pause t = PauseTick then waitReady ts else False)"

definition whisperStartAttempts :: nat where "whisperStartAttempts = 3"
definition whisperReadyTimeout :: duration where "whisperReadyTimeout = 25 * second"

text \<open>An attempt: the time left before it, whether the process started, the turns of its wait, and whether the stop that
  follows a failed wait fails too. The result is the attempt that serves.\<close>

record start_try =
  tr_left :: duration
  tr_started :: bool
  tr_turns :: "wait_turn list"

fun start_attempts :: "nat \<Rightarrow> nat \<Rightarrow> start_try list \<Rightarrow> nat option" where
  "start_attempts 0 n tries = None"
| "start_attempts (Suc left) n [] = None"
| "start_attempts (Suc left) n (t # tries) =
     (if tr_left t \<le> 0 then None
      else if \<not> tr_started t then start_attempts left (Suc n) tries
      else if \<not> waitReady (tr_turns t) then start_attempts left (Suc n) tries
      else Some n)"

definition startReadyWhisperServer :: "start_try list \<Rightarrow> nat option" where
  "startReadyWhisperServer tries = start_attempts whisperStartAttempts 0 tries"

lemma ready_answer:
  "waitReady ts \<Longrightarrow> \<exists>t \<in> set ts. \<exists>a. tn_probe t = Answered a \<and> an_server a = [whisperServerName] \<and> an_status a = 200 \<and>
     trim_space (an_body a) = whisperHealthReady \<and> \<not> tn_gone t \<and> \<not> tn_exited t"
proof (induction ts)
  case (Cons t ts)
  have one: "length v = 1 \<Longrightarrow> v = [hd v]" for v :: "gostr list" by (cases v) auto
  show ?case
  proof (cases "probeWhisperHealth (tn_probe t)")
    case (Some b)
    show ?thesis
    proof (cases b)
      case True
      then obtain a where a: "tn_probe t = Answered a" "validateWhisperHealth a = Some True"
        using Some by (auto simp: probeWhisperHealth_def split: probe.splits)
      then have "an_server a = [whisperServerName] \<and> an_status a = 200 \<and> trim_space (an_body a) = whisperHealthReady"
        using one [of "an_server a"] by (auto simp: validateWhisperHealth_def classifyWhisperHealth_def
            validateWhisperHealthHeaders_def validateWhisperServerHeader_def split: if_splits)
      then show ?thesis using a(1) Cons.prems True Some by (auto split: if_splits)
    next
      case False
      then show ?thesis using Cons Some by (auto split: if_splits)
    qed
  qed (use Cons.prems in \<open>auto split: if_splits\<close>)
qed simp

lemma attempts_ready:
  "start_attempts left n tries = Some k \<Longrightarrow>
     n \<le> k \<and> k < n + left \<and> k - n < length tries \<and> tr_started (tries ! (k - n)) \<and> waitReady (tr_turns (tries ! (k - n)))"
proof (induction left n tries rule: start_attempts.induct)
  case (3 left n t tries)
  show ?case
  proof (cases "tr_started t \<and> waitReady (tr_turns t)")
    case False
    then have "start_attempts left (Suc n) tries = Some k" using "3.prems" by (auto split: if_splits)
    then have i: "Suc n \<le> k \<and> k < Suc n + left \<and> k - Suc n < length tries \<and> tr_started (tries ! (k - Suc n)) \<and>
        waitReady (tr_turns (tries ! (k - Suc n)))"
      using "3.IH" False "3.prems" by (auto split: if_splits)
    moreover from i have "k - n = Suc (k - Suc n)" by linarith
    ultimately show ?thesis by simp
  qed (use "3.prems" in \<open>auto split: if_splits\<close>)
qed simp_all

section \<open>Properties\<close>

text \<open>A server the helper goes on to use was started within the three attempts and answered a probe, while it
  still ran, with the ready document of whisper.cpp under its own server name.\<close>

lemma served_means_ready:
  "startReadyWhisperServer tries = Some k \<Longrightarrow>
     k < 3 \<and> k < length tries \<and> tr_started (tries ! k) \<and> waitReady (tr_turns (tries ! k))"
  using attempts_ready [of 3 0 tries k] by (simp add: startReadyWhisperServer_def whisperStartAttempts_def)

lemma valid_transcript: "validateWhisperTranscript u txt \<Longrightarrow> blen txt \<le> 4096"
  by (simp add: validateWhisperTranscript_def whisperTextMaxBytes_def)

lemma transcribed: "whisperTranscribe u ap resp = Inferred txt language \<Longrightarrow>
    \<exists>a. resp = Some a \<and> decodeWhisperResponse u ap a = Some (txt, language) \<and> validateWhisperTranscript u txt"
  by (auto simp: whisperTranscribe_def split: option.splits prod.splits if_splits)

lemma decoded_language: "decodeWhisperResponse u ap a = Some (txt, language) \<Longrightarrow> language = [] \<or> validLanguageArg language False"
  by (auto simp: decodeWhisperResponse_def decodeWhisperJSON_def Let_def split: if_splits json_text.splits option.splits)

lemma decoded_object:
  "decodeWhisperResponse u ap a = Some (txt, language) \<Longrightarrow> ap_json ap (an_body a) = JsonInvalid \<Longrightarrow> trim_space (an_body a) = r # rest \<Longrightarrow> r \<noteq> 123"
  by (auto simp: decodeWhisperResponse_def Let_def split: if_splits)

text \<open>Text that leaves the helper came with a success status from a server that names itself whisper.cpp, is at most
  4 KiB, holds no pathological repetition, and has no language or a well-formed one; a malformed JSON object is
  never taken for a transcript.\<close>

lemma only_checked_text_leaves:
  assumes "whisperTranscribe u ap (Some a) = Inferred txt language"
  shows "200 \<le> an_status a \<and> an_status a < 300 \<and> an_server a = [whisperServerName] \<and> blen txt \<le> 4096 \<and>
    \<not> hasPathologicalTokenRepetition u txt \<and> (language = [] \<or> validLanguageArg language False) \<and>
    \<not> (ap_json ap (an_body a) = JsonInvalid \<and> take 1 (trim_space (an_body a)) = [123])"
proof -
  note t = transcribed [OF assms]
  have d: "decodeWhisperResponse u ap a = Some (txt, language)" "validateWhisperTranscript u txt" using t by auto
  have "an_server a = [hd (an_server a)]" if "length (an_server a) = 1" using that by (cases "an_server a") auto
  then have h: "200 \<le> an_status a \<and> an_status a < 300 \<and> an_server a = [whisperServerName]"
    using d(1) by (auto simp: decodeWhisperResponse_def validateWhisperServerHeader_def split: if_splits)
  have "take 1 (trim_space (an_body a)) \<noteq> [123]" if "ap_json ap (an_body a) = JsonInvalid"
    using decoded_object [OF d(1) that] by (cases "trim_space (an_body a)") auto
  moreover have "\<not> hasPathologicalTokenRepetition u txt" using d(2) by (simp add: validateWhisperTranscript_def)
  ultimately show ?thesis using h valid_transcript [OF d(2)] decoded_language [OF d(1)] by blast
qed

lemma only_checked_text_leaves_witness:
  "let a = \<lparr>an_status = 200, an_server = [str ''whisper.cpp''], an_contentType = [str ''text/plain''], an_body = str ''ciao''\<rparr>;
       ap = \<lparr>ap_json = (\<lambda>_. JsonInvalid), ap_media = Some\<rparr>
   in whisperTranscribe ascii_tables ap (Some a) = Inferred (str ''ciao'') [] \<and> blen (str ''ciao'') \<le> 4096"
proof -
  let ?a = "\<lparr>an_status = 200, an_server = [str ''whisper.cpp''], an_contentType = [str ''text/plain''], an_body = str ''ciao''\<rparr>"
  let ?ap = "\<lparr>ap_json = (\<lambda>_. JsonInvalid), ap_media = Some\<rparr>"
  have b: "blen (str ''ciao'') = 4" "trim_space (str ''ciao'') = str ''ciao''" "hd (str ''ciao'') = 99" "str ''ciao'' \<noteq> []"
    "\<not> hasPathologicalTokenRepetition ascii_tables (str ''ciao'')" by code_simp+
  have m: "str ''text/plain'' \<noteq> contentTypeJSON" "\<not> has_suffix (str ''text/plain'') (str ''+json'')" by code_simp+
  have r: "whisperTranscribe ascii_tables ?ap (Some ?a) = Inferred (str ''ciao'') []"
    using b m by (simp add: whisperTranscribe_def decodeWhisperResponse_def validateWhisperServerHeader_def whisperServerName_def maxResponse_def
        responseIsJSON_def header_get_def validateWhisperTranscript_def whisperTextMaxBytes_def)
  show ?thesis unfolding Let_def using r only_checked_text_leaves [OF r] by blast
qed

end
