(* ===== verification/Engine.thy ===== *)
theory Engine
  imports Pcm Floats Whisper "HOL-Library.Sublist"
begin

text \<open>
  \<^verbatim>\<open>internal/speechengine/stt.go\<close>: the helper that turns a PCM stream into transcript lines. A byte decoder feeds an
  energy endpointer, which cuts the stream into segments; one worker decodes the segments and the live window and
  writes the lines. What whisper-server answers, the square root and the roundings of \<open>float64\<close> are arguments. The
  reader and the worker are the step relation \<open>stt_step\<close>.
\<close>

section \<open>The byte decoder\<close>

record s16StreamDecoder =
  dc_trailing :: byte
  dc_pending :: bool

fun pairs_of :: "byte list \<Rightarrow> sample list \<times> byte list" where
  "pairs_of (lo # hi # rest) = (case pairs_of rest of (ss, left) \<Rightarrow> (le16 lo hi # ss, left))"
| "pairs_of left = ([], left)"

definition sd_decode :: "byte list \<Rightarrow> s16StreamDecoder \<Rightarrow> sample list \<times> s16StreamDecoder" where
  "sd_decode data d =
     (let carried = dc_pending d \<and> data \<noteq> [];
          first = (if carried then [le16 (dc_trailing d) (hd data)] else []);
          data1 = (if carried then tl data else data);
          d1 = (if carried then d\<lparr>dc_pending := False\<rparr> else d)
      in case pairs_of data1 of
           (ss, []) \<Rightarrow> (first @ ss, d1)
         | (ss, b # _) \<Rightarrow> (first @ ss, d1\<lparr>dc_trailing := b, dc_pending := True\<rparr>))"

section \<open>The endpointer\<close>

record float_sqrt =
  fs_rnd :: "rat \<Rightarrow> rat"
  fs_muladd :: "rat \<Rightarrow> rat \<Rightarrow> rat \<Rightarrow> rat"
  fs_sqrt :: "rat \<Rightarrow> rat"

definition rms :: "float_sqrt \<Rightarrow> sample list \<Rightarrow> rat" where
  "rms fl samples =
     (if samples = [] then 0
      else fs_sqrt fl (fs_rnd fl
        (fold (\<lambda>s acc. fs_muladd fl (of_int (sint s) / 32768) (of_int (sint s) / 32768) acc) samples 0 / of_nat (length samples))))"

definition sttVoicedRMS :: "float_sqrt \<Rightarrow> rat" where
  "sttVoicedRMS fl = fs_rnd fl (12 / 1000)"

record speechSegment =
  sg_pcm :: "sample list"
  sg_end :: int

record energyEndpointer =
  ep_buf :: "sample list"
  ep_rate :: int
  ep_tuning :: STTTuning
  ep_total :: int
  ep_voicedRun :: duration
  ep_silenceRun :: duration
  ep_sawSpeech :: bool

definition new_endpointer :: "int \<Rightarrow> STTTuning \<Rightarrow> energyEndpointer" where
  "new_endpointer rate t = \<lparr>ep_buf = [], ep_rate = rate, ep_tuning = t, ep_total = 0, ep_voicedRun = 0,
     ep_silenceRun = 0, ep_sawSpeech = False\<rparr>"

text \<open>How long \<open>n\<close> samples last at a rate.\<close>

definition span_of :: "nat \<Rightarrow> int \<Rightarrow> duration" where
  "span_of n rate = go_div (wrap64 (int n * second)) rate"

definition ep_reset :: "energyEndpointer \<Rightarrow> energyEndpointer" where
  "ep_reset e = e\<lparr>ep_buf := [], ep_voicedRun := 0, ep_silenceRun := 0, ep_sawSpeech := False\<rparr>"

definition trimPreRoll :: "energyEndpointer \<Rightarrow> energyEndpointer" where
  "trimPreRoll e =
     (let keep = nat (go_div (wrap64 (sttPreRoll * ep_rate e)) second) in
      if length (ep_buf e) \<le> keep then e else e\<lparr>ep_buf := drop (length (ep_buf e) - keep) (ep_buf e)\<rparr>)"

definition appendChunk :: "float_sqrt \<Rightarrow> sample list \<Rightarrow> energyEndpointer \<Rightarrow> energyEndpointer" where
  "appendChunk fl chunk e =
     (let d = span_of (length chunk) (ep_rate e);
          e1 = e\<lparr>ep_buf := ep_buf e @ chunk, ep_total := ep_total e + int (length chunk)\<rparr>;
          e2 = (if rms fl chunk \<ge> sttVoicedRMS fl
                then e1\<lparr>ep_sawSpeech := True, ep_voicedRun := ep_voicedRun e1 + d, ep_silenceRun := 0\<rparr>
                else e1\<lparr>ep_silenceRun := ep_silenceRun e1 + d\<rparr>)
      in if ep_sawSpeech e2 then e2 else trimPreRoll e2)"

definition ep_take :: "energyEndpointer \<Rightarrow> speechSegment \<times> energyEndpointer" where
  "ep_take e = (\<lparr>sg_pcm = ep_buf e, sg_end = ep_total e\<rparr>, ep_reset e)"

definition cutReady :: "energyEndpointer \<Rightarrow> speechSegment option \<times> energyEndpointer" where
  "cutReady e =
     (let enoughSpeech = (ep_sawSpeech e \<and> ep_voicedRun e \<ge> MinSpeech (ep_tuning e));
          endpoint = (enoughSpeech \<and> ep_silenceRun e \<ge> SilenceHang (ep_tuning e))
      in if \<not> endpoint \<and> span_of (length (ep_buf e)) (ep_rate e) < MaxWindow (ep_tuning e) then (None, e)
         else if \<not> enoughSpeech then (None, ep_reset e)
         else (case ep_take e of (s, e') \<Rightarrow> (Some s, e')))"

definition ep_flush :: "energyEndpointer \<Rightarrow> speechSegment option \<times> energyEndpointer" where
  "ep_flush e =
     (if \<not> ep_sawSpeech e \<or> ep_voicedRun e < MinSpeech (ep_tuning e) then (None, ep_reset e)
      else (case ep_take e of (s, e') \<Rightarrow> (Some s, e')))"

text \<open>A segment the code takes is never empty (\<open>ep_inv\<close>), so \<open>None\<close> stands for the nil slice. The runs are sums of
  durations and stay far below the 64 bits of the code.\<close>

text \<open>Twenty milliseconds. A frame of no samples would keep the loop of \<open>push\<close> running for ever: \<open>None\<close>.\<close>

definition frame_size :: "energyEndpointer \<Rightarrow> nat" where
  "frame_size e = nat (go_div (ep_rate e) 50)"

function push_frames :: "float_sqrt \<Rightarrow> nat \<Rightarrow> sample list \<Rightarrow> energyEndpointer \<Rightarrow> speechSegment list \<times> energyEndpointer" where
  "push_frames fl frame samples e =
     (if samples = [] \<or> frame = 0 then ([], e)
      else (case cutReady (appendChunk fl (take frame samples) e) of
              (s, e1) \<Rightarrow> (case push_frames fl frame (drop frame samples) e1 of
                (out, e2) \<Rightarrow> (case s of None \<Rightarrow> out | Some seg \<Rightarrow> seg # out, e2))))"
  by pat_completeness auto
termination
  by (relation "measure (\<lambda>(fl, frame, samples, e). length samples)") auto

declare push_frames.simps [simp del]

definition ep_push :: "float_sqrt \<Rightarrow> sample list \<Rightarrow> energyEndpointer \<Rightarrow> (speechSegment list \<times> energyEndpointer) option" where
  "ep_push fl samples e =
     (if samples \<noteq> [] \<and> frame_size e = 0 then None else Some (push_frames fl (frame_size e) samples e))"

section \<open>The decoder loses no byte\<close>

lemma pairs_of_step: "pairs_of (xs @ ys) = (case pairs_of xs of (ss, left) \<Rightarrow> (case pairs_of (left @ ys) of (ss', left') \<Rightarrow> (ss @ ss', left')))"
  by (induction xs rule: pairs_of.induct) (auto split: prod.split)

lemma pairs_of_left: "length (snd (pairs_of xs)) \<le> 1"
  by (induction xs rule: pairs_of.induct) (auto split: prod.split)

definition held_byte :: "s16StreamDecoder \<Rightarrow> byte list" where
  "held_byte d = (if dc_pending d then [dc_trailing d] else [])"

text \<open>Decoding a read continues decoding the whole stream.\<close>

lemma sd_decode_stream: "sd_decode data d = (ss, d') \<Longrightarrow> pairs_of (held_byte d @ data) = (ss, held_byte d')"
proof -
  assume a: "sd_decode data d = (ss, d')"
  show ?thesis
  proof (cases "dc_pending d \<and> data \<noteq> []")
    case True
    then obtain b rest where data: "data = b # rest" by (cases data) auto
    have "length (snd (pairs_of rest)) \<le> 1" by (rule pairs_of_left)
    then show ?thesis using a True data
      by (cases "pairs_of rest") (auto simp: sd_decode_def held_byte_def Let_def split: list.splits)
  next
    case False
    have "length (snd (pairs_of data)) \<le> 1" by (rule pairs_of_left)
    then show ?thesis using a False
      by (cases "pairs_of data") (auto simp: sd_decode_def held_byte_def Let_def split: list.splits if_splits)
  qed
qed

fun decode_reads :: "byte list list \<Rightarrow> s16StreamDecoder \<Rightarrow> sample list \<times> s16StreamDecoder" where
  "decode_reads [] d = ([], d)"
| "decode_reads (r # rs) d = (case sd_decode r d of (ss, d1) \<Rightarrow> (case decode_reads rs d1 of (ss', d2) \<Rightarrow> (ss @ ss', d2)))"

lemma decode_reads_stream: "decode_reads rs d = (ss, d') \<Longrightarrow> pairs_of (held_byte d @ concat rs) = (ss, held_byte d')"
proof (induction rs arbitrary: d ss d')
  case (Cons r rs)
  obtain s1 d1 where 1: "sd_decode r d = (s1, d1)" by fastforce
  obtain s2 d2 where 2: "decode_reads rs d1 = (s2, d2)" by fastforce
  have "d2 = d'" "ss = s1 @ s2" using Cons.prems 1 2 by simp_all
  then show ?case
    using Cons.IH [OF 2] sd_decode_stream [OF 1] pairs_of_step [of "held_byte d @ r" "concat rs"] by simp
qed (auto simp: held_byte_def)

section \<open>Segments are slices of the source\<close>

definition tuned :: "int \<Rightarrow> STTTuning \<Rightarrow> bool" where
  "tuned rate t \<longleftrightarrow> validSampleRate rate \<and> validate_tuning t = None"

lemma tuned_bounds:
  "tuned rate t \<Longrightarrow> 8000 \<le> rate \<and> rate \<le> 192000 \<and> 20000000 \<le> MaxWindow t \<and> MaxWindow t \<le> 30000000000 \<and> 0 < MinSpeech t \<and>
    160 \<le> rate div 50 \<and> rate div 50 \<le> 3840"
  using zdiv_mono1 [of 8000 rate 50] zdiv_mono1 [of rate 192000 50]
  by (auto simp: tuned_def validSampleRate_def validate_tuning_def sttTuningMin_def sttTuningMax_def split: option.splits if_splits)

text \<open>The samples a window of \<open>MaxWindow\<close> and one frame can hold.\<close>

definition window_cap :: "int \<Rightarrow> STTTuning \<Rightarrow> int" where
  "window_cap rate t = MaxWindow t * rate div second + 1 + rate div 50"

lemma span_small:
  assumes "tuned rate t" "0 \<le> int n" "int n \<le> 6000000"
  shows "span_of n rate = int n * second div rate"
proof -
  have "wrap64 (int n * second) = int n * second" using assms(3) by (intro wrap64_id) (simp add: in_int64_def)
  then show ?thesis using tuned_bounds [OF assms(1)] by (simp add: span_of_def go_div_nonneg)
qed

lemma span_below:
  assumes "tuned rate t" "int n \<le> 6000000" "span_of n rate < MaxWindow t"
  shows "int n \<le> MaxWindow t * rate div second + 1"
proof -
  note b = tuned_bounds [OF assms(1)]
  have "int n * second div rate < MaxWindow t" using assms span_small by simp
  then have "(int n * second div rate + 1) * rate \<le> MaxWindow t * rate" using b by (intro mult_right_mono) auto
  moreover have "int n * second < (int n * second div rate + 1) * rate" using div_floor [of rate "int n * second"] b by simp
  ultimately have "int n * second \<le> MaxWindow t * rate" by linarith
  from zdiv_mono1 [OF this, of second] show ?thesis by simp
qed

lemma window_cap_small: "tuned rate t \<Longrightarrow> window_cap rate t \<le> 6000000"
proof -
  assume "tuned rate t"
  note b = tuned_bounds [OF this]
  have "MaxWindow t * rate \<le> 30000000000 * 192000" using b by (intro mult_mono) auto
  then have "MaxWindow t * rate div second \<le> 30000000000 * 192000 div second" by (intro zdiv_mono1) auto
  moreover have "rate div 50 \<le> 3840" using b by simp
  ultimately show ?thesis by (simp add: window_cap_def)
qed

text \<open>What holds of an endpointer that has been fed \<open>src\<close> and whose last segment ended at \<open>cutAt\<close>.\<close>

definition ep_inv :: "sample list \<Rightarrow> int \<Rightarrow> energyEndpointer \<Rightarrow> bool" where
  "ep_inv src cutAt e \<longleftrightarrow> tuned (ep_rate e) (ep_tuning e) \<and> ep_total e = int (length src) \<and> length (ep_buf e) \<le> length src \<and>
     ep_buf e = drop (length src - length (ep_buf e)) src \<and> 0 \<le> cutAt \<and> cutAt \<le> int (length src) - int (length (ep_buf e)) \<and>
     int (length (ep_buf e)) \<le> MaxWindow (ep_tuning e) * ep_rate e div second + 1 \<and>
     (ep_sawSpeech e \<longrightarrow> ep_buf e \<noteq> []) \<and> (0 < ep_voicedRun e \<longrightarrow> ep_sawSpeech e)"

text \<open>A segment that ends where it says, is the slice of the source before that, and is no longer than a window.\<close>

definition segment_ok :: "sample list \<Rightarrow> int \<Rightarrow> STTTuning \<Rightarrow> int \<Rightarrow> speechSegment \<Rightarrow> bool" where
  "segment_ok src rate t cutAt s \<longleftrightarrow> sg_pcm s \<noteq> [] \<and> sg_end s \<le> int (length src) \<and> cutAt \<le> sg_end s - int (length (sg_pcm s)) \<and>
     sg_pcm s = take (length (sg_pcm s)) (drop (nat (sg_end s) - length (sg_pcm s)) src) \<and>
     int (length (sg_pcm s)) \<le> window_cap rate t"

lemma drop_suffix:
  assumes "b = drop (length src - length b) src" "length b \<le> length src" "keep \<le> length b"
  shows "drop (length b - keep) b = drop (length src - keep) src"
proof -
  have "drop (length b - keep) b = drop (length b - keep) (drop (length src - length b) src)"
    by (rule arg_cong [OF assms(1)])
  then show ?thesis using assms(2,3) by simp
qed

text \<open>After a chunk the buffer may exceed the window by the chunk; then \<open>cutReady\<close> empties it.\<close>

definition ep_fed :: "sample list \<Rightarrow> int \<Rightarrow> energyEndpointer \<Rightarrow> bool" where
  "ep_fed src cutAt e \<longleftrightarrow> tuned (ep_rate e) (ep_tuning e) \<and> ep_total e = int (length src) \<and> length (ep_buf e) \<le> length src \<and>
     ep_buf e = drop (length src - length (ep_buf e)) src \<and> 0 \<le> cutAt \<and> cutAt \<le> int (length src) - int (length (ep_buf e)) \<and>
     int (length (ep_buf e)) \<le> window_cap (ep_rate e) (ep_tuning e) \<and>
     (ep_sawSpeech e \<longrightarrow> ep_buf e \<noteq> []) \<and> (0 < ep_voicedRun e \<longrightarrow> ep_sawSpeech e)"

lemma fed_of_inv: "ep_inv src cutAt e \<Longrightarrow> ep_fed src cutAt e"
  using tuned_bounds [of "ep_rate e" "ep_tuning e"] by (auto simp: ep_inv_def ep_fed_def window_cap_def)

lemma trim_fed: "ep_fed src cutAt e \<Longrightarrow> \<not> ep_sawSpeech e \<Longrightarrow> ep_fed src cutAt (trimPreRoll e)"
proof -
  assume a: "ep_fed src cutAt e" "\<not> ep_sawSpeech e"
  have "ep_fed src cutAt (e\<lparr>ep_buf := drop (length (ep_buf e) - keep) (ep_buf e)\<rparr>)" if "keep \<le> length (ep_buf e)" for keep
  proof -
    let ?b = "ep_buf e"
    note i = a(1) [unfolded ep_fed_def]
    have "drop (length ?b - keep) ?b = drop (length src - keep) src" by (rule drop_suffix) (use i that in blast)+
    moreover have "length (drop (length ?b - keep) ?b) = keep" using that by simp
    ultimately show ?thesis using i that a(2) by (simp add: ep_fed_def)
  qed
  then show ?thesis using a by (auto simp: trimPreRoll_def Let_def)
qed

lemma append_fed:
  assumes "ep_inv src cutAt e" "chunk \<noteq> []" "int (length chunk) \<le> ep_rate e div 50"
  shows "ep_fed (src @ chunk) cutAt (appendChunk fl chunk e)"
proof -
  note i = assms(1) [unfolded ep_inv_def]
  have t: "tuned (ep_rate e) (ep_tuning e)" using i by blast
  have "length chunk \<le> 3840" using assms(3) tuned_bounds [OF t] by linarith
  then have d: "0 \<le> span_of (length chunk) (ep_rate e)"
    using span_small [OF t] tuned_bounds [OF t] by (simp add: pos_imp_zdiv_nonneg_iff)
  have b: "ep_buf e @ chunk = drop (length src - length (ep_buf e)) (src @ chunk)" using i by simp
  let ?e1 = "e\<lparr>ep_buf := ep_buf e @ chunk, ep_total := ep_total e + int (length chunk)\<rparr>"
  have f: "ep_fed (src @ chunk) cutAt (?e1\<lparr>ep_sawSpeech := s, ep_voicedRun := v, ep_silenceRun := q\<rparr>)" if "0 < v \<longrightarrow> s" for s v q
    using i b assms that by (auto simp: ep_fed_def window_cap_def)
  show ?thesis
  proof (cases "rms fl chunk \<ge> sttVoicedRMS fl")
    case True
    then show ?thesis using f [of _ True 0] by (simp add: appendChunk_def Let_def)
  next
    case False
    let ?e2 = "?e1\<lparr>ep_silenceRun := ep_silenceRun e + span_of (length chunk) (ep_rate e)\<rparr>"
    have "ep_fed (src @ chunk) cutAt ?e2" using f [of "ep_voicedRun e" "ep_sawSpeech e"] i by simp
    then show ?thesis using False trim_fed [of "src @ chunk" cutAt ?e2] by (simp add: appendChunk_def Let_def)
  qed
qed

lemma reset_inv: "ep_fed src cutAt e \<Longrightarrow> cutAt \<le> c \<Longrightarrow> c \<le> int (length src) \<Longrightarrow> ep_inv src c (ep_reset e)"
  using tuned_bounds [of "ep_rate e" "ep_tuning e"] by (auto simp: ep_inv_def ep_fed_def ep_reset_def pos_imp_zdiv_nonneg_iff)

lemma take_ok:
  assumes "ep_fed src cutAt e" "ep_sawSpeech e" "ep_take e = (s, e')"
  shows "segment_ok src (ep_rate e) (ep_tuning e) cutAt s" "ep_inv src (sg_end s) e'" "sg_end s = int (length src)"
proof -
  note i = assms(1) [unfolded ep_fed_def]
  have "ep_buf e = take (length (ep_buf e)) (drop (length src - length (ep_buf e)) src)"
    using i by (metis order_refl take_all)
  then show "segment_ok src (ep_rate e) (ep_tuning e) cutAt s"
    using assms(2,3) i by (auto simp: ep_take_def segment_ok_def)
  show "sg_end s = int (length src)" using assms(3) i by (auto simp: ep_take_def)
  then show "ep_inv src (sg_end s) e'" using assms(3) reset_inv [OF assms(1), of "int (length src)"] i by (auto simp: ep_take_def)
qed

lemma cut_segment_ok:
  assumes "ep_fed src cutAt e" "cutReady e = (s, e')"
  shows "case s of None \<Rightarrow> ep_inv src cutAt e'
    | Some seg \<Rightarrow> segment_ok src (ep_rate e) (ep_tuning e) cutAt seg \<and> ep_inv src (sg_end seg) e'"
proof (cases s)
  case None
  note i = assms(1) [unfolded ep_fed_def]
  have small: "int (length (ep_buf e)) \<le> 6000000" using i window_cap_small by fastforce
  from None assms(2) have "e' = e \<and> span_of (length (ep_buf e)) (ep_rate e) < MaxWindow (ep_tuning e) \<or> e' = ep_reset e"
    by (auto simp: cutReady_def Let_def split: if_splits prod.splits)
  then have "ep_inv src cutAt e'"
  proof
    assume "e' = e \<and> span_of (length (ep_buf e)) (ep_rate e) < MaxWindow (ep_tuning e)"
    then show ?thesis using i span_below [of "ep_rate e" "ep_tuning e" "length (ep_buf e)"] small by (simp add: ep_inv_def)
  qed (use reset_inv [OF assms(1), of cutAt] i in auto)
  then show ?thesis by (simp add: None)
next
  case (Some seg)
  then have "ep_sawSpeech e" "ep_take e = (seg, e')"
    using assms(2) by (auto simp: cutReady_def Let_def split: if_splits prod.splits)
  from take_ok [OF assms(1) this] Some show ?thesis by simp
qed

lemma append_settings [simp]: "ep_rate (appendChunk fl c e) = ep_rate e" "ep_tuning (appendChunk fl c e) = ep_tuning e"
  by (simp_all add: appendChunk_def trimPreRoll_def Let_def)

lemma cut_settings: "cutReady e = (s, e') \<Longrightarrow> ep_rate e' = ep_rate e \<and> ep_tuning e' = ep_tuning e"
  by (auto simp: cutReady_def ep_take_def ep_reset_def Let_def split: if_splits)

lemma push_settings: "push_frames fl f ss e = (out, e') \<Longrightarrow> ep_rate e' = ep_rate e \<and> ep_tuning e' = ep_tuning e"
proof (induction fl f ss e arbitrary: out e' rule: push_frames.induct)
    case (1 fl f ss e)
    show ?case
    proof (cases "ss = [] \<or> f = 0")
      case True
      then show ?thesis using "1.prems" by (simp add: push_frames.simps)
    next
      case False
      obtain s e1 where c: "cutReady (appendChunk fl (take f ss) e) = (s, e1)" by fastforce
      obtain o2 e2 where r: "push_frames fl f (drop f ss) e1 = (o2, e2)" by fastforce
      have "e' = e2" using "1.prems" False c r by (simp add: push_frames.simps [of fl f ss e] split: option.splits)
      then show ?thesis using "1.IH" [OF False c [symmetric] r] cut_settings [OF c] by simp
  qed
qed

text \<open>The segments of a push, each within the source and after the one before.\<close>

fun segments_ok :: "sample list \<Rightarrow> int \<Rightarrow> STTTuning \<Rightarrow> int \<Rightarrow> speechSegment list \<Rightarrow> bool" where
  "segments_ok src rate t cutAt [] = True"
| "segments_ok src rate t cutAt (s # ss) \<longleftrightarrow> segment_ok src rate t cutAt s \<and> segments_ok src rate t (sg_end s) ss"

definition last_cut :: "int \<Rightarrow> speechSegment list \<Rightarrow> int" where
  "last_cut cutAt ss = (if ss = [] then cutAt else sg_end (last ss))"

lemma segment_ok_longer: "segment_ok src rate t c s \<Longrightarrow> segment_ok (src @ more') rate t c s"
proof -
  assume a: "segment_ok src rate t c s"
  then have "sg_pcm s = take (length (sg_pcm s)) (drop (nat (sg_end s) - length (sg_pcm s)) src)" by (simp add: segment_ok_def)
  from arg_cong [OF this, of length] have "length (sg_pcm s) \<le> length src - (nat (sg_end s) - length (sg_pcm s))" by simp
  then show ?thesis using a by (simp add: segment_ok_def)
qed

lemma segments_ok_longer: "segments_ok src rate t c ss \<Longrightarrow> segments_ok (src @ more') rate t c ss"
  by (induction src rate t c ss rule: segments_ok.induct) (auto simp: segment_ok_longer)

lemma segments_ok_append: "segments_ok src rate t c (xs @ ys) \<longleftrightarrow> segments_ok src rate t c xs \<and> segments_ok src rate t (last_cut c xs) ys"
  by (induction src rate t c xs rule: segments_ok.induct) (auto simp: last_cut_def)

lemma cut_end: "ep_fed src cutAt e \<Longrightarrow> cutReady e = (Some seg, e') \<Longrightarrow> sg_end seg = int (length src)"
  by (auto simp: cutReady_def ep_take_def ep_fed_def Let_def split: if_splits)

lemma push_ok:
  assumes "ep_inv src cutAt e" "frame = frame_size e" "push_frames fl frame ss e = (out, e')"
  shows "segments_ok (src @ ss) (ep_rate e) (ep_tuning e) cutAt out \<and> ep_inv (src @ ss) (last_cut cutAt out) e' \<and>
    (\<forall>s \<in> set out. int (length src) < sg_end s)"
  using assms
proof (induction fl frame ss e arbitrary: src cutAt out e' rule: push_frames.induct)
  case (1 fl frame ss e)
  have t: "tuned (ep_rate e) (ep_tuning e)" using "1.prems"(1) by (simp add: ep_inv_def)
  have frame: "int frame = ep_rate e div 50" "0 < frame"
    using "1.prems"(2) tuned_bounds [OF t] by (simp_all add: frame_size_def go_div_nonneg)
  show ?case
  proof (cases "ss = []")
    case True
    then show ?thesis using "1.prems" by (simp add: push_frames.simps last_cut_def)
  next
    case False
    then have go: "\<not> (ss = [] \<or> frame = 0)" using frame by simp
    obtain s e1 where c: "cutReady (appendChunk fl (take frame ss) e) = (s, e1)" by fastforce
    obtain o2 e2 where r: "push_frames fl frame (drop frame ss) e1 = (o2, e2)" by fastforce
    have fed: "ep_fed (src @ take frame ss) cutAt (appendChunk fl (take frame ss) e)"
      by (rule append_fed [OF "1.prems"(1)]) (use False frame in auto)
    have set: "ep_rate e1 = ep_rate e" "ep_tuning e1 = ep_tuning e" using cut_settings [OF c] by simp_all
    have fr: "frame = frame_size e1" using "1.prems"(2) set by (simp add: frame_size_def)
    have src: "(src @ take frame ss) @ drop frame ss = src @ ss" by simp
    have res: "out = (case s of None \<Rightarrow> o2 | Some seg \<Rightarrow> seg # o2)" "e' = e2"
      using "1.prems"(3) go c r by (auto simp: push_frames.simps [of fl frame ss e] split: option.splits)
    have longer: "length src < length (src @ take frame ss)" using False frame by (cases ss) auto
    show ?thesis
    proof (cases s)
      case None
      then have "ep_inv (src @ take frame ss) cutAt e1" using cut_segment_ok [OF fed c] by simp
      from "1.IH" [OF go c [symmetric] this fr r] src res None set longer show ?thesis by fastforce
    next
      case (Some seg)
      then have k: "segment_ok (src @ take frame ss) (ep_rate e) (ep_tuning e) cutAt seg" "ep_inv (src @ take frame ss) (sg_end seg) e1"
        using cut_segment_ok [OF fed c] by simp_all
      have e: "sg_end seg = int (length (src @ take frame ss))" using cut_end [OF fed c [unfolded Some]] by simp
      from "1.IH" [OF go c [symmetric] k(2) fr r] src set
      have "segments_ok (src @ ss) (ep_rate e) (ep_tuning e) (sg_end seg) o2 \<and> ep_inv (src @ ss) (last_cut (sg_end seg) o2) e2 \<and>
          (\<forall>s \<in> set o2. int (length src) < sg_end s)" using longer by fastforce
      moreover have "segment_ok (src @ ss) (ep_rate e) (ep_tuning e) cutAt seg" using segment_ok_longer [OF k(1), of "drop frame ss"] src by simp
      ultimately show ?thesis using res Some e longer by (cases "o2 = []") (simp_all add: last_cut_def)
    qed
  qed
qed

section \<open>What whisper answers\<close>

text \<open>The first rune that satisfies a predicate, with what precedes and follows it.\<close>

definition split_at :: "(rune \<Rightarrow> bool) \<Rightarrow> gostr \<Rightarrow> (gostr \<times> rune \<times> gostr) option" where
  "split_at p s = (case dropWhile (\<lambda>r. \<not> p r) s of [] \<Rightarrow> None | r # rest \<Rightarrow> Some (takeWhile (\<lambda>r. \<not> p r) s, r, rest))"

lemma split_at_Some: "split_at p s = Some (a, r, b) \<Longrightarrow> s = a @ r # b \<and> p r"
  using takeWhile_dropWhile_id [of "\<lambda>r. \<not> p r" s] hd_dropWhile [of "\<lambda>r. \<not> p r" s]
  by (cases "dropWhile (\<lambda>r. \<not> p r) s") (auto simp: split_at_def)

text \<open>The loop of \<open>nonSpeechOnly\<close>: brackets and what they enclose are cut out until one is not closed.\<close>

function strip_markers :: "gostr \<Rightarrow> gostr" where
  "strip_markers rest =
     (case split_at (\<lambda>r. r = 91 \<or> r = 40) rest of
        None \<Rightarrow> rest
      | Some (before, opener, tail) \<Rightarrow>
          (case split_at (\<lambda>r. r = (if opener = 40 then 41 else 93)) tail of
             None \<Rightarrow> rest
           | Some (_, _, after') \<Rightarrow> strip_markers (before @ after')))"
  by pat_completeness auto
termination
  by (relation "measure length") (auto dest!: split_at_Some)

declare strip_markers.simps [simp del]

definition nonSpeechOnly :: "gostr \<Rightarrow> bool" where
  "nonSpeechOnly txt \<longleftrightarrow> trim_space (strip_markers txt) = [] \<and> trim_space txt \<noteq> []"

fun firstNonAuto :: "gostr list \<Rightarrow> gostr" where
  "firstNonAuto [] = []"
| "firstNonAuto (tag # tags) = (if tag \<noteq> [] \<and> tag \<noteq> languageAuto then tag else firstNonAuto tags)"

definition whisper_text :: "gostr \<Rightarrow> gostr" where
  "whisper_text raw = (let t = trim_space raw in if nonSpeechOnly t then [] else t)"

record stt_line =
  ln_final :: bool
  ln_text :: gostr
  ln_lang :: gostr
  ln_end :: int

text \<open>\<open>transcribe\<close>: \<open>None\<close> is the error that ends the worker; a line that cannot be written counts as a failed inference.\<close>

definition transcribe :: "gostr \<Rightarrow> inference \<Rightarrow> speechSegment \<Rightarrow> stt_line option" where
  "transcribe lang r s =
     (case r of
        InferenceFailed \<Rightarrow> None
      | UnsafeText \<Rightarrow> Some \<lparr>ln_final = True, ln_text = [], ln_lang = firstNonAuto [lang, []], ln_end = sg_end s\<rparr>
      | Inferred raw detected \<Rightarrow>
          Some \<lparr>ln_final = True, ln_text = whisper_text raw, ln_lang = firstNonAuto [lang, detected], ln_end = sg_end s\<rparr>)"

text \<open>\<open>partial\<close>: an unsafe or failed revision writes nothing.\<close>

definition partial_line :: "gostr \<Rightarrow> inference \<Rightarrow> speechSegment \<Rightarrow> stt_line list" where
  "partial_line lang r s =
     (case r of
        Inferred raw detected \<Rightarrow>
          [\<lparr>ln_final = False, ln_text = whisper_text raw, ln_lang = firstNonAuto [lang, detected], ln_end = sg_end s\<rparr>]
      | _ \<Rightarrow> [])"

section \<open>Reader and worker\<close>

datatype read_end = ReadEOF | ReadFailed

datatype stt_result = SttOk | SttTruncated | SttReadFailed | SttWorkerFailed

text \<open>\<open>RSubmit\<close> is before the entry test of \<open>submit\<close>, \<open>RSubmitted\<close> before its exit test; \<open>RLast\<close> and \<open>RLasted\<close> are
  the same for the flushed segment.\<close>

datatype reader =
    RReading
  | RSubmit "speechSegment list" "read_end option"
  | RSubmitted "speechSegment list" "read_end option"
  | RFinish read_end
  | RLast speechSegment read_end
  | RLasted read_end
  | RClose stt_result
  | RWait stt_result
  | RExited stt_result

datatype stt_worker = WTaking | WFinal speechSegment | WLive speechSegment | WExited bool

text \<open>\<open>st_src\<close> and \<open>st_cut\<close> only record what was decoded and cut so far.\<close>

record stt =
  st_dec :: s16StreamDecoder
  st_ep :: energyEndpointer
  st_reader :: reader
  st_finals :: "speechSegment list"
  st_live :: "speechSegment option"
  st_closed :: bool
  st_worker :: stt_worker
  st_lastFinalEnd :: int
  st_out :: "stt_line list"
  st_src :: "sample list"
  st_cut :: "speechSegment list"

definition stt_start :: "int \<Rightarrow> STTTuning \<Rightarrow> stt" where
  "stt_start rate t = \<lparr>st_dec = \<lparr>dc_trailing = 0, dc_pending = False\<rparr>, st_ep = new_endpointer rate t, st_reader = RReading,
     st_finals = [], st_live = None, st_closed = False, st_worker = WTaking, st_lastFinalEnd = 0, st_out = [], st_src = [], st_cut = []\<rparr>"

definition read_result :: "read_end \<Rightarrow> stt_result" where
  "read_result x = (case x of ReadEOF \<Rightarrow> SttOk | ReadFailed \<Rightarrow> SttReadFailed)"

definition dead :: "stt \<Rightarrow> bool" where
  "dead s \<longleftrightarrow> (case st_worker s of WExited _ \<Rightarrow> True | _ \<Rightarrow> False)"

definition stt_publish :: "stt \<Rightarrow> stt" where
  "stt_publish s =
     (if ep_sawSpeech (st_ep s) then s\<lparr>st_live := Some \<lparr>sg_pcm = ep_buf (st_ep s), sg_end = ep_total (st_ep s)\<rparr>\<rparr> else s)"

definition stt_finish :: "read_end \<Rightarrow> stt \<Rightarrow> stt" where
  "stt_finish x s =
     (if dc_pending (st_dec s) then s\<lparr>st_reader := RClose SttTruncated\<rparr>
      else case ep_flush (st_ep s) of
        (None, e) \<Rightarrow> s\<lparr>st_ep := e, st_reader := RClose (read_result x)\<rparr>
      | (Some seg, e) \<Rightarrow> s\<lparr>st_ep := e, st_cut := st_cut s @ [seg], st_reader := RLast seg x\<rparr>)"

text \<open>The language the helper was started with, the arithmetic and the parsers. What a request came back with is free.\<close>

record stt_env =
  ev_fl :: float_sqrt
  ev_unicode :: unicode
  ev_parsers :: answer_parsers
  ev_lang :: gostr

definition infer :: "stt_env \<Rightarrow> answer option \<Rightarrow> inference" where
  "infer ev resp = whisperTranscribe (ev_unicode ev) (ev_parsers ev) resp"

inductive stt_step :: "stt_env \<Rightarrow> stt \<Rightarrow> stt \<Rightarrow> bool" for ev where
  reads: "st_reader s = RReading \<Longrightarrow> sd_decode data (st_dec s) = (ss, d) \<Longrightarrow> ep_push (ev_fl ev) ss (st_ep s) = Some (segs, e) \<Longrightarrow>
    stt_step ev s (s\<lparr>st_dec := d, st_ep := e, st_reader := RSubmit segs r, st_src := st_src s @ ss, st_cut := st_cut s @ segs\<rparr>)"
| submits: "st_reader s = RSubmit (seg # segs) r \<Longrightarrow> \<not> dead s \<Longrightarrow>
    stt_step ev s (s\<lparr>st_finals := st_finals s @ [seg], st_reader := RSubmitted segs r\<rparr>)"
| refuses: "st_reader s = RSubmit (seg # segs) r \<Longrightarrow> dead s \<Longrightarrow> stt_step ev s (s\<lparr>st_reader := RClose SttWorkerFailed\<rparr>)"
| submitted: "st_reader s = RSubmitted segs r \<Longrightarrow>
    stt_step ev s (s\<lparr>st_reader := if dead s then RClose SttWorkerFailed else RSubmit segs r\<rparr>)"
| publishes: "st_reader s = RSubmit [] r \<Longrightarrow>
    stt_step ev s ((stt_publish s)\<lparr>st_reader := case r of None \<Rightarrow> RReading | Some x \<Rightarrow> RFinish x\<rparr>)"
| finishes: "st_reader s = RFinish x \<Longrightarrow> stt_step ev s (stt_finish x s)"
| last_submits: "st_reader s = RLast seg x \<Longrightarrow> \<not> dead s \<Longrightarrow>
    stt_step ev s (s\<lparr>st_finals := st_finals s @ [seg], st_reader := RLasted x\<rparr>)"
| last_refuses: "st_reader s = RLast seg x \<Longrightarrow> dead s \<Longrightarrow> stt_step ev s (s\<lparr>st_reader := RClose SttWorkerFailed\<rparr>)"
| lasted: "st_reader s = RLasted x \<Longrightarrow>
    stt_step ev s (s\<lparr>st_reader := RClose (if dead s then SttWorkerFailed else read_result x)\<rparr>)"
| closes: "st_reader s = RClose v \<Longrightarrow> stt_step ev s (s\<lparr>st_closed := True, st_reader := RWait v\<rparr>)"
| exits: "st_reader s = RWait v \<Longrightarrow> dead s \<Longrightarrow>
    stt_step ev s (s\<lparr>st_reader := RExited (if st_worker s = WExited True then SttWorkerFailed else v)\<rparr>)"
| takes_final: "st_worker s = WTaking \<Longrightarrow> st_finals s = seg # rest \<Longrightarrow>
    stt_step ev s (s\<lparr>st_worker := WFinal seg, st_finals := rest\<rparr>)"
| takes_live: "st_worker s = WTaking \<Longrightarrow> st_finals s = [] \<Longrightarrow> st_live s = Some seg \<Longrightarrow> \<not> st_closed s \<Longrightarrow>
    stt_step ev s (s\<lparr>st_worker := WLive seg, st_live := None\<rparr>)"
| takes_none: "st_worker s = WTaking \<Longrightarrow> st_finals s = [] \<Longrightarrow> st_closed s \<Longrightarrow> stt_step ev s (s\<lparr>st_worker := WExited False\<rparr>)"
| finals: "st_worker s = WFinal seg \<Longrightarrow> transcribe (ev_lang ev) (infer ev resp) seg = Some line \<Longrightarrow>
    stt_step ev s (s\<lparr>st_out := st_out s @ [line], st_lastFinalEnd := sg_end seg, st_worker := WTaking\<rparr>)"
| fails: "st_worker s = WFinal seg \<Longrightarrow> transcribe (ev_lang ev) (infer ev resp) seg = None \<Longrightarrow> stt_step ev s (s\<lparr>st_worker := WExited True\<rparr>)"
| partials: "st_worker s = WLive seg \<Longrightarrow>
    stt_step ev s (s\<lparr>st_out := st_out s @ (if sg_end seg > st_lastFinalEnd s then partial_line (ev_lang ev) (infer ev resp) seg else []),
      st_worker := WTaking\<rparr>)"

section \<open>Lines are in source order\<close>

definition pending_of :: "stt \<Rightarrow> speechSegment list" where
  "pending_of s = (case st_reader s of RSubmit segs _ \<Rightarrow> segs | RSubmitted segs _ \<Rightarrow> segs | RLast seg _ \<Rightarrow> [seg] | _ \<Rightarrow> [])"

definition busy_final :: "stt \<Rightarrow> speechSegment list" where
  "busy_final s = (case st_worker s of WFinal seg \<Rightarrow> [seg] | _ \<Rightarrow> [])"

definition busy_live :: "stt \<Rightarrow> speechSegment list" where
  "busy_live s = (case st_worker s of WLive seg \<Rightarrow> if sg_end seg > st_lastFinalEnd s then [seg] else [] | _ \<Rightarrow> [])"

text \<open>The boundaries written, being decoded, queued and about to be queued.\<close>

definition boundaries :: "stt \<Rightarrow> int list" where
  "boundaries s = map ln_end (st_out s) @ map sg_end (busy_final s @ busy_live s @ st_finals s @ pending_of s)"

definition live_ok :: "stt \<Rightarrow> speechSegment \<Rightarrow> bool" where
  "live_ok s x \<longleftrightarrow> 0 \<le> sg_end x \<and> sg_end x \<le> ep_total (st_ep s) \<and> (\<forall>p \<in> set (pending_of s). sg_end x \<le> sg_end p) \<and>
     (\<forall>l \<in> set (st_out s). \<not> ln_final l \<longrightarrow> ln_end l \<le> sg_end x) \<and> (\<forall>y. st_worker s = WLive y \<longrightarrow> sg_end y \<le> sg_end x)"

definition source_inv :: "stt \<Rightarrow> bool" where
  "source_inv s \<longleftrightarrow> ep_inv (st_src s) (last_cut 0 (st_cut s)) (st_ep s) \<and>
     segments_ok (st_src s) (ep_rate (st_ep s)) (ep_tuning (st_ep s)) 0 (st_cut s)"

definition order_inv :: "stt \<Rightarrow> bool" where
  "order_inv s \<longleftrightarrow> sorted (boundaries s) \<and> (\<forall>x \<in> set (boundaries s). 0 \<le> x \<and> x \<le> ep_total (st_ep s)) \<and>
     (\<forall>l \<in> set (st_out s). ln_final l \<longrightarrow> ln_end l \<le> st_lastFinalEnd s) \<and>
     (\<forall>y. st_worker s = WLive y \<longrightarrow> 0 \<le> sg_end y \<and> sg_end y \<le> ep_total (st_ep s)) \<and>
     (\<forall>x. st_live s = Some x \<longrightarrow> live_ok s x)"

lemma segments_bounds: "segments_ok src rate t c ss \<Longrightarrow> 0 \<le> c \<Longrightarrow>
    sorted (map sg_end ss) \<and> (\<forall>s \<in> set ss. c \<le> sg_end s \<and> sg_end s \<le> int (length src))"
proof (induction src rate t c ss rule: segments_ok.induct)
  case (2 src rate t c s ss)
  then have "c \<le> sg_end s" by (simp add: segment_ok_def)
  then show ?case using 2 by (fastforce simp: segment_ok_def)
qed simp

lemma flush_ok:
  assumes "ep_inv src cutAt e" "ep_flush e = (s, e')"
  shows "ep_rate e' = ep_rate e \<and> ep_tuning e' = ep_tuning e \<and> ep_total e' = ep_total e \<and>
    (case s of None \<Rightarrow> ep_inv src cutAt e'
     | Some seg \<Rightarrow> segment_ok src (ep_rate e) (ep_tuning e) cutAt seg \<and> ep_inv src (sg_end seg) e' \<and> sg_end seg = ep_total e)"
proof -
  have fed: "ep_fed src cutAt e" by (rule fed_of_inv [OF assms(1)])
  have c: "cutAt \<le> int (length src)" "ep_total e = int (length src)" using assms(1) by (auto simp: ep_inv_def)
  show ?thesis
  proof (cases s)
    case None
    then show ?thesis using assms(2) reset_inv [OF fed order_refl c(1)]
      by (auto simp: ep_flush_def ep_take_def ep_reset_def split: if_splits)
  next
    case (Some seg)
    then have t: "ep_sawSpeech e" "ep_take e = (seg, e')" using assms(2) by (auto simp: ep_flush_def split: if_splits prod.splits)
    have "ep_rate e' = ep_rate e \<and> ep_tuning e' = ep_tuning e \<and> ep_total e' = ep_total e"
      using t(2) by (auto simp: ep_take_def ep_reset_def)
    then show ?thesis using take_ok [OF fed t] Some c(2) by simp
  qed
qed

lemma push_total:
  assumes "ep_inv src cutAt e" "ep_push fl ss e = Some (segs, e')"
  shows "segments_ok (src @ ss) (ep_rate e) (ep_tuning e) cutAt segs" "ep_inv (src @ ss) (last_cut cutAt segs) e'"
    "\<forall>s \<in> set segs. ep_total e < sg_end s \<and> sg_end s \<le> ep_total e'" "sorted (map sg_end segs)" "ep_total e \<le> ep_total e'"
    "ep_rate e' = ep_rate e" "ep_tuning e' = ep_tuning e"
proof -
  have p: "push_frames fl (frame_size e) ss e = (segs, e')" using assms(2) by (auto simp: ep_push_def split: if_splits)
  from push_ok [OF assms(1) refl p] show k: "segments_ok (src @ ss) (ep_rate e) (ep_tuning e) cutAt segs"
    and i: "ep_inv (src @ ss) (last_cut cutAt segs) e'" by auto
  have c: "0 \<le> cutAt" "ep_total e = int (length src)" "ep_total e' = int (length (src @ ss))"
    using assms(1) i by (auto simp: ep_inv_def)
  then show "\<forall>s \<in> set segs. ep_total e < sg_end s \<and> sg_end s \<le> ep_total e'" "sorted (map sg_end segs)" "ep_total e \<le> ep_total e'"
    using push_ok [OF assms(1) refl p] segments_bounds [OF k] by auto
  show "ep_rate e' = ep_rate e" "ep_tuning e' = ep_tuning e" using push_settings [OF p] by auto
qed

lemma source_step: assumes "stt_step ev s s'" "source_inv s" shows "source_inv s'"
  using assms(1)
proof cases
  case (reads data ss d segs e r)
  note p = push_total [OF conjunct1 [OF assms(2) [unfolded source_inv_def]] reads(4)]
  have l: "last_cut (last_cut 0 (st_cut s)) segs = last_cut 0 (st_cut s @ segs)" by (auto simp: last_cut_def)
  show ?thesis using p assms(2) segments_ok_longer [of "st_src s" _ _ 0 "st_cut s" ss]
    by (simp add: reads(1) source_inv_def segments_ok_append l)
next
  case publishes
  then show ?thesis using assms(2) by (simp add: source_inv_def stt_publish_def)
next
  case (finishes x)
  show ?thesis
  proof (cases "dc_pending (st_dec s)")
    case True
    then show ?thesis using assms(2) by (simp add: finishes(1) stt_finish_def source_inv_def)
  next
    case False
    obtain f e where f: "ep_flush (st_ep s) = (f, e)" by fastforce
    from flush_ok [OF conjunct1 [OF assms(2) [unfolded source_inv_def]] f] assms(2) f False show ?thesis
      by (cases f) (auto simp: finishes(1) stt_finish_def source_inv_def segments_ok_append last_cut_def)
  qed
qed (use assms(2) in \<open>simp_all add: source_inv_def\<close>)

lemma total_len: "source_inv s \<Longrightarrow> ep_total (st_ep s) = int (length (st_src s))"
  by (simp add: source_inv_def ep_inv_def)

lemma ends_transcribe: "transcribe lang r seg = Some l \<Longrightarrow> ln_end l = sg_end seg \<and> ln_final l"
  by (auto simp: transcribe_def split: inference.splits)

lemma ends_partial: "l \<in> set (partial_line lang r seg) \<Longrightarrow> ln_end l = sg_end seg \<and> \<not> ln_final l"
  by (auto simp: partial_line_def split: inference.splits)

lemma partial_cases: "partial_line lang r seg = [] \<or> (\<exists>l. partial_line lang r seg = [l] \<and> ln_end l = sg_end seg \<and> \<not> ln_final l)"
  by (auto simp: partial_line_def split: inference.splits)

lemma subseq_elems: "subseq xs ys \<Longrightarrow> set xs \<subseteq> set ys"
  by (auto dest: list_emb_set)

lemma sorted_subseq: "subseq xs ys \<Longrightarrow> sorted ys \<Longrightarrow> sorted (xs :: int list)"
proof (induction rule: list_emb.induct)
  case (list_emb_Cons2 x y xs ys)
  then show ?case using subseq_elems [OF list_emb_Cons2(2)] by auto
qed simp_all

lemma subseq_skip: "subseq (a @ c) (a @ b @ c)"
  by (induction a) (simp_all add: list_emb_append2)

text \<open>Steps that move boundaries along or drop some, and leave the endpointer and the live slot.\<close>

lemma order_frame:
  assumes "order_inv s" "subseq (boundaries s') (boundaries s)" "ep_total (st_ep s') = ep_total (st_ep s)"
    and "st_out s' = st_out s" "st_lastFinalEnd s' = st_lastFinalEnd s" "st_live s' = st_live s"
    and "\<And>y. st_worker s' = WLive y \<Longrightarrow> st_worker s = WLive y" "set (pending_of s') \<subseteq> set (pending_of s)"
  shows "order_inv s'"
proof -
  have "sorted (boundaries s')" using sorted_subseq [OF assms(2)] assms(1) by (auto simp: order_inv_def)
  moreover have "set (boundaries s') \<subseteq> set (boundaries s)" using assms(2) by (auto dest: subseq_elems)
  ultimately show ?thesis using assms by (fastforce simp: order_inv_def live_ok_def)
qed

lemma busy_cong:
  "st_worker s' = st_worker s \<Longrightarrow> st_lastFinalEnd s' = st_lastFinalEnd s \<Longrightarrow> busy_final s' = busy_final s \<and> busy_live s' = busy_live s"
  by (simp add: busy_final_def busy_live_def split: stt_worker.split)

text \<open>Steps of the reader alone.\<close>

lemma order_reader:
  assumes "order_inv s" "pending_of s' = [] \<or> pending_of s' = pending_of s" "st_out s' = st_out s" "st_worker s' = st_worker s"
    and "st_finals s' = st_finals s" "st_live s' = st_live s" "st_lastFinalEnd s' = st_lastFinalEnd s"
    and "ep_total (st_ep s') = ep_total (st_ep s)"
  shows "order_inv s'"
proof (rule order_frame [OF assms(1)])
  let ?pre = "map ln_end (st_out s) @ map sg_end (busy_final s @ busy_live s @ st_finals s)"
  have "boundaries s = ?pre @ map sg_end (pending_of s)" "boundaries s' = ?pre @ map sg_end (pending_of s')"
    using busy_cong [OF assms(4,7)] assms(3,5) by (simp_all add: boundaries_def)
  then show "subseq (boundaries s') (boundaries s)" using assms(2) by (auto intro: subseq_rev_drop_many)
qed (use assms in auto)

lemma order_step: assumes "stt_step ev s s'" "source_inv s" "order_inv s" shows "order_inv s'"
  using assms(1)
proof cases
  case (reads data ss d segs e r)
  note p = push_total [OF conjunct1 [OF assms(2) [unfolded source_inv_def]] reads(4)]
  have q: "pending_of s = []" by (simp add: pending_of_def reads(2))
  note o' = assms(3) [unfolded order_inv_def]
  have "boundaries s' = boundaries s @ map sg_end segs"
    by (simp add: reads(1) boundaries_def q) (simp add: pending_of_def busy_final_def busy_live_def split: stt_worker.split)
  moreover have "sorted (boundaries s @ map sg_end segs)" using o' p(3,4) by (force simp: sorted_append)
  ultimately have b: "sorted (boundaries s')" "boundaries s' = boundaries s @ map sg_end segs" by simp_all
  have f: "st_out s' = st_out s" "st_lastFinalEnd s' = st_lastFinalEnd s" "st_live s' = st_live s" "st_worker s' = st_worker s"
    "ep_total (st_ep s) \<le> ep_total (st_ep s')" "pending_of s' = segs" "st_ep s' = e" using p(5) by (simp_all add: reads(1) pending_of_def)
  have "\<forall>x \<in> set (boundaries s'). 0 \<le> x \<and> x \<le> ep_total (st_ep s')" using o' p(3) f total_len [OF assms(2)] unfolding b(2) by force
  moreover have "live_ok s' x" if "st_live s = Some x" for x
  proof -
    have "live_ok s x" using o' that by blast
    then show ?thesis using f p(3) by (force simp: live_ok_def)
  qed
  moreover have "\<forall>y. st_worker s = WLive y \<longrightarrow> 0 \<le> sg_end y \<and> sg_end y \<le> ep_total (st_ep s')" using o' f(5) by fastforce
  ultimately show ?thesis using o' b(1) unfolding order_inv_def f(1-4) by blast
next
  case (submits seg segs r)
  have "boundaries s' = boundaries s"
    by (simp add: submits(1) boundaries_def pending_of_def submits(2) busy_final_def busy_live_def split: stt_worker.split)
  then show ?thesis by (intro order_frame [OF assms(3)]) (auto simp: submits(1,2) pending_of_def)
next
  case (refuses seg segs r)
  show ?thesis by (rule order_reader [OF assms(3)]) (simp_all add: refuses(1) pending_of_def)
next
  case (submitted segs r)
  show ?thesis by (rule order_reader [OF assms(3)]) (simp_all add: submitted(1) pending_of_def submitted(2))
next
  case (publishes r)
  have q: "pending_of s = []" "pending_of s' = []" by (simp_all add: publishes(1) pending_of_def publishes(2) split: option.split)
  have b: "boundaries s' = boundaries s"
    unfolding boundaries_def q by (simp add: publishes(1) stt_publish_def busy_final_def busy_live_def split: stt_worker.split)
  note o' = assms(3) [unfolded order_inv_def]
  have out: "\<forall>l \<in> set (st_out s). ln_end l \<le> ep_total (st_ep s)" using o' by (simp add: boundaries_def)
  have f: "st_out s' = st_out s" "st_worker s' = st_worker s" "st_ep s' = st_ep s" "st_lastFinalEnd s' = st_lastFinalEnd s"
    by (simp_all add: publishes(1) stt_publish_def)
  show ?thesis
  proof (cases "ep_sawSpeech (st_ep s)")
    case True
    have "live_ok s' \<lparr>sg_pcm = ep_buf (st_ep s), sg_end = ep_total (st_ep s)\<rparr>"
      unfolding live_ok_def q f using out o' total_len [OF assms(2)] by auto
    moreover have "st_live s' = Some \<lparr>sg_pcm = ep_buf (st_ep s), sg_end = ep_total (st_ep s)\<rparr>"
      using True by (simp add: publishes(1) stt_publish_def)
    ultimately show ?thesis using o' unfolding order_inv_def b f by auto
  next
    case False
    then have "st_live s' = st_live s" by (simp add: publishes(1) stt_publish_def)
    then show ?thesis by (intro order_frame [OF assms(3)]) (auto simp: b f q)
  qed
next
  case (finishes x)
  have q: "pending_of s = []" by (simp add: pending_of_def finishes(2))
  note o' = assms(3) [unfolded order_inv_def]
  show ?thesis
  proof (cases "\<not> dc_pending (st_dec s) \<and> (\<exists>seg. fst (ep_flush (st_ep s)) = Some seg)")
    case False
    obtain f e where f: "ep_flush (st_ep s) = (f, e)" by fastforce
    have t: "ep_total e = ep_total (st_ep s)" using flush_ok [OF conjunct1 [OF assms(2) [unfolded source_inv_def]] f] by simp
    have "\<exists>e' v. s' = s\<lparr>st_ep := e', st_reader := RClose v\<rparr> \<and> ep_total e' = ep_total (st_ep s)"
    proof (cases "dc_pending (st_dec s)")
      case True
      then have "s' = s\<lparr>st_ep := st_ep s, st_reader := RClose SttTruncated\<rparr>" by (simp add: finishes(1) stt_finish_def)
      then show ?thesis by blast
    next
      case read: False
      then have "f = None" using False f by (cases f) simp_all
      then have "s' = s\<lparr>st_ep := e, st_reader := RClose (read_result x)\<rparr>" using read f by (simp add: finishes(1) stt_finish_def)
      then show ?thesis using t by blast
    qed
    then obtain e' v where s': "s' = s\<lparr>st_ep := e', st_reader := RClose v\<rparr>" "ep_total e' = ep_total (st_ep s)" by blast
    show ?thesis by (rule order_reader [OF assms(3)]) (simp_all add: s' pending_of_def)
  next
    case True
    then obtain seg e where f: "ep_flush (st_ep s) = (Some seg, e)" by (cases "ep_flush (st_ep s)") auto
    have t: "ep_total e = ep_total (st_ep s)" "sg_end seg = ep_total (st_ep s)"
      using flush_ok [OF conjunct1 [OF assms(2) [unfolded source_inv_def]] f] by simp_all
    have s': "s' = s\<lparr>st_ep := e, st_cut := st_cut s @ [seg], st_reader := RLast seg x\<rparr>" using True f by (simp add: finishes(1) stt_finish_def)
    have b: "boundaries s' = boundaries s @ [sg_end seg]" "pending_of s' = [seg]"
      using q by (simp_all add: s' boundaries_def pending_of_def busy_final_def busy_live_def split: stt_worker.split)
    have f: "st_out s' = st_out s" "st_lastFinalEnd s' = st_lastFinalEnd s" "st_live s' = st_live s" "st_worker s' = st_worker s"
      "ep_total (st_ep s') = ep_total (st_ep s)" using t by (simp_all add: s')
    have "sorted (boundaries s @ [sg_end seg])" using o' t by (force simp: sorted_append)
    moreover have "\<forall>x \<in> set (boundaries s @ [sg_end seg]). 0 \<le> x \<and> x \<le> ep_total (st_ep s)" using o' t total_len [OF assms(2)] by auto
    moreover have "live_ok s' x" if "st_live s = Some x" for x
    proof -
      have "live_ok s x" using o' that by blast
      then show ?thesis unfolding live_ok_def b(2) f using t by simp
    qed
    ultimately show ?thesis using o' unfolding order_inv_def b(1) f by blast
  qed
next
  case (last_submits seg x)
  have "boundaries s' = boundaries s"
    by (simp add: last_submits(1) boundaries_def pending_of_def last_submits(2) busy_final_def busy_live_def split: stt_worker.split)
  then show ?thesis by (intro order_frame [OF assms(3)]) (auto simp: last_submits(1,2) pending_of_def)
next
  case (last_refuses seg x)
  show ?thesis by (rule order_reader [OF assms(3)]) (simp_all add: last_refuses(1) pending_of_def)
next
  case (lasted x)
  show ?thesis by (rule order_reader [OF assms(3)]) (simp_all add: lasted(1) pending_of_def)
next
  case (closes v)
  show ?thesis by (rule order_reader [OF assms(3)]) (simp_all add: closes(1) pending_of_def)
next
  case (exits v)
  show ?thesis by (rule order_reader [OF assms(3)]) (simp_all add: exits(1) pending_of_def)
next
  case (takes_final seg rest)
  have "boundaries s' = boundaries s" "pending_of s' = pending_of s"
    by (simp_all add: takes_final(1) boundaries_def takes_final(2,3) busy_final_def busy_live_def pending_of_def split: stt_worker.split)
  then show ?thesis by (intro order_frame [OF assms(3)]) (auto simp: takes_final(1))
next
  case (takes_live seg)
  note o' = assms(3) [unfolded order_inv_def]
  have lo: "live_ok s seg" using o' takes_live(4) by blast
  have b: "boundaries s = map ln_end (st_out s) @ map sg_end (pending_of s)"
    by (simp add: boundaries_def takes_live(2,3) busy_final_def busy_live_def split: stt_worker.split)
  have p: "pending_of s' = pending_of s" by (simp add: takes_live(1) pending_of_def)
  have b': "boundaries s' = map ln_end (st_out s) @ (if sg_end seg > st_lastFinalEnd s then [sg_end seg] else []) @ map sg_end (pending_of s)"
    by (simp add: boundaries_def p) (simp add: takes_live(1,3) busy_final_def busy_live_def split: stt_worker.split)
  have "ln_end l \<le> sg_end seg" if "l \<in> set (st_out s)" "sg_end seg > st_lastFinalEnd s" for l
    using that o' lo by (cases "ln_final l") (fastforce simp: live_ok_def)+
  then have "sorted (boundaries s')" using o' lo b unfolding b' by (auto simp: sorted_append live_ok_def)
  then show ?thesis using o' lo b p b' by (auto simp: order_inv_def takes_live(1) live_ok_def)
next
  case takes_none
  have "boundaries s' = boundaries s" "pending_of s' = pending_of s"
    by (simp_all add: takes_none(1) boundaries_def takes_none(2) busy_final_def busy_live_def pending_of_def split: stt_worker.split)
  then show ?thesis by (intro order_frame [OF assms(3)]) (auto simp: takes_none(1))
next
  case (finals seg resp line)
  note o' = assms(3) [unfolded order_inv_def]
  note l = ends_transcribe [OF finals(3)]
  have p: "pending_of s' = pending_of s" by (simp add: finals(1) pending_of_def)
  have b: "boundaries s = map ln_end (st_out s) @ sg_end seg # map sg_end (st_finals s @ pending_of s)"
    by (simp add: boundaries_def finals(2) busy_final_def busy_live_def split: stt_worker.split)
  have b': "boundaries s' = boundaries s" unfolding b
    by (simp add: boundaries_def p) (simp add: finals(1) busy_final_def busy_live_def l split: stt_worker.split)
  have "\<forall>l \<in> set (st_out s). ln_end l \<le> sg_end seg" using o' unfolding b by (simp add: sorted_append)
  then show ?thesis using o' l p b' by (fastforce simp: order_inv_def finals(1) live_ok_def)
next
  case (fails seg resp)
  have p: "pending_of s' = pending_of s" by (simp add: fails(1) pending_of_def)
  have b: "boundaries s = map ln_end (st_out s) @ [sg_end seg] @ map sg_end (st_finals s @ pending_of s)"
    by (simp add: boundaries_def fails(2) busy_final_def busy_live_def split: stt_worker.split)
  have "boundaries s' = map ln_end (st_out s) @ map sg_end (st_finals s @ pending_of s)"
    by (simp add: boundaries_def p) (simp add: fails(1) busy_final_def busy_live_def split: stt_worker.split)
  then have "subseq (boundaries s') (boundaries s)" unfolding b by (simp only: subseq_skip)
  then show ?thesis using p by (intro order_frame [OF assms(3)]) (auto simp: fails(1))
next
  case (partials seg resp)
  note o' = assms(3) [unfolded order_inv_def]
  have p: "pending_of s' = pending_of s" by (simp add: partials(1) pending_of_def)
  have b: "boundaries s = map ln_end (st_out s) @ (if sg_end seg > st_lastFinalEnd s then [sg_end seg] else []) @ map sg_end (st_finals s @ pending_of s)"
    by (simp add: boundaries_def partials(2) busy_final_def busy_live_def split: stt_worker.split)
  consider (none) "st_out s' = st_out s"
    | (line) l where "sg_end seg > st_lastFinalEnd s" "st_out s' = st_out s @ [l]" "ln_end l = sg_end seg" "\<not> ln_final l"
    using partial_cases [of "ev_lang ev" "infer ev resp" seg] by (cases "st_lastFinalEnd s < sg_end seg") (auto simp: partials(1))
  then show ?thesis
  proof cases
    case none
    have "boundaries s' = map ln_end (st_out s) @ map sg_end (st_finals s @ pending_of s)"
      by (simp add: boundaries_def p none) (simp add: partials(1) busy_final_def busy_live_def split: stt_worker.split)
    then have "subseq (boundaries s') (boundaries s)" unfolding b by (simp only: subseq_skip)
    then show ?thesis by (intro order_frame [OF assms(3)]) (use none p in \<open>auto simp: partials(1)\<close>)
  next
    case line
    have b': "boundaries s' = boundaries s"
      unfolding b by (simp add: boundaries_def p line) (simp add: partials(1) busy_final_def busy_live_def line(1) split: stt_worker.split)
    have "sg_end seg \<le> sg_end x" if "st_live s = Some x" for x using o' that partials(2) by (auto simp: live_ok_def)
    then show ?thesis using o' b' p line by (auto simp: order_inv_def live_ok_def) (simp_all add: partials(1))
  qed
qed

section \<open>Every segment gets its final\<close>

definition final_ends :: "stt \<Rightarrow> int list" where
  "final_ends s = map ln_end (filter ln_final (st_out s))"

text \<open>The finals written are those of the first segments cut; only a worker that failed leaves some without one.\<close>

definition delivery_inv :: "stt \<Rightarrow> bool" where
  "delivery_inv s \<longleftrightarrow> (\<exists>m. map sg_end (st_cut s) = final_ends s @ m \<and>
     (st_worker s \<noteq> WExited True \<longrightarrow> m = map sg_end (busy_final s @ st_finals s @ pending_of s)))"

definition exit_inv :: "stt \<Rightarrow> bool" where
  "exit_inv s \<longleftrightarrow> (st_worker s = WExited False \<longrightarrow> st_closed s \<and> st_finals s = []) \<and>
     (st_closed s \<longrightarrow> (\<exists>v. st_reader s = RWait v \<or> st_reader s = RExited v)) \<and>
     (\<forall>v. st_reader s = RExited v \<and> v \<noteq> SttWorkerFailed \<longrightarrow> st_worker s = WExited False)"

lemma exit_step: assumes "stt_step ev s s'" "exit_inv s" shows "exit_inv s'"
  using assms(1)
proof cases
  case publishes
  then show ?thesis using assms(2) by (auto simp: exit_inv_def stt_publish_def split: option.split)
next
  case (finishes x)
  then show ?thesis using assms(2) by (auto simp: exit_inv_def stt_finish_def split: option.split prod.split)
next
  case exits
  then show ?thesis using assms(2) by (auto simp: exit_inv_def dead_def split: stt_worker.splits)
qed (use assms(2) in \<open>auto simp: exit_inv_def\<close>)

lemma dead_failed: "exit_inv s \<Longrightarrow> dead s \<Longrightarrow> \<not> st_closed s \<Longrightarrow> st_worker s = WExited True"
  by (auto simp: exit_inv_def dead_def split: stt_worker.splits)

lemma open_reader: "exit_inv s \<Longrightarrow> (\<And>v. st_reader s \<noteq> RWait v) \<Longrightarrow> (\<And>v. st_reader s \<noteq> RExited v) \<Longrightarrow> \<not> st_closed s"
  by (auto simp: exit_inv_def)

lemma delivery_keep:
  assumes "delivery_inv s" "map sg_end (st_cut s') = map sg_end (st_cut s) @ new"
    and "st_worker s' \<noteq> WExited True \<Longrightarrow> st_worker s \<noteq> WExited True \<and>
      final_ends s' @ map sg_end (busy_final s' @ st_finals s' @ pending_of s') =
      final_ends s @ map sg_end (busy_final s @ st_finals s @ pending_of s) @ new"
    and "st_worker s' = WExited True \<Longrightarrow> final_ends s' = final_ends s"
  shows "delivery_inv s'"
proof -
  obtain m where m: "map sg_end (st_cut s) = final_ends s @ m"
    "st_worker s \<noteq> WExited True \<longrightarrow> m = map sg_end (busy_final s @ st_finals s @ pending_of s)"
    using assms(1) by (auto simp: delivery_inv_def)
  show ?thesis
  proof (cases "st_worker s' = WExited True")
    case True
    then show ?thesis using m(1) assms(2) assms(4) unfolding delivery_inv_def by (intro exI [of _ "m @ new"]) simp
  next
    case False
    then show ?thesis using m assms(2) assms(3) unfolding delivery_inv_def
      by (intro exI [of _ "map sg_end (busy_final s' @ st_finals s' @ pending_of s')"]) simp
  qed
qed

lemma busy_final_cong: "st_worker s' = st_worker s \<Longrightarrow> busy_final s' = busy_final s"
  by (simp add: busy_final_def)

lemma final_ends_cong: "st_out s' = st_out s \<Longrightarrow> final_ends s' = final_ends s"
  by (simp add: final_ends_def)

lemma delivery_step: assumes "stt_step ev s s'" "exit_inv s" "delivery_inv s" shows "delivery_inv s'"
  using assms(1)
proof cases
  case (reads data ss d segs e r)
  have f: "st_worker s' = st_worker s" "st_out s' = st_out s" "st_finals s' = st_finals s" "pending_of s' = segs" "pending_of s = []"
    by (simp_all add: reads(1,2) pending_of_def)
  show ?thesis
    by (rule delivery_keep [OF assms(3), of _ "map sg_end segs"])
      (simp add: reads(1), simp_all add: f busy_final_cong [OF f(1)] final_ends_cong [OF f(2)])
next
  case (submits seg segs r)
  have f: "st_worker s' = st_worker s" "st_out s' = st_out s" by (simp_all add: submits(1))
  show ?thesis by (rule delivery_keep [OF assms(3), of _ "[]"])
      (simp_all add: f busy_final_cong [OF f(1)] final_ends_cong [OF f(2)], simp_all add: submits(1,2) pending_of_def)
next
  case (refuses seg segs r)
  have "st_worker s = WExited True" using dead_failed [OF assms(2)] open_reader [OF assms(2)] refuses(2,3) by simp
  then show ?thesis by (intro delivery_keep [OF assms(3), of _ "[]"]) (simp_all add: refuses(1) final_ends_def)
next
  case (submitted segs r)
  have f: "st_worker s' = st_worker s" "st_out s' = st_out s" by (simp_all add: submitted(1))
  have "dead s \<Longrightarrow> st_worker s = WExited True" using dead_failed [OF assms(2)] open_reader [OF assms(2)] submitted(2) by simp
  then show ?thesis by (intro delivery_keep [OF assms(3), of _ "[]"])
      (auto simp: f busy_final_cong [OF f(1)] final_ends_cong [OF f(2)], auto simp: submitted(1,2) pending_of_def)
next
  case (publishes r)
  have f: "st_worker s' = st_worker s" "st_out s' = st_out s" "st_finals s' = st_finals s" "st_cut s' = st_cut s"
    "pending_of s' = []" "pending_of s = []"
    by (simp_all add: publishes(1) stt_publish_def) (simp_all add: pending_of_def publishes(2) split: option.split)
  show ?thesis by (rule delivery_keep [OF assms(3), of _ "[]"]) (simp_all add: f busy_final_cong [OF f(1)] final_ends_cong [OF f(2)])
next
  case (finishes x)
  have f: "st_worker s' = st_worker s" "st_out s' = st_out s" "st_finals s' = st_finals s" "pending_of s = []"
    "st_cut s' = st_cut s @ pending_of s'"
    by (simp_all add: finishes(1) stt_finish_def pending_of_def finishes(2) split: option.split prod.split)
  show ?thesis by (rule delivery_keep [OF assms(3), of _ "map sg_end (pending_of s')"])
      (simp_all add: f busy_final_cong [OF f(1)] final_ends_cong [OF f(2)])
next
  case (last_submits seg x)
  have f: "st_worker s' = st_worker s" "st_out s' = st_out s" by (simp_all add: last_submits(1))
  show ?thesis by (rule delivery_keep [OF assms(3), of _ "[]"])
      (simp_all add: f busy_final_cong [OF f(1)] final_ends_cong [OF f(2)], simp_all add: last_submits(1,2) pending_of_def)
next
  case (last_refuses seg x)
  have "st_worker s = WExited True" using dead_failed [OF assms(2)] open_reader [OF assms(2)] last_refuses(2,3) by simp
  then show ?thesis by (intro delivery_keep [OF assms(3), of _ "[]"]) (simp_all add: last_refuses(1) final_ends_def)
next
  case (lasted x)
  then show ?thesis by (intro delivery_keep [OF assms(3), of _ "[]"]) (simp_all add: final_ends_def busy_final_def pending_of_def)
next
  case (closes v)
  then show ?thesis by (intro delivery_keep [OF assms(3), of _ "[]"]) (simp_all add: final_ends_def busy_final_def pending_of_def)
next
  case (exits v)
  then show ?thesis by (intro delivery_keep [OF assms(3), of _ "[]"]) (simp_all add: final_ends_def busy_final_def pending_of_def)
next
  case (takes_final seg rest)
  then show ?thesis by (intro delivery_keep [OF assms(3), of _ "[]"]) (simp_all add: final_ends_def busy_final_def pending_of_def)
next
  case (takes_live seg)
  then show ?thesis by (intro delivery_keep [OF assms(3), of _ "[]"]) (simp_all add: final_ends_def busy_final_def pending_of_def)
next
  case takes_none
  then show ?thesis by (intro delivery_keep [OF assms(3), of _ "[]"]) (simp_all add: final_ends_def busy_final_def pending_of_def)
next
  case (finals seg resp line)
  note l = ends_transcribe [OF finals(3)]
  show ?thesis using l finals by (intro delivery_keep [OF assms(3), of _ "[]"]) (simp_all add: final_ends_def busy_final_def pending_of_def)
next
  case (fails seg resp)
  then show ?thesis by (intro delivery_keep [OF assms(3), of _ "[]"]) (simp_all add: final_ends_def)
next
  case (partials seg resp)
  have "filter ln_final (partial_line (ev_lang ev) (infer ev resp) seg) = []" using ends_partial by (auto simp: filter_empty_conv)
  then show ?thesis using partials
    by (intro delivery_keep [OF assms(3), of _ "[]"]) (simp_all add: final_ends_def busy_final_def pending_of_def)
qed

section \<open>Sessions\<close>

definition stt_reach :: "stt_env \<Rightarrow> int \<Rightarrow> STTTuning \<Rightarrow> stt \<Rightarrow> bool" where
  "stt_reach ev rate t = (stt_step ev)\<^sup>*\<^sup>* (stt_start rate t)"

lemma settings_step: "stt_step ev s s' \<Longrightarrow> source_inv s \<Longrightarrow>
    ep_rate (st_ep s') = ep_rate (st_ep s) \<and> ep_tuning (st_ep s') = ep_tuning (st_ep s)"
  proof (cases rule: stt_step.cases, assumption)
  fix data ss d segs e r
  assume "s' = s\<lparr>st_dec := d, st_ep := e, st_reader := RSubmit segs r, st_src := st_src s @ ss, st_cut := st_cut s @ segs\<rparr>"
    "ep_push (ev_fl ev) ss (st_ep s) = Some (segs, e)" "source_inv s"
  then show ?thesis using push_total(6,7) by (auto simp: source_inv_def)
next
  fix x assume "s' = stt_finish x s" "source_inv s"
  then show ?thesis by (auto simp: stt_finish_def ep_flush_def ep_take_def ep_reset_def split: if_splits option.splits prod.splits)
qed (simp_all add: stt_publish_def)

lemma stt_reach_inv:
  assumes "tuned rate t" "stt_reach ev rate t s"
  shows "source_inv s \<and> order_inv s \<and> exit_inv s \<and> delivery_inv s \<and> ep_rate (st_ep s) = rate \<and> ep_tuning (st_ep s) = t"
  using assms(2) unfolding stt_reach_def
proof (induction rule: rtranclp_induct)
  case base
  show ?case using assms(1) tuned_bounds [OF assms(1)]
    by (auto simp: stt_start_def source_inv_def order_inv_def exit_inv_def delivery_inv_def ep_inv_def new_endpointer_def last_cut_def
        boundaries_def busy_final_def busy_live_def pending_of_def final_ends_def pos_imp_zdiv_nonneg_iff)
next
  case (step s1 s2)
  then show ?case using source_step [OF step(2)] order_step [OF step(2)] exit_step [OF step(2)] delivery_step [OF step(2)]
      settings_step [OF step(2)] by simp
qed

text \<open>A run of twenty milliseconds of voice, for the witnesses below.\<close>

definition demo_fl :: float_sqrt where
  "demo_fl = \<lparr>fs_rnd = (\<lambda>x. x), fs_muladd = (\<lambda>x y z. z), fs_sqrt = (\<lambda>x. 1)\<rparr>"

definition demo_stt_env :: stt_env where
  "demo_stt_env = \<lparr>ev_fl = demo_fl, ev_unicode = ascii_tables, ev_parsers = \<lparr>ap_json = (\<lambda>_. JsonText (Some []) []), ap_media = Some\<rparr>,
     ev_lang = str ''it''\<rparr>"

definition demo_answer :: answer where
  "demo_answer = \<lparr>an_status = 200, an_server = [whisperServerName], an_contentType = [contentTypeJSON], an_body = []\<rparr>"

definition demo_line :: stt_line where
  "demo_line = \<lparr>ln_final = True, ln_text = [], ln_lang = str ''it'', ln_end = 160\<rparr>"

definition demo_tuning :: STTTuning where
  "demo_tuning = \<lparr>SilenceHang = sttTuningMin, MaxWindow = sttTuningMin, MinSpeech = sttTuningMin\<rparr>"

definition demo_segment :: speechSegment where
  "demo_segment = \<lparr>sg_pcm = replicate 160 0, sg_end = 160\<rparr>"

lemma demo_tuned: "tuned 8000 demo_tuning"
  by code_simp

lemma demo_decode: "sd_decode (replicate 320 0) \<lparr>dc_trailing = 0, dc_pending = False\<rparr> = (replicate 160 0, \<lparr>dc_trailing = 0, dc_pending = False\<rparr>)"
  by code_simp

lemma demo_push: "ep_push demo_fl (replicate 160 0) (new_endpointer 8000 demo_tuning) =
    Some ([demo_segment], (new_endpointer 8000 demo_tuning)\<lparr>ep_total := 160\<rparr>)"
  by code_simp

lemma demo_final: "transcribe (ev_lang demo_stt_env) (infer demo_stt_env (Some demo_answer)) demo_segment = Some demo_line"
proof -
  have "decodeWhisperResponse ascii_tables (ev_parsers demo_stt_env) demo_answer = Some ([], [])"
    by (simp add: decodeWhisperResponse_def demo_answer_def validateWhisperServerHeader_def responseIsJSON_def header_get_def demo_stt_env_def
        decodeWhisperJSON_def trim_space_def trim_func_def ToLower_def)
  moreover have "validateWhisperTranscript ascii_tables []"
    by (simp add: validateWhisperTranscript_def hasPathologicalTokenRepetition_def ToLower_def repeated_words_def)
  ultimately have "infer demo_stt_env (Some demo_answer) = Inferred [] []" by (simp add: infer_def whisperTranscribe_def demo_stt_env_def)
  moreover have "whisper_text [] = []" "str ''it'' \<noteq> []" "str ''it'' \<noteq> languageAuto" by code_simp+
  ultimately show ?thesis by (simp add: transcribe_def demo_stt_env_def demo_segment_def demo_line_def)
qed

lemma demo_run: "\<exists>s. stt_reach demo_stt_env 8000 demo_tuning s \<and> st_reader s = RExited SttOk \<and> st_src s = replicate 160 0 \<and>
    st_cut s = [demo_segment] \<and> st_out s = [demo_line]"
proof -
  let ?s0 = "stt_start 8000 demo_tuning"
  let ?e = "(new_endpointer 8000 demo_tuning)\<lparr>ep_total := 160\<rparr>"
  let ?s1 = "?s0\<lparr>st_dec := \<lparr>dc_trailing = 0, dc_pending = False\<rparr>, st_ep := ?e, st_reader := RSubmit [demo_segment] (Some ReadEOF),
    st_src := st_src ?s0 @ replicate 160 0, st_cut := st_cut ?s0 @ [demo_segment]\<rparr>"
  let ?s2 = "?s1\<lparr>st_finals := st_finals ?s1 @ [demo_segment], st_reader := RSubmitted [] (Some ReadEOF)\<rparr>"
  let ?s3 = "?s2\<lparr>st_reader := if dead ?s2 then RClose SttWorkerFailed else RSubmit [] (Some ReadEOF)\<rparr>"
  let ?s4 = "?s3\<lparr>st_worker := WFinal demo_segment, st_finals := []\<rparr>"
  let ?l = "demo_line"
  let ?s5 = "?s4\<lparr>st_out := st_out ?s4 @ [?l], st_lastFinalEnd := sg_end demo_segment, st_worker := WTaking\<rparr>"
  let ?s6 = "(stt_publish ?s5)\<lparr>st_reader := case Some ReadEOF of None \<Rightarrow> RReading | Some x \<Rightarrow> RFinish x\<rparr>"
  let ?s7 = "stt_finish ReadEOF ?s6"
  let ?s8 = "?s7\<lparr>st_closed := True, st_reader := RWait SttOk\<rparr>"
  let ?s9 = "?s8\<lparr>st_worker := WExited False\<rparr>"
  let ?s10 = "?s9\<lparr>st_reader := RExited (if st_worker ?s9 = WExited True then SttWorkerFailed else SttOk)\<rparr>"
  note d = stt_start_def dead_def stt_publish_def stt_finish_def new_endpointer_def ep_flush_def ep_reset_def read_result_def
  have "stt_step demo_stt_env ?s0 ?s1"
    by (rule stt_step.reads [where data = "replicate 320 0"]) (simp_all only: stt_start_def stt.simps stt_env.simps demo_stt_env_def demo_decode demo_push)
  moreover have "stt_step demo_stt_env ?s1 ?s2" by (rule stt_step.submits) (simp_all add: d)
  moreover have "stt_step demo_stt_env ?s2 ?s3" by (rule stt_step.submitted) simp
  moreover have "stt_step demo_stt_env ?s3 ?s4" by (rule stt_step.takes_final) (simp_all add: d)
  moreover have "stt_step demo_stt_env ?s4 ?s5"
    by (rule stt_step.finals [where resp = "Some demo_answer"]) (simp, rule demo_final)
  moreover have "stt_step demo_stt_env ?s5 ?s6" by (rule stt_step.publishes) (simp add: d)
  moreover have "stt_step demo_stt_env ?s6 ?s7" by (rule stt_step.finishes) simp
  moreover have "stt_step demo_stt_env ?s7 ?s8" by (rule stt_step.closes) (simp add: d)
  moreover have "stt_step demo_stt_env ?s8 ?s9" by (rule stt_step.takes_none) (simp_all add: d)
  moreover have "stt_step demo_stt_env ?s9 ?s10" by (rule stt_step.exits) (simp_all add: dead_def)
  ultimately have "stt_reach demo_stt_env 8000 demo_tuning ?s10"
    unfolding stt_reach_def by (meson rtranclp.rtrancl_into_rtrancl rtranclp.rtrancl_refl)
  moreover have "st_reader ?s10 = RExited SttOk" "st_src ?s10 = replicate 160 0" "st_cut ?s10 = [demo_segment]" "st_out ?s10 = [?l]"
    by (simp_all add: d)
  ultimately show ?thesis by blast
qed

section \<open>Properties\<close>

text \<open>C25. However the reader and the worker interleave, the transcript lines, partial and final, carry boundaries
  that never go back, and none lies past the samples decoded so far.\<close>

theorem lines_keep_source_order:
  assumes "tuned rate t" "stt_reach ev rate t s"
  shows "sorted (map ln_end (st_out s)) \<and> set (map ln_end (st_out s)) \<subseteq> {0 .. int (length (st_src s))}"
proof -
  have o': "order_inv s" "source_inv s" using stt_reach_inv [OF assms] by simp_all
  then show ?thesis using total_len [OF o'(2)] by (auto simp: order_inv_def boundaries_def sorted_append)
qed

theorem lines_keep_source_order_witness:
  "\<exists>s. stt_reach demo_stt_env 8000 demo_tuning s \<and> st_out s \<noteq> [] \<and> sorted (map ln_end (st_out s))"
  using demo_run lines_keep_source_order [OF demo_tuned] by fastforce

text \<open>C35. Every segment the endpointer cuts is the slice of the decoded samples that ends at its boundary, begins no earlier
  than the segment before it ended, and is no longer than the window and one frame.\<close>

theorem segments_are_source_slices:
  assumes "tuned rate t" "stt_reach ev rate t s"
  shows "segments_ok (st_src s) rate t 0 (st_cut s)"
  using stt_reach_inv [OF assms] by (auto simp: source_inv_def)

theorem segments_are_source_slices_witness:
  "\<exists>s :: stt. st_cut s = [demo_segment] \<and> segments_ok (st_src s) 8000 demo_tuning 0 (st_cut s)"
proof -
  obtain s where s: "stt_reach demo_stt_env 8000 demo_tuning s" "st_cut s = [demo_segment]" using demo_run by blast
  then show ?thesis using segments_are_source_slices [OF demo_tuned s(1)] by blast
qed

text \<open>C27. A session that ends without a worker error has written one final line for each segment cut, in their order.\<close>

theorem finished_session_wrote_every_final:
  assumes "tuned rate t" "stt_reach ev rate t s" "st_reader s = RExited v" "v \<noteq> SttWorkerFailed"
  shows "final_ends s = map sg_end (st_cut s)"
  using stt_reach_inv [OF assms(1,2)] assms(3,4)
  by (auto simp: exit_inv_def delivery_inv_def busy_final_def pending_of_def)

theorem finished_session_wrote_every_final_witness:
  "\<exists>s :: stt. st_reader s = RExited SttOk \<and> st_cut s = [demo_segment] \<and> final_ends s = map sg_end (st_cut s)"
proof -
  obtain s where s: "stt_reach demo_stt_env 8000 demo_tuning s" "st_reader s = RExited SttOk" "st_cut s = [demo_segment]"
    using demo_run by blast
  have "final_ends s = map sg_end (st_cut s)" by (rule finished_session_wrote_every_final [OF demo_tuned s(1,2)]) simp
  then show ?thesis using s by blast
qed

text \<open>However the input is split into reads, the decoder yields the samples of the whole stream: a byte left over
  by one read is the low byte of the next sample.\<close>

lemma reads_may_split_anywhere:
  "fst (decode_reads rs \<lparr>dc_trailing = b, dc_pending = False\<rparr>) = fst (pairs_of (concat rs))"
proof -
  obtain ss d' where r: "decode_reads rs \<lparr>dc_trailing = b, dc_pending = False\<rparr> = (ss, d')" by fastforce
  from decode_reads_stream [OF r] r show ?thesis by (simp add: held_byte_def)
qed

end
