(* ===== verification/NativeStt.thy ===== *)
theory NativeStt
  imports Playout Commit Engine Lang
begin

text \<open>
  \<^verbatim>\<open>internal/providers/native/stt.go\<close>: the daemon's end of the pipe to the STT helper. It starts the helper, writes
  frames, and turns the lines it reads into transcript updates: each line is parsed, its shape is checked, its
  boundary is mapped back to the source clock and its language is applied. The other end is \<open>Engine\<close>; that a
  helper never breaks this protocol is proved here.
\<close>

section \<open>Starting the helper\<close>

record STTConfig =
  cf_model :: gostr
  cf_tuning :: STTTuning
  cf_rate :: int
  cf_threads :: int
  cf_fastDecode :: bool

text \<open>\<open>Duration.String\<close> is an argument.\<close>

definition appendDurationArg :: "(duration \<Rightarrow> gostr) \<Rightarrow> gostr \<Rightarrow> duration \<Rightarrow> gostr list \<Rightarrow> gostr list" where
  "appendDurationArg show_d name v args = (if v \<le> 0 then args else args @ [name, show_d v])"

definition stt_args :: "(duration \<Rightarrow> gostr) \<Rightarrow> STTConfig \<Rightarrow> lang \<Rightarrow> gostr list" where
  "stt_args show_d c hint =
     (let threads = max 1 (cf_threads c);
          a0 = [str ''stt'', str ''--protocol-version'', itoa ProtocolVersion, str ''--model'', cf_model c,
                str ''--rate'', itoa (cf_rate c), str ''--threads'', itoa threads];
          a1 = appendDurationArg show_d (str ''--silence-hang'') (SilenceHang (cf_tuning c)) a0;
          a2 = appendDurationArg show_d (str ''--max-window'') (MaxWindow (cf_tuning c)) a1;
          a3 = appendDurationArg show_d (str ''--min-speech'') (MinSpeech (cf_tuning c)) a2;
          a4 = (if cf_fastDecode c then a3 @ [str ''--fast-decode''] else a3)
      in if hint \<noteq> LangAuto then a4 @ [str ''--language'', Base hint] else a4)"

section \<open>The source timeline\<close>

definition max_duration :: duration where "max_duration = 2 ^ 63 - 1"

text \<open>\<open>None\<close> is an error.\<close>

definition sampleDuration :: "int \<Rightarrow> int \<Rightarrow> duration option" where
  "sampleDuration samples rate =
     (if samples < 0 \<or> rate \<le> 0 then None
      else let seconds = go_div samples rate in
        if seconds > go_div max_duration second then None
        else let d = wrap64 (seconds * second);
                 fraction = go_div (wrap64 (go_mod samples rate * second)) rate
             in if fraction > max_duration - d then None else Some (d + fraction))"

record rated_pcm = PCM +
  fr_rate :: int
  fr_ch :: int

record sourceFrame =
  sf_start :: int
  sf_end :: int
  sf_pts :: duration
  sf_rate :: int

record sourceTimeline =
  tl_frames :: "sourceFrame list"
  tl_total :: int
  tl_last :: int

definition empty_timeline :: sourceTimeline where
  "empty_timeline = \<lparr>tl_frames = [], tl_total = 0, tl_last = 0\<rparr>"

definition continues :: "sourceFrame \<Rightarrow> rated_pcm \<Rightarrow> bool" where
  "continues f p =
     (case sampleDuration (sf_end f - sf_start f) (sf_rate f) of
        None \<Rightarrow> False
      | Some d \<Rightarrow> sf_rate f = fr_rate p \<and> sf_pts f \<le> max_duration - d \<and> sf_pts f + d = PTS p)"

definition record_frame :: "rated_pcm \<Rightarrow> sourceTimeline \<Rightarrow> sourceTimeline" where
  "record_frame p t =
     (if Data p = [] then t
      else
        let start = tl_total t;
            tot = start + int (length (Data p));
            fresh = tl_frames t @ [\<lparr>sf_start = start, sf_end = tot, sf_pts = PTS p, sf_rate = fr_rate p\<rparr>]
        in t\<lparr>tl_total := tot, tl_frames :=
             (if tl_frames t \<noteq> [] \<and> continues (last (tl_frames t)) p
              then butlast (tl_frames t) @ [(last (tl_frames t))\<lparr>sf_end := tot\<rparr>] else fresh)\<rparr>)"

datatype timing_error = MovedBackward | ExceedsWritten | OffsetInvalid | TimestampOverflow | NoFrame

text \<open>The loop stops at the first frame that reaches the boundary; the frames before it are dropped with the answer.\<close>

definition resolve_at :: "int \<Rightarrow> sourceTimeline \<Rightarrow> (timing_error + duration) \<times> sourceTimeline" where
  "resolve_at e t =
     (if e < tl_last t then (Inl MovedBackward, t)
      else if e > tl_total t then (Inl ExceedsWritten, t)
      else if e = 0 then (Inr (if tl_frames t \<noteq> [] then sf_pts (hd (tl_frames t)) else 0), t\<lparr>tl_last := 0\<rparr>)
      else case dropWhile (\<lambda>f. e > sf_end f) (tl_frames t) of
        [] \<Rightarrow> (Inl NoFrame, t)
      | f # rest \<Rightarrow>
          (case sampleDuration (e - sf_start f) (sf_rate f) of
             None \<Rightarrow> (Inl OffsetInvalid, t)
           | Some delta \<Rightarrow>
               if sf_pts f > max_duration - delta then (Inl TimestampOverflow, t)
               else (Inr (sf_pts f + delta), t\<lparr>tl_last := e, tl_frames := f # rest\<rparr>)))"

text \<open>The reference: the instant of the sample at a boundary, from the frames as they were written.\<close>

fun source_pos :: "(int \<times> duration) list \<Rightarrow> int \<Rightarrow> int \<Rightarrow> duration" where
  "source_pos [] rate e = 0"
| "source_pos ((n, pts) # h) rate e = (if e \<le> n then pts + e * second div rate else source_pos h rate (e - n))"

text \<open>What a session's timeline goes through: frames written and boundaries resolved.\<close>

datatype tl_op = Wrote rated_pcm | Boundary int

fun tl_run :: "tl_op list \<Rightarrow> sourceTimeline \<Rightarrow> (timing_error + duration) list" where
  "tl_run [] t = []"
| "tl_run (Wrote p # ops) t = tl_run ops (record_frame p t)"
| "tl_run (Boundary e # ops) t = (case resolve_at e t of (r, t') \<Rightarrow> r # tl_run ops t')"

definition wrote :: "rated_pcm \<Rightarrow> (int \<times> duration) list" where
  "wrote p = (if Data p = [] then [] else [(int (length (Data p)), PTS p)])"

fun ref_run :: "int \<Rightarrow> tl_op list \<Rightarrow> (int \<times> duration) list \<Rightarrow> duration list" where
  "ref_run rate [] h = []"
| "ref_run rate (Wrote p # ops) h = ref_run rate ops (h @ wrote p)"
| "ref_run rate (Boundary e # ops) h = source_pos h rate e # ref_run rate ops h"

text \<open>Boundaries that do not go back, each within what was written before it; at most \<open>2 ^ 40\<close> samples of one rate.\<close>

definition written :: "(int \<times> duration) list \<Rightarrow> int" where
  "written h = sum_list (map fst h)"

fun tl_legal :: "int \<Rightarrow> tl_op list \<Rightarrow> (int \<times> duration) list \<Rightarrow> int \<Rightarrow> bool" where
  "tl_legal rate [] h low \<longleftrightarrow> True"
| "tl_legal rate (Wrote p # ops) h low \<longleftrightarrow> fr_rate p = rate \<and> 0 \<le> PTS p \<and> PTS p \<le> 2 ^ 62 \<and> written (h @ wrote p) \<le> 2 ^ 40 \<and>
     tl_legal rate ops (h @ wrote p) low"
| "tl_legal rate (Boundary e # ops) h low \<longleftrightarrow> low \<le> e \<and> e \<le> written h \<and> tl_legal rate ops h e"

lemma sampleDuration_exact:
  assumes "0 \<le> n" "n \<le> 2 ^ 40" "8000 \<le> rate" "rate \<le> 192000"
  shows "sampleDuration n rate = Some (n * second div rate)" "0 \<le> n * second div rate" "n * second div rate \<le> 2 ^ 58"
proof -
  have m: "0 \<le> n mod rate" "n mod rate < rate" using assms by simp_all
  have "n div rate \<le> n div 8000" by (rule zdiv_mono2) (use assms in auto)
  also have "\<dots> \<le> 2 ^ 40 div 8000" by (rule zdiv_mono1) (use assms in auto)
  finally have q: "0 \<le> n div rate" "n div rate \<le> 137438953" using assms by (simp_all add: pos_imp_zdiv_nonneg_iff)
  have bm: "n mod rate \<le> 192000" using m assms by linarith
  have "in_int64 (n div rate * second)" "in_int64 (n mod rate * second)"
    using q m bm by (simp_all add: in_int64_def)
  then have w: "wrap64 (n div rate * second) = n div rate * second" "wrap64 (n mod rate * second) = n mod rate * second"
    by (simp_all only: wrap64_id)
  have "n mod rate * second < rate * second" using m by simp
  then have "n mod rate * second div rate * rate < second * rate"
    using div_floor [of rate "n mod rate * second"] assms by linarith
  then have "n mod rate * second div rate < second" using assms by (simp only: mult_less_cancel_right)
  moreover have "0 \<le> n mod rate * second div rate" using m assms by (simp add: pos_imp_zdiv_nonneg_iff)
  ultimately have f: "0 \<le> n mod rate * second div rate" "n mod rate * second div rate < second" by simp_all
  define q r where "q = n div rate" and "r = n mod rate"
  have "n * second = (q * rate + r) * second" unfolding q_def r_def div_mult_mod_eq ..
  then have e: "n * second = n mod rate * second + n div rate * second * rate"
    unfolding q_def [symmetric] r_def [symmetric] by (simp add: algebra_simps)
  have s: "n * second div rate = n div rate * second + n mod rate * second div rate"
    unfolding e using assms by simp
  show "sampleDuration n rate = Some (n * second div rate)"
    using assms q f m by (simp add: sampleDuration_def go_div_nonneg go_mod_nonneg w s max_duration_def)
  show "0 \<le> n * second div rate" "n * second div rate \<le> 2 ^ 58" using s q f by simp_all
qed

lemma floor_parts:
  assumes "0 < rate" shows "(a + b) * second div rate - a * second div rate - b * second div rate \<in> {0, 1 :: int}"
proof -
  define x y where "x = a * second" and "y = b * second"
  have 1: "0 \<le> x mod rate" "x mod rate < rate" "0 \<le> y mod rate" "y mod rate < rate" using assms by simp_all
  define z where "z = (x mod rate + y mod rate) div rate"
  have s: "(x + y) div rate = x div rate + y div rate + z" unfolding z_def by (rule div_add1_eq)
  have "z = 0 \<or> z = 1"
  proof -
    have "0 \<le> z" unfolding z_def using 1 assms by (intro pos_imp_zdiv_nonneg_iff [THEN iffD2]) auto
    moreover have "z * rate < 2 * rate" using div_floor [OF assms, of "x mod rate + y mod rate"] 1 unfolding z_def by linarith
    then have "z < 2" using assms by simp
    ultimately show ?thesis by linarith
  qed
  moreover have "(a + b) * second = x + y" by (simp add: x_def y_def distrib_right)
  ultimately show ?thesis using s unfolding x_def [symmetric] y_def [symmetric] by auto
qed

section \<open>Source instants are exact\<close>

text \<open>A retained frame answers for the boundaries inside it, one nanosecond late at the most.\<close>

definition frame_ok :: "int \<Rightarrow> (int \<times> duration) list \<Rightarrow> sourceFrame \<Rightarrow> bool" where
  "frame_ok rate h f \<longleftrightarrow> sf_rate f = rate \<and> 0 \<le> sf_start f \<and> sf_start f < sf_end f \<and> sf_end f \<le> written h \<and>
     0 \<le> sf_pts f \<and> sf_pts f \<le> 2 ^ 62 \<and>
     (\<forall>e. sf_start f < e \<and> e \<le> sf_end f \<longrightarrow> sf_pts f + (e - sf_start f) * second div rate - source_pos h rate e \<in> {0, 1})"

fun chain :: "int \<Rightarrow> sourceFrame list \<Rightarrow> int \<Rightarrow> bool" where
  "chain a [] b \<longleftrightarrow> a = b"
| "chain a (f # fs) b \<longleftrightarrow> sf_start f = a \<and> chain (sf_end f) fs b"

definition tl_inv :: "int \<Rightarrow> (int \<times> duration) list \<Rightarrow> sourceTimeline \<Rightarrow> bool" where
  "tl_inv rate h t \<longleftrightarrow> tl_total t = written h \<and> 0 \<le> tl_last t \<and> tl_last t \<le> tl_total t \<and> written h \<le> 2 ^ 40 \<and>
     list_all (\<lambda>x. 0 < fst x) h \<and> list_all (frame_ok rate h) (tl_frames t) \<and>
     (\<exists>a. (a < tl_last t \<or> a = 0) \<and> chain a (tl_frames t) (tl_total t)) \<and>
     (tl_last t = 0 \<longrightarrow> (if tl_frames t \<noteq> [] then sf_pts (hd (tl_frames t)) else 0) = source_pos h rate 0)"

lemma written_append [simp]: "written (h @ k) = written h + written k"
  by (simp add: written_def)

lemma written_nonneg: "list_all (\<lambda>x. 0 < fst x) h \<Longrightarrow> 0 \<le> written h"
  by (induction h) (auto simp: written_def)

lemma source_pos_old: "list_all (\<lambda>x. 0 < fst x) h \<Longrightarrow> e \<le> written h \<Longrightarrow> h \<noteq> [] \<Longrightarrow> source_pos (h @ k) rate e = source_pos h rate e"
proof (induction h arbitrary: e)
  case (Cons x h)
  obtain n p where x: "x = (n, p)" by fastforce
  show ?case
  proof (cases "e \<le> n")
    case False
    then have "h \<noteq> []" using Cons.prems x by (auto simp: written_def)
    then show ?thesis using Cons x False by (simp add: written_def)
  qed (simp add: x)
qed simp

lemma source_pos_new: "list_all (\<lambda>x. 0 < fst x) h \<Longrightarrow> written h < e \<Longrightarrow> e \<le> written h + n \<Longrightarrow>
    source_pos (h @ [(n, p)]) rate e = p + (e - written h) * second div rate"
proof (induction h arbitrary: e)
  case (Cons x h)
  obtain m q where x: "x = (m, q)" by fastforce
  have "0 \<le> written h" using written_nonneg Cons.prems x by simp
  then have "\<not> e \<le> m" using Cons.prems x by (simp add: written_def)
  then show ?case using Cons.IH [of "e - m"] Cons.prems x by (simp add: written_def algebra_simps)
qed (simp add: written_def)

lemma chain_append: "chain a (xs @ ys) b \<longleftrightarrow> (\<exists>c. chain a xs c \<and> chain c ys b)"
  by (induction xs arbitrary: a) auto

lemma frame_ok_longer: "frame_ok rate h f \<Longrightarrow> list_all (\<lambda>x. 0 < fst x) h \<Longrightarrow> 0 \<le> written k \<Longrightarrow> frame_ok rate (h @ k) f"
proof -
  assume a: "frame_ok rate h f" "list_all (\<lambda>x. 0 < fst x) h" "0 \<le> written k"
  have n: "h \<noteq> []" using a(1) by (auto simp: frame_ok_def written_def)
  have "source_pos (h @ k) rate e = source_pos h rate e" if "e \<le> sf_end f" for e
    using that a(1) by (intro source_pos_old [OF a(2) _ n]) (simp add: frame_ok_def)
  then show ?thesis using a(1,3) by (simp add: frame_ok_def)
qed

lemma chain_end: "chain a (fs @ [f]) b \<Longrightarrow> sf_end f = b"
  by (auto simp: chain_append)

lemma record_inv:
  assumes "tl_inv rate h t" "fr_rate p = rate" "8000 \<le> rate" "rate \<le> 192000" "0 \<le> PTS p" "PTS p \<le> 2 ^ 62"
    and "written (h @ wrote p) \<le> 2 ^ 40"
  shows "tl_inv rate (h @ wrote p) (record_frame p t)"
proof (cases "Data p = []")
  case True
  then show ?thesis using assms by (simp add: record_frame_def wrote_def)
next
  case False
  define n where "n = int (length (Data p))"
  define f0 where "f0 = \<lparr>sf_start = tl_total t, sf_end = tl_total t + n, sf_pts = PTS p, sf_rate = rate\<rparr>"
  have n: "0 < n" "wrote p = [(n, PTS p)]" using False by (simp_all add: n_def wrote_def)
  note i = assms(1) [unfolded tl_inv_def]
  have w: "written (h @ [(n, PTS p)]) = written h + n" "0 \<le> written h" using written_nonneg i by (auto simp: written_def)
  have tot: "tl_total t = written h" and pos: "list_all (\<lambda>x. 0 < fst x) h" using i by auto
  have pos': "list_all (\<lambda>x. 0 < fst x) (h @ [(n, PTS p)])" using pos n by simp
  obtain a where a: "a < tl_last t \<or> a = 0" "chain a (tl_frames t) (tl_total t)" using i by blast
  have old: "list_all (frame_ok rate (h @ [(n, PTS p)])) (tl_frames t)"
    using i frame_ok_longer [OF _ pos, of rate _ "[(n, PTS p)]"] n by (simp add: list_all_iff written_def)
  have new: "source_pos (h @ [(n, PTS p)]) rate e = PTS p + (e - written h) * second div rate"
    if "written h < e" "e \<le> written h + n" for e using source_pos_new [OF pos that] .
  have zero: "h \<noteq> [] \<Longrightarrow> source_pos (h @ [(n, PTS p)]) rate 0 = source_pos h rate 0"
    by (rule source_pos_old [OF pos w(2)])
  have hne: "h \<noteq> []" if "tl_frames t \<noteq> []"
    using that i by (cases "tl_frames t") (auto simp: frame_ok_def written_def)
  show ?thesis
  proof (cases "tl_frames t \<noteq> [] \<and> continues (last (tl_frames t)) p")
    case True
    then obtain fs f where fs: "tl_frames t = fs @ [f]" by (metis rev_exhaust)
    define g where "g = f\<lparr>sf_end := tl_total t + n\<rparr>"
    have t': "record_frame p t = t\<lparr>tl_total := tl_total t + n, tl_frames := fs @ [g]\<rparr>"
      using True False fs by (simp add: record_frame_def Let_def n_def g_def)
    have fe: "sf_end f = tl_total t" using chain_end a(2) fs by metis
    have fok: "frame_ok rate (h @ [(n, PTS p)]) f" "frame_ok rate h f" using old i fs by simp_all
    have small: "sf_end f - sf_start f \<le> 2 ^ 40" "0 \<le> sf_end f - sf_start f" using fok(2) i by (auto simp: frame_ok_def)
    have join: "sf_pts f + (sf_end f - sf_start f) * second div rate = PTS p"
      using True fs sampleDuration_exact(1) [OF small(2,1) assms(3,4)] fok(2) by (auto simp: continues_def frame_ok_def)
    have "sf_pts f + (e - sf_start f) * second div rate - source_pos (h @ [(n, PTS p)]) rate e \<in> {0, 1}"
      if "sf_start f < e" "e \<le> tl_total t + n" for e
    proof (cases "e \<le> sf_end f")
      case True
      then show ?thesis using fok(1) that by (simp add: frame_ok_def)
    next
      case False
      then have s: "source_pos (h @ [(n, PTS p)]) rate e = PTS p + (e - sf_end f) * second div rate"
        using new [of e] that fe tot by simp
      have "(e - sf_start f) = (sf_end f - sf_start f) + (e - sf_end f)" by simp
      then have "(e - sf_start f) * second div rate - (sf_end f - sf_start f) * second div rate - (e - sf_end f) * second div rate \<in> {0, 1}"
        using floor_parts [of rate "sf_end f - sf_start f" "e - sf_end f"] assms(3) by simp
      moreover have "sf_pts f + (e - sf_start f) * second div rate - source_pos (h @ [(n, PTS p)]) rate e =
          (e - sf_start f) * second div rate - (sf_end f - sf_start f) * second div rate - (e - sf_end f) * second div rate"
        using s join by linarith
      ultimately show ?thesis by (simp only:)
    qed
    then have "frame_ok rate (h @ [(n, PTS p)]) g"
      using fok(1) fe tot n w by (simp add: frame_ok_def g_def)
    moreover have "chain a (fs @ [g]) (tl_total t + n)" using a(2) by (simp add: fs chain_append g_def)
    moreover have "hd (fs @ [g]) = (if fs = [] then g else hd fs)" by simp
    then have "tl_last t = 0 \<longrightarrow> sf_pts (hd (fs @ [g])) = source_pos (h @ [(n, PTS p)]) rate 0"
      using i fs zero hne by (cases fs) (auto simp: g_def)
    ultimately show ?thesis unfolding n(2) t' tl_inv_def
      using i old assms(7) a(1) n pos' w fs by auto
  next
    case False
    have t': "record_frame p t = t\<lparr>tl_total := tl_total t + n, tl_frames := tl_frames t @ [f0]\<rparr>"
      using False \<open>Data p \<noteq> []\<close> assms(2) by (auto simp: record_frame_def Let_def n_def f0_def)
    have "frame_ok rate (h @ [(n, PTS p)]) f0"
      using new w tot n assms(5,6) by (simp add: frame_ok_def f0_def)
    moreover have "chain a (tl_frames t @ [f0]) (tl_total t + n)" using a(2) by (auto simp: chain_append f0_def)
    moreover have "tl_last t = 0 \<longrightarrow> sf_pts (hd (tl_frames t @ [f0])) = source_pos (h @ [(n, PTS p)]) rate 0"
    proof (cases "tl_frames t = []")
      case True
      show ?thesis
      proof
        assume "tl_last t = 0"
        then have "written h = 0" using a True tot w(2) by auto
        then have "h = []" using pos by (cases h) (auto simp: written_def dest!: written_nonneg)
        then show "sf_pts (hd (tl_frames t @ [f0])) = source_pos (h @ [(n, PTS p)]) rate 0"
          using True n by (simp add: f0_def)
      qed
    next
      case False
      then show ?thesis using i zero hne by simp
    qed
    ultimately show ?thesis unfolding n(2) t' tl_inv_def
      using i old assms(7) a(1) n pos' w by auto
  qed
qed

lemma chain_find: "chain a fs b \<Longrightarrow> a < e \<Longrightarrow> e \<le> b \<Longrightarrow> \<exists>f rest. dropWhile (\<lambda>f. e > sf_end f) fs = f # rest \<and>
    sf_start f < e \<and> e \<le> sf_end f \<and> f \<in> set fs \<and> set rest \<subseteq> set fs \<and> chain (sf_start f) (f # rest) b"
proof (induction fs arbitrary: a)
  case (Cons g fs)
  show ?case
  proof (cases "e \<le> sf_end g")
    case False
    then have "chain (sf_end g) fs b" "sf_end g < e" using Cons.prems by simp_all
    from Cons.IH [OF this Cons.prems(3)] False show ?thesis by auto
  qed (use Cons.prems in auto)
qed simp

lemma resolve_inv:
  assumes "tl_inv rate h t" "8000 \<le> rate" "rate \<le> 192000" "tl_last t \<le> e" "e \<le> written h"
  shows "\<exists>d t'. resolve_at e t = (Inr d, t') \<and> d - source_pos h rate e \<in> {0, 1} \<and> tl_inv rate h t' \<and> tl_last t' = e"
proof -
  note i = assms(1) [unfolded tl_inv_def]
  have tot: "tl_total t = written h" "0 \<le> tl_last t" using i by auto
  show ?thesis
  proof (cases "e = 0")
    case True
    then have "tl_last t = 0" using assms(4) tot by simp
    then have z: "(if tl_frames t \<noteq> [] then sf_pts (hd (tl_frames t)) else 0) = source_pos h rate 0" using i by simp
    have "t\<lparr>tl_last := 0\<rparr> = t" using \<open>tl_last t = 0\<close> by simp
    then have "tl_inv rate h (t\<lparr>tl_last := 0\<rparr>)" by (simp only: assms(1))
    then show ?thesis using True assms tot \<open>tl_last t = 0\<close> z by (simp add: resolve_at_def)
  next
    case False
    obtain a where a: "a < tl_last t \<or> a = 0" "chain a (tl_frames t) (tl_total t)" using i by blast
    have ok: "list_all (frame_ok rate h) (tl_frames t)" using i by blast
    have "0 < e" using False assms(4) tot by simp
    then have below: "a < e" using a(1) assms(4) by auto
      obtain f rest where f: "dropWhile (\<lambda>f. e > sf_end f) (tl_frames t) = f # rest" "sf_start f < e" "e \<le> sf_end f"
        "f \<in> set (tl_frames t)" "set rest \<subseteq> set (tl_frames t)" "chain (sf_start f) (f # rest) (tl_total t)"
        using chain_find [OF a(2) below] assms(5) tot by auto
      have fok: "frame_ok rate h f" using ok f(4) by (simp add: list_all_iff)
      have small: "0 \<le> e - sf_start f" "e - sf_start f \<le> 2 ^ 40" using f(2) fok assms(5) i by (auto simp: frame_ok_def)
      note d = sampleDuration_exact [OF small assms(2,3)]
      have "sf_rate f = rate" "sf_pts f \<le> 2 ^ 62" using fok by (simp_all add: frame_ok_def)
      moreover have "\<not> sf_pts f > max_duration - (e - sf_start f) * second div rate"
        using d(3) \<open>sf_pts f \<le> 2 ^ 62\<close> by (simp add: max_duration_def del: left_diff_distrib left_diff_distrib')
      ultimately have r: "resolve_at e t = (Inr (sf_pts f + (e - sf_start f) * second div rate), t\<lparr>tl_last := e, tl_frames := f # rest\<rparr>)"
        using False assms(4,5) tot f(1) d(1) by (simp add: resolve_at_def del: left_diff_distrib left_diff_distrib')
      have "sf_pts f + (e - sf_start f) * second div rate - source_pos h rate e \<in> {0, 1}"
        using fok f(2,3) by (simp add: frame_ok_def)
      moreover have "tl_inv rate h (t\<lparr>tl_last := e, tl_frames := f # rest\<rparr>)"
        using i ok f assms(5) tot False \<open>0 < e\<close> by (auto simp: tl_inv_def list_all_iff intro!: exI [of _ "sf_start f"])
      ultimately show ?thesis using r by (intro exI [of _ "sf_pts f + (e - sf_start f) * second div rate"]
            exI [of _ "t\<lparr>tl_last := e, tl_frames := f # rest\<rparr>"]) (simp del: insert_iff)
  qed
qed

section \<open>Lines of the protocol\<close>

text \<open>
  A line as \<open>encoding/json\<close> reads it: the fields in their order, numbers written as integers kept apart from the
  others. \<open>None\<close> is a line that is no JSON object. \<open>null\<close>, which Go takes for an object, is the empty list.
\<close>

datatype jvalue = JNull | JBool bool | JInt int | JFrac rat | JStr gostr | JOther

type_synonym wire_line = "(gostr \<times> jvalue) list option"

record stt_message =
  m_partial :: "gostr option"
  m_text :: "gostr option"
  m_inference :: "rat option"
  m_language :: gostr
  m_end :: int
  m_final :: bool

definition no_message :: stt_message where
  "no_message = \<lparr>m_partial = None, m_text = None, m_inference = None, m_language = [], m_end = 0, m_final = False\<rparr>"

definition transcript_fields :: "gostr list" where
  "transcript_fields = map str [''partial'', ''text'', ''inference_ms'', ''language'', ''end_samples'', ''final'']"

text \<open>The struct field of a key: the exact name first, else the first that agrees under case folding.\<close>

definition field_of :: "unicode \<Rightarrow> gostr \<Rightarrow> gostr option" where
  "field_of u key =
     (if key \<in> set transcript_fields then Some key
      else case filter (EqualFold u key) transcript_fields of [] \<Rightarrow> None | f # _ \<Rightarrow> Some f)"

text \<open>\<open>None\<close> is a value of the wrong type.\<close>

definition ptr_str :: "jvalue \<Rightarrow> gostr option option" where
  "ptr_str v = (case v of JNull \<Rightarrow> Some None | JStr s \<Rightarrow> Some (Some s) | _ \<Rightarrow> None)"

definition ptr_float :: "jvalue \<Rightarrow> rat option option" where
  "ptr_float v = (case v of JNull \<Rightarrow> Some None | JInt i \<Rightarrow> Some (Some (of_int i)) | JFrac q \<Rightarrow> Some (Some q) | _ \<Rightarrow> None)"

definition ptr_int64 :: "jvalue \<Rightarrow> int option option" where
  "ptr_int64 v = (case v of JNull \<Rightarrow> Some None | JInt i \<Rightarrow> (if in_int64 i then Some (Some i) else None) | _ \<Rightarrow> None)"

definition set_field :: "gostr \<Rightarrow> jvalue \<Rightarrow> stt_message \<Rightarrow> stt_message option" where
  "set_field f v m =
     (if f = str ''partial'' then map_option (\<lambda>x. m\<lparr>m_partial := x\<rparr>) (ptr_str v)
      else if f = str ''text'' then map_option (\<lambda>x. m\<lparr>m_text := x\<rparr>) (ptr_str v)
      else if f = str ''inference_ms'' then map_option (\<lambda>x. m\<lparr>m_inference := x\<rparr>) (ptr_float v)
      else if f = str ''language''
        then (case v of JNull \<Rightarrow> Some m | JStr s \<Rightarrow> Some (m\<lparr>m_language := s\<rparr>) | _ \<Rightarrow> None)
      else if f = str ''end_samples'' then map_option (\<lambda>x. case x of None \<Rightarrow> m | Some i \<Rightarrow> m\<lparr>m_end := i\<rparr>) (ptr_int64 v)
      else (case v of JNull \<Rightarrow> Some m | JBool b \<Rightarrow> Some (m\<lparr>m_final := b\<rparr>) | _ \<Rightarrow> None))"

fun unmarshal :: "unicode \<Rightarrow> (gostr \<times> jvalue) list \<Rightarrow> stt_message \<Rightarrow> stt_message option" where
  "unmarshal u [] m = Some m"
| "unmarshal u ((key, v) # rest) m =
     (case field_of u key of
        None \<Rightarrow> unmarshal u rest m
      | Some f \<Rightarrow> (case set_field f v m of None \<Rightarrow> None | Some m' \<Rightarrow> unmarshal u rest m'))"

text \<open>The map of raw fields: the last of equal keys.\<close>

definition raw_field :: "(gostr \<times> jvalue) list \<Rightarrow> gostr \<Rightarrow> jvalue option" where
  "raw_field fs key = map_of (rev fs) key"

datatype line_error = LineNotJSON | ReadyInvalid | FinalShape | PartialShape | InferenceNotNumber | InferenceRange
  | EndSamplesMissing | EndSamplesInvalid

definition validateReadyField :: "jvalue \<Rightarrow> nat \<Rightarrow> line_error option" where
  "validateReadyField raw fieldCount = (if raw \<noteq> JBool True \<or> fieldCount \<noteq> 1 then Some ReadyInvalid else None)"

definition validateTranscriptText :: "stt_message \<Rightarrow> line_error option" where
  "validateTranscriptText m =
     (if m_final m then (if m_text m = None \<or> m_partial m \<noteq> None then Some FinalShape else None)
      else if m_partial m = None \<or> m_text m \<noteq> None then Some PartialShape else None)"

definition validateInferenceField :: "rat option \<Rightarrow> (gostr \<times> jvalue) list \<Rightarrow> line_error option" where
  "validateInferenceField value fs =
     (if (case raw_field fs (str ''inference_ms'') of
            None \<Rightarrow> False
          | Some raw \<Rightarrow> (case ptr_float raw of Some (Some _) \<Rightarrow> False | _ \<Rightarrow> True)) then Some InferenceNotNumber
      else case value of
        None \<Rightarrow> None
      | Some v \<Rightarrow> if v < 0 \<or> v > 600000 then Some InferenceRange else None)"

definition validateEndSamplesField :: "(gostr \<times> jvalue) list \<Rightarrow> line_error option" where
  "validateEndSamplesField fs =
     (case raw_field fs (str ''end_samples'') of
        None \<Rightarrow> Some EndSamplesMissing
      | Some raw \<Rightarrow> (case ptr_int64 raw of Some (Some i) \<Rightarrow> if i < 0 then Some EndSamplesInvalid else None | _ \<Rightarrow> Some EndSamplesInvalid))"

definition validateTranscriptShape :: "stt_message \<Rightarrow> (gostr \<times> jvalue) list \<Rightarrow> line_error option" where
  "validateTranscriptShape m fs =
     (case validateTranscriptText m of
        Some e \<Rightarrow> Some e
      | None \<Rightarrow> (case validateInferenceField (m_inference m) fs of Some e \<Rightarrow> Some e | None \<Rightarrow> validateEndSamplesField fs))"

text \<open>\<open>None\<close> on the right is the ready handshake.\<close>

definition decodeSTTMessage :: "unicode \<Rightarrow> wire_line \<Rightarrow> line_error + stt_message option" where
  "decodeSTTMessage u line =
     (case line of
        None \<Rightarrow> Inl LineNotJSON
      | Some fs \<Rightarrow>
          (case raw_field fs (str ''ready'') of
             Some raw \<Rightarrow>
               (case validateReadyField raw (length (remdups (map fst fs))) of Some e \<Rightarrow> Inl e | None \<Rightarrow> Inr None)
           | None \<Rightarrow>
               (case unmarshal u fs no_message of
                  None \<Rightarrow> Inl LineNotJSON
                | Some m \<Rightarrow> (case validateTranscriptShape m fs of Some e \<Rightarrow> Inl e | None \<Rightarrow> Inr (Some m)))))"

section \<open>The session\<close>

record sttSession =
  se_ready :: bool
  se_lang :: lang
  se_timeline :: sourceTimeline
  se_events :: "Transcript list"

definition open_session :: "lang \<Rightarrow> sttSession" where
  "open_session hint = \<lparr>se_ready = False, se_lang = hint, se_timeline = empty_timeline, se_events = []\<rparr>"

datatype dispatch_error = BadLine line_error | DuplicateReady | EarlyTranscript | LanguageUnknown gostr | LanguageNotConcrete gostr
  | BadTiming timing_error | SessionStopping

definition applyDetectedLanguage :: "unicode \<Rightarrow> gostr \<Rightarrow> sttSession \<Rightarrow> dispatch_error + sttSession" where
  "applyDetectedLanguage u value s =
     (if value = [] then Inr s
      else case Parse u value of
        Inl _ \<Rightarrow> Inl (LanguageUnknown value)
      | Inr detected \<Rightarrow> if detected = LangAuto then Inl (LanguageNotConcrete value) else Inr (s\<lparr>se_lang := detected\<rparr>))"

definition transcriptUpdate :: "stt_message \<Rightarrow> lang \<Rightarrow> duration \<Rightarrow> Transcript option" where
  "transcriptUpdate m language sourceEnd =
     (if m_final m
      then Some \<lparr>Text = trim_space (the (m_text m)), TLang = language, SourceEnd = sourceEnd, Stable = True, Final = True, HasSourceEnd = True\<rparr>
      else let t = trim_space (the (m_partial m)) in
        if t \<noteq> [] then Some \<lparr>Text = t, TLang = language, SourceEnd = sourceEnd, Stable = False, Final = False, HasSourceEnd = True\<rparr> else None)"

text \<open>\<open>taken\<close> is whether the consumer took the update before the session was stopped.\<close>

definition stt_dispatch :: "unicode \<Rightarrow> bool \<Rightarrow> wire_line \<Rightarrow> sttSession \<Rightarrow> dispatch_error option \<times> sttSession" where
  "stt_dispatch u taken line s =
     (case decodeSTTMessage u line of
        Inl e \<Rightarrow> (Some (BadLine e), s)
      | Inr None \<Rightarrow> if se_ready s then (Some DuplicateReady, s) else (None, s\<lparr>se_ready := True\<rparr>)
      | Inr (Some m) \<Rightarrow>
          if \<not> se_ready s then (Some EarlyTranscript, s)
          else case applyDetectedLanguage u (m_language m) s of
            Inl e \<Rightarrow> (Some e, s)
          | Inr s1 \<Rightarrow>
              (case resolve_at (m_end m) (se_timeline s1) of
                 (Inl e, t) \<Rightarrow> (Some (BadTiming e), s1\<lparr>se_timeline := t\<rparr>)
               | (Inr sourceEnd, t) \<Rightarrow>
                   let s2 = s1\<lparr>se_timeline := t\<rparr> in
                   (case transcriptUpdate m (se_lang s2) sourceEnd of
                      None \<Rightarrow> (None, s2)
                    | Some update \<Rightarrow>
                        if taken then (None, s2\<lparr>se_events := se_events s2 @ [update]\<rparr>) else (Some SessionStopping, s2))))"

text \<open>\<open>Push\<close>: the states of the context before the lock, under it and after a failed write, and what the pipe answered.\<close>

datatype frame_push_error = WrongRate int | WrongChannels int | PushCanceled | PushBroken

record push_world =
  pw_canceled :: bool
  pw_canceledLocked :: bool
  pw_write :: "bool \<times> nat"
  pw_canceledAfter :: bool

definition stt_push :: "push_world \<Rightarrow> int \<Rightarrow> rated_pcm \<Rightarrow> sttSession \<Rightarrow> frame_push_error option \<times> byte list \<times> sttSession" where
  "stt_push w rate p s =
     (if fr_rate p \<noteq> rate then (Some (WrongRate (fr_rate p)), [], s)
      else if fr_ch p \<noteq> 1 then (Some (WrongChannels (fr_ch p)), [], s)
      else if pw_canceled w then (Some PushCanceled, [], s)
      else if pw_canceledLocked w then (Some PushCanceled, [], s)
      else let payload = concat (map le_bytes16 (Data p));
               s' = s\<lparr>se_timeline := record_frame p (se_timeline s)\<rparr>
           in if fst (pw_write w) \<or> snd (pw_write w) \<noteq> length payload
              then (Some (if pw_canceledAfter w then PushCanceled else PushBroken), take (snd (pw_write w)) payload, s')
              else (None, payload, s'))"

section \<open>What the helper writes\<close>

text \<open>\<open>json.Encoder\<close> on \<open>nativewire.Transcript\<close>: the fields in the order of the struct, the empty ones left out.\<close>

definition wire_of :: "rat \<Rightarrow> stt_line \<Rightarrow> wire_line" where
  "wire_of took l = Some (
     (if ln_final l then [(str ''text'', JStr (ln_text l))] else [(str ''partial'', JStr (ln_text l))])
     @ [(str ''inference_ms'', JFrac took)]
     @ (if ln_lang l \<noteq> [] then [(str ''language'', JStr (ln_lang l))] else [])
     @ [(str ''end_samples'', JInt (ln_end l))]
     @ (if ln_final l then [(str ''final'', JBool True)] else []))"

definition wire_ready :: wire_line where "wire_ready = Some [(str ''ready'', JBool True)]"

definition message_of :: "rat \<Rightarrow> stt_line \<Rightarrow> stt_message" where
  "message_of took l = \<lparr>m_partial = (if ln_final l then None else Some (ln_text l)), m_text = (if ln_final l then Some (ln_text l) else None),
     m_inference = Some took, m_language = ln_lang l, m_end = ln_end l, m_final = ln_final l\<rparr>"

lemma key_neq: "str ''ready'' \<notin> set transcript_fields" "str ''partial'' \<in> set transcript_fields" "str ''text'' \<in> set transcript_fields"
  "str ''inference_ms'' \<in> set transcript_fields" "str ''language'' \<in> set transcript_fields" "str ''end_samples'' \<in> set transcript_fields"
  "str ''final'' \<in> set transcript_fields" "distinct (str ''ready'' # transcript_fields)"
  by code_simp+

lemma set_field_simps:
  "set_field (str ''partial'') v m = map_option (\<lambda>x. m\<lparr>m_partial := x\<rparr>) (ptr_str v)"
  "set_field (str ''text'') v m = map_option (\<lambda>x. m\<lparr>m_text := x\<rparr>) (ptr_str v)"
  "set_field (str ''inference_ms'') v m = map_option (\<lambda>x. m\<lparr>m_inference := x\<rparr>) (ptr_float v)"
  "set_field (str ''language'') v m = (case v of JNull \<Rightarrow> Some m | JStr s \<Rightarrow> Some (m\<lparr>m_language := s\<rparr>) | _ \<Rightarrow> None)"
  "set_field (str ''end_samples'') v m = map_option (\<lambda>x. case x of None \<Rightarrow> m | Some i \<Rightarrow> m\<lparr>m_end := i\<rparr>) (ptr_int64 v)"
  "set_field (str ''final'') v m = (case v of JNull \<Rightarrow> Some m | JBool b \<Rightarrow> Some (m\<lparr>m_final := b\<rparr>) | _ \<Rightarrow> None)"
  by (simp_all add: set_field_def str_def)

lemma raw_wire:
  "wire_of took l = Some fs \<Longrightarrow> raw_field fs (str ''ready'') = None"
  "wire_of took l = Some fs \<Longrightarrow> raw_field fs (str ''inference_ms'') = Some (JFrac took)"
  "wire_of took l = Some fs \<Longrightarrow> raw_field fs (str ''end_samples'') = Some (JInt (ln_end l))"
  by (auto simp: wire_of_def raw_field_def str_def)

lemma unmarshal_wire:
  "wire_of took l = Some fs \<Longrightarrow> in_int64 (ln_end l) \<Longrightarrow> unmarshal u fs no_message = Some (message_of took l)"
  by (cases "ln_final l"; cases "ln_lang l")
    (auto simp: wire_of_def field_of_def key_neq set_field_simps ptr_str_def ptr_float_def ptr_int64_def no_message_def message_of_def)

text \<open>A line of the helper with a boundary of 64 bits and an inference time of at most ten minutes decodes to exactly
  what was encoded; the absent fields decode as absent.\<close>

lemma helper_line_reads_back:
  assumes "0 \<le> took" "took \<le> 600000" "0 \<le> ln_end l" "ln_end l < 2 ^ 63"
  shows "decodeSTTMessage u (wire_of took l) = Inr (Some (message_of took l))"
proof -
  obtain fs where w: "wire_of took l = Some fs" by (simp add: wire_of_def)
  have "in_int64 (ln_end l)" using assms by (simp add: in_int64_def)
  then show ?thesis
    using assms raw_wire [OF w] unmarshal_wire [OF w]
    by (simp add: decodeSTTMessage_def w validateTranscriptShape_def validateTranscriptText_def validateInferenceField_def
        validateEndSamplesField_def message_of_def ptr_float_def ptr_int64_def)
qed

section \<open>Helper and session together\<close>

text \<open>The language the helper was started with, as its option parser leaves it.\<close>

definition helper_language :: "unicode \<Rightarrow> lang \<Rightarrow> gostr" where
  "helper_language u hint = (if hint = LangAuto then languageAuto else baseLanguageTag (ToLower u (Base hint)))"

lemma pinned_language:
  assumes "unicode_ok u" "canonical hint"
  shows "helper_language u hint \<noteq> [] \<and> helper_language u hint \<noteq> languageAuto \<and>
    Parse u (helper_language u hint) = Inr (helper_language u hint) \<and> helper_language u hint \<noteq> LangAuto"
proof -
  obtain e where e: "e \<in> set registry" "hint = Tag e \<or> (\<exists>a b. hint = Tag e @ [45, a, b])"
    using assms(2) by (auto simp: canonical_def)
  obtain x y where xy: "Tag e = [x, y]" "is_lower_ascii x" "is_lower_ascii y" using e(1) by (rule tag_shape)
  then have n: "x \<noteq> 45" "y \<noteq> 45" "str ''-'' = [45]" by (auto simp: is_lower_ascii_def str_def)
  have b: "Base hint = [x, y]" using e(2) xy n by (auto simp: Base_def str_cut_def cut_at.simps)
  have l: "ToLower u [x, y] = [x, y]" using assms(1) xy by (simp add: ToLower_def unicode_ok_def)
  have a: "[x, y] \<noteq> languageAuto" by (simp add: languageAuto_def str_def)
  then have "helper_language u hint = [x, y]"
    using b l n e(2) xy by (auto simp: helper_language_def LangAuto_def baseLanguageTag_def str_cut_def cut_at.simps)
  moreover have "canonical [x, y]" unfolding canonical_def using e(1) xy(1) by metis
  ultimately show ?thesis using Parse_of_canonical [OF assms(1), of "[x, y]"] a by (simp add: LangAuto_def)
qed

record link =
  lk_helper :: stt
  lk_session :: sttSession
  lk_sent :: nat
  lk_pushed :: "(int \<times> duration) list"
  lk_error :: "dispatch_error option"

definition link_start :: "unicode \<Rightarrow> lang \<Rightarrow> int \<Rightarrow> STTTuning \<Rightarrow> link" where
  "link_start u hint rate t = \<lparr>lk_helper = stt_start rate t, lk_session = snd (stt_dispatch u True wire_ready (open_session hint)),
     lk_sent = 0, lk_pushed = [], lk_error = None\<rparr>"

text \<open>
  Frames are pushed, the helper moves, decoding no more than it was sent, and its lines arrive in their order. A
  session stays below \<open>2 ^ 40\<close> samples, four years at eight kilohertz.
\<close>

inductive link_step :: "unicode \<Rightarrow> stt_env \<Rightarrow> int \<Rightarrow> link \<Rightarrow> link \<Rightarrow> bool" for u ev rate where
  pushes: "stt_push w rate p (lk_session k) = (None, payload, s') \<Longrightarrow> 0 \<le> PTS p \<Longrightarrow> PTS p \<le> 2 ^ 62 \<Longrightarrow>
    written (lk_pushed k @ wrote p) \<le> 2 ^ 40 \<Longrightarrow>
    link_step u ev rate k (k\<lparr>lk_session := s', lk_pushed := lk_pushed k @ wrote p\<rparr>)"
| helps: "stt_step ev (lk_helper k) h' \<Longrightarrow> int (length (st_src h')) \<le> written (lk_pushed k) \<Longrightarrow>
    link_step u ev rate k (k\<lparr>lk_helper := h'\<rparr>)"
| delivers: "lk_error k = None \<Longrightarrow> lk_sent k < length (st_out (lk_helper k)) \<Longrightarrow> 0 \<le> took \<Longrightarrow> took \<le> 600000 \<Longrightarrow>
    stt_dispatch u taken (wire_of took (st_out (lk_helper k) ! lk_sent k)) (lk_session k) = (e, s') \<Longrightarrow>
    link_step u ev rate k (k\<lparr>lk_session := s', lk_sent := Suc (lk_sent k), lk_error := e\<rparr>)"

definition link_reach :: "unicode \<Rightarrow> stt_env \<Rightarrow> lang \<Rightarrow> int \<Rightarrow> STTTuning \<Rightarrow> link \<Rightarrow> bool" where
  "link_reach u ev hint rate t = (link_step u ev rate)\<^sup>*\<^sup>* (link_start u hint rate t)"

text \<open>The finals the consumer has, and those the helper wrote.\<close>

definition finals_of :: "sttSession \<Rightarrow> gostr list" where
  "finals_of s = map Text (filter Final (se_events s))"

definition finals_in :: "stt_line list \<Rightarrow> gostr list" where
  "finals_in ls = map (\<lambda>l. trim_space (ln_text l)) (filter ln_final ls)"

definition link_inv :: "unicode \<Rightarrow> stt_env \<Rightarrow> int \<Rightarrow> STTTuning \<Rightarrow> link \<Rightarrow> bool" where
  "link_inv u ev rate t k \<longleftrightarrow> stt_reach ev rate t (lk_helper k) \<and> tl_inv rate (lk_pushed k) (se_timeline (lk_session k)) \<and>
     int (length (st_src (lk_helper k))) \<le> written (lk_pushed k) \<and> se_ready (lk_session k) \<and>
     lk_sent k \<le> length (st_out (lk_helper k)) \<and> list_all (\<lambda>l. ln_lang l = ev_lang ev) (st_out (lk_helper k)) \<and>
     (lk_error k = None \<or> lk_error k = Some SessionStopping) \<and>
     (lk_error k = None \<longrightarrow>
        tl_last (se_timeline (lk_session k)) = (if lk_sent k = 0 then 0 else ln_end (st_out (lk_helper k) ! (lk_sent k - 1))) \<and>
        finals_of (lk_session k) = finals_in (take (lk_sent k) (st_out (lk_helper k))))"

lemma out_grows:
  assumes "stt_step ev h h'" "ev_lang ev \<noteq> []" "ev_lang ev \<noteq> languageAuto"
  shows "\<exists>x. st_out h' = st_out h @ x \<and> list_all (\<lambda>l. ln_lang l = ev_lang ev) x"
  using assms(1)
proof cases
  case (finals seg resp line)
  then have "ln_lang line = ev_lang ev" using assms(2,3) by (auto simp: transcribe_def split: inference.splits)
  then show ?thesis by (simp add: finals(1))
next
  case (partials seg resp)
  have "list_all (\<lambda>l. ln_lang l = ev_lang ev) (partial_line (ev_lang ev) (infer ev resp) seg)"
    using assms(2,3) by (auto simp: partial_line_def split: inference.splits)
  then show ?thesis by (auto simp: partials(1))
qed (auto simp: stt_publish_def stt_finish_def split: option.split prod.split)

lemma empty_tl_inv: "tl_inv rate [] empty_timeline"
  by (simp add: tl_inv_def empty_timeline_def written_def)

lemma dispatch_line:
  assumes "0 \<le> took" "took \<le> 600000" "0 \<le> ln_end l" "ln_end l < 2 ^ 63" "se_ready s"
    and "ln_lang l \<noteq> []" "Parse u (ln_lang l) = Inr (ln_lang l)" "ln_lang l \<noteq> LangAuto"
    and "resolve_at (ln_end l) (se_timeline s) = (Inr d, tm)" "stt_dispatch u taken (wire_of took l) s = (e, s')"
  shows "(e = None \<or> e = Some SessionStopping) \<and> se_timeline s' = tm \<and> se_ready s' \<and>
    (e = None \<longrightarrow> finals_of s' = finals_of s @ finals_in [l])"
  using assms(10) assms(3-9) unfolding stt_dispatch_def helper_line_reads_back [OF assms(1-4)]
  by (auto simp: applyDetectedLanguage_def message_of_def transcriptUpdate_def Let_def finals_of_def finals_in_def
      split: if_splits)

lemma link_step_inv:
  assumes "link_step u ev rate k k'" "link_inv u ev rate t k" "tuned rate t"
    and "ev_lang ev \<noteq> []" "ev_lang ev \<noteq> languageAuto" "Parse u (ev_lang ev) = Inr (ev_lang ev)" "ev_lang ev \<noteq> LangAuto"
  shows "link_inv u ev rate t k'"
proof -
  note i = assms(2) [unfolded link_inv_def]
  have r: "8000 \<le> rate" "rate \<le> 192000" using tuned_bounds [OF assms(3)] by simp_all
  have rec: "tl_last (record_frame p m) = tl_last m" for p m by (simp add: record_frame_def Let_def)
  show ?thesis using assms(1)
  proof cases
    case (pushes w p payload s')
    have s': "s' = (lk_session k)\<lparr>se_timeline := record_frame p (se_timeline (lk_session k))\<rparr>" "fr_rate p = rate"
      using pushes(2) by (auto simp: stt_push_def Let_def split: if_splits)
    have "tl_inv rate (lk_pushed k @ wrote p) (se_timeline s')"
      using record_inv [OF _ s'(2) r pushes(3-5)] i s' by simp
    moreover have "0 \<le> written (wrote p)" by (simp add: wrote_def written_def)
    ultimately show ?thesis using i by (simp add: link_inv_def pushes(1) s' rec finals_of_def)
  next
    case (helps h')
    obtain x where x: "st_out h' = st_out (lk_helper k) @ x" "list_all (\<lambda>l. ln_lang l = ev_lang ev) x"
      using out_grows [OF helps(2) assms(4,5)] by blast
    have "stt_reach ev rate t h'" using i helps(2) unfolding stt_reach_def by (meson rtranclp.rtrancl_into_rtrancl)
    moreover have "lk_sent k \<noteq> 0 \<Longrightarrow> st_out h' ! (lk_sent k - 1) = st_out (lk_helper k) ! (lk_sent k - 1)"
      using i x by (subst x(1), subst nth_append) auto
    ultimately show ?thesis using i x helps(3) by (simp add: link_inv_def helps(1))
  next
    case (delivers took taken e s')
    define l where "l = st_out (lk_helper k) ! lk_sent k"
    define h where "h = lk_helper k"
    have reach: "stt_reach ev rate t h" using i by (simp add: h_def)
    have inv: "order_inv h" "source_inv h" using stt_reach_inv [OF assms(3) reach] by simp_all
    then have src: "sorted (map ln_end (st_out h))" "\<forall>l \<in> set (st_out h). 0 \<le> ln_end l \<and> ln_end l \<le> int (length (st_src h))"
      using total_len [OF inv(2)] by (auto simp: order_inv_def boundaries_def sorted_append)
    have l: "l \<in> set (st_out h)" using delivers(3) by (simp add: l_def h_def)
    have low: "tl_last (se_timeline (lk_session k)) \<le> ln_end l"
    proof (cases "lk_sent k")
      case 0
      then show ?thesis using i delivers(2) src l by simp
    next
      case (Suc n)
      then have "map ln_end (st_out h) ! n \<le> map ln_end (st_out h) ! lk_sent k"
        using src(1) delivers(3) by (intro sorted_nth_mono) (simp_all add: h_def)
      then show ?thesis using i delivers(2,3) Suc by (simp add: l_def h_def)
    qed
    have high: "ln_end l \<le> written (lk_pushed k)" using src(2) l i by (fastforce simp: h_def)
    obtain d tm where res: "resolve_at (ln_end l) (se_timeline (lk_session k)) = (Inr d, tm)" "tl_inv rate (lk_pushed k) tm" "tl_last tm = ln_end l"
      using resolve_inv [OF _ r low high] i by blast
    have small: "0 \<le> ln_end l" "ln_end l < 2 ^ 63" using src(2) l high i by (auto simp: tl_inv_def)
    have lang: "ln_lang l = ev_lang ev" using l i by (simp add: list_all_iff h_def)
    have "(e = None \<or> e = Some SessionStopping) \<and> se_timeline s' = tm \<and> se_ready s' \<and>
        (e = None \<longrightarrow> finals_of s' = finals_of (lk_session k) @ finals_in [l])"
      by (rule dispatch_line [OF delivers(4,5) small _ _ _ _ res(1)])
        (use i lang assms(4-7) delivers(6) in \<open>simp_all add: l_def\<close>)
    moreover have "finals_in (take (Suc (lk_sent k)) (st_out h)) = finals_in (take (lk_sent k) (st_out h)) @ finals_in [l]"
      using delivers(3) by (simp add: l_def h_def take_Suc_conv_app_nth finals_in_def)
    ultimately show ?thesis using i delivers(2,3) res by (simp add: link_inv_def delivers(1) l_def h_def)
  qed
qed

text \<open>C15: A helper started with a concrete language never makes its session fail: whatever frames are pushed and however
  the two processes interleave, each line it writes passes every check, its boundary resolves to a source instant,
  and the finals the consumer gets are the finals the helper wrote, in order. The session's read ends early only
  when it is asked to stop.\<close>

theorem helper_never_breaks_the_session:
  assumes "unicode_ok u" "canonical hint" "ev_lang ev = helper_language u hint" "tuned rate t" "link_reach u ev hint rate t k"
  shows "lk_error k \<in> {None, Some SessionStopping} \<and>
    (lk_error k = None \<longrightarrow> finals_of (lk_session k) = finals_in (take (lk_sent k) (st_out (lk_helper k))))"
proof -
  note p = pinned_language [OF assms(1,2)]
  have "decodeSTTMessage u wire_ready = Inr None" by (simp add: decodeSTTMessage_def wire_ready_def raw_field_def validateReadyField_def)
  then have "link_inv u ev rate t (link_start u hint rate t)"
    by (simp add: link_inv_def link_start_def stt_dispatch_def open_session_def empty_tl_inv stt_reach_def
        stt_start_def finals_of_def finals_in_def) (simp add: written_def empty_timeline_def)
  have "link_inv u ev rate t k" using assms(5) unfolding link_reach_def
  proof (induction rule: rtranclp_induct)
    case base
    show ?case by fact
  next
    case (step k1 k2)
    then show ?case using link_step_inv [OF step(2,3) assms(4)] p assms(3) by simp
  qed
  then show ?thesis by (auto simp: link_inv_def)
qed

lemma tl_run_exact:
  assumes "8000 \<le> rate" "rate \<le> 192000"
  shows "tl_inv rate h t \<Longrightarrow> tl_last t \<le> low \<Longrightarrow> tl_legal rate ops h low \<Longrightarrow>
    list_all2 (\<lambda>r ref. \<exists>d. r = Inr d \<and> d - ref \<in> {0, 1}) (tl_run ops t) (ref_run rate ops h)"
proof (induction ops arbitrary: h t low)
  case (Cons x ops)
  show ?case
  proof (cases x)
    case (Wrote p)
    have "tl_inv rate (h @ wrote p) (record_frame p t)"
      by (rule record_inv [OF Cons.prems(1) _ assms]) (use Cons.prems(3) Wrote in auto)
    moreover have "tl_last (record_frame p t) \<le> low" using Cons.prems(2) by (simp add: record_frame_def Let_def)
    ultimately show ?thesis using Cons.IH Cons.prems(3) Wrote by simp
  next
    case (Boundary e)
    then have "tl_last t \<le> e" "e \<le> written h" using Cons.prems(2,3) by simp_all
    from resolve_inv [OF Cons.prems(1) assms this]
    obtain d t' where r: "resolve_at e t = (Inr d, t')" "d - source_pos h rate e \<in> {0, 1}" "tl_inv rate h t'" "tl_last t' = e" by blast
    then show ?thesis using Cons.IH [OF r(3), of e] Cons.prems(3) Boundary by simp
  qed
qed simp

text \<open>C18: Whatever frames are written, contiguous or with gaps and jumps, and however they are merged and dropped along the
  way, a boundary that does not go back and lies within what was written always resolves, to the source instant of
  its sample as the frame that carried it was stamped, at most one nanosecond late.\<close>

theorem source_instants_are_exact:
  assumes "8000 \<le> rate" "rate \<le> 192000" "tl_legal rate ops [] 0"
  shows "list_all2 (\<lambda>r ref. \<exists>d. r = Inr d \<and> d - ref \<in> {0, 1}) (tl_run ops empty_timeline) (ref_run rate ops [])"
  by (rule tl_run_exact [OF assms(1,2) empty_tl_inv _ assms(3)]) (simp add: empty_timeline_def)

definition demo_frame :: "sample list \<Rightarrow> duration \<Rightarrow> rated_pcm" where
  "demo_frame d pts = \<lparr>Data = d, PTS = pts, fr_rate = 8000, fr_ch = 1\<rparr>"

definition demo_ops :: "tl_op list" where
  "demo_ops = [Wrote (demo_frame [0, 0] 1000), Boundary 1, Wrote (demo_frame [0, 0, 0] 251000), Boundary 4,
     Wrote (demo_frame [0] 9000000), Boundary 6]"

theorem source_instants_are_exact_witness:
  "tl_run demo_ops empty_timeline = [Inr 126000, Inr 501000, Inr 9125000] \<and>
   list_all2 (\<lambda>r ref. \<exists>d. r = Inr d \<and> d - ref \<in> {0, 1}) (tl_run demo_ops empty_timeline) (ref_run 8000 demo_ops [])"
proof -
  have l: "tl_legal 8000 demo_ops [] 0" by code_simp
  have "tl_run demo_ops empty_timeline = [Inr 126000, Inr 501000, Inr 9125000]" by code_simp
  then show ?thesis using source_instants_are_exact [OF _ _ l] by simp
qed

lemma helper_line_reads_back_witness:
  "decodeSTTMessage ascii_tables (wire_of 12 demo_line) = Inr (Some (message_of 12 demo_line))"
  by (rule helper_line_reads_back) (simp_all add: demo_line_def)

text \<open>A run: twenty milliseconds are pushed, decoded and answered, and the line is delivered.\<close>

lemma src_grows: "stt_step ev h h' \<Longrightarrow> length (st_src h) \<le> length (st_src h')"
  by (cases rule: stt_step.cases, assumption) (auto simp: stt_publish_def stt_finish_def split: option.split prod.split)

lemma link_helps:
  assumes "(stt_step ev)\<^sup>*\<^sup>* (lk_helper k) h" "int (length (st_src h)) \<le> written (lk_pushed k)"
  shows "(link_step u ev rate)\<^sup>*\<^sup>* k (k\<lparr>lk_helper := h\<rparr>)"
  using assms
proof (induction rule: rtranclp_induct)
  case (step h1 h2)
  have "(link_step u ev rate)\<^sup>*\<^sup>* k (k\<lparr>lk_helper := h1\<rparr>)" using step src_grows [OF step(2)] by simp
  moreover have "link_step u ev rate (k\<lparr>lk_helper := h1\<rparr>) (k\<lparr>lk_helper := h2\<rparr>)"
    using link_step.helps [of ev "k\<lparr>lk_helper := h1\<rparr>" h2 u rate] step by simp
  ultimately show ?case by (rule rtranclp.rtrancl_into_rtrancl)
qed simp

theorem helper_never_breaks_the_session_witness:
  "\<exists>k. link_reach ascii_tables demo_stt_env (str ''it'') 8000 demo_tuning k \<and> lk_sent k = 1 \<and>
     lk_error k \<in> {None, Some SessionStopping}"
proof -
  obtain h where h: "stt_reach demo_stt_env 8000 demo_tuning h" "st_src h = replicate 160 0" "st_out h = [demo_line]"
    using demo_run by blast
  let ?k0 = "link_start ascii_tables (str ''it'') 8000 demo_tuning"
  let ?p = "demo_frame (replicate 160 0) 0"
  let ?w = "\<lparr>pw_canceled = False, pw_canceledLocked = False, pw_write = (False, 320), pw_canceledAfter = False\<rparr>"
  let ?s = "(lk_session ?k0)\<lparr>se_timeline := record_frame ?p (se_timeline (lk_session ?k0))\<rparr>"
  let ?k1 = "?k0\<lparr>lk_session := ?s, lk_pushed := lk_pushed ?k0 @ wrote ?p\<rparr>"
  let ?k2 = "?k1\<lparr>lk_helper := h\<rparr>"
  obtain e s' where d: "stt_dispatch ascii_tables True (wire_of 12 (st_out h ! 0)) ?s = (e, s')" by fastforce
  let ?k3 = "?k2\<lparr>lk_session := s', lk_sent := 1, lk_error := e\<rparr>"
  have w: "lk_pushed ?k0 = []" "wrote ?p = [(160, 0)]" by (simp_all add: link_start_def wrote_def demo_frame_def)
  have n: "length (concat (replicate 160 (le_bytes16 0))) = 320" by code_simp
  have 1: "link_step ascii_tables demo_stt_env 8000 ?k0 ?k1"
    by (rule link_step.pushes [of ?w _ ?p _ "concat (map le_bytes16 (Data ?p))"])
      (simp add: stt_push_def Let_def n demo_frame_def, simp_all add: w, simp_all add: demo_frame_def written_def)
  have 2: "(link_step ascii_tables demo_stt_env 8000)\<^sup>*\<^sup>* ?k1 ?k2"
    by (rule link_helps) (use h(1) in \<open>simp_all add: stt_reach_def link_start_def h(2) w wrote_def demo_frame_def written_def\<close>)
  have 3: "link_step ascii_tables demo_stt_env 8000 ?k2 ?k3"
    using link_step.delivers [of ?k2 12 ascii_tables True e s' demo_stt_env 8000] d h(3) by (simp add: link_start_def)
  have r: "link_reach ascii_tables demo_stt_env (str ''it'') 8000 demo_tuning ?k3"
    unfolding link_reach_def using 1 2 3 by (meson converse_rtranclp_into_rtranclp rtranclp.rtrancl_into_rtrancl)
  have "Parse ascii_tables (str ''it'') = Inr (str ''it'')" "str ''it'' \<noteq> LangAuto" by code_simp+
  then have c: "canonical (str ''it'')" using parsed_tag_is_stable [OF ascii_tables_ok] by blast
  have l: "ev_lang demo_stt_env = helper_language ascii_tables (str ''it'')"
    unfolding demo_stt_env_def stt_env.simps by code_simp
  have "lk_error ?k3 \<in> {None, Some SessionStopping}"
    using helper_never_breaks_the_session [OF ascii_tables_ok c l demo_tuned r] by blast
  then show ?thesis using r by (intro exI [of _ ?k3]) simp
qed

section \<open>A detected language outside the registry\<close>

text \<open>
  With no pinned language the helper passes on whatever whisper detected, if it is a well-formed tag. The daemon ends
  the session on a tag it has no entry for.
\<close>

lemma detected_language_ends_session:
  assumes "se_ready s" "0 \<le> took" "took \<le> 600000"
  shows "validLanguageArg (str ''yue'') False \<and>
    (\<exists>l. transcribe languageAuto (Inferred (str ''hi'') (str ''yue'')) demo_segment = Some l \<and>
       fst (stt_dispatch ascii_tables taken (wire_of took l) s) = Some (LanguageUnknown (str ''yue'')))"
proof -
  let ?l = "\<lparr>ln_final = True, ln_text = whisper_text (str ''hi''), ln_lang = str ''yue'', ln_end = 160\<rparr>"
  have f: "firstNonAuto [languageAuto, str ''yue''] = str ''yue''" by code_simp
  have t: "transcribe languageAuto (Inferred (str ''hi'') (str ''yue'')) demo_segment = Some ?l"
    by (simp add: transcribe_def f demo_segment_def del: firstNonAuto.simps)
  have p: "Parse ascii_tables (str ''yue'') = Inl (UnknownLang (str ''yue'') [])" "str ''yue'' \<noteq> []" by code_simp+
  have v: "validLanguageArg (str ''yue'') False" by code_simp
  have d: "decodeSTTMessage ascii_tables (wire_of took ?l) = Inr (Some (message_of took ?l))"
    by (rule helper_line_reads_back [OF assms(2,3)]) simp_all
  have "fst (stt_dispatch ascii_tables taken (wire_of took ?l) s) = Some (LanguageUnknown (str ''yue''))"
    using assms(1) p by (simp add: stt_dispatch_def d applyDetectedLanguage_def message_of_def)
  then show ?thesis using v t by blast
qed

section \<open>The end of a session\<close>

text \<open>\<open>reap\<close>: what \<open>Err\<close> reports. \<open>writeErr\<close> was recorded by a failed write, \<open>scanErr\<close> by the reading of the lines.\<close>

datatype stt_cause = CauseWrite | CauseScan dispatch_error | CauseLine | CauseEOF | CauseWait | CauseTree

definition reap_causes :: "bool \<Rightarrow> bool \<Rightarrow> stt_cause option \<Rightarrow> bool \<Rightarrow> bool \<Rightarrow> bool \<Rightarrow> stt_cause list" where
  "reap_causes stopped sendClosed scanErr writeErr waitErr treeErr =
     (let unexpectedEOF = (scanErr = None \<and> \<not> sendClosed \<and> \<not> stopped);
          scan = (if unexpectedEOF then Some CauseEOF else scanErr)
      in if stopped \<and> \<not> writeErr then []
         else (if writeErr then [CauseWrite] else []) @ (case scan of None \<Rightarrow> [] | Some c \<Rightarrow> [c])
           @ (if waitErr then [CauseWait] else []) @ (if treeErr then [CauseTree] else []))"

text \<open>A helper that goes away while audio may still come always leaves an error.\<close>

lemma silent_end_is_an_error: "\<not> sendClosed \<Longrightarrow> \<not> stopped \<Longrightarrow> reap_causes stopped sendClosed scanErr writeErr waitErr treeErr \<noteq> []"
  by (cases scanErr) (simp_all add: reap_causes_def)

text \<open>A stop that was asked for hides every cause but a failed write.\<close>

lemma stopped_end_is_clean: "reap_causes True sendClosed scanErr False waitErr treeErr = []"
  by (simp add: reap_causes_def)

end
