(* ===== verification/Helpers.thy ===== *)
theory Helpers
  imports Pcm Lang "HOL-Library.Sublist"
begin

text \<open>
  \<^verbatim>\<open>internal/providers/native/process.go\<close>, \<^verbatim>\<open>mt.go\<close> and \<^verbatim>\<open>tts.go\<close>: the warm helpers of translation and synthesis.
  One helper serves many turns, one at a time behind a gate; a request is a line, its answer one or more. The
  turns, the helper and its death are the step relation \<open>helper_step\<close>; the cache that owns the helpers is
  \<open>cache_step\<close>. What a helper answers is an argument.
\<close>

section \<open>Reading answers\<close>

text \<open>A line of an answer: more follows, the last one, or one the daemon refuses. The payload is what the caller gets.\<close>

datatype 'm reading = More 'm | Last "'m list" | Refused

text \<open>What \<open>json.Unmarshal\<close> finds is an argument: \<open>None\<close> is an error, a missing or null string is \<open>None\<close> inside.\<close>

definition decodeMTResponse :: "('l \<Rightarrow> gostr option option) \<Rightarrow> 'l \<Rightarrow> gostr reading" where
  "decodeMTResponse json line =
     (case json line of None \<Rightarrow> Refused | Some None \<Rightarrow> Refused | Some (Some t) \<Rightarrow> Last [t])"

record audio_reply =
  ar_audio :: gostr
  ar_done :: bool

datatype tts_reply = TtsInvalid | TtsAudio gostr | TtsDone

definition decodeTTSResponse :: "('l \<Rightarrow> audio_reply option) \<Rightarrow> 'l \<Rightarrow> tts_reply" where
  "decodeTTSResponse json line =
     (case json line of
        None \<Rightarrow> TtsInvalid
      | Some m \<Rightarrow> (let hasAudio = (ar_audio m \<noteq> []) in
          if hasAudio = ar_done m then TtsInvalid else if ar_done m then TtsDone else TtsAudio (ar_audio m)))"

text \<open>The decoding half of \<open>forward\<close>; base64 is an argument.\<close>

definition forward_pcm :: "(gostr \<Rightarrow> byte list option) \<Rightarrow> gostr \<Rightarrow> sample list option" where
  "forward_pcm base64 audio =
     (case base64 audio of
        None \<Rightarrow> None
      | Some raw \<Rightarrow>
          if length raw mod 2 \<noteq> 0 then None
          else case DecodeS16LE (replicate (length raw div 2) 0) raw of
            (samples, decoded) \<Rightarrow> if decoded \<noteq> length samples then None else Some samples)"

definition read_tts :: "('l \<Rightarrow> audio_reply option) \<Rightarrow> (gostr \<Rightarrow> byte list option) \<Rightarrow> 'l \<Rightarrow> sample list reading" where
  "read_tts json base64 line =
     (case decodeTTSResponse json line of
        TtsInvalid \<Rightarrow> Refused
      | TtsDone \<Rightarrow> Last []
      | TtsAudio a \<Rightarrow> (case forward_pcm base64 a of None \<Rightarrow> Refused | Some ss \<Rightarrow> More ss))"

section \<open>Turns over one helper\<close>

text \<open>
  A turn has requests to make: one for a translation, a clause each for speech. \<open>PHolding\<close> has the gate, \<open>PWaiting\<close>
  has written a request and read some lines of its answer; both keep what is still to ask and the answers so far.
\<close>

datatype ('r, 'l) turn_state =
    PIdle
  | PHolding "'r list" "'l list list"
  | PWaiting 'r "'r list" "'l list" "'l list list"
  | PDone bool "'l list list"

record ('r, 'l) helper_link =
  hl_aborted :: bool
  hl_finished :: bool
  hl_gate :: "nat option"
  hl_in :: "'r list"
  hl_emit :: "'l list"
  hl_out :: "'l list"
  hl_turn :: "nat \<Rightarrow> ('r, 'l) turn_state"

definition link_fresh :: "('r, 'l) helper_link" where
  "link_fresh = \<lparr>hl_aborted = False, hl_finished = False, hl_gate = None, hl_in = [], hl_emit = [], hl_out = [], hl_turn = (\<lambda>_. PIdle)\<rparr>"

definition is_last :: "('l \<Rightarrow> 'm reading) \<Rightarrow> 'l \<Rightarrow> bool" where
  "is_last rd x \<longleftrightarrow> (case rd x of Last _ \<Rightarrow> True | _ \<Rightarrow> False)"

abbreviation turn_to :: "nat \<Rightarrow> ('r, 'l) turn_state \<Rightarrow> ('r, 'l) helper_link \<Rightarrow> ('r, 'l) helper_link" where
  "turn_to i p s \<equiv> s\<lparr>hl_turn := (hl_turn s)(i := p)\<rparr>"

text \<open>
  \<open>stops\<close> leaves before a request is written: the context had ended (\<open>run\<close> aborts then, \<open>writeLine\<close> does not) or the
  helper is done. \<open>write_fails\<close> is a write that failed, was short or was canceled; part of it may have gone out. \<open>leaves\<close>
  is a wait that ended with the context, a refused line, a consumer that went away or a closed channel; all but the
  last abort, and the channel closes only after an abort. \<open>aborts\<close> is the owner's context, \<open>close\<close> or the read pump.
\<close>

inductive helper_step :: "(nat \<Rightarrow> 'r list) \<Rightarrow> ('r \<Rightarrow> 'l list) \<Rightarrow> ('l \<Rightarrow> 'm reading) \<Rightarrow> ('r, 'l) helper_link \<Rightarrow> ('r, 'l) helper_link \<Rightarrow> bool"
  for ask reply rd where
  acquires: "hl_turn s i = PIdle \<Longrightarrow> hl_gate s = None \<Longrightarrow>
    helper_step ask reply rd s (turn_to i (PHolding (ask i) []) (s\<lparr>hl_gate := Some i\<rparr>))"
| gives_up: "hl_turn s i = PIdle \<Longrightarrow> helper_step ask reply rd s (turn_to i (PDone False []) s)"
| writes: "hl_turn s i = PHolding (r # todo) outs \<Longrightarrow> \<not> hl_aborted s \<Longrightarrow>
    helper_step ask reply rd s (turn_to i (PWaiting r todo [] outs) (s\<lparr>hl_in := hl_in s @ [r]\<rparr>))"
| write_fails: "hl_turn s i = PHolding (r # todo) outs \<Longrightarrow> (hl_aborted s \<longrightarrow> junk = []) \<Longrightarrow>
    helper_step ask reply rd s
      (turn_to i (PDone False outs) (s\<lparr>hl_aborted := True, hl_gate := None, hl_in := hl_in s @ junk\<rparr>))"
| stops: "hl_turn s i = PHolding todo outs \<Longrightarrow>
    helper_step ask reply rd s (turn_to i (PDone False outs) (s\<lparr>hl_aborted := hl_aborted s \<or> b, hl_gate := None\<rparr>))"
| ends: "hl_turn s i = PHolding [] outs \<Longrightarrow> helper_step ask reply rd s (turn_to i (PDone True outs) (s\<lparr>hl_gate := None\<rparr>))"
| answers: "\<not> hl_finished s \<Longrightarrow> hl_emit s = [] \<Longrightarrow> hl_in s = r # rest \<Longrightarrow>
    helper_step ask reply rd s (s\<lparr>hl_in := rest, hl_emit := reply r\<rparr>)"
| emits: "\<not> hl_finished s \<Longrightarrow> hl_emit s = x # rest \<Longrightarrow>
    helper_step ask reply rd s (s\<lparr>hl_emit := rest, hl_out := hl_out s @ [x]\<rparr>)"
| reads_more: "hl_turn s i = PWaiting r todo got outs \<Longrightarrow> hl_out s = x # rest \<Longrightarrow> rd x = More m \<Longrightarrow>
    helper_step ask reply rd s (turn_to i (PWaiting r todo (got @ [x]) outs) (s\<lparr>hl_out := rest\<rparr>))"
| reads_last: "hl_turn s i = PWaiting r todo got outs \<Longrightarrow> hl_out s = x # rest \<Longrightarrow> rd x = Last ms \<Longrightarrow>
    helper_step ask reply rd s (turn_to i (PHolding todo (outs @ [got @ [x]])) (s\<lparr>hl_out := rest\<rparr>))"
| leaves: "hl_turn s i = PWaiting r todo got outs \<Longrightarrow>
    helper_step ask reply rd s
      (turn_to i (PDone False outs) (s\<lparr>hl_aborted := True, hl_gate := None, hl_out := drop n (hl_out s)\<rparr>))"
| aborts: "helper_step ask reply rd s (s\<lparr>hl_aborted := True\<rparr>)"
| dies: "helper_step ask reply rd s (s\<lparr>hl_aborted := True, hl_finished := True, hl_in := [], hl_emit := []\<rparr>)"

definition helper_reach :: "(nat \<Rightarrow> 'r list) \<Rightarrow> ('r \<Rightarrow> 'l list) \<Rightarrow> ('l \<Rightarrow> 'm reading) \<Rightarrow> ('r, 'l) helper_link \<Rightarrow> bool" where
  "helper_reach ask reply rd = (helper_step ask reply rd)\<^sup>*\<^sup>* link_fresh"

text \<open>The contract of a helper: an answer ends with its last line and has no other that reads as one.\<close>

definition answers_once :: "('l \<Rightarrow> 'm reading) \<Rightarrow> 'l list \<Rightarrow> bool" where
  "answers_once rd ls \<longleftrightarrow> ls \<noteq> [] \<and> is_last rd (last ls) \<and> list_all (\<lambda>x. \<not> is_last rd x) (butlast ls)"

text \<open>Where a turn stands: what it asked so far was answered in full.\<close>

definition turn_ok :: "(nat \<Rightarrow> 'r list) \<Rightarrow> ('r \<Rightarrow> 'l list) \<Rightarrow> ('l \<Rightarrow> 'm reading) \<Rightarrow> nat \<Rightarrow> ('r, 'l) turn_state \<Rightarrow> bool" where
  "turn_ok ask reply rd i p = (case p of
     PIdle \<Rightarrow> True
   | PHolding todo outs \<Rightarrow> (\<exists>dn. ask i = dn @ todo \<and> outs = map reply dn)
   | PWaiting r todo got outs \<Rightarrow> (\<exists>dn. ask i = dn @ r # todo \<and> outs = map reply dn) \<and> list_all (\<lambda>x. \<not> is_last rd x) got
   | PDone ok outs \<Rightarrow> (\<exists>dn rest. ask i = dn @ rest \<and> outs = map reply dn \<and> (ok \<longrightarrow> rest = [])))"

definition holds_gate :: "('r, 'l) turn_state \<Rightarrow> bool" where
  "holds_gate p = (case p of PHolding _ _ \<Rightarrow> True | PWaiting _ _ _ _ \<Rightarrow> True | _ \<Rightarrow> False)"

text \<open>What is under way in the pipes: for a turn that waits, its own request or the rest of its own answer, whoever has
  aborted meanwhile; otherwise nothing, unless the helper was aborted.\<close>

definition pipes_ok :: "('r \<Rightarrow> 'l list) \<Rightarrow> ('r, 'l) helper_link \<Rightarrow> bool" where
  "pipes_ok reply s =
     ((hl_finished s \<longrightarrow> hl_aborted s \<and> hl_in s = [] \<and> hl_emit s = []) \<and>
      (case hl_gate s of
         None \<Rightarrow> hl_aborted s \<or> (hl_in s = [] \<and> hl_emit s = [] \<and> hl_out s = [])
       | Some i \<Rightarrow> (case hl_turn s i of
           PWaiting r todo got outs \<Rightarrow>
             (hl_in s = [r] \<and> hl_emit s = [] \<and> hl_out s = [] \<and> got = []) \<or>
             (hl_in s = [] \<and> (\<exists>lost. got @ hl_out s @ hl_emit s @ lost = reply r \<and> (lost \<noteq> [] \<longrightarrow> hl_finished s)))
         | _ \<Rightarrow> hl_aborted s \<or> (hl_in s = [] \<and> hl_emit s = [] \<and> hl_out s = []))))"

definition helper_inv :: "(nat \<Rightarrow> 'r list) \<Rightarrow> ('r \<Rightarrow> 'l list) \<Rightarrow> ('l \<Rightarrow> 'm reading) \<Rightarrow> ('r, 'l) helper_link \<Rightarrow> bool" where
  "helper_inv ask reply rd s \<longleftrightarrow> (\<forall>i. turn_ok ask reply rd i (hl_turn s i)) \<and>
     (\<forall>i. holds_gate (hl_turn s i) \<longleftrightarrow> hl_gate s = Some i) \<and> pipes_ok reply s"

lemma last_line_ends:
  assumes "answers_once rd ls" "got @ x # rest = ls" "list_all (\<lambda>x. \<not> is_last rd x) got" "is_last rd x"
  shows "rest = []"
proof (rule ccontr)
  assume "rest \<noteq> []"
  then have "x \<in> set (butlast ls)" using assms(2) by (auto simp: butlast_append)
  then show False using assms(1,4) by (auto simp: answers_once_def list_all_iff)
qed

lemma helper_step_inv:
  assumes "helper_step ask reply rd s s'" "helper_inv ask reply rd s" "\<And>r. answers_once rd (reply r)"
  shows "helper_inv ask reply rd s'"
proof -
  note i = assms(2) [unfolded helper_inv_def]
  have t: "turn_ok ask reply rd j (hl_turn s j)" and g: "holds_gate (hl_turn s j) \<longleftrightarrow> hl_gate s = Some j" for j using i by blast+
  have p: "pipes_ok reply s" using i by blast
  have ok: "helper_inv ask reply rd (turn_to j q s0)"
    if "\<And>k. hl_turn s0 k = hl_turn s k" "turn_ok ask reply rd j q"
      "\<And>k. k \<noteq> j \<Longrightarrow> (hl_gate s = Some k) = (hl_gate s0 = Some k)" "holds_gate q \<longleftrightarrow> hl_gate s0 = Some j" "pipes_ok reply (turn_to j q s0)" for j q s0
    using that t g by (auto simp: helper_inv_def)
  show ?thesis using assms(1)
  proof cases
    case (acquires j)
    show ?thesis unfolding acquires(1)
      by (rule ok) (use p acquires in \<open>auto simp: turn_ok_def holds_gate_def pipes_ok_def\<close>)
  next
    case (gives_up j)
    have "hl_gate s \<noteq> Some j" using g [of j] gives_up(2) by (simp add: holds_gate_def)
    then show ?thesis unfolding gives_up(1)
      by (intro ok) (use p in \<open>auto simp: turn_ok_def holds_gate_def pipes_ok_def split: option.splits turn_state.splits\<close>)
  next
    case (writes j r todo outs)
    have "hl_gate s = Some j" using g [of j] writes(2) by (simp add: holds_gate_def)
    then show ?thesis unfolding writes(1)
      by (intro ok) (use p t [of j] writes in \<open>auto simp: turn_ok_def holds_gate_def pipes_ok_def\<close>)
  next
    case (write_fails j r todo outs junk)
    have gj: "hl_gate s = Some j" using g [of j] write_fails(2) by (simp add: holds_gate_def)
    show ?thesis unfolding write_fails(1)
      by (rule ok) (use p t [of j] write_fails gj in \<open>auto simp: turn_ok_def holds_gate_def pipes_ok_def\<close>)
  next
    case (stops j todo outs b)
    have gj: "hl_gate s = Some j" using g [of j] stops(2) by (simp add: holds_gate_def)
    show ?thesis unfolding stops(1)
      by (rule ok) (use p t [of j] stops gj in \<open>auto simp: turn_ok_def holds_gate_def pipes_ok_def\<close>)
  next
    case (ends j outs)
    have gj: "hl_gate s = Some j" using g [of j] ends(2) by (simp add: holds_gate_def)
    show ?thesis unfolding ends(1)
      by (rule ok) (use p t [of j] ends gj in \<open>auto simp: turn_ok_def holds_gate_def pipes_ok_def\<close>)
  next
    case (answers r rest)
    then show ?thesis using i p by (auto simp: helper_inv_def pipes_ok_def split: option.splits turn_state.splits)
  next
    case (emits x rest)
    then show ?thesis using i p by (auto simp: helper_inv_def pipes_ok_def split: option.splits turn_state.splits)
  next
    case (reads_more j r todo got outs x rest m)
    have gj: "hl_gate s = Some j" using g [of j] reads_more(2) by (simp add: holds_gate_def)
    show ?thesis unfolding reads_more(1)
      by (rule ok) (use p t [of j] reads_more gj in \<open>auto simp: turn_ok_def holds_gate_def pipes_ok_def is_last_def\<close>)
  next
    case (reads_last j r todo got outs x rest ms)
    have gj: "hl_gate s = Some j" using g [of j] reads_last(2) by (simp add: holds_gate_def)
    obtain lost where l: "hl_in s = []" "got @ x # rest @ hl_emit s @ lost = reply r"
      using p gj reads_last(2,3) by (auto simp: pipes_ok_def)
    have "rest @ hl_emit s @ lost = []"
      by (rule last_line_ends [OF assms(3) l(2)]) (use t [of j] reads_last in \<open>simp_all add: turn_ok_def is_last_def\<close>)
    then have e: "rest = []" "hl_emit s = []" "reply r = got @ [x]" using l by simp_all
    obtain dn where dn: "ask j = dn @ r # todo" "outs = map reply dn" using t [of j] reads_last(2) by (auto simp: turn_ok_def)
    then have "ask j = (dn @ [r]) @ todo \<and> outs @ [got @ [x]] = map reply (dn @ [r])" using e by simp
    then have "turn_ok ask reply rd j (PHolding todo (outs @ [got @ [x]]))" unfolding turn_ok_def by (simp only: turn_state.case) blast
    then show ?thesis unfolding reads_last(1)
      by (intro ok) (use p e l gj in \<open>auto simp: holds_gate_def pipes_ok_def\<close>)
  next
    case (leaves j r todo got outs n)
    have gj: "hl_gate s = Some j" using g [of j] leaves(2) by (simp add: holds_gate_def)
    show ?thesis unfolding leaves(1)
      by (rule ok) (use p t [of j] leaves gj in \<open>auto simp: turn_ok_def holds_gate_def pipes_ok_def\<close>)
  next
    case aborts
    then show ?thesis using i p by (auto simp: helper_inv_def pipes_ok_def split: option.splits turn_state.splits)
  next
    case dies
    then show ?thesis using i p by (auto simp: helper_inv_def pipes_ok_def split: option.splits turn_state.splits)
  qed
qed

lemma helper_reach_inv:
  assumes "helper_reach ask reply rd s" "\<And>r. answers_once rd (reply r)"
  shows "helper_inv ask reply rd s"
  using assms(1) unfolding helper_reach_def
proof (induction rule: rtranclp_induct)
  case base
  show ?case by (simp add: helper_inv_def link_fresh_def turn_ok_def holds_gate_def pipes_ok_def)
next
  case (step s1 s2)
  then show ?case using helper_step_inv assms(2) by blast
qed

section \<open>The cache of helpers\<close>

text \<open>\<open>hc_owed\<close> are the helpers a call has taken out or spawned over and will close; \<open>hc_reaped\<close> have been closed.\<close>

record ('k, 'p) helper_cache =
  hc_procs :: "('k \<times> 'p) list"
  hc_closed :: bool
  hc_spawned :: "'p list"
  hc_owed :: "'p list"
  hc_reaped :: "'p list"

definition cache_new :: "('k, 'p) helper_cache" where
  "cache_new = \<lparr>hc_procs = [], hc_closed = False, hc_spawned = [], hc_owed = [], hc_reaped = []\<rparr>"

datatype cache_error = CacheClosed | CacheCanceled | SpawnFailed

text \<open>The locked half of \<open>get\<close>; \<open>spawn\<close> is what spawning came to. The stale helper is owed to the caller.\<close>

definition cache_get :: "'k \<Rightarrow> bool \<Rightarrow> ('p \<Rightarrow> bool) \<Rightarrow> 'p option \<Rightarrow> ('k, 'p) helper_cache \<Rightarrow> (cache_error + 'p) \<times> ('k, 'p) helper_cache" where
  "cache_get key canceled unusable spawn c =
     (if hc_closed c then (Inl CacheClosed, c)
      else if canceled then (Inl CacheCanceled, c)
      else case map_of (hc_procs c) key of
        Some proc \<Rightarrow>
          if \<not> unusable proc then (Inr proc, c)
          else (case spawn of
            None \<Rightarrow> (Inl SpawnFailed, c\<lparr>hc_procs := AList.delete key (hc_procs c), hc_owed := hc_owed c @ [proc]\<rparr>)
          | Some p \<Rightarrow> (Inr p, c\<lparr>hc_procs := AList.update key p (hc_procs c), hc_spawned := hc_spawned c @ [p], hc_owed := hc_owed c @ [proc]\<rparr>))
      | None \<Rightarrow>
          (case spawn of
            None \<Rightarrow> (Inl SpawnFailed, c\<lparr>hc_procs := AList.delete key (hc_procs c)\<rparr>)
          | Some p \<Rightarrow> (Inr p, c\<lparr>hc_procs := AList.update key p (hc_procs c), hc_spawned := hc_spawned c @ [p]\<rparr>)))"

definition cache_discard :: "'k \<Rightarrow> 'p \<Rightarrow> ('k, 'p) helper_cache \<Rightarrow> ('k, 'p) helper_cache" where
  "cache_discard key proc c =
     (if map_of (hc_procs c) key = Some proc then c\<lparr>hc_procs := AList.delete key (hc_procs c), hc_owed := hc_owed c @ [proc]\<rparr>
      else c\<lparr>hc_owed := hc_owed c @ [proc]\<rparr>)"

definition cache_closeAll :: "('k, 'p) helper_cache \<Rightarrow> ('k, 'p) helper_cache" where
  "cache_closeAll c = c\<lparr>hc_closed := True, hc_procs := [], hc_owed := hc_owed c @ map snd (hc_procs c)\<rparr>"

inductive cache_step :: "('k, 'p) helper_cache \<Rightarrow> ('k, 'p) helper_cache \<Rightarrow> bool" where
  gets: "cache_get key canceled unusable spawn c = (r, c') \<Longrightarrow> (\<And>p. spawn = Some p \<Longrightarrow> p \<notin> set (hc_spawned c)) \<Longrightarrow> cache_step c c'"
| discards: "proc \<in> set (hc_spawned c) \<Longrightarrow> (\<And>k. map_of (hc_procs c) k = Some proc \<Longrightarrow> k = key) \<Longrightarrow>
    cache_step c (cache_discard key proc c)"
| closes_all: "cache_step c (cache_closeAll c)"
| reaps: "hc_owed c = p # rest \<Longrightarrow> cache_step c (c\<lparr>hc_owed := rest, hc_reaped := hc_reaped c @ [p]\<rparr>)"

text \<open>Every helper is cached, owed or closed, and a cached one is neither owed nor closed.\<close>

definition vals :: "('k \<times> 'p) list \<Rightarrow> 'p set" where
  "vals al = snd ` set al"

definition cache_inv :: "('k, 'p) helper_cache \<Rightarrow> bool" where
  "cache_inv c \<longleftrightarrow> distinct (map fst (hc_procs c)) \<and> distinct (map snd (hc_procs c)) \<and>
     set (hc_spawned c) = vals (hc_procs c) \<union> set (hc_owed c) \<union> set (hc_reaped c) \<and>
     vals (hc_procs c) \<inter> (set (hc_owed c) \<union> set (hc_reaped c)) = {} \<and> (hc_closed c \<longrightarrow> hc_procs c = [])"

lemma vals_mem: "map_of al k = Some p \<Longrightarrow> p \<in> vals al"
  by (force simp: vals_def dest: map_of_SomeD)

lemma vals_delete: "distinct (map fst al) \<Longrightarrow> distinct (map snd al) \<Longrightarrow> map_of al k = Some p \<Longrightarrow>
    vals (AList.delete k al) = vals al - {p}"
proof (induction al)
  case (Cons x al)
  obtain a b where x: "x = (a, b)" by fastforce
  have d: "AList.delete k al = al" if "k \<notin> fst ` set al" using that by (simp add: delete_id)
  show ?case
  proof (cases "a = k")
    case True
    then show ?thesis using Cons.prems x d by (auto simp: vals_def)
  next
    case False
    then have "p \<in> vals al" using Cons.prems x by (simp add: vals_mem)
    then show ?thesis using Cons x False by (auto simp: vals_def)
  qed
qed simp

lemma distinct_values_delete: "distinct (map snd al) \<Longrightarrow> distinct (map snd (AList.delete k al))"
  by (induction al) (auto simp: AList.delete_eq)

lemma update_values:
  assumes "distinct (map fst al)" "distinct (map snd al)" "p \<notin> vals al"
  shows "distinct (map snd (AList.update k p al)) \<and>
    vals (AList.update k p al) = insert p (case map_of al k of None \<Rightarrow> vals al | Some old \<Rightarrow> vals al - {old})"
  using assms
proof (induction al)
  case (Cons x al)
  obtain a b where x: "x = (a, b)" by fastforce
  have n: "b \<notin> vals al" using Cons.prems x by (auto simp: vals_def)
  have c: "vals (x # al) = insert b (vals al)" by (simp add: x vals_def)
  show ?case
  proof (cases "a = k")
    case True
    then show ?thesis using Cons.prems x n by (auto simp: vals_def)
  next
    case False
    have ih: "distinct (map snd (AList.update k p al))"
      "vals (AList.update k p al) = insert p (case map_of al k of None \<Rightarrow> vals al | Some old \<Rightarrow> vals al - {old})"
      using Cons x c by auto
    have u: "AList.update k p (x # al) = (a, b) # AList.update k p al" using False unfolding x by simp
    have "b \<noteq> p" using Cons.prems c by auto
    then have "b \<notin> vals (AList.update k p al)" using n unfolding ih(2) by (auto split: option.splits)
    then have "distinct (map snd (AList.update k p (x # al)))" unfolding u using ih(1) by (auto simp: vals_def)
    moreover have "map_of al k = Some old \<Longrightarrow> b \<noteq> old" for old using n vals_mem by metis
    then have "vals (AList.update k p (x # al)) = insert p (case map_of (x # al) k of None \<Rightarrow> vals (x # al) | Some old \<Rightarrow> vals (x # al) - {old})"
      using ih(2) False unfolding u c by (auto simp: vals_def x split: option.splits)
    ultimately show ?thesis by blast
  qed
qed (simp add: vals_def)

text \<open>The three changes of the map.\<close>

lemma cache_take_out: "cache_inv c \<Longrightarrow> map_of (hc_procs c) key = Some p \<Longrightarrow>
    cache_inv (c\<lparr>hc_procs := AList.delete key (hc_procs c), hc_owed := hc_owed c @ [p]\<rparr>)"
  using vals_delete [of "hc_procs c" key p] distinct_values_delete [of "hc_procs c" key] vals_mem [of "hc_procs c" key p]
  by (auto simp: cache_inv_def distinct_delete)

lemma cache_put:
  assumes "cache_inv c" "\<not> hc_closed c" "p \<notin> set (hc_spawned c)"
  shows "cache_inv (c\<lparr>hc_procs := AList.update key p (hc_procs c), hc_spawned := hc_spawned c @ [p],
    hc_owed := hc_owed c @ (case map_of (hc_procs c) key of None \<Rightarrow> [] | Some old \<Rightarrow> [old])\<rparr>)"
proof -
  note v = assms(1) [unfolded cache_inv_def]
  have n: "p \<notin> vals (hc_procs c)" "p \<notin> set (hc_owed c)" "p \<notin> set (hc_reaped c)" using v assms(3) by auto
  have u: "distinct (map snd (AList.update key p (hc_procs c)))"
    "vals (AList.update key p (hc_procs c)) = insert p (case map_of (hc_procs c) key of None \<Rightarrow> vals (hc_procs c) | Some old \<Rightarrow> vals (hc_procs c) - {old})"
    using update_values [OF _ _ n(1)] v by auto
  show ?thesis
  proof (cases "map_of (hc_procs c) key")
    case None
    then show ?thesis using v n u assms(2) by (auto simp: cache_inv_def distinct_update)
  next
    case (Some old)
    then have "old \<in> vals (hc_procs c)" by (rule vals_mem)
    then show ?thesis using v n u assms(2) Some by (auto simp: cache_inv_def distinct_update)
  qed
qed

lemma cache_step_inv: "cache_step c c' \<Longrightarrow> cache_inv c \<Longrightarrow> cache_inv c'"
proof (induction rule: cache_step.induct)
  case (gets key canceled unusable spawn c r c')
  have none: "map_of (hc_procs c) key = None \<Longrightarrow> AList.delete key (hc_procs c) = hc_procs c"
    by (simp add: delete_id map_of_eq_None_iff)
  show ?case
  proof (cases "hc_closed c \<or> canceled \<or> c' = c")
    case True
    then show ?thesis using gets(1,3) by (auto simp: cache_get_def split: if_splits)
  next
    case False
    then show ?thesis using gets(1) none cache_take_out [OF gets(3), of key] cache_put [OF gets(3), of _ key] gets(2,3)
      by (cases spawn; cases "map_of (hc_procs c) key") (auto simp: cache_get_def split: if_splits)
  qed
next
  case (discards proc c key)
  show ?case
  proof (cases "map_of (hc_procs c) key = Some proc")
    case True
    then show ?thesis using cache_take_out [OF discards(3) True] by (simp add: cache_discard_def)
  next
    case False
    note v = discards(3) [unfolded cache_inv_def]
    have "proc \<notin> vals (hc_procs c)"
    proof
      assume "proc \<in> vals (hc_procs c)"
      then obtain k where "(k, proc) \<in> set (hc_procs c)" by (auto simp: vals_def)
      then have "map_of (hc_procs c) k = Some proc" using v by simp
      then show False using discards(2) False by metis
    qed
    then show ?thesis using v False discards(1) by (auto simp: cache_discard_def cache_inv_def)
  qed
next
  case (closes_all c)
  then show ?case by (auto simp: cache_closeAll_def cache_inv_def vals_def)
next
  case (reaps c p rest)
  then show ?case by (auto simp: cache_inv_def)
qed

definition cache_reach :: "('k, 'p) helper_cache \<Rightarrow> bool" where
  "cache_reach = cache_step\<^sup>*\<^sup>* cache_new"

lemma cache_reach_inv: "cache_reach c \<Longrightarrow> cache_inv c"
  unfolding cache_reach_def
proof (induction rule: rtranclp_induct)
  case base
  show ?case by (simp add: cache_new_def cache_inv_def vals_def)
next
  case (step c1 c2)
  then show ?case by (blast intro: cache_step_inv)
qed

section \<open>Translation\<close>

record MT_pairs =
  mt_pairs :: "(lang \<times> lang) list"
  mt_declared :: bool

definition basePair :: "lang \<Rightarrow> lang \<Rightarrow> lang \<times> lang" where
  "basePair f t = (Base f, Base t)"

definition NewMT :: "(lang \<times> lang) list option \<Rightarrow> MT_pairs" where
  "NewMT pairs = \<lparr>mt_pairs = map (\<lambda>(f, t). basePair f t) (case pairs of None \<Rightarrow> [] | Some ps \<Rightarrow> ps), mt_declared = (pairs \<noteq> None)\<rparr>"

definition mt_supports :: "MT_pairs \<Rightarrow> lang \<Rightarrow> lang \<Rightarrow> bool" where
  "mt_supports m f t \<longleftrightarrow> \<not> mt_declared m \<or> basePair f t \<in> set (mt_pairs m)"

text \<open>One try: what the cache gave, what the turn came to, whether the helper is unusable after it, whether its cleanup
  failed, and whether the context had ended.\<close>

datatype mt_error = MtCanceled | MtUnavailable | MtNoHelper cache_error | MtFailed nat | MtCleanup nat

record mt_try =
  ty_helper :: "cache_error option"
  ty_result :: "nat + gostr"
  ty_unusable :: bool
  ty_cleanupFails :: bool
  ty_canceled :: bool

fun mt_tries :: "nat \<Rightarrow> mt_error \<Rightarrow> mt_try list \<Rightarrow> mt_error + gostr" where
  "mt_tries 0 lastErr ts = Inl lastErr"
| "mt_tries (Suc n) lastErr [] = Inl lastErr"
| "mt_tries (Suc n) lastErr (t # ts) =
     (case ty_helper t of
        Some e \<Rightarrow> Inl (MtNoHelper e)
      | None \<Rightarrow>
          (case ty_result t of
             Inr translated \<Rightarrow> Inr translated
           | Inl e \<Rightarrow>
               if \<not> ty_unusable t then Inl (MtFailed e)
               else if ty_cleanupFails t then Inl (MtCleanup e)
               else if ty_canceled t then Inl MtCanceled
               else mt_tries n (MtFailed e) ts))"

definition mt_Translate :: "MT_pairs \<Rightarrow> bool \<Rightarrow> lang \<Rightarrow> lang \<Rightarrow> mt_try list \<Rightarrow> mt_error + gostr" where
  "mt_Translate m canceled f t ts =
     (if canceled then Inl MtCanceled
      else if \<not> mt_supports m f t then Inl MtUnavailable
      else mt_tries 2 MtCanceled ts)"

text \<open>A regional variant is served by the model of its base language.\<close>

lemma supports_by_base: "Base f = Base f' \<Longrightarrow> Base t = Base t' \<Longrightarrow> mt_supports m f t = mt_supports m f' t'"
  by (simp add: mt_supports_def basePair_def)

text \<open>A translation is the answer of one of the first two tries, the second only after a helper that became unusable.\<close>

lemma translated_by_a_try:
  assumes "mt_Translate m canceled f t ts = Inr x"
  shows "mt_supports m f t \<and> (\<exists>k < 2. k < length ts \<and> ty_result (ts ! k) = Inr x \<and> (\<forall>j < k. ty_unusable (ts ! j)))"
proof -
  have s: "\<not> canceled" "mt_supports m f t" "mt_tries (Suc (Suc 0)) MtCanceled ts = Inr x"
    using assms by (auto simp: mt_Translate_def numeral_2_eq_2 split: if_splits)
  obtain a rest where ts: "ts = a # rest" using s(3) by (cases ts) auto
  show ?thesis
  proof (cases "ty_result a")
    case (Inr y)
    then show ?thesis using s ts by (auto split: option.splits intro!: exI [of _ 0])
  next
    case (Inl e)
    then have u: "ty_unusable a" "mt_tries (Suc 0) (MtFailed e) rest = Inr x" using s(3) ts by (auto split: option.splits if_splits)
    then obtain b rest' where r: "rest = b # rest'" by (cases rest) auto
    then have "ty_result b = Inr x" using u(2) by (auto split: option.splits sum.splits if_splits)
    then have "1 < length ts \<and> ty_result (ts ! 1) = Inr x \<and> (\<forall>j < 1. ty_unusable (ts ! j))" using ts r u(1) by simp
    then show ?thesis using s(2) by (intro conjI exI [of _ "1 :: nat"]) simp_all
  qed
qed

section \<open>Speech\<close>

text \<open>The clauses a turn asks for: the blank ones are skipped.\<close>

definition spoken_clauses :: "gostr list \<Rightarrow> gostr list" where
  "spoken_clauses text_ch = filter (\<lambda>c. trim_space c \<noteq> []) text_ch"

fun payloads :: "('l \<Rightarrow> 'm reading) \<Rightarrow> 'l list \<Rightarrow> 'm list" where
  "payloads rd [] = []"
| "payloads rd (x # xs) = (case rd x of More m \<Rightarrow> m # payloads rd xs | Last ms \<Rightarrow> ms @ payloads rd xs | Refused \<Rightarrow> payloads rd xs)"

text \<open>A chunk that is forwarded is the little-endian decoding of its bytes, none left over.\<close>

lemma forwarded_chunk:
  assumes "forward_pcm base64 a = Some ss"
  shows "\<exists>raw. base64 a = Some raw \<and> length raw = 2 * length ss \<and> concat (map le_bytes16 ss) = raw"
proof -
  obtain raw where raw: "base64 a = Some raw" "length raw mod 2 = 0" "fst (DecodeS16LE (replicate (length raw div 2) 0) raw) = ss"
    using assms by (auto simp: forward_pcm_def split: option.splits if_splits prod.splits)
  then have e: "even (length raw)" by presburger
  have "encode_spec ss = raw" using le_bytes16_inj_decode [OF e, of "replicate (length raw div 2) 0"] raw(3) by simp
  moreover have "length ss = length raw div 2" using raw(3) by (auto simp: DecodeS16LE_eq Let_def)
  ultimately show ?thesis using raw(1) e by (auto simp: encode_spec_def)
qed

section \<open>Properties\<close>

text \<open>C21: However turns, aborts and the death of the helper interleave, a turn that ends well has for each of its requests,
  in order, the complete answer to that request: no line of an answer that an earlier turn left unread is ever taken
  for its own. A turn that fails has whole answers to its first requests.\<close>

theorem each_turn_hears_its_own_answers:
  assumes "helper_reach ask reply rd s" "\<And>r. answers_once rd (reply r)" "hl_turn s i = PDone ok outs"
  shows "prefix outs (map reply (ask i)) \<and> (ok \<longrightarrow> outs = map reply (ask i))"
proof -
  have "turn_ok ask reply rd i (PDone ok outs)" using helper_reach_inv [OF assms(1,2)] assms(3) unfolding helper_inv_def by metis
  then show ?thesis by (auto simp: turn_ok_def)
qed

theorem each_turn_hears_its_own_answers_witness:
  "\<exists>s. helper_reach (\<lambda>i. [i]) (\<lambda>r. [r + 10]) (\<lambda>x. Last [x]) s \<and> hl_turn s 3 = PDone True [[13 :: nat]] \<and> prefix [[13]] (map (\<lambda>r. [r + 10]) [3 :: nat])"
proof -
  let ?step = "helper_step (\<lambda>i. [i]) (\<lambda>r. [r + 10 :: nat]) (\<lambda>x. Last [x])"
  let ?s0 = "link_fresh :: (nat, nat) helper_link"
  let ?s1 = "turn_to 3 (PHolding [3] []) (?s0\<lparr>hl_gate := Some 3\<rparr>)"
  let ?s2 = "turn_to 3 (PWaiting 3 [] [] []) (?s1\<lparr>hl_in := hl_in ?s1 @ [3]\<rparr>)"
  let ?s3 = "?s2\<lparr>hl_in := [], hl_emit := [3 + 10]\<rparr>"
  let ?s4 = "?s3\<lparr>hl_emit := [], hl_out := hl_out ?s3 @ [13]\<rparr>"
  let ?s5 = "turn_to 3 (PHolding [] ([] @ [[] @ [13]])) (?s4\<lparr>hl_out := []\<rparr>)"
  let ?s6 = "turn_to 3 (PDone True ([] @ [[] @ [13]])) (?s5\<lparr>hl_gate := None\<rparr>)"
  have "?step ?s0 ?s1" by (rule helper_step.acquires) (simp_all add: link_fresh_def)
  moreover have "?step ?s1 ?s2" by (rule helper_step.writes) (simp_all add: link_fresh_def)
  moreover have "?step ?s2 ?s3" by (rule helper_step.answers) (simp_all add: link_fresh_def)
  moreover have "?step ?s3 ?s4" by (rule helper_step.emits) (simp_all add: link_fresh_def)
  moreover have "?step ?s4 ?s5" by (rule helper_step.reads_last [where r = 3]) (simp_all add: link_fresh_def)
  moreover have "?step ?s5 ?s6" by (rule helper_step.ends) simp
  ultimately have r: "helper_reach (\<lambda>i. [i]) (\<lambda>r. [r + 10 :: nat]) (\<lambda>x. Last [x]) ?s6"
    unfolding helper_reach_def by (meson rtranclp.rtrancl_into_rtrancl rtranclp.rtrancl_refl)
  have d: "hl_turn ?s6 3 = PDone True [[13]]" by simp
  have "prefix [[13]] (map (\<lambda>r. [r + 10]) [3 :: nat])"
    using each_turn_hears_its_own_answers [OF r _ d] by (simp add: answers_once_def is_last_def)
  then show ?thesis using r d by blast
qed

text \<open>C36: A helper never outlives its cache: once the cache is closed and no call still owes a close, every helper it ever
  spawned has been closed, none is cached, and none can be had any more. Until then no cached helper has been closed or
  is about to be.\<close>

theorem no_helper_outlives_its_cache:
  assumes "cache_reach c"
  shows "(hc_closed c \<and> hc_owed c = [] \<longrightarrow> set (hc_spawned c) = set (hc_reaped c) \<and> hc_procs c = []) \<and>
    (hc_closed c \<longrightarrow> fst (cache_get key canceled unusable spawn c) = Inl CacheClosed) \<and>
    (\<forall>p. fst (cache_get key False unusable None c) = Inr p \<longrightarrow> p \<notin> set (hc_owed c) \<and> p \<notin> set (hc_reaped c))"
proof (intro conjI allI impI)
  note v = cache_reach_inv [OF assms, unfolded cache_inv_def]
  show "set (hc_spawned c) = set (hc_reaped c)" "hc_procs c = []" if "hc_closed c \<and> hc_owed c = []"
    using v that by (auto simp: vals_def)
  show "fst (cache_get key canceled unusable spawn c) = Inl CacheClosed" if "hc_closed c" using that by (simp add: cache_get_def)
  fix p assume "fst (cache_get key False unusable None c) = Inr p"
  then have "map_of (hc_procs c) key = Some p" by (auto simp: cache_get_def split: if_splits option.splits)
  then have "p \<in> vals (hc_procs c)" by (rule vals_mem)
  then show "p \<notin> set (hc_owed c)" "p \<notin> set (hc_reaped c)" using v by auto
qed

theorem no_helper_outlives_its_cache_witness:
  "\<exists>c :: (nat, nat) helper_cache. cache_reach c \<and> hc_closed c \<and> hc_owed c = [] \<and> hc_spawned c = [7] \<and> set (hc_spawned c) = set (hc_reaped c)"
proof -
  let ?c0 = "cache_new :: (nat, nat) helper_cache"
  let ?c1 = "?c0\<lparr>hc_procs := [(1, 7)], hc_spawned := [7]\<rparr>"
  let ?c2 = "cache_closeAll ?c1"
  let ?c3 = "?c2\<lparr>hc_owed := [], hc_reaped := hc_reaped ?c2 @ [7]\<rparr>"
  have "cache_step ?c0 ?c1"
    by (rule cache_step.gets [where key = 1 and canceled = False and unusable = "\<lambda>_. False" and spawn = "Some 7" and r = "Inr 7"])
      (simp_all add: cache_get_def cache_new_def)
  moreover have "cache_step ?c1 ?c2" by (rule cache_step.closes_all)
  moreover have "cache_step ?c2 ?c3" by (rule cache_step.reaps) (simp add: cache_closeAll_def cache_new_def)
  ultimately have r: "cache_reach ?c3" unfolding cache_reach_def by (meson rtranclp.rtrancl_into_rtrancl rtranclp.rtrancl_refl)
  have f: "hc_closed ?c3" "hc_owed ?c3 = []" "hc_spawned ?c3 = [7]" by (simp_all add: cache_closeAll_def cache_new_def)
  then have "set (hc_spawned ?c3) = set (hc_reaped ?c3)" using no_helper_outlives_its_cache [OF r] by blast
  then show ?thesis using r f by blast
qed

end
