(* ===== verification/DaemonConfig.thy ===== *)
theory DaemonConfig
  imports Session Floats
begin

text \<open>
  \<^verbatim>\<open>internal/core/config/\<close>: the daemon's configuration: its defaults, the file and the environment over them, the
  validation that normalises it, the edits a pack install makes, and the holder that publishes it. YAML,
  \<open>net.SplitHostPort\<close>, \<open>url.Parse\<close> and the file system are arguments.
\<close>

section \<open>Data\<close>

record VoiceModel =
  vm_Language :: lang
  vm_Voice :: gostr

record TranslationPair =
  tp_From :: lang
  tp_To :: lang

record LocalSTT =
  ls_Model :: gostr
  ls_CallModel :: gostr

record DispatchLimits =
  dl_Workers :: int
  dl_Queue :: int
  dl_MaxLanes :: int
  dl_MaxSessions :: int

record Config =
  cg_HTTP :: gostr
  cg_CORSOrigin :: gostr
  cg_IPCTLS :: bool
  cg_Voices :: gostr
  cg_Bin :: gostr
  cg_STT :: LocalSTT
  cg_TTSVoices :: "VoiceModel list"
  cg_Pairs :: "TranslationPair list"
  cg_Dispatch :: DispatchLimits
  cg_Subs :: gostr
  cg_Bed :: gostr
  cg_Langs :: "lang list"
  cg_Delay :: duration

definition VoicesLocal :: gostr where "VoicesLocal = str ''local''"
definition VoicesOff :: gostr where "VoicesOff = str ''off''"
definition defaultSTTModel :: gostr where "defaultSTTModel = str ''models/stt/ggml-base.bin''"
definition defaultCallSTTModel :: gostr where "defaultCallSTTModel = defaultSTTModel"
definition defaultTTSVoice :: gostr where "defaultTTSVoice = str ''models/tts/en_US-lessac-medium.onnx''"
definition defaultTTSVoiceItaly :: gostr where "defaultTTSVoiceItaly = str ''models/tts/it_IT-paola-medium.onnx''"
definition langEnglish :: lang where "langEnglish = str ''en''"
definition langItalian :: lang where "langItalian = str ''it''"

definition DefaultConfig :: Config where
  "DefaultConfig = \<lparr>cg_HTTP = str ''127.0.0.1:8080'', cg_CORSOrigin = str ''https://prukka.ubyte.it'', cg_IPCTLS = False,
     cg_Voices = VoicesLocal, cg_Bin = [], cg_STT = \<lparr>ls_Model = defaultSTTModel, ls_CallModel = defaultCallSTTModel\<rparr>,
     cg_TTSVoices = [\<lparr>vm_Language = langEnglish, vm_Voice = defaultTTSVoice\<rparr>, \<lparr>vm_Language = langItalian, vm_Voice = defaultTTSVoiceItaly\<rparr>],
     cg_Pairs = [\<lparr>tp_From = langItalian, tp_To = langEnglish\<rparr>, \<lparr>tp_From = langEnglish, tp_To = langItalian\<rparr>],
     cg_Dispatch = \<lparr>dl_Workers = 8, dl_Queue = 256, dl_MaxLanes = 2, dl_MaxSessions = 32\<rparr>,
     cg_Subs = str ''vtt'', cg_Bed = str ''-15dB'', cg_Langs = [langItalian, langEnglish], cg_Delay = 8 * second\<rparr>"

definition ModelForCall :: "LocalSTT \<Rightarrow> gostr" where
  "ModelForCall s = (if trim_space (ls_CallModel s) \<noteq> [] then ls_CallModel s else ls_Model s)"

definition DubbedLanguages :: "VoiceModel list \<Rightarrow> lang list" where
  "DubbedLanguages vs = map vm_Language vs"

section \<open>Edits\<close>

fun SetVoice :: "lang \<Rightarrow> gostr \<Rightarrow> VoiceModel list \<Rightarrow> VoiceModel list" where
  "SetVoice language voice [] = [\<lparr>vm_Language = language, vm_Voice = voice\<rparr>]"
| "SetVoice language voice (v # vs) =
     (if vm_Language v = language then v\<lparr>vm_Voice := voice\<rparr> # vs else v # SetVoice language voice vs)"

definition RemoveVoice :: "lang \<Rightarrow> VoiceModel list \<Rightarrow> VoiceModel list" where
  "RemoveVoice language vs = filter (\<lambda>v. vm_Language v \<noteq> language) vs"

definition AddPair :: "lang \<Rightarrow> lang \<Rightarrow> TranslationPair list \<Rightarrow> TranslationPair list" where
  "AddPair f t ps =
     (if list_ex (\<lambda>p. tp_From p = f \<and> tp_To p = t) ps then ps else ps @ [\<lparr>tp_From = f, tp_To = t\<rparr>])"

definition RemovePair :: "lang \<Rightarrow> lang \<Rightarrow> TranslationPair list \<Rightarrow> TranslationPair list" where
  "RemovePair f t ps = filter (\<lambda>p. tp_From p \<noteq> f \<or> tp_To p \<noteq> t) ps"

section \<open>Validation\<close>

datatype config_error =
    BadListener gostr | BadOrigin gostr | BadDefaultLang gostr | DuplicateTarget lang | NoTargets | BadSubs gostr | BadBed gostr
  | BadDelay duration | BadWorkers int | BadQueue int | BadMaxLanes int | BadMaxSessions int | BadVoices gostr | NoSTTModel
  | BlankCallModel | BadPairFrom nat | BadPairTo nat | PairToItself nat | DuplicatePair nat | NoVoices | NoVoiceModel nat
  | BadVoiceLanguage nat | DuplicateVoice nat | ConfigUnreadable | ConfigUnparsed | NotPersisted

text \<open>What \<open>url.Parse\<close> reports of an origin.\<close>

record origin_url =
  og_scheme :: gostr
  og_host :: gostr
  og_user :: bool
  og_path :: gostr
  og_query :: gostr
  og_fragment :: gostr

record config_lib =
  lib_std :: std
  lib_splitHostPort :: "gostr \<Rightarrow> bool"
  lib_origin :: "gostr \<Rightarrow> origin_url option"

definition validOrigin :: "config_lib \<Rightarrow> gostr \<Rightarrow> bool" where
  "validOrigin lib raw =
     (case lib_origin lib raw of
        None \<Rightarrow> False
      | Some u \<Rightarrow>
          if og_scheme u \<noteq> str ''http'' \<and> og_scheme u \<noteq> str ''https'' then False
          else og_host u \<noteq> [] \<and> \<not> og_user u \<and> og_path u = [] \<and> og_query u = [] \<and> og_fragment u = [])"

definition validateDaemon :: "config_lib \<Rightarrow> Config \<Rightarrow> config_error option" where
  "validateDaemon lib c =
     (if \<not> lib_splitHostPort lib (cg_HTTP c) then Some (BadListener (cg_HTTP c))
      else if cg_CORSOrigin c \<noteq> [] \<and> \<not> validOrigin lib (cg_CORSOrigin c) then Some (BadOrigin (cg_CORSOrigin c))
      else None)"

text \<open>The set of tags seen holds exactly those of the list being built.\<close>

fun normalize_langs :: "unicode \<Rightarrow> lang list \<Rightarrow> lang list \<Rightarrow> config_error + lang list" where
  "normalize_langs u [] out = Inr out"
| "normalize_langs u (l # ls) out =
     (case Parse u l of
        Inl _ \<Rightarrow> Inl (BadDefaultLang l)
      | Inr parsed \<Rightarrow>
          if parsed = LangAuto then Inl (BadDefaultLang l)
          else if parsed \<in> set out then Inl (DuplicateTarget parsed)
          else normalize_langs u ls (out @ [parsed]))"

definition normalizeDefaultLanguages :: "unicode \<Rightarrow> Config \<Rightarrow> config_error + Config" where
  "normalizeDefaultLanguages u c =
     (case normalize_langs u (cg_Langs c) [] of
        Inl e \<Rightarrow> Inl e
      | Inr normalized \<Rightarrow> if normalized = [] then Inl NoTargets else Inr (c\<lparr>cg_Langs := normalized\<rparr>))"

definition normalizeDefaultSubs :: "config_lib \<Rightarrow> Config \<Rightarrow> config_error + Config" where
  "normalizeDefaultSubs lib c =
     (case ParseSubs (lib_std lib) (cg_Subs c) of Inl _ \<Rightarrow> Inl (BadSubs (cg_Subs c)) | Inr mode \<Rightarrow> Inr (c\<lparr>cg_Subs := mode\<rparr>))"

definition normalizeDefaultBed :: "config_lib \<Rightarrow> Config \<Rightarrow> config_error + Config" where
  "normalizeDefaultBed lib c =
     (case ParseBed (lib_std lib) (cg_Bed c) of Inl _ \<Rightarrow> Inl (BadBed (cg_Bed c)) | Inr level \<Rightarrow> Inr (c\<lparr>cg_Bed := level\<rparr>))"

definition validateDefaults :: "config_lib \<Rightarrow> Config \<Rightarrow> config_error + Config" where
  "validateDefaults lib c =
     (case normalizeDefaultLanguages (std_unicode (lib_std lib)) c of
        Inl e \<Rightarrow> Inl e
      | Inr c1 \<Rightarrow> (case normalizeDefaultSubs lib c1 of
          Inl e \<Rightarrow> Inl e
        | Inr c2 \<Rightarrow> (case normalizeDefaultBed lib c2 of
            Inl e \<Rightarrow> Inl e
          | Inr c3 \<Rightarrow> if cg_Delay c3 < 0 \<or> cg_Delay c3 > MaxSessionDelay then Inl (BadDelay (cg_Delay c3)) else Inr c3)))"

definition validateDispatch :: "DispatchLimits \<Rightarrow> config_error option" where
  "validateDispatch d =
     (if dl_Workers d < 1 \<or> dl_Workers d > 256 then Some (BadWorkers (dl_Workers d))
      else if dl_Queue d < 1 \<or> dl_Queue d > 65536 then Some (BadQueue (dl_Queue d))
      else if dl_MaxLanes d < 1 \<or> dl_MaxLanes d > 64 then Some (BadMaxLanes (dl_MaxLanes d))
      else if dl_MaxSessions d < dl_MaxLanes d \<or> dl_MaxSessions d > 256 then Some (BadMaxSessions (dl_MaxSessions d))
      else None)"

text \<open>\<open>stageOneOf\<close>: \<open>None\<close> is an unknown selector.\<close>

definition stageOneOf :: "gostr \<Rightarrow> gostr list \<Rightarrow> gostr \<Rightarrow> gostr option" where
  "stageOneOf fallback allowed v = (if v = [] then Some fallback else if v \<in> set allowed then Some v else None)"

definition validateLocalSTT :: "LocalSTT \<Rightarrow> config_error option" where
  "validateLocalSTT s =
     (if trim_space (ls_Model s) = [] then Some NoSTTModel
      else if ls_CallModel s \<noteq> [] \<and> trim_space (ls_CallModel s) = [] then Some BlankCallModel else None)"

definition base_language :: "unicode \<Rightarrow> lang \<Rightarrow> lang option" where
  "base_language u l = (case Parse u l of Inl _ \<Rightarrow> None | Inr p \<Rightarrow> if p = LangAuto \<or> Base p \<noteq> p then None else Some p)"

fun validate_pairs :: "unicode \<Rightarrow> nat \<Rightarrow> TranslationPair list \<Rightarrow> TranslationPair list \<Rightarrow> config_error + TranslationPair list" where
  "validate_pairs u i [] seen = Inr seen"
| "validate_pairs u i (p # ps) seen =
     (case base_language u (tp_From p) of
        None \<Rightarrow> Inl (BadPairFrom i)
      | Some f \<Rightarrow> (case base_language u (tp_To p) of
          None \<Rightarrow> Inl (BadPairTo i)
        | Some t \<Rightarrow>
            if f = t then Inl (PairToItself i)
            else if \<lparr>tp_From = f, tp_To = t\<rparr> \<in> set seen then Inl (DuplicatePair i)
            else validate_pairs u (Suc i) ps (seen @ [\<lparr>tp_From = f, tp_To = t\<rparr>])))"

fun validate_voices :: "unicode \<Rightarrow> nat \<Rightarrow> VoiceModel list \<Rightarrow> VoiceModel list \<Rightarrow> config_error + VoiceModel list" where
  "validate_voices u i [] out = Inr out"
| "validate_voices u i (v # vs) out =
     (if trim_space (vm_Voice v) = [] then Inl (NoVoiceModel i)
      else case Parse u (trim_space (vm_Language v)) of
        Inl _ \<Rightarrow> Inl (BadVoiceLanguage i)
      | Inr parsed \<Rightarrow>
          if parsed = LangAuto then Inl (BadVoiceLanguage i)
          else if Base parsed \<in> (\<lambda>w. Base (vm_Language w)) ` set out then Inl (DuplicateVoice i)
          else validate_voices u (Suc i) vs (out @ [v\<lparr>vm_Language := parsed\<rparr>]))"

definition validateLocalTTS :: "unicode \<Rightarrow> Config \<Rightarrow> config_error + Config" where
  "validateLocalTTS u c =
     (if cg_Voices c \<noteq> VoicesLocal then Inr c
      else if cg_TTSVoices c = [] then Inl NoVoices
      else case validate_voices u 0 (cg_TTSVoices c) [] of Inl e \<Rightarrow> Inl e | Inr vs \<Rightarrow> Inr (c\<lparr>cg_TTSVoices := vs\<rparr>))"

definition validateProvider :: "unicode \<Rightarrow> Config \<Rightarrow> config_error + Config" where
  "validateProvider u c =
     (case validateDispatch (cg_Dispatch c) of
        Some e \<Rightarrow> Inl e
      | None \<Rightarrow> (case stageOneOf VoicesLocal [VoicesLocal, VoicesOff] (cg_Voices c) of
          None \<Rightarrow> Inl (BadVoices (cg_Voices c))
        | Some v \<Rightarrow> (case validateLocalSTT (cg_STT c) of
            Some e \<Rightarrow> Inl e
          | None \<Rightarrow> (case validate_pairs u 0 (cg_Pairs c) [] of
              Inl e \<Rightarrow> Inl e
            | Inr ps \<Rightarrow> validateLocalTTS u (c\<lparr>cg_Voices := v, cg_Pairs := ps\<rparr>)))))"

definition validate_config :: "config_lib \<Rightarrow> Config \<Rightarrow> config_error + Config" where
  "validate_config lib c =
     (case validateDaemon lib c of
        Some e \<Rightarrow> Inl e
      | None \<Rightarrow> (case validateDefaults lib c of Inl e \<Rightarrow> Inl e | Inr c1 \<Rightarrow> validateProvider (std_unicode (lib_std lib)) c1))"

section \<open>The normal form\<close>

definition pair_ok :: "TranslationPair \<Rightarrow> bool" where
  "pair_ok p \<longleftrightarrow> canonical (tp_From p) \<and> canonical (tp_To p) \<and> Base (tp_From p) = tp_From p \<and> Base (tp_To p) = tp_To p \<and> tp_From p \<noteq> tp_To p"

definition voices_ok :: "VoiceModel list \<Rightarrow> bool" where
  "voices_ok vs \<longleftrightarrow> distinct (map (\<lambda>v. Base (vm_Language v)) vs) \<and>
     list_all (\<lambda>v. canonical (vm_Language v) \<and> trim_space (vm_Voice v) \<noteq> []) vs"

text \<open>What validation promises to the rest of the daemon.\<close>

definition config_ok :: "config_lib \<Rightarrow> Config \<Rightarrow> bool" where
  "config_ok lib c \<longleftrightarrow> validateDaemon lib c = None \<and>
     cg_Langs c \<noteq> [] \<and> distinct (cg_Langs c) \<and> list_all canonical (cg_Langs c) \<and>
     cg_Subs c \<in> {Off, SubsVTT, SubsBurn} \<and> BedLevel (lib_std lib) (cg_Bed c) \<noteq> None \<and>
     0 \<le> cg_Delay c \<and> cg_Delay c \<le> MaxSessionDelay \<and> validateDispatch (cg_Dispatch c) = None \<and>
     validateLocalSTT (cg_STT c) = None \<and> distinct (cg_Pairs c) \<and> list_all pair_ok (cg_Pairs c) \<and>
     (cg_Voices c = VoicesLocal \<and> cg_TTSVoices c \<noteq> [] \<and> voices_ok (cg_TTSVoices c) \<or> cg_Voices c = VoicesOff)"

lemma voices_differ: "VoicesLocal \<noteq> VoicesOff" "VoicesLocal \<noteq> []" "VoicesOff \<noteq> []"
  by (simp_all add: VoicesLocal_def VoicesOff_def str_def)

lemma canonical_concrete: "canonical t \<Longrightarrow> t \<noteq> LangAuto"
proof -
  assume "canonical t"
  then obtain e where e: "e \<in> set registry" "t = Tag e \<or> (\<exists>a b. t = Tag e @ [45, a, b])" by (auto simp: canonical_def)
  obtain x y where "Tag e = [x, y]" using e(1) by (rule tag_shape)
  then show ?thesis using e(2) by (auto simp: LangAuto_def)
qed

lemma trim_canonical: "canonical t \<Longrightarrow> trim_space t = t"
proof -
  assume c: "canonical t"
  then obtain e where e: "e \<in> set registry" "t = Tag e \<or> (\<exists>a b. is_upper_ascii a \<and> is_upper_ascii b \<and> t = Tag e @ [45, a, b])"
    by (auto simp: canonical_def)
  obtain x y where xy: "Tag e = [x, y]" "is_lower_ascii x" "is_lower_ascii y" using e(1) by (rule tag_shape)
  have "t \<noteq> [] \<and> \<not> is_space (hd t) \<and> \<not> is_space (last t)" using e(2) xy letter_plain by auto
  then show ?thesis unfolding trim_space_def by (intro trim_func_id) auto
qed

lemma normalize_langs_ok:
  assumes "unicode_ok u"
  shows "normalize_langs u ls out = Inr r \<Longrightarrow> distinct out \<Longrightarrow> list_all canonical out \<Longrightarrow> distinct r \<and> list_all canonical r"
proof (induction ls arbitrary: out)
  case (Cons l ls)
  then obtain p where p: "Parse u l = Inr p" "p \<noteq> LangAuto" "p \<notin> set out" "normalize_langs u ls (out @ [p]) = Inr r"
    by (auto split: sum.splits if_splits)
  have "canonical p" by (rule Parse_canonical [OF assms p(1,2)])
  then show ?case using Cons.IH [OF p(4)] Cons.prems p(3) by simp
qed simp

lemma normalize_langs_id:
  assumes "unicode_ok u"
  shows "list_all canonical ls \<Longrightarrow> distinct (out @ ls) \<Longrightarrow> normalize_langs u ls out = Inr (out @ ls)"
proof (induction ls arbitrary: out)
  case (Cons l ls)
  then have "Parse u l = Inr l" "l \<noteq> LangAuto" by (simp_all add: Parse_of_canonical [OF assms] canonical_concrete)
  then show ?case using Cons by simp
qed simp

lemma base_language_ok: "unicode_ok u \<Longrightarrow> base_language u l = Some p \<Longrightarrow> canonical p \<and> Base p = p"
  by (auto simp: base_language_def Parse_canonical split: sum.splits if_splits)

lemma base_language_id: "unicode_ok u \<Longrightarrow> canonical p \<Longrightarrow> Base p = p \<Longrightarrow> base_language u p = Some p"
  by (simp add: base_language_def Parse_of_canonical canonical_concrete)

lemma validate_pairs_ok:
  assumes "unicode_ok u"
  shows "validate_pairs u i ps seen = Inr r \<Longrightarrow> distinct seen \<Longrightarrow> list_all pair_ok seen \<Longrightarrow> distinct r \<and> list_all pair_ok r"
proof (induction ps arbitrary: i seen)
  case (Cons p ps)
  then obtain f t where p: "base_language u (tp_From p) = Some f" "base_language u (tp_To p) = Some t" "f \<noteq> t"
    "\<lparr>tp_From = f, tp_To = t\<rparr> \<notin> set seen" "validate_pairs u (Suc i) ps (seen @ [\<lparr>tp_From = f, tp_To = t\<rparr>]) = Inr r"
    by (auto split: option.splits if_splits)
  have "pair_ok \<lparr>tp_From = f, tp_To = t\<rparr>"
    using base_language_ok [OF assms p(1)] base_language_ok [OF assms p(2)] p(3) by (simp add: pair_ok_def)
  then show ?case using Cons.IH [OF p(5)] Cons.prems p(4) by simp
qed simp

lemma validate_pairs_id:
  assumes "unicode_ok u"
  shows "list_all pair_ok ps \<Longrightarrow> distinct (seen @ ps) \<Longrightarrow> validate_pairs u i ps seen = Inr (seen @ ps)"
proof (induction ps arbitrary: i seen)
  case (Cons p ps)
  obtain f t where p: "p = \<lparr>tp_From = f, tp_To = t\<rparr>" by (cases p) auto
  have "base_language u f = Some f" "base_language u t = Some t" "f \<noteq> t"
    using Cons.prems(1) by (simp_all add: p pair_ok_def base_language_id [OF assms])
  then show ?case using Cons by (simp add: p)
qed simp

lemma validate_voices_ok:
  assumes "unicode_ok u"
  shows "validate_voices u i vs out = Inr r \<Longrightarrow> voices_ok out \<Longrightarrow> voices_ok r \<and> (out @ vs \<noteq> [] \<longrightarrow> r \<noteq> [])"
proof (induction vs arbitrary: i out)
  case (Cons v vs)
  then obtain p where p: "trim_space (vm_Voice v) \<noteq> []" "Parse u (trim_space (vm_Language v)) = Inr p" "p \<noteq> LangAuto"
    "Base p \<notin> (\<lambda>w. Base (vm_Language w)) ` set out" "validate_voices u (Suc i) vs (out @ [v\<lparr>vm_Language := p\<rparr>]) = Inr r"
    by (auto split: sum.splits if_splits)
  have "canonical p" by (rule Parse_canonical [OF assms p(2,3)])
  then have "voices_ok (out @ [v\<lparr>vm_Language := p\<rparr>])" using Cons.prems p by (simp add: voices_ok_def)
  then show ?case using Cons.IH [OF p(5)] by simp
qed (simp add: voices_ok_def)

lemma validate_voices_id:
  assumes "unicode_ok u"
  shows "voices_ok (out @ vs) \<Longrightarrow> validate_voices u i vs out = Inr (out @ vs)"
proof (induction vs arbitrary: i out)
  case (Cons v vs)
  then have c: "canonical (vm_Language v)" "trim_space (vm_Voice v) \<noteq> []" "Base (vm_Language v) \<notin> (\<lambda>w. Base (vm_Language w)) ` set out"
    by (auto simp: voices_ok_def)
  have "v\<lparr>vm_Language := vm_Language v\<rparr> = v" by simp
  then show ?case using Cons c by (simp add: trim_canonical Parse_of_canonical [OF assms] canonical_concrete)
qed simp

lemma defaults_ok:
  assumes "unicode_ok (std_unicode (lib_std lib))" "validateDefaults lib c = Inr c'"
  shows "cg_HTTP c' = cg_HTTP c \<and> cg_CORSOrigin c' = cg_CORSOrigin c \<and> cg_Langs c' \<noteq> [] \<and> distinct (cg_Langs c') \<and>
    list_all canonical (cg_Langs c') \<and> cg_Subs c' \<in> {Off, SubsVTT, SubsBurn} \<and> BedLevel (lib_std lib) (cg_Bed c') \<noteq> None \<and>
    0 \<le> cg_Delay c' \<and> cg_Delay c' \<le> MaxSessionDelay"
proof -
  obtain ls where ls: "normalize_langs (std_unicode (lib_std lib)) (cg_Langs c) [] = Inr ls" "ls \<noteq> []"
    using assms(2) by (auto simp: validateDefaults_def normalizeDefaultLanguages_def split: sum.splits if_splits)
  have n: "distinct ls \<and> list_all canonical ls" using normalize_langs_ok [OF assms(1) ls(1)] by simp
  show ?thesis using assms(2) ls n
    by (auto simp: validateDefaults_def normalizeDefaultLanguages_def normalizeDefaultSubs_def normalizeDefaultBed_def ParseSubs_def
        ParseBed_def Let_def split: sum.splits if_splits option.splits)
qed

lemma validated_ok:
  assumes "unicode_ok (std_unicode (lib_std lib))" "validate_config lib c = Inr c'"
  shows "config_ok lib c'"
proof -
  let ?u = "std_unicode (lib_std lib)"
  obtain c1 where d: "validateDaemon lib c = None" "validateDefaults lib c = Inr c1" "validateProvider ?u c1 = Inr c'"
    using assms(2) by (auto simp: validate_config_def split: option.splits sum.splits)
  note c1 = defaults_ok [OF assms(1) d(2)]
  obtain v ps where p: "validateDispatch (cg_Dispatch c1) = None" "stageOneOf VoicesLocal [VoicesLocal, VoicesOff] (cg_Voices c1) = Some v"
    "validateLocalSTT (cg_STT c1) = None" "validate_pairs ?u 0 (cg_Pairs c1) [] = Inr ps"
    "validateLocalTTS ?u (c1\<lparr>cg_Voices := v, cg_Pairs := ps\<rparr>) = Inr c'"
    using d(3) by (auto simp: validateProvider_def split: option.splits sum.splits)
  have v: "v = VoicesLocal \<or> v = VoicesOff" using p(2) by (auto simp: stageOneOf_def split: if_splits)
  have ps: "distinct ps \<and> list_all pair_ok ps" using validate_pairs_ok [OF assms(1) p(4)] by simp
  obtain vs where vs: "c' = c1\<lparr>cg_Voices := v, cg_Pairs := ps, cg_TTSVoices := vs\<rparr>" "v = VoicesLocal \<longrightarrow> vs \<noteq> [] \<and> voices_ok vs"
  proof (cases "v = VoicesLocal")
    case True
    then obtain vs where "validate_voices ?u 0 (cg_TTSVoices c1) [] = Inr vs" "c' = c1\<lparr>cg_Voices := v, cg_Pairs := ps, cg_TTSVoices := vs\<rparr>" "cg_TTSVoices c1 \<noteq> []"
      using p(5) by (auto simp: validateLocalTTS_def split: sum.splits if_splits)
    then show ?thesis using that validate_voices_ok [OF assms(1)] by (fastforce simp: voices_ok_def)
  next
    case False
    then have "c' = c1\<lparr>cg_Voices := v, cg_Pairs := ps, cg_TTSVoices := cg_TTSVoices c1\<rparr>" using p(5) by (auto simp: validateLocalTTS_def)
    then show ?thesis using that False by blast
  qed
  have "validateDaemon lib c' = None" using d(1) c1 by (simp add: validateDaemon_def vs(1) split: if_splits)
  then show ?thesis using c1 p(1,3) ps v vs(2) unfolding config_ok_def by (simp add: vs(1)) blast
qed

lemma ok_validated:
  assumes "unicode_ok (std_unicode (lib_std lib))" "config_ok lib c"
  shows "validate_config lib c = Inr c"
proof -
  let ?u = "std_unicode (lib_std lib)"
  note k = assms(2) [unfolded config_ok_def]
  have ls: "normalize_langs ?u (cg_Langs c) [] = Inr (cg_Langs c)" using normalize_langs_id [OF assms(1), of "cg_Langs c" "[]"] k by simp
  have sub: "ParseSubs (lib_std lib) (cg_Subs c) = Inr (cg_Subs c)" using parse_plain_subs [OF assms(1)] k by blast
  have bed: "ParseBed (lib_std lib) (cg_Bed c) = Inr (cg_Bed c)" using k by (auto simp: ParseBed_def)
  have ps: "validate_pairs ?u 0 (cg_Pairs c) [] = Inr (cg_Pairs c)" using validate_pairs_id [OF assms(1), of "cg_Pairs c" "[]"] k by simp
  have st: "stageOneOf VoicesLocal [VoicesLocal, VoicesOff] (cg_Voices c) = Some (cg_Voices c)"
    using k voices_differ by (auto simp: stageOneOf_def)
  have tts: "validateLocalTTS ?u c = Inr c"
  proof (cases "cg_Voices c = VoicesLocal")
    case True
    then have "cg_TTSVoices c \<noteq> []" "voices_ok ([] @ cg_TTSVoices c)" using k voices_differ by auto
    then show ?thesis using True validate_voices_id [OF assms(1), of "[]" "cg_TTSVoices c" 0] by (simp add: validateLocalTTS_def)
  qed (simp add: validateLocalTTS_def)
  have "validateDefaults lib c = Inr c"
    using k by (simp add: validateDefaults_def normalizeDefaultLanguages_def ls normalizeDefaultSubs_def sub normalizeDefaultBed_def bed)
  moreover have "validateProvider ?u c = Inr c" using k by (simp add: validateProvider_def st ps tts)
  ultimately show ?thesis using k by (simp add: validate_config_def)
qed

section \<open>The file\<close>

text \<open>
  YAML is an argument: the first document decoded over a configuration, with unknown fields refused, what follows
  it, the two nodes of \<open>providers.local.stt\<close>, and the encoder.
\<close>

datatype 'a yaml_doc = YamlEnd | YamlBad | YamlDoc 'a
datatype yaml_node = NodeAbsent | NodeNull | NodeValue

record yaml =
  ym_first :: "gostr \<Rightarrow> Config \<Rightarrow> Config yaml_doc"
  ym_second :: "gostr \<Rightarrow> unit yaml_doc"
  ym_nodes :: "gostr \<Rightarrow> (yaml_node \<times> yaml_node) option"
  ym_encode :: "Config \<Rightarrow> gostr"

definition decodeStrict :: "yaml \<Rightarrow> gostr \<Rightarrow> Config \<Rightarrow> Config option" where
  "decodeStrict y data cfg =
     (case (case ym_first y data cfg of YamlEnd \<Rightarrow> Some cfg | YamlBad \<Rightarrow> None | YamlDoc c \<Rightarrow> Some c) of
        None \<Rightarrow> None
      | Some c \<Rightarrow> (case ym_second y data of YamlEnd \<Rightarrow> Some c | _ \<Rightarrow> None))"

definition defaultCallModelApplies :: "yaml \<Rightarrow> gostr \<Rightarrow> bool option" where
  "defaultCallModelApplies y data =
     (case ym_nodes y data of
        None \<Rightarrow> None
      | Some (model, callModel) \<Rightarrow>
          if callModel \<noteq> NodeAbsent then Some (callModel \<noteq> NodeNull) else Some (model = NodeAbsent))"

text \<open>What reading the file finds. A missing file is an error only under an explicit path.\<close>

datatype file_state = FileMissing | FileUnreadable | FileData gostr

definition drop_call_model :: "Config \<Rightarrow> Config" where
  "drop_call_model c = c\<lparr>cg_STT := (cg_STT c)\<lparr>ls_CallModel := []\<rparr>\<rparr>"

definition loadFile :: "yaml \<Rightarrow> bool \<Rightarrow> file_state \<Rightarrow> config_error + Config" where
  "loadFile y explicit f =
     (case f of
        FileData data \<Rightarrow>
          (case decodeStrict y data DefaultConfig of
             None \<Rightarrow> Inl ConfigUnparsed
           | Some cfg \<Rightarrow> (case defaultCallModelApplies y data of
               None \<Rightarrow> Inl ConfigUnparsed
             | Some applies \<Rightarrow> Inr (if applies then cfg else drop_call_model cfg)))
      | FileMissing \<Rightarrow> if explicit then Inl ConfigUnreadable else Inr DefaultConfig
      | FileUnreadable \<Rightarrow> Inl ConfigUnreadable)"

definition applyEnv :: "(gostr \<Rightarrow> gostr) \<Rightarrow> Config \<Rightarrow> Config" where
  "applyEnv get c =
     (let c1 = (if get (str ''PRUKKA_HTTP'') \<noteq> [] then c\<lparr>cg_HTTP := get (str ''PRUKKA_HTTP'')\<rparr> else c)
      in if get (str ''PRUKKA_ENGINE_BIN'') \<noteq> [] then c1\<lparr>cg_Bin := get (str ''PRUKKA_ENGINE_BIN'')\<rparr> else c1)"

record daemon_env =
  de_lib :: config_lib
  de_yaml :: yaml
  de_explicit :: bool
  de_env :: "gostr \<Rightarrow> gostr"

definition Load :: "daemon_env \<Rightarrow> file_state \<Rightarrow> config_error + Config" where
  "Load d f =
     (case loadFile (de_yaml d) (de_explicit d) f of
        Inl e \<Rightarrow> Inl e
      | Inr cfg \<Rightarrow> validate_config (de_lib d) (applyEnv (de_env d) cfg))"

text \<open>
  \<open>Save\<close> stages the bytes beside the file and renames them over it. \<open>sd_staged\<close> is the temporary file; the answers of
  the system say how far the sequence comes. The states it passes through are what a crash can leave behind.
\<close>

record save_disk =
  sd_file :: file_state
  sd_staged :: "gostr option"

record save_answers =
  sv_encoded :: bool
  sv_dir :: bool
  sv_temp :: bool
  sv_written :: nat
  sv_filled :: bool
  sv_renamed :: bool
  sv_synced :: bool

definition Save :: "yaml \<Rightarrow> save_answers \<Rightarrow> Config \<Rightarrow> save_disk \<Rightarrow> config_error option \<times> save_disk list" where
  "Save y a c s0 =
     (let data = ym_encode y c;
          s1 = s0\<lparr>sd_staged := Some []\<rparr>;
          s2 = s0\<lparr>sd_staged := Some (if sv_filled a then data else take (sv_written a) data)\<rparr>;
          s3 = s0\<lparr>sd_staged := None\<rparr>;
          s4 = \<lparr>sd_file = FileData data, sd_staged = None\<rparr>
      in if \<not> sv_encoded a then (Some ConfigUnparsed, [s0])
         else if \<not> sv_dir a \<or> \<not> sv_temp a then (Some NotPersisted, [s0])
         else if \<not> sv_filled a \<or> \<not> sv_renamed a then (Some NotPersisted, [s0, s1, s2, s3])
         else if \<not> sv_synced a then (Some NotPersisted, [s0, s1, s2, s4])
         else (None, [s0, s1, s2, s4]))"

section \<open>The holder\<close>

text \<open>The format of \<open>%+v\<close>: fields in the order of their declaration, slices in brackets.\<close>

definition show_voice :: "VoiceModel \<Rightarrow> gostr" where
  "show_voice v = str ''{Language:'' @ vm_Language v @ str '' Voice:'' @ vm_Voice v @ str ''}''"

definition show_pair :: "TranslationPair \<Rightarrow> gostr" where
  "show_pair p = str ''{From:'' @ tp_From p @ str '' To:'' @ tp_To p @ str ''}''"

definition show_local :: "Config \<Rightarrow> gostr" where
  "show_local c = str ''{Bin:'' @ cg_Bin c @ str '' STT:{Model:'' @ ls_Model (cg_STT c) @ str '' CallModel:'' @ ls_CallModel (cg_STT c) @
     str ''} TTS:{Voices:['' @ join (str '' '') (map show_voice (cg_TTSVoices c)) @ str '']} MT:{Pairs:['' @
     join (str '' '') (map show_pair (cg_Pairs c)) @ str '']}}''"

definition LaneFingerprint :: "Config \<Rightarrow> gostr" where
  "LaneFingerprint c = cg_Voices c @ str ''|'' @ show_local c @ str ''|'' @ cg_Bed c"

datatype config_note = NoteHTTP | NoteControl | NoteDispatch

definition structuralChanges :: "Config \<Rightarrow> Config \<Rightarrow> config_note list" where
  "structuralChanges prev fresh =
     (if cg_HTTP prev \<noteq> cg_HTTP fresh then [NoteHTTP] else []) @ (if cg_IPCTLS prev \<noteq> cg_IPCTLS fresh then [NoteControl] else []) @
     (if cg_Dispatch prev \<noteq> cg_Dispatch fresh then [NoteDispatch] else [])"

record Transition =
  tr_Previous :: Config
  tr_Current :: Config
  tr_Notes :: "config_note list"

text \<open>
  \<open>ho_lanes\<close> is the fingerprint the running lanes were started under, \<open>ho_pending\<close> the transitions whose writers have
  released the holder and not yet handed them on.
\<close>

record holder =
  ho_current :: Config
  ho_disk :: save_disk
  ho_lanes :: gostr
  ho_pending :: "Transition list"

definition NewHolder :: "daemon_env \<Rightarrow> file_state \<Rightarrow> config_error + holder" where
  "NewHolder d f =
     (case Load d f of
        Inl e \<Rightarrow> Inl e
      | Inr c \<Rightarrow> Inr \<lparr>ho_current = c, ho_disk = \<lparr>sd_file = f, sd_staged = None\<rparr>, ho_lanes = LaneFingerprint c, ho_pending = []\<rparr>)"

definition reloadLocked :: "daemon_env \<Rightarrow> holder \<Rightarrow> (config_error + Transition) \<times> holder" where
  "reloadLocked d h =
     (case Load d (sd_file (ho_disk h)) of
        Inl e \<Rightarrow> (Inl e, h)
      | Inr fresh \<Rightarrow>
          (Inr \<lparr>tr_Previous = ho_current h, tr_Current = fresh, tr_Notes = structuralChanges (ho_current h) fresh\<rparr>,
           h\<lparr>ho_current := fresh\<rparr>))"

definition Update :: "daemon_env \<Rightarrow> save_answers \<Rightarrow> (Config \<Rightarrow> Config) \<Rightarrow> holder \<Rightarrow> (config_error + Transition) \<times> holder" where
  "Update d a mutate h =
     (case loadFile (de_yaml d) (de_explicit d) (sd_file (ho_disk h)) of
        Inl e \<Rightarrow> (Inl e, h)
      | Inr base \<Rightarrow> (case validate_config (de_lib d) (mutate base) of
          Inl e \<Rightarrow> (Inl e, h)
        | Inr c \<Rightarrow> (case Save (de_yaml d) a c (ho_disk h) of
            (Some e, ss) \<Rightarrow> (Inl e, h\<lparr>ho_disk := last ss\<rparr>)
          | (None, ss) \<Rightarrow> reloadLocked d (h\<lparr>ho_disk := last ss\<rparr>))))"

text \<open>A transition that touches what the lanes run on restarts them, under the configuration that is live by then.\<close>

definition onChange :: "Transition \<Rightarrow> holder \<Rightarrow> holder" where
  "onChange t h =
     (if LaneFingerprint (tr_Previous t) \<noteq> LaneFingerprint (tr_Current t) then h\<lparr>ho_lanes := LaneFingerprint (ho_current h)\<rparr> else h)"

definition signalled :: "(config_error + Transition) \<times> holder \<Rightarrow> holder" where
  "signalled r = (case r of (Inr t, h) \<Rightarrow> h\<lparr>ho_pending := t # ho_pending h\<rparr> | (Inl _, h) \<Rightarrow> h)"

definition reloadConfig :: "daemon_env \<Rightarrow> holder \<Rightarrow> holder" where
  "reloadConfig d h = signalled (reloadLocked d h)"

section \<open>The writers\<close>

datatype pack = PackMT lang lang | PackVoice lang gostr

definition extendConfigForPack :: "pack \<Rightarrow> Config \<Rightarrow> Config" where
  "extendConfigForPack p c =
     (case p of
        PackMT f t \<Rightarrow> c\<lparr>cg_Pairs := AddPair f t (cg_Pairs c)\<rparr>
      | PackVoice l v \<Rightarrow> c\<lparr>cg_TTSVoices := SetVoice l v (cg_TTSVoices c)\<rparr>)"

definition retireConfigForPack :: "pack \<Rightarrow> Config \<Rightarrow> Config" where
  "retireConfigForPack p c =
     (case p of
        PackMT f t \<Rightarrow> c\<lparr>cg_Pairs := RemovePair f t (cg_Pairs c)\<rparr>
      | PackVoice l _ \<Rightarrow> c\<lparr>cg_TTSVoices := RemoveVoice l (cg_TTSVoices c)\<rparr>)"

definition extendConfig :: "daemon_env \<Rightarrow> save_answers \<Rightarrow> pack \<Rightarrow> holder \<Rightarrow> config_error option \<times> holder" where
  "extendConfig d a p h =
     (case Update d a (extendConfigForPack p) h of (Inl e, h') \<Rightarrow> (Some e, h') | (Inr _, h') \<Rightarrow> (None, h'))"

definition retireConfig :: "daemon_env \<Rightarrow> save_answers \<Rightarrow> pack \<Rightarrow> holder \<Rightarrow> config_error option \<times> holder" where
  "retireConfig d a p h =
     (case Update d a (retireConfigForPack p) h of (Inl e, h') \<Rightarrow> (Some e, h') | (Inr t, h') \<Rightarrow> (None, signalled (Inr t, h')))"

text \<open>The settings of the wire; a pointer that may be nil is an option. A \<open>float64\<close> of seconds is rounded by \<open>rnd\<close>.\<close>

record wire_local =
  wl_SttModel :: gostr
  wl_DubbedLangs :: "gostr list"
  wl_Mt :: "(gostr \<times> gostr) list option"

record wire_providers =
  wp_Voices :: "gostr option"
  wp_Local :: "wire_local option"

record wire_defaults =
  wd_Langs :: "gostr list"
  wd_Subs :: gostr
  wd_Bed :: gostr
  wd_DelaySeconds :: "rat option"

record wire_config =
  wc_Providers :: "wire_providers option"
  wc_Defaults :: "wire_defaults option"

definition translationPairsFromProto :: "(gostr \<times> gostr) list \<Rightarrow> TranslationPair list" where
  "translationPairsFromProto ps = map (\<lambda>p. \<lparr>tp_From = fst p, tp_To = snd p\<rparr>) ps"

definition translationConfigToProto :: "TranslationPair list \<Rightarrow> (gostr \<times> gostr) list" where
  "translationConfigToProto ps = map (\<lambda>p. (tp_From p, tp_To p)) ps"

definition seconds_duration :: "(rat \<Rightarrow> rat) \<Rightarrow> rat \<Rightarrow> duration" where
  "seconds_duration rnd v = trunc_rat (rnd (v * of_int second))"

definition duration_seconds :: "(rat \<Rightarrow> rat) \<Rightarrow> duration \<Rightarrow> rat" where
  "duration_seconds rnd d = rnd (of_int (go_div d second) + rnd (of_int (go_mod d second) / of_int second))"

definition applyProviders :: "wire_providers option \<Rightarrow> Config \<Rightarrow> Config" where
  "applyProviders p c =
     (case p of
        None \<Rightarrow> c
      | Some w \<Rightarrow>
          let c1 = (case wp_Voices w of None \<Rightarrow> c | Some v \<Rightarrow> c\<lparr>cg_Voices := v\<rparr>)
          in case wp_Local w of
               None \<Rightarrow> c1
             | Some l \<Rightarrow>
                 let c2 = c1\<lparr>cg_STT := (cg_STT c1)\<lparr>ls_Model := wl_SttModel l\<rparr>\<rparr>
                 in case wl_Mt l of None \<Rightarrow> c2 | Some ps \<Rightarrow> c2\<lparr>cg_Pairs := translationPairsFromProto ps\<rparr>)"

definition applyDefaults :: "(rat \<Rightarrow> rat) \<Rightarrow> wire_defaults option \<Rightarrow> Config \<Rightarrow> Config" where
  "applyDefaults rnd w c =
     (case w of
        None \<Rightarrow> c
      | Some d \<Rightarrow>
          let c1 = c\<lparr>cg_Langs := wd_Langs d, cg_Subs := wd_Subs d, cg_Bed := wd_Bed d\<rparr>
          in case wd_DelaySeconds d of None \<Rightarrow> c1 | Some v \<Rightarrow> c1\<lparr>cg_Delay := seconds_duration rnd v\<rparr>)"

definition applyProto :: "(rat \<Rightarrow> rat) \<Rightarrow> wire_config \<Rightarrow> Config \<Rightarrow> Config" where
  "applyProto rnd w c = applyDefaults rnd (wc_Defaults w) (applyProviders (wc_Providers w) c)"

definition toProto :: "(rat \<Rightarrow> rat) \<Rightarrow> Config \<Rightarrow> wire_config" where
  "toProto rnd c =
     \<lparr>wc_Providers = Some \<lparr>wp_Voices = Some (cg_Voices c), wp_Local = Some
        \<lparr>wl_SttModel = ls_Model (cg_STT c), wl_DubbedLangs = DubbedLanguages (cg_TTSVoices c), wl_Mt = Some (translationConfigToProto (cg_Pairs c))\<rparr>\<rparr>,
      wc_Defaults = Some \<lparr>wd_Langs = cg_Langs c, wd_Subs = cg_Subs c, wd_Bed = cg_Bed c,
        wd_DelaySeconds = Some (duration_seconds rnd (cg_Delay c))\<rparr>\<rparr>"

datatype rpc_status = InvalidArgument | Internal

definition UpdateConfig :: "daemon_env \<Rightarrow> (rat \<Rightarrow> rat) \<Rightarrow> save_answers \<Rightarrow> wire_config option \<Rightarrow> holder \<Rightarrow>
    (rpc_status + wire_config \<times> config_note list) \<times> holder" where
  "UpdateConfig d rnd a req h =
     (case req of
        None \<Rightarrow> (Inl InvalidArgument, h)
      | Some edited \<Rightarrow> (case Update d a (applyProto rnd edited) h of
          (Inl e, h') \<Rightarrow> (Inl (if e = NotPersisted then Internal else InvalidArgument), h')
        | (Inr t, h') \<Rightarrow> (Inr (toProto rnd (tr_Current t), tr_Notes t), signalled (Inr t, h'))))"

text \<open>
  The holder's writers in any order, with edits of the file by the operator between them; each hands its transition on
  after it has released the holder, so transitions may arrive in another order. Only an install keeps it.
\<close>

inductive holder_step :: "daemon_env \<Rightarrow> (rat \<Rightarrow> rat) \<Rightarrow> bool \<Rightarrow> holder \<Rightarrow> holder \<Rightarrow> bool" for d rnd silent where
  operator: "holder_step d rnd silent h (h\<lparr>ho_disk := (ho_disk h)\<lparr>sd_file := f\<rparr>\<rparr>)"
| reloads: "holder_step d rnd silent h (reloadConfig d h)"
| settings: "holder_step d rnd silent h (snd (UpdateConfig d rnd a req h))"
| installs: "silent \<Longrightarrow> holder_step d rnd silent h (snd (extendConfig d a p h))"
| delivers: "t \<in> set (ho_pending h) \<Longrightarrow> holder_step d rnd silent h (onChange t (h\<lparr>ho_pending := remove1 t (ho_pending h)\<rparr>))"
| retires: "holder_step d rnd silent h (snd (retireConfig d a p h))"

definition holder_reach :: "daemon_env \<Rightarrow> (rat \<Rightarrow> rat) \<Rightarrow> bool \<Rightarrow> holder \<Rightarrow> holder \<Rightarrow> bool" where
  "holder_reach d rnd silent = (holder_step d rnd silent)\<^sup>*\<^sup>*"

section \<open>Laws\<close>

text \<open>The encoder's law for one configuration: what it writes decodes to it, an empty call model being omitted.\<close>

definition yaml_reads :: "yaml \<Rightarrow> Config \<Rightarrow> bool" where
  "yaml_reads y c \<longleftrightarrow>
     ym_first y (ym_encode y c) DefaultConfig = YamlDoc (if ls_CallModel (cg_STT c) = []
        then c\<lparr>cg_STT := (cg_STT c)\<lparr>ls_CallModel := ls_CallModel (cg_STT DefaultConfig)\<rparr>\<rparr> else c) \<and>
     ym_second y (ym_encode y c) = YamlEnd \<and>
     ym_nodes y (ym_encode y c) = Some (NodeValue, if ls_CallModel (cg_STT c) = [] then NodeAbsent else NodeValue)"

definition env_ok :: "daemon_env \<Rightarrow> bool" where
  "env_ok d \<longleftrightarrow> unicode_ok (std_unicode (lib_std (de_lib d))) \<and>
     (de_env d (str ''PRUKKA_HTTP'') \<noteq> [] \<longrightarrow> lib_splitHostPort (de_lib d) (de_env d (str ''PRUKKA_HTTP'')))"

lemma load_saved:
  assumes "yaml_reads y c"
  shows "loadFile y ex (FileData (ym_encode y c)) = Inr c"
proof (cases "ls_CallModel (cg_STT c) = []")
  case True
  have "drop_call_model (c\<lparr>cg_STT := (cg_STT c)\<lparr>ls_CallModel := v\<rparr>\<rparr>) = c" for v using True by (simp add: drop_call_model_def)
  then show ?thesis using assms True
    by (simp add: yaml_reads_def loadFile_def decodeStrict_def defaultCallModelApplies_def)
qed (use assms in \<open>simp add: yaml_reads_def loadFile_def decodeStrict_def defaultCallModelApplies_def\<close>)

lemma env_of_holder:
  assumes "unicode_ok (std_unicode (lib_std (de_lib d)))" "NewHolder d f = Inr h"
  shows "env_ok d"
proof -
  obtain cfg c where c: "validate_config (de_lib d) (applyEnv (de_env d) cfg) = Inr c"
    using assms(2) by (auto simp: NewHolder_def Load_def split: sum.splits)
  then have "validateDaemon (de_lib d) (applyEnv (de_env d) cfg) = None" by (auto simp: validate_config_def split: option.splits)
  then show ?thesis using assms(1) by (auto simp: env_ok_def validateDaemon_def applyEnv_def Let_def split: if_splits)
qed

lemma env_keeps_ok:
  assumes "env_ok d" "config_ok (de_lib d) c"
  shows "config_ok (de_lib d) (applyEnv (de_env d) c)"
proof -
  have "validateDaemon (de_lib d) (applyEnv (de_env d) c) = None"
    using assms by (auto simp: config_ok_def env_ok_def validateDaemon_def applyEnv_def Let_def split: if_splits)
  then show ?thesis using assms(2) by (auto simp: config_ok_def applyEnv_def Let_def)
qed

lemma Load_ok: "unicode_ok (std_unicode (lib_std (de_lib d))) \<Longrightarrow> Load d f = Inr c \<Longrightarrow> config_ok (de_lib d) c"
  by (auto simp: Load_def validated_ok split: sum.splits)

lemma load_saved_ok:
  assumes "env_ok d" "config_ok (de_lib d) c" "yaml_reads (de_yaml d) c"
  shows "Load d (FileData (ym_encode (de_yaml d) c)) = Inr (applyEnv (de_env d) c)"
  using assms ok_validated [OF _ env_keeps_ok [OF assms(1,2)]]
  by (simp add: Load_def load_saved env_ok_def)

lemma Save_disks:
  assumes "s \<in> set (snd (Save y a c s0))"
  shows "sd_file s = sd_file s0 \<or> sd_file s = FileData (ym_encode y c) \<and> sv_encoded a \<and> sv_renamed a \<and> sv_filled a"
  using assms by (auto simp: Save_def Let_def split: if_splits)

lemma Save_last: "sd_staged s0 = None \<Longrightarrow> sd_staged (last (snd (Save y a c s0))) = None"
  by (simp add: Save_def Let_def)

lemma Save_fails:
  "fst (Save y a c s0) = Some e \<Longrightarrow> sd_staged s0 = None \<Longrightarrow>
   last (snd (Save y a c s0)) = s0 \<or> e = NotPersisted \<and> \<not> sv_synced a \<and> sd_file (last (snd (Save y a c s0))) = FileData (ym_encode y c)"
  by (cases s0) (auto simp: Save_def Let_def split: if_splits)

lemma Save_none: "fst (Save y a c s0) = None \<longleftrightarrow> sv_encoded a \<and> sv_dir a \<and> sv_temp a \<and> sv_filled a \<and> sv_renamed a \<and> sv_synced a"
  by (auto simp: Save_def Let_def)

lemma Save_done: "fst (Save y a c s0) = None \<Longrightarrow> last (snd (Save y a c s0)) = \<lparr>sd_file = FileData (ym_encode y c), sd_staged = None\<rparr>"
  by (auto simp: Save_def Let_def split: if_splits)

lemma update_base:
  assumes "env_ok d" "loadFile (de_yaml d) (de_explicit d) (sd_file (ho_disk h)) = Inr base"
    "validate_config (de_lib d) (mutate base) = Inr c" "fst (Save (de_yaml d) a c (ho_disk h)) = None" "yaml_reads (de_yaml d) c"
  shows "Update d a mutate h =
    (Inr \<lparr>tr_Previous = ho_current h, tr_Current = applyEnv (de_env d) c, tr_Notes = structuralChanges (ho_current h) (applyEnv (de_env d) c)\<rparr>,
     h\<lparr>ho_current := applyEnv (de_env d) c, ho_disk := \<lparr>sd_file = FileData (ym_encode (de_yaml d) c), sd_staged = None\<rparr>\<rparr>)"
proof -
  have u: "unicode_ok (std_unicode (lib_std (de_lib d)))" using assms(1) by (simp add: env_ok_def)
  obtain ss where ss: "Save (de_yaml d) a c (ho_disk h) = (None, ss)" using assms(4) by (cases "Save (de_yaml d) a c (ho_disk h)") auto
  have l: "last ss = \<lparr>sd_file = FileData (ym_encode (de_yaml d) c), sd_staged = None\<rparr>" using Save_done [OF assms(4)] ss by simp
  show ?thesis using load_saved_ok [OF assms(1) validated_ok [OF u assms(3)] assms(5)]
    by (simp add: Update_def assms(2,3) ss l reloadLocked_def)
qed

lemma reload_result:
  assumes "reloadLocked d h = (r, h')"
  shows "(\<exists>e. r = Inl e \<and> h' = h) \<or>
    (\<exists>fresh. r = Inr \<lparr>tr_Previous = ho_current h, tr_Current = fresh, tr_Notes = structuralChanges (ho_current h) fresh\<rparr> \<and>
       h' = h\<lparr>ho_current := fresh\<rparr> \<and> Load d (sd_file (ho_disk h)) = Inr fresh)"
  using assms by (auto simp: reloadLocked_def split: sum.splits)

lemma update_result:
  assumes "Update d a mutate h = (r, h')"
  obtains (failed) e s where "r = Inl e" "h' = h\<lparr>ho_disk := s\<rparr>"
  | (swapped) fresh s where "r = Inr \<lparr>tr_Previous = ho_current h, tr_Current = fresh, tr_Notes = structuralChanges (ho_current h) fresh\<rparr>"
      "h' = h\<lparr>ho_disk := s, ho_current := fresh\<rparr>" "Load d (sd_file s) = Inr fresh"
proof -
  have id: "h\<lparr>ho_disk := ho_disk h\<rparr> = h" by simp
  show thesis
  proof (cases "loadFile (de_yaml d) (de_explicit d) (sd_file (ho_disk h))")
    case (Inl e)
    then have "r = Inl e" "h' = h\<lparr>ho_disk := ho_disk h\<rparr>" using assms id by (simp_all add: Update_def)
    then show ?thesis by (rule failed)
  next
    case (Inr base)
    show ?thesis
    proof (cases "validate_config (de_lib d) (mutate base)")
      case (Inl e)
      then have "r = Inl e" "h' = h\<lparr>ho_disk := ho_disk h\<rparr>" using assms id Inr by (simp_all add: Update_def)
      then show ?thesis by (rule failed)
    next
      case c: (Inr c)
      obtain q ss where ss: "Save (de_yaml d) a c (ho_disk h) = (q, ss)" by (rule prod.exhaust)
      show ?thesis
      proof (cases q)
        case None
        then have "reloadLocked d (h\<lparr>ho_disk := last ss\<rparr>) = (r, h')" using assms Inr c ss by (simp add: Update_def)
        from reload_result [OF this] show ?thesis using failed swapped by auto
      next
        case (Some e)
        then have "r = Inl e" "h' = h\<lparr>ho_disk := last ss\<rparr>" using assms Inr c ss by (simp_all add: Update_def)
        then show ?thesis by (rule failed)
      qed
    qed
  qed
qed

definition holder_ok :: "daemon_env \<Rightarrow> holder \<Rightarrow> bool" where
  "holder_ok d h \<longleftrightarrow> config_ok (de_lib d) (ho_current h)"

text \<open>Lanes that are behind will be restarted: a transition that touches them is still to come.\<close>

definition touches :: "Transition \<Rightarrow> bool" where
  "touches t \<longleftrightarrow> LaneFingerprint (tr_Previous t) \<noteq> LaneFingerprint (tr_Current t)"

definition lanes_match :: "holder \<Rightarrow> bool" where
  "lanes_match h \<longleftrightarrow> ho_lanes h = LaneFingerprint (ho_current h) \<or> list_ex touches (ho_pending h)"

lemma signalled_match:
  assumes "(\<exists>e s. r = (Inl e, h\<lparr>ho_disk := s\<rparr>)) \<or>
    (\<exists>fresh s n. r = (Inr \<lparr>tr_Previous = ho_current h, tr_Current = fresh, tr_Notes = n\<rparr>, h\<lparr>ho_disk := s, ho_current := fresh\<rparr>))"
    and "lanes_match h"
  shows "lanes_match (signalled r)"
  using assms by (auto simp: signalled_def lanes_match_def touches_def)

lemma delivered_match:
  assumes "lanes_match h"
  shows "lanes_match (onChange t (h\<lparr>ho_pending := remove1 t (ho_pending h)\<rparr>))"
proof (cases "touches t")
  case False
  then have "list_ex touches (remove1 t ps) \<longleftrightarrow> list_ex touches ps" for ps by (induction ps) auto
  then show ?thesis using assms False by (simp add: lanes_match_def onChange_def touches_def [of t])
qed (simp add: lanes_match_def onChange_def touches_def)

lemma Update_shape:
  "(\<exists>e s. Update d a m h = (Inl e, h\<lparr>ho_disk := s\<rparr>)) \<or>
   (\<exists>fresh s n. Update d a m h = (Inr \<lparr>tr_Previous = ho_current h, tr_Current = fresh, tr_Notes = n\<rparr>, h\<lparr>ho_disk := s, ho_current := fresh\<rparr>)
      \<and> Load d (sd_file s) = Inr fresh)"
proof -
  obtain r h' where u: "Update d a m h = (r, h')" by (rule prod.exhaust)
  show ?thesis using u by (rule update_result) (use u in blast)+
qed

lemma reload_shape:
  "(\<exists>e s. reloadLocked d h = (Inl e, h\<lparr>ho_disk := s\<rparr>)) \<or>
   (\<exists>fresh s n. reloadLocked d h = (Inr \<lparr>tr_Previous = ho_current h, tr_Current = fresh, tr_Notes = n\<rparr>, h\<lparr>ho_disk := s, ho_current := fresh\<rparr>)
      \<and> Load d (sd_file s) = Inr fresh)"
proof -
  have id: "h = h\<lparr>ho_disk := ho_disk h\<rparr>" by simp
  show ?thesis
  proof (cases "Load d (sd_file (ho_disk h))")
    case (Inl e)
    then have "reloadLocked d h = (Inl e, h)" by (simp add: reloadLocked_def)
    then show ?thesis using id by metis
  next
    case (Inr fresh)
    then have "reloadLocked d h = (Inr \<lparr>tr_Previous = ho_current h, tr_Current = fresh, tr_Notes = structuralChanges (ho_current h) fresh\<rparr>,
      h\<lparr>ho_disk := ho_disk h, ho_current := fresh\<rparr>)" by (simp add: reloadLocked_def)
    then show ?thesis using Inr by blast
  qed
qed

text \<open>Only the install keeps its transition to itself.\<close>

lemma extend_shape: "snd (extendConfig d a p h) = snd (Update d a (extendConfigForPack p) h)"
  by (simp add: extendConfig_def split: prod.splits sum.splits)

lemma retire_shape: "snd (retireConfig d a p h) = signalled (Update d a (retireConfigForPack p) h)"
  by (auto simp: retireConfig_def signalled_def split: prod.splits sum.splits)

lemma settings_shape: "snd (UpdateConfig d rnd a req h) = (case req of None \<Rightarrow> h | Some w \<Rightarrow> signalled (Update d a (applyProto rnd w) h))"
  by (auto simp: UpdateConfig_def signalled_def split: prod.splits sum.splits option.splits)

lemma update_ok:
  assumes "unicode_ok (std_unicode (lib_std (de_lib d)))" "holder_ok d h"
  shows "holder_ok d (snd (Update d a m h)) \<and> holder_ok d (signalled (Update d a m h)) \<and> holder_ok d (reloadConfig d h)"
  using Update_shape [of d a m h] reload_shape [of d h] assms Load_ok
  by (auto simp: holder_ok_def signalled_def reloadConfig_def)

lemma holder_step_ok:
  assumes "holder_step d rnd silent h h'" "unicode_ok (std_unicode (lib_std (de_lib d)))" "holder_ok d h"
  shows "holder_ok d h' \<and> (\<not> silent \<and> lanes_match h \<longrightarrow> lanes_match h')"
  using assms(1)
proof cases
  case (operator f)
  then show ?thesis using assms(3) by (simp add: holder_ok_def lanes_match_def)
next
  case reloads
  moreover have "lanes_match h \<Longrightarrow> lanes_match (reloadConfig d h)"
    unfolding reloadConfig_def using reload_shape [of d h] by (intro signalled_match) blast+
  ultimately show ?thesis using update_ok [OF assms(2,3)] by simp
next
  case (settings a req)
  have "lanes_match h \<Longrightarrow> lanes_match (signalled (Update d a m h))" for m
    using Update_shape [of d a m h] by (intro signalled_match) blast+
  then show ?thesis using update_ok [OF assms(2,3)] assms(3) by (simp add: settings settings_shape split: option.splits)
next
  case (installs a p)
  then show ?thesis using update_ok [OF assms(2,3)] by (simp add: extend_shape)
next
  case (delivers t)
  then show ?thesis using delivered_match [of h t] assms(3) by (simp add: holder_ok_def onChange_def)
next
  case (retires a p)
  have "lanes_match h \<Longrightarrow> lanes_match (signalled (Update d a m h))" for m
    using Update_shape [of d a m h] by (intro signalled_match) blast+
  then show ?thesis using update_ok [OF assms(2,3)] by (simp add: retires retire_shape)
qed

lemma holder_reach_ok:
  assumes "unicode_ok (std_unicode (lib_std (de_lib d)))" "NewHolder d f = Inr h0" "holder_reach d rnd silent h0 h"
  shows "holder_ok d h \<and> (\<not> silent \<longrightarrow> lanes_match h)"
  using assms(3) unfolding holder_reach_def
proof (induction rule: rtranclp_induct)
  case base
  then show ?case using assms(2) Load_ok [OF assms(1)]
    by (auto simp: NewHolder_def holder_ok_def lanes_match_def split: sum.splits)
next
  case (step y z)
  then show ?case using holder_step_ok [OF _ assms(1)] by blast
qed

section \<open>Packs\<close>

lemma AddPair_ok:
  assumes "distinct ps" "list_all pair_ok ps" "pair_ok \<lparr>tp_From = f, tp_To = t\<rparr>"
  shows "distinct (AddPair f t ps) \<and> list_all pair_ok (AddPair f t ps)"
proof (cases "list_ex (\<lambda>p. tp_From p = f \<and> tp_To p = t) ps")
  case False
  then have "\<lparr>tp_From = f, tp_To = t\<rparr> \<notin> set ps" by (auto simp: list_ex_iff)
  then show ?thesis using False assms by (simp add: AddPair_def)
qed (use assms in \<open>simp add: AddPair_def\<close>)

lemma SetVoice_replaces:
  "language \<in> vm_Language ` set vs \<Longrightarrow> map vm_Language (SetVoice language voice vs) = map vm_Language vs"
  by (induction vs) auto

lemma SetVoice_appends:
  "language \<notin> vm_Language ` set vs \<Longrightarrow> SetVoice language voice vs = vs @ [\<lparr>vm_Language = language, vm_Voice = voice\<rparr>]"
  by (induction vs) auto

lemma SetVoice_voices:
  "trim_space voice \<noteq> [] \<Longrightarrow> list_all (\<lambda>v. trim_space (vm_Voice v) \<noteq> []) vs \<Longrightarrow>
   list_all (\<lambda>v. trim_space (vm_Voice v) \<noteq> []) (SetVoice language voice vs)"
  by (induction vs) auto

lemma voices_ok_alt:
  "voices_ok vs \<longleftrightarrow> distinct (map Base (map vm_Language vs)) \<and> list_all canonical (map vm_Language vs) \<and>
     list_all (\<lambda>v. trim_space (vm_Voice v) \<noteq> []) vs"
  by (auto simp: voices_ok_def list_all_iff comp_def)

lemma SetVoice_ok:
  assumes "voices_ok vs" "canonical language" "trim_space voice \<noteq> []"
    "\<And>v. v \<in> set vs \<Longrightarrow> Base (vm_Language v) = Base language \<Longrightarrow> vm_Language v = language"
  shows "voices_ok (SetVoice language voice vs)"
proof (cases "language \<in> vm_Language ` set vs")
  case True
  then show ?thesis using assms(1,3) SetVoice_voices [of voice vs language] unfolding voices_ok_alt SetVoice_replaces [OF True] by blast
next
  case False
  then have "Base language \<notin> (\<lambda>v. Base (vm_Language v)) ` set vs" using assms(4) by force
  then show ?thesis using assms(1-3) False by (auto simp: SetVoice_appends voices_ok_def)
qed

lemma voices_ok_filter: "voices_ok vs \<Longrightarrow> voices_ok (filter P vs)"
  by (auto simp: voices_ok_def list_all_iff distinct_map_filter)

text \<open>What the catalog may offer: a pair of two base languages of the registry, or a model for a language it knows.\<close>

definition pack_fits :: "pack \<Rightarrow> Config \<Rightarrow> bool" where
  "pack_fits p c = (case p of
     PackMT f t \<Rightarrow> pair_ok \<lparr>tp_From = f, tp_To = t\<rparr>
   | PackVoice l v \<Rightarrow> canonical l \<and> trim_space v \<noteq> [] \<and>
       list_all (\<lambda>w. Base (vm_Language w) = Base l \<longrightarrow> vm_Language w = l) (cg_TTSVoices c))"

lemma SetVoice_not_nil [simp]: "SetVoice l v vs \<noteq> []"
  by (cases vs) auto

lemma validateDaemon_packs [simp]:
  "validateDaemon lib (c\<lparr>cg_Pairs := ps\<rparr>) = validateDaemon lib c"
  "validateDaemon lib (c\<lparr>cg_TTSVoices := vs\<rparr>) = validateDaemon lib c"
  by (simp_all add: validateDaemon_def)

lemma extend_ok:
  assumes "config_ok lib c" "pack_fits p c"
  shows "config_ok lib (extendConfigForPack p c)"
proof (cases p)
  case (PackMT f t)
  then show ?thesis using assms AddPair_ok [of "cg_Pairs c" f t]
    by (auto simp: config_ok_def extendConfigForPack_def pack_fits_def)
next
  case (PackVoice l v)
  have "cg_Voices c = VoicesLocal \<Longrightarrow> voices_ok (SetVoice l v (cg_TTSVoices c))"
    using assms PackVoice voices_differ by (intro SetVoice_ok) (auto simp: config_ok_def pack_fits_def list_all_iff)
  then show ?thesis using assms(1) PackVoice by (auto simp: config_ok_def extendConfigForPack_def)
qed

lemma retire_ok:
  assumes "config_ok lib c" "case p of PackMT _ _ \<Rightarrow> True | PackVoice l _ \<Rightarrow> cg_Voices c = VoicesLocal \<longrightarrow> RemoveVoice l (cg_TTSVoices c) \<noteq> []"
  shows "config_ok lib (retireConfigForPack p c)"
proof (cases p)
  case (PackMT f t)
  then show ?thesis using assms by (auto simp: config_ok_def retireConfigForPack_def RemovePair_def list_all_iff)
next
  case (PackVoice l v)
  then show ?thesis using assms voices_ok_filter [of "cg_TTSVoices c"]
    by (auto simp: config_ok_def retireConfigForPack_def RemoveVoice_def)
qed

section \<open>Properties\<close>

definition demo_lib :: config_lib where
  "demo_lib = \<lparr>lib_std = demo_std\<lparr>std_parse_float := (\<lambda>s. if s = str ''-15'' then FloatVal (-15) else FloatError)\<rparr>,
     lib_splitHostPort = (\<lambda>s. s \<noteq> []),
     lib_origin = (\<lambda>s. Some \<lparr>og_scheme = fst (str_cut s (str ''://'')), og_host = str ''h'', og_user = False, og_path = [], og_query = [], og_fragment = []\<rparr>)\<rparr>"

definition demo_edited :: Config where
  "demo_edited = DefaultConfig\<lparr>cg_Bed := Off\<rparr>"

definition demo_pack :: pack where
  "demo_pack = PackMT (str ''it'') (str ''es'')"

definition demo_installed :: Config where
  "demo_installed = extendConfigForPack demo_pack demo_edited"

text \<open>A decoder that knows three files.\<close>

definition demo_yaml :: yaml where
  "demo_yaml = \<lparr>ym_first = (\<lambda>data _. if data = str ''edit'' then YamlDoc demo_edited else if data = str ''pack'' then YamlDoc demo_installed else YamlBad),
     ym_second = (\<lambda>_. YamlEnd), ym_nodes = (\<lambda>_. Some (NodeValue, NodeValue)),
     ym_encode = (\<lambda>c. if cg_Pairs c = cg_Pairs demo_edited then str ''edit'' else str ''pack'')\<rparr>"

definition demo_daemon :: daemon_env where
  "demo_daemon = \<lparr>de_lib = demo_lib, de_yaml = demo_yaml, de_explicit = False, de_env = (\<lambda>k. if k = str ''PRUKKA_HTTP'' then str '':9000'' else [])\<rparr>"

definition demo_saves :: save_answers where
  "demo_saves = \<lparr>sv_encoded = True, sv_dir = True, sv_temp = True, sv_written = 0, sv_filled = True, sv_renamed = True, sv_synced = True\<rparr>"

definition demo_live :: "Config \<Rightarrow> Config" where
  "demo_live c = c\<lparr>cg_HTTP := str '':9000''\<rparr>"

definition demo_holder :: holder where
  "demo_holder = \<lparr>ho_current = demo_live DefaultConfig, ho_disk = \<lparr>sd_file = FileMissing, sd_staged = None\<rparr>,
     ho_lanes = LaneFingerprint (demo_live DefaultConfig), ho_pending = []\<rparr>"

lemma demo_unicode: "unicode_ok (std_unicode (lib_std demo_lib))"
  by (simp add: demo_lib_def demo_std_def ascii_tables_ok)

lemma demo_default_valid: "validate_config demo_lib DefaultConfig = Inr DefaultConfig"
  by code_simp

lemma demo_edited_valid: "validate_config demo_lib demo_edited = Inr demo_edited"
  by code_simp

lemma demo_installed_valid: "validate_config demo_lib demo_installed = Inr demo_installed"
  by code_simp

lemma demo_starts: "NewHolder demo_daemon FileMissing = Inr demo_holder"
  by code_simp

text \<open>C37: whatever validation accepts it returns in normal form: canonical languages without duplicates, pairs of two
  different base languages, one voice per base language and at least one where voices are local, bounds on the pool
  and the delay; validating the result again changes nothing.\<close>

theorem validated_config_is_normal:
  assumes "unicode_ok (std_unicode (lib_std lib))" and "validate_config lib c = Inr c'"
  shows "config_ok lib c' \<and> validate_config lib c' = Inr c'"
  using validated_ok [OF assms] ok_validated [OF assms(1)] by blast

theorem validated_config_is_normal_witness: "config_ok demo_lib DefaultConfig"
  using validated_config_is_normal [OF demo_unicode demo_default_valid] by blast

text \<open>C24: in a daemon that has started, an update whose edited file layer validates and is written always takes
  effect: the file then holds exactly that configuration, without the environment, and the live snapshot is the
  same configuration under the environment.\<close>

theorem update_takes_effect:
  assumes "unicode_ok (std_unicode (lib_std (de_lib d)))" and "NewHolder d f0 = Inr h0"
    and "loadFile (de_yaml d) (de_explicit d) (sd_file (ho_disk h)) = Inr base" and "validate_config (de_lib d) (mutate base) = Inr c"
    and "sv_encoded a \<and> sv_dir a \<and> sv_temp a \<and> sv_filled a \<and> sv_renamed a \<and> sv_synced a" and "yaml_reads (de_yaml d) c"
  shows "fst (Update d a mutate h) = Inr \<lparr>tr_Previous = ho_current h, tr_Current = applyEnv (de_env d) c,
           tr_Notes = structuralChanges (ho_current h) (applyEnv (de_env d) c)\<rparr> \<and>
         ho_current (snd (Update d a mutate h)) = applyEnv (de_env d) c \<and>
         loadFile (de_yaml d) (de_explicit d) (sd_file (ho_disk (snd (Update d a mutate h)))) = Inr c"
proof -
  have "fst (Save (de_yaml d) a c (ho_disk h)) = None" using assms(5) by (simp add: Save_none)
  from update_base [where mutate = mutate, OF env_of_holder [OF assms(1,2)] assms(3,4) this assms(6)]
  show ?thesis using load_saved [OF assms(6)] by simp
qed

theorem update_takes_effect_witness:
  "loadFile demo_yaml False (sd_file (ho_disk (snd (Update demo_daemon demo_saves (\<lambda>_. demo_edited) demo_holder)))) = Inr demo_edited"
proof -
  have "loadFile (de_yaml demo_daemon) (de_explicit demo_daemon) (sd_file (ho_disk demo_holder)) = Inr DefaultConfig" by code_simp
  moreover have "validate_config (de_lib demo_daemon) ((\<lambda>_. demo_edited) DefaultConfig) = Inr demo_edited"
    using demo_edited_valid by (simp add: demo_daemon_def)
  moreover have "yaml_reads (de_yaml demo_daemon) demo_edited" unfolding yaml_reads_def by code_simp
  moreover have "unicode_ok (std_unicode (lib_std (de_lib demo_daemon)))" using demo_unicode by (simp add: demo_daemon_def)
  moreover have "sv_encoded demo_saves \<and> sv_dir demo_saves \<and> sv_temp demo_saves \<and> sv_filled demo_saves \<and> sv_renamed demo_saves \<and> sv_synced demo_saves"
    by (simp add: demo_saves_def)
  ultimately show ?thesis
    using update_takes_effect [of demo_daemon FileMissing demo_holder demo_holder DefaultConfig "\<lambda>_. demo_edited" demo_edited demo_saves] demo_starts
    by (simp add: demo_daemon_def)
qed

text \<open>C38: an update that fails leaves the live configuration and the running lanes as they were, and the file either as
  it was or holding a complete validated configuration, no staged file beside it.\<close>

theorem failed_update_keeps_running:
  assumes "unicode_ok (std_unicode (lib_std (de_lib d)))" and "sd_staged (ho_disk h) = None" and "Update d a mutate h = (Inl e, h')"
  shows "ho_current h' = ho_current h \<and> ho_lanes h' = ho_lanes h \<and> sd_staged (ho_disk h') = None \<and>
    (h' = h \<or> (\<exists>c. config_ok (de_lib d) c \<and> sd_file (ho_disk h') = FileData (ym_encode (de_yaml d) c)))"
proof -
  have keep: "h' = h \<longrightarrow> ?thesis" using assms(2) by simp
  show ?thesis
  proof (cases "loadFile (de_yaml d) (de_explicit d) (sd_file (ho_disk h))")
    case b: (Inr base)
    show ?thesis
    proof (cases "validate_config (de_lib d) (mutate base)")
      case c: (Inr c)
      obtain q ss where ss: "Save (de_yaml d) a c (ho_disk h) = (q, ss)" by (rule prod.exhaust)
      have h': "h' = h\<lparr>ho_disk := last ss\<rparr>"
        using assms(3) b c ss reload_result [of d "h\<lparr>ho_disk := last ss\<rparr>"] by (auto simp: Update_def split: option.splits)
      have "last ss = ho_disk h \<or> sd_file (last ss) = FileData (ym_encode (de_yaml d) c)"
        using Save_fails [of "de_yaml d" a c "ho_disk h"] Save_done [of "de_yaml d" a c "ho_disk h"] ss assms(2) by (cases q) auto
      moreover have "sd_staged (last ss) = None" using Save_last [OF assms(2), of "de_yaml d" a c] ss by simp
      ultimately show ?thesis using h' validated_ok [OF assms(1) c] by auto
    next
      case (Inl x)
      then have "h' = h" using assms(3) b by (simp add: Update_def)
      with keep show ?thesis by (rule mp)
    qed
  next
    case (Inl x)
    then have "h' = h" using assms(3) by (simp add: Update_def)
    with keep show ?thesis by (rule mp)
  qed
qed

theorem failed_update_keeps_running_witness:
  "Update demo_daemon (demo_saves\<lparr>sv_synced := False\<rparr>) (\<lambda>_. demo_edited) demo_holder =
     (Inl NotPersisted, demo_holder\<lparr>ho_disk := \<lparr>sd_file = FileData (str ''edit''), sd_staged = None\<rparr>\<rparr>) \<and>
   (\<exists>c. config_ok demo_lib c \<and> FileData (str ''edit'') = FileData (ym_encode demo_yaml c))"
proof -
  let ?h = "demo_holder\<lparr>ho_disk := \<lparr>sd_file = FileData (str ''edit''), sd_staged = None\<rparr>\<rparr>"
  have u: "Update demo_daemon (demo_saves\<lparr>sv_synced := False\<rparr>) (\<lambda>_. demo_edited) demo_holder = (Inl NotPersisted, ?h)" by code_simp
  have "unicode_ok (std_unicode (lib_std (de_lib demo_daemon)))" "sd_staged (ho_disk demo_holder) = None"
    using demo_unicode by (simp_all add: demo_daemon_def demo_holder_def)
  from failed_update_keeps_running [OF this u] show ?thesis using u by (auto simp: demo_daemon_def demo_holder_def)
qed


definition demo_operator :: holder where
  "demo_operator = demo_holder\<lparr>ho_disk := \<lparr>sd_file = FileData (str ''edit''), sd_staged = None\<rparr>\<rparr>"

definition demo_change :: "Config \<Rightarrow> Config \<Rightarrow> Transition" where
  "demo_change c c' = \<lparr>tr_Previous = demo_live c, tr_Current = demo_live c', tr_Notes = []\<rparr>"

definition demo_reloaded :: holder where
  "demo_reloaded = demo_operator\<lparr>ho_current := demo_live demo_edited, ho_lanes := LaneFingerprint (demo_live demo_edited)\<rparr>"

lemma demo_operator_step: "holder_step demo_daemon rnd silent demo_holder demo_operator"
  using holder_step.operator [of demo_daemon rnd silent demo_holder "FileData (str ''edit'')"]
  by (simp add: demo_operator_def demo_holder_def)

lemma demo_reload_step:
  assumes "reloadConfig demo_daemon h = h\<lparr>ho_current := c, ho_pending := [t]\<rparr>" "h2 = onChange t (h\<lparr>ho_current := c, ho_pending := []\<rparr>)"
  shows "(holder_step demo_daemon rnd silent)\<^sup>*\<^sup>* h h2"
proof -
  have "holder_step demo_daemon rnd silent h (h\<lparr>ho_current := c, ho_pending := [t]\<rparr>)"
    using holder_step.reloads [of demo_daemon rnd silent h] by (simp add: assms(1))
  moreover have "holder_step demo_daemon rnd silent (h\<lparr>ho_current := c, ho_pending := [t]\<rparr>) h2"
    using holder_step.delivers [of t "h\<lparr>ho_current := c, ho_pending := [t]\<rparr>" demo_daemon rnd silent] by (simp add: assms(2))
  ultimately show ?thesis by (meson rtranclp.rtrancl_into_rtrancl rtranclp.rtrancl_refl)
qed


text \<open>
  An install keeps its transition to itself. It has also read the operator's edit from the file, so the edit is live and no
  transition will ever show it: a later reload changes nothing, and the lanes run on under the old fingerprint.
\<close>

definition demo_stale :: holder where
  "demo_stale = demo_holder\<lparr>ho_disk := \<lparr>sd_file = FileData (str ''pack''), sd_staged = None\<rparr>, ho_current := demo_live demo_installed\<rparr>"

lemma silent_install_hides_an_edit:
  "holder_reach demo_daemon rnd True demo_holder demo_stale \<and> cg_Bed (ho_current demo_holder) = str ''-15dB'' \<and>
   cg_Bed (ho_current demo_stale) = Off \<and> ho_lanes demo_stale = ho_lanes demo_holder \<and>
   reloadConfig demo_daemon demo_stale = demo_stale\<lparr>ho_pending := [demo_change demo_installed demo_installed]\<rparr> \<and>
   \<not> touches (demo_change demo_installed demo_installed)"
proof -
  have "snd (extendConfig demo_daemon demo_saves demo_pack demo_operator) = demo_stale" by code_simp
  then have "holder_step demo_daemon rnd True demo_operator demo_stale"
    using holder_step.installs [OF TrueI, of demo_daemon rnd demo_operator demo_saves demo_pack] by simp
  then have "holder_reach demo_daemon rnd True demo_holder demo_stale"
    unfolding holder_reach_def using demo_operator_step by (meson rtranclp.rtrancl_into_rtrancl rtranclp.rtrancl_refl)
  moreover have "cg_Bed (ho_current demo_holder) = str ''-15dB''" "cg_Bed (ho_current demo_stale) = Off" by code_simp+
  moreover have "reloadConfig demo_daemon demo_stale = demo_stale\<lparr>ho_pending := [demo_change demo_installed demo_installed]\<rparr>" by code_simp
  ultimately show ?thesis by (simp add: demo_stale_def touches_def demo_change_def)
qed

text \<open>Installing a pack that fits a valid configuration is never refused and leaves a valid configuration that
  offers it.\<close>

lemma fitting_pack_is_never_refused:
  assumes "unicode_ok (std_unicode (lib_std lib))" and "config_ok lib c" and "pack_fits p c"
  shows "validate_config lib (extendConfigForPack p c) = Inr (extendConfigForPack p c) \<and>
    (case p of PackMT f t \<Rightarrow> \<lparr>tp_From = f, tp_To = t\<rparr> \<in> set (cg_Pairs (extendConfigForPack p c))
             | PackVoice l v \<Rightarrow> \<lparr>vm_Language = l, vm_Voice = v\<rparr> \<in> set (cg_TTSVoices (extendConfigForPack p c)))"
proof -
  have "\<lparr>vm_Language = l, vm_Voice = v\<rparr> \<in> set (SetVoice l v vs)" for l v vs
    by (induction vs) auto
  moreover have "\<lparr>tp_From = f, tp_To = t\<rparr> \<in> set (AddPair f t ps)" for f t ps
  proof (cases "list_ex (\<lambda>p. tp_From p = f \<and> tp_To p = t) ps")
    case True
    then obtain p where p: "p \<in> set ps" "tp_From p = f" "tp_To p = t" by (auto simp: list_ex_iff)
    have "p = \<lparr>tp_From = f, tp_To = t\<rparr>" using p(2,3) by (cases p) simp
    then show ?thesis using True p(1) by (simp add: AddPair_def)
  qed (simp add: AddPair_def)
  ultimately show ?thesis using ok_validated [OF assms(1) extend_ok [OF assms(2,3)]]
    by (simp add: extendConfigForPack_def split: pack.split)
qed

lemma fitting_pack_is_never_refused_witness: "validate_config demo_lib demo_installed = Inr demo_installed"
proof -
  have "config_ok demo_lib demo_edited" by (rule validated_ok [OF demo_unicode demo_edited_valid])
  moreover have "base_language ascii_tables (str ''it'') = Some (str ''it'')" "base_language ascii_tables (str ''es'') = Some (str ''es'')"
    "str ''it'' \<noteq> str ''es''" by code_simp+
  then have "pack_fits demo_pack demo_edited"
    using base_language_ok [OF ascii_tables_ok, of "str ''it''"] base_language_ok [OF ascii_tables_ok, of "str ''es''"]
    by (simp add: pack_fits_def demo_pack_def pair_ok_def)
  ultimately show ?thesis using fitting_pack_is_never_refused [OF demo_unicode] by (simp add: demo_installed_def)
qed

text \<open>
  \<open>SetVoice\<close> compares whole tags and the validation compares base languages: beside a regional voice of the operator the
  install of the language's pack is refused. The pack of the only voice can be installed but not retired.
\<close>

lemma regional_voice_blocks_install:
  "validate_config demo_lib (DefaultConfig\<lparr>cg_TTSVoices := [\<lparr>vm_Language = str ''en-GB'', vm_Voice = defaultTTSVoice\<rparr>]\<rparr>) =
     Inr (DefaultConfig\<lparr>cg_TTSVoices := [\<lparr>vm_Language = str ''en-GB'', vm_Voice = defaultTTSVoice\<rparr>]\<rparr>)"
  "validate_config demo_lib (extendConfigForPack (PackVoice (str ''en'') defaultTTSVoice)
     (DefaultConfig\<lparr>cg_TTSVoices := [\<lparr>vm_Language = str ''en-GB'', vm_Voice = defaultTTSVoice\<rparr>]\<rparr>)) = Inl (DuplicateVoice 1)"
  by code_simp+

lemma only_voice_cannot_be_retired:
  "validate_config demo_lib (retireConfigForPack (PackVoice langEnglish defaultTTSVoice)
     (DefaultConfig\<lparr>cg_TTSVoices := [\<lparr>vm_Language = langEnglish, vm_Voice = defaultTTSVoice\<rparr>]\<rparr>)) = Inl NoVoices"
  by code_simp

section \<open>The settings of the wire\<close>

lemma whole_seconds:
  assumes "ieee rnd" "0 \<le> s" "s \<le> 86400"
  shows "seconds_duration rnd (duration_seconds rnd (s * second)) = s * second"
proof -
  have i: "rnd (of_int n) = of_int n" if "0 \<le> n" "n \<le> 2 ^ 53" for n using assms(1) that by (simp add: ieee_def)
  have z: "rnd 0 = 0" "rnd (of_int s) = of_int s" "rnd (of_int (s * second)) = of_int (s * second)"
    using i [of 0] i [of s] i [of "s * second"] assms(2,3) by simp_all
  have "go_div (s * second) second = s" "go_mod (s * second) second = 0"
    using assms(2) by (cases "s = 0"; simp add: go_div_def go_mod_def sgn_if)+
  then have d: "duration_seconds rnd (s * second) = of_int s" by (simp add: duration_seconds_def z)
  have "of_int s * of_int second = (of_int (s * second) :: rat)" by (rule of_int_mult [symmetric])
  then have "rnd (of_int s * of_int second) = of_int (s * second)" using z(3) by (simp only:)
  moreover have "trunc_rat (of_int (s * second)) = s * second" unfolding trunc_rat_def by (simp only: floor_of_int ceiling_of_int if_cancel)
  ultimately show ?thesis unfolding seconds_duration_def d by (simp only:)
qed

text \<open>Settings that are fetched and submitted unchanged change nothing of a configuration whose delay is a
  whole number of seconds.\<close>

lemma fetched_settings_change_nothing:
  assumes "ieee rnd" and "cg_Delay c = s * second" and "0 \<le> s" and "s \<le> 86400"
  shows "applyProto rnd (toProto rnd c) c = c"
proof -
  have "map (\<lambda>p. \<lparr>tp_From = tp_From p, tp_To = tp_To p\<rparr>) ps = ps" for ps by (induction ps) (auto intro: TranslationPair.equality)
  then have p: "translationPairsFromProto (translationConfigToProto (cg_Pairs c)) = cg_Pairs c"
    by (simp add: translationPairsFromProto_def translationConfigToProto_def comp_def)
  have d: "seconds_duration rnd (duration_seconds rnd (cg_Delay c)) = cg_Delay c" using whole_seconds [OF assms(1,3,4)] assms(2) by simp
  show ?thesis
    by (rule Config.equality) (simp_all add: applyProto_def toProto_def applyProviders_def applyDefaults_def Let_def p d)
qed

lemma fetched_settings_change_nothing_witness: "applyProto (\<lambda>x. x) (toProto (\<lambda>x. x) DefaultConfig) DefaultConfig = DefaultConfig"
  using fetched_settings_change_nothing [OF ieee_id, of DefaultConfig 8] by (simp add: DefaultConfig_def)

text \<open>
  Rounding to 53 bits, ties to even, of the positive normal values below \<open>2 ^ 53\<close>. The conversion back to a duration truncates,
  so a delay of 1.001 seconds that is fetched and submitted comes back a nanosecond short.
\<close>

definition half_even :: "rat \<Rightarrow> int" where
  "half_even x = (let n = \<lfloor>x\<rfloor>; r = x - of_int n in if r < 1 / 2 \<or> r = 1 / 2 \<and> even n then n else n + 1)"

definition round53 :: "rat \<Rightarrow> rat" where
  "round53 x = (case find (\<lambda>k. 2 ^ 52 \<le> x * 2 ^ k) [0..<100] of None \<Rightarrow> 0 | Some k \<Rightarrow> of_int (half_even (x * 2 ^ k)) / 2 ^ k)"

lemma settings_lose_a_nanosecond: "seconds_duration round53 (duration_seconds round53 1001000000) = 1000999999"
  by code_simp

end
