(* ===== verification/Routing.thy ===== *)
theory Routing
  imports Helpers DaemonConfig NativeStt Lane
begin

text \<open>
  \<^verbatim>\<open>internal/providers/pivot/\<close>, \<^verbatim>\<open>bounded/\<close> and the capability, provider and warm-up code of \<^verbatim>\<open>internal/lane/\<close>: which
  languages a session may ask for, over which models a translation runs, which of them are loaded before the lane
  starts, and the wrapper that runs the calls of a lane on the shared pool. What a provider answers is an argument.
\<close>

section \<open>The pivot\<close>

definition English :: lang where "English = str ''en''"

text \<open>A translator whose models can be loaded ahead.\<close>

record 'e warmable =
  wa_supports :: "lang \<Rightarrow> lang \<Rightarrow> bool"
  wa_translate :: "Segment \<Rightarrow> lang \<Rightarrow> 'e + gostr"
  wa_warm :: "lang \<Rightarrow> lang \<Rightarrow> 'e option"

definition pivot_Supported :: "unicode \<Rightarrow> (lang \<Rightarrow> lang \<Rightarrow> bool) \<Rightarrow> lang \<Rightarrow> lang \<Rightarrow> lang \<Rightarrow> bool" where
  "pivot_Supported u direct hub f t =
     (if SameLang u f t then True
      else if direct f t then True
      else if SameLang u f hub \<or> SameLang u t hub then False
      else direct f hub \<and> direct hub t)"

definition pivot_Supports :: "unicode \<Rightarrow> 'e warmable \<Rightarrow> lang \<Rightarrow> lang \<Rightarrow> lang \<Rightarrow> bool" where
  "pivot_Supports u inner hub f t = pivot_Supported u (wa_supports inner) hub f t"

text \<open>The calls to the inner translator are kept with the result.\<close>

definition pivot_Translate :: "unicode \<Rightarrow> 'e warmable \<Rightarrow> lang \<Rightarrow> Segment \<Rightarrow> lang \<Rightarrow> ('e + gostr) \<times> (Segment \<times> lang) list" where
  "pivot_Translate u inner hub source target =
     (if SameLang u (SegLang source) target then (Inr (SegText source), [])
      else if wa_supports inner (SegLang source) target then (wa_translate inner source target, [(source, target)])
      else case wa_translate inner source hub of
        Inl e \<Rightarrow> (Inl e, [(source, hub)])
      | Inr mid \<Rightarrow>
          let leg = \<lparr>SegText = mid, SegLang = hub, SpanFrom = SpanFrom source, SpanTo = SpanTo source\<rparr>
          in (wa_translate inner leg target, [(source, hub), (leg, target)]))"

definition pivot_Warm :: "unicode \<Rightarrow> 'e warmable \<Rightarrow> lang \<Rightarrow> lang \<Rightarrow> lang \<Rightarrow> 'e option \<times> (lang \<times> lang) list" where
  "pivot_Warm u inner hub f t =
     (if SameLang u f t then (None, [])
      else if wa_supports inner f t then (wa_warm inner f t, [(f, t)])
      else case wa_warm inner f hub of
        Some e \<Rightarrow> (Some e, [(f, hub)])
      | None \<Rightarrow> (wa_warm inner hub t, [(f, hub), (hub, t)]))"

section \<open>Admission and the providers of a lane\<close>

definition configuredVoices :: "Config \<Rightarrow> Voice list" where
  "configuredVoices cfg = map (\<lambda>m. \<lparr>VID = vm_Voice m, VLang = vm_Language m\<rparr>) (cg_TTSVoices cfg)"

definition voiceForTarget :: "unicode \<Rightarrow> Voice list \<Rightarrow> lang \<Rightarrow> Voice option" where
  "voiceForTarget u voices target = find (\<lambda>v. Supports u v target) voices"

definition supportedWarmVoices :: "unicode \<Rightarrow> Session \<Rightarrow> Voice list \<Rightarrow> lang list" where
  "supportedWarmVoices u s voices = filter (\<lambda>target. voiceForTarget u voices target \<noteq> None) (DubbedLangs s)"

definition lane_DubbedLanguages :: "unicode \<Rightarrow> Config \<Rightarrow> Session \<Rightarrow> lang list" where
  "lane_DubbedLanguages u cfg s = (if cg_Voices cfg = VoicesOff then [] else supportedWarmVoices u s (configuredVoices cfg))"

definition SessionCapability :: "unicode \<Rightarrow> Config \<Rightarrow> Session \<Rightarrow> (lang \<times> lang) option" where
  "SessionCapability u cfg s =
     (let source = s_SourceLang s;
          direct = (\<lambda>f t. \<lparr>tp_From = f, tp_To = t\<rparr> \<in> set (cg_Pairs cfg))
      in if source = LangAuto then None
         else map_option (\<lambda>target. (source, target))
           (find (\<lambda>target. Base source \<noteq> Base target \<and> \<not> pivot_Supported u direct English (Base source) (Base target)) (s_Langs s)))"

definition newTranslator :: "Config \<Rightarrow> MT_pairs" where
  "newTranslator cfg = NewMT (Some (map (\<lambda>p. (tp_From p, tp_To p)) (cg_Pairs cfg)))"

definition sttModel :: "LocalSTT \<Rightarrow> gostr \<Rightarrow> gostr" where
  "sttModel stt profile = (if profile = ProfileCall then ModelForCall stt else ls_Model stt)"

definition sttThreads :: "int \<Rightarrow> int \<Rightarrow> gostr \<Rightarrow> int" where
  "sttThreads cpus maxLanes profile =
     (if profile = ProfileCall then min 8 (max 1 (go_div cpus (max 1 (go_div (maxLanes + 1) 2))))
      else min 8 (max 1 (go_div cpus (max 1 maxLanes))))"

definition sttTuning :: "gostr \<Rightarrow> STTTuning \<times> bool" where
  "sttTuning profile =
     (if profile \<noteq> ProfileCall then (\<lparr>SilenceHang = 0, MaxWindow = 0, MinSpeech = 0\<rparr>, False)
      else (\<lparr>SilenceHang = 300 * millisecond, MaxWindow = 5 * second, MinSpeech = 250 * millisecond\<rparr>, True))"

definition newTranscriber :: "int \<Rightarrow> Config \<Rightarrow> gostr \<Rightarrow> STTConfig" where
  "newTranscriber cpus cfg profile =
     \<lparr>cf_model = sttModel (cg_STT cfg) profile, cf_tuning = fst (sttTuning profile), cf_rate = SampleRate,
      cf_threads = sttThreads cpus (dl_MaxLanes (cg_Dispatch cfg)) profile, cf_fastDecode = snd (sttTuning profile)\<rparr>"

section \<open>Warming\<close>

fun mt_routes :: "lang \<Rightarrow> lang list \<Rightarrow> (lang \<times> lang) list \<Rightarrow> (lang \<times> lang) list" where
  "mt_routes source [] seen = []"
| "mt_routes source (target # targets) seen =
     (let f = Base source; t = Base target
      in if f = t \<or> (f, t) \<in> set seen then mt_routes source targets seen
         else (f, t) # mt_routes source targets ((f, t) # seen))"

definition mtWarmTasks :: "Session \<Rightarrow> (lang \<times> lang) list" where
  "mtWarmTasks s = (if s_SourceLang s = LangAuto then [] else mt_routes (s_SourceLang s) (s_Langs s) [])"

fun voice_tasks :: "unicode \<Rightarrow> Voice list \<Rightarrow> lang list \<Rightarrow> gostr list \<Rightarrow> (lang \<times> Voice) list" where
  "voice_tasks u voices [] seen = []"
| "voice_tasks u voices (target # targets) seen =
     (case voiceForTarget u voices target of
        None \<Rightarrow> voice_tasks u voices targets seen
      | Some v \<Rightarrow>
          if VID v \<in> set seen then voice_tasks u voices targets seen
          else (target, v) # voice_tasks u voices targets (VID v # seen))"

definition ttsWarmTasks :: "unicode \<Rightarrow> bool \<Rightarrow> Session \<Rightarrow> Voice list \<Rightarrow> (lang \<times> Voice) list" where
  "ttsWarmTasks u synth s voices = (if \<not> synth then [] else voice_tasks u voices (supportedWarmVoices u s voices) [])"

text \<open>What the warm tasks of translation load, one after another or at once.\<close>

definition warmed_models :: "unicode \<Rightarrow> 'e warmable \<Rightarrow> lang \<Rightarrow> Session \<Rightarrow> (lang \<times> lang) set" where
  "warmed_models u inner hub s = (\<Union>r \<in> set (mtWarmTasks s). set (map (\<lambda>(f, t). basePair f t) (snd (pivot_Warm u inner hub (fst r) (snd r)))))"

section \<open>Routes\<close>

lemma Base_idem [simp]: "Base (Base l) = Base l"
proof -
  have d: "str ''-'' = [45]" by (simp add: str_def)
  show ?thesis
    by (rule str_cut_cases [of l 45]) (simp_all add: Base_def d str_cut_none)
qed

lemma SameLang_Base [simp]: "SameLang u (Base a) b = SameLang u a b" "SameLang u a (Base b) = SameLang u a b"
  by (simp_all add: SameLang_def)

lemma English_Base [simp]: "Base English = English"
  by code_simp

lemma same_base_same_lang: "Base a = Base b \<Longrightarrow> SameLang u a b"
  by (simp add: SameLang_def)

lemma translator_supports:
  assumes "list_all pair_ok (cg_Pairs cfg)"
  shows "mt_supports (newTranslator cfg) f t \<longleftrightarrow> \<lparr>tp_From = Base f, tp_To = Base t\<rparr> \<in> set (cg_Pairs cfg)"
proof -
  have b: "p \<in> set (cg_Pairs cfg) \<Longrightarrow> Base (tp_From p) = tp_From p \<and> Base (tp_To p) = tp_To p" for p
    using assms by (simp add: list_all_iff pair_ok_def)
  have "(Base f, Base t) \<in> (\<lambda>p. (tp_From p, tp_To p)) ` set (cg_Pairs cfg) \<longleftrightarrow> \<lparr>tp_From = Base f, tp_To = Base t\<rparr> \<in> set (cg_Pairs cfg)"
  proof
    assume "(Base f, Base t) \<in> (\<lambda>p. (tp_From p, tp_To p)) ` set (cg_Pairs cfg)"
    then obtain p where p: "p \<in> set (cg_Pairs cfg)" "tp_From p = Base f" "tp_To p = Base t" by auto
    have "p = \<lparr>tp_From = Base f, tp_To = Base t\<rparr>" using p(2,3) by (cases p) simp
    then show "\<lparr>tp_From = Base f, tp_To = Base t\<rparr> \<in> set (cg_Pairs cfg)" using p(1) by simp
  qed force
  moreover have "set (mt_pairs (newTranslator cfg)) = (\<lambda>p. (tp_From p, tp_To p)) ` set (cg_Pairs cfg)"
    using b by (force simp: newTranslator_def NewMT_def basePair_def)
  ultimately show ?thesis by (simp add: mt_supports_def newTranslator_def NewMT_def basePair_def)
qed

lemma capability_by_target:
  assumes "s_SourceLang s \<noteq> LangAuto" and "list_all pair_ok (cg_Pairs cfg)"
  shows "SessionCapability u cfg s = None \<longleftrightarrow>
    (\<forall>t \<in> set (s_Langs s). pivot_Supported u (mt_supports (newTranslator cfg)) English (s_SourceLang s) t)"
proof -
  have "pivot_Supported u (\<lambda>f t. \<lparr>tp_From = f, tp_To = t\<rparr> \<in> set (cg_Pairs cfg)) English (Base f) (Base t) =
      pivot_Supported u (mt_supports (newTranslator cfg)) English f t" for f t
    by (simp add: pivot_Supported_def translator_supports [OF assms(2)])
  moreover have "Base f = Base t \<Longrightarrow> pivot_Supported u d English f t" for d f t
    by (simp add: pivot_Supported_def same_base_same_lang)
  ultimately show ?thesis using assms(1) by (auto simp: SessionCapability_def Let_def find_None_iff)
qed

lemma mt_routes_complete:
  "t \<in> set ts \<Longrightarrow> Base source \<noteq> Base t \<Longrightarrow> (Base source, Base t) \<in> set (mt_routes source ts seen) \<or> (Base source, Base t) \<in> set seen"
proof (induction ts arbitrary: seen)
  case (Cons a ts)
  show ?case
    using Cons.IH [of seen] Cons.IH [of "(Base source, Base a) # seen"] Cons.prems by (auto simp: Let_def)
qed simp

lemma warm_covers_translation:
  assumes "\<And>f t. wa_supports inner f t = wa_supports inner (Base f) (Base t)"
    and "s_SourceLang s \<noteq> LangAuto" and "target \<in> set (s_Langs s)" and "Base (SegLang seg) = Base (s_SourceLang s)"
    and "\<And>r. r \<in> set (mtWarmTasks s) \<Longrightarrow> fst (pivot_Warm u inner hub (fst r) (snd r)) = None"
    and "(g, t) \<in> set (snd (pivot_Translate u inner hub seg target))"
  shows "basePair (SegLang g) t \<in> warmed_models u inner hub s"
proof -
  let ?f = "Base (s_SourceLang s)" and ?t = "Base target"
  have n: "\<not> SameLang u (SegLang seg) target" using assms(6) by (auto simp: pivot_Translate_def)
  then have d: "?f \<noteq> ?t" using same_base_same_lang assms(4) by metis
  have r: "(?f, ?t) \<in> set (mtWarmTasks s)" using mt_routes_complete [OF assms(3) d, of "[]"] assms(2) by (simp add: mtWarmTasks_def)
  have n': "\<not> SameLang u ?f ?t" using n assms(4) by (simp add: SameLang_def)
  have s: "wa_supports inner (SegLang seg) target = wa_supports inner ?f ?t" using assms(1) [of "SegLang seg" target] assms(4) by simp
  have w: "set (map (\<lambda>(f, t). basePair f t) (snd (pivot_Warm u inner hub ?f ?t))) \<subseteq> warmed_models u inner hub s"
    using r unfolding warmed_models_def by force
  have ok: "fst (pivot_Warm u inner hub ?f ?t) = None" using assms(5) [OF r] by simp
  show ?thesis
  proof (cases "wa_supports inner ?f ?t")
    case True
    then have "g = seg" "t = target" using assms(6) n s by (simp_all add: pivot_Translate_def)
    then show ?thesis using w True n' assms(4) by (simp add: pivot_Warm_def basePair_def)
  next
    case False
    have "wa_warm inner ?f hub = None" using ok False n' by (simp add: pivot_Warm_def split: option.splits)
    then have w2: "{(?f, Base hub), (Base hub, ?t)} \<subseteq> warmed_models u inner hub s" using w False n' by (simp add: pivot_Warm_def basePair_def)
    have "basePair (SegLang g) t \<in> {(?f, Base hub), (Base hub, ?t)}" using assms(6) n s False assms(4)
      by (auto simp: pivot_Translate_def basePair_def Let_def split: sum.splits)
    then show ?thesis using w2 by blast
  qed
qed

lemma translate_uses_supported:
  assumes "pivot_Supports u inner hub (SegLang seg) target" and "(g, t) \<in> set (snd (pivot_Translate u inner hub seg target))"
  shows "wa_supports inner (SegLang g) t"
  using assms by (auto simp: pivot_Supports_def pivot_Supported_def pivot_Translate_def Let_def split: if_splits sum.splits)

lemma translate_calls: "length (snd (pivot_Translate u inner hub seg target)) \<le> 2"
  by (simp add: pivot_Translate_def Let_def split: sum.splits)

lemma sttThreads_bounds:
  assumes "0 < cpus" "0 < maxLanes"
  shows "1 \<le> sttThreads cpus maxLanes p \<and> sttThreads cpus maxLanes p \<le> 8 \<and>
    (p \<noteq> ProfileCall \<and> 1 < sttThreads cpus maxLanes p \<longrightarrow> sttThreads cpus maxLanes p * maxLanes \<le> cpus)"
proof -
  have q: "go_div cpus m * m \<le> cpus \<and> 0 \<le> go_div cpus m" if "0 < m" for m
  proof -
    have "cpus div m * m = cpus - cpus mod m" by (rule minus_mod_eq_div_mult [symmetric])
    moreover have "0 \<le> cpus mod m" "0 \<le> cpus div m" using assms(1) that by (simp_all add: pos_imp_zdiv_nonneg_iff)
    ultimately show ?thesis using assms(1) that by (simp add: go_div_def)
  qed
  have "min 8 (max 1 (go_div cpus maxLanes)) * maxLanes \<le> cpus" if "1 < min 8 (max 1 (go_div cpus maxLanes))"
  proof -
    have "min 8 (max 1 (go_div cpus maxLanes)) \<le> go_div cpus maxLanes" using that by linarith
    then have "min 8 (max 1 (go_div cpus maxLanes)) * maxLanes \<le> go_div cpus maxLanes * maxLanes" using assms(2) by (intro mult_right_mono) auto
    then show ?thesis using q [OF assms(2)] by linarith
  qed
  then show ?thesis using assms by (simp add: sttThreads_def)
qed

lemma voice_tasks_complete:
  "t \<in> set ts \<Longrightarrow> voiceForTarget u voices t = Some v \<Longrightarrow> VID v \<in> set (map (VID \<circ> snd) (voice_tasks u voices ts seen)) \<union> set seen"
proof (induction ts arbitrary: seen)
  case (Cons a ts)
  show ?case
  proof (cases "voiceForTarget u voices a")
    case None
    then show ?thesis using Cons by auto
  next
    case (Some x)
    then show ?thesis using Cons.IH [of seen] Cons.IH [of "VID x # seen"] Cons.prems by auto
  qed
qed simp

lemma dubbed_voice_is_warmed:
  assumes "t \<in> set (lane_DubbedLanguages u cfg s)"
  obtains v where "voiceForTarget u (configuredVoices cfg) t = Some v"
    "VID v \<in> set (map (VID \<circ> snd) (ttsWarmTasks u True s (configuredVoices cfg)))"
proof -
  obtain v where v: "voiceForTarget u (configuredVoices cfg) t = Some v"
    using assms by (auto simp: lane_DubbedLanguages_def supportedWarmVoices_def split: if_splits)
  have "t \<in> set (supportedWarmVoices u s (configuredVoices cfg))" using assms by (auto simp: lane_DubbedLanguages_def split: if_splits)
  from voice_tasks_complete [OF this v, of "[]"] show thesis using that v by (simp add: ttsWarmTasks_def)
qed

section \<open>The bounded provider\<close>

text \<open>
  A call is added to the wait group under the mutex, handed to the pool, runs inside the provider and leaves. \<open>lc_tasks\<close>
  is the wait group; a release marks the provider closed, closes it and waits. Which calls the pool takes and when
  they run are steps.
\<close>

datatype job_stage = JobIdle | JobAdded | JobQueued | JobInside | JobDone | JobRefused
datatype release_stage = Open | Marked | NextClosed | Released

record lifecycle =
  lc_closed :: bool
  lc_tasks :: nat
  lc_jobs :: "nat \<Rightarrow> job_stage"
  lc_release :: release_stage

definition newLifecycle :: lifecycle where
  "newLifecycle = \<lparr>lc_closed = False, lc_tasks = 0, lc_jobs = (\<lambda>_. JobIdle), lc_release = Open\<rparr>"

abbreviation job_to :: "nat \<Rightarrow> job_stage \<Rightarrow> lifecycle \<Rightarrow> lifecycle" where
  "job_to i j l \<equiv> l\<lparr>lc_jobs := (lc_jobs l)(i := j)\<rparr>"

inductive life_step :: "lifecycle \<Rightarrow> lifecycle \<Rightarrow> bool" where
  adds: "lc_jobs l i = JobIdle \<Longrightarrow> \<not> lc_closed l \<Longrightarrow> life_step l (job_to i JobAdded (l\<lparr>lc_tasks := Suc (lc_tasks l)\<rparr>))"
| refuses: "lc_jobs l i = JobIdle \<Longrightarrow> lc_closed l \<Longrightarrow> life_step l (job_to i JobRefused l)"
| accepted: "lc_jobs l i = JobAdded \<Longrightarrow> life_step l (job_to i JobQueued l)"
| rejected: "lc_jobs l i = JobAdded \<Longrightarrow> life_step l (job_to i JobRefused (l\<lparr>lc_tasks := lc_tasks l - 1\<rparr>))"
| enters: "lc_jobs l i = JobQueued \<Longrightarrow> life_step l (job_to i JobInside l)"
| leaves: "lc_jobs l i = JobInside \<Longrightarrow> life_step l (job_to i JobDone (l\<lparr>lc_tasks := lc_tasks l - 1\<rparr>))"
| marks: "lc_release l = Open \<Longrightarrow> life_step l (l\<lparr>lc_closed := True, lc_release := Marked\<rparr>)"
| closes_next: "lc_release l = Marked \<Longrightarrow> life_step l (l\<lparr>lc_release := NextClosed\<rparr>)"
| drained: "lc_release l = NextClosed \<Longrightarrow> lc_tasks l = 0 \<Longrightarrow> life_step l (l\<lparr>lc_release := Released\<rparr>)"

definition life_reach :: "lifecycle \<Rightarrow> bool" where
  "life_reach = life_step\<^sup>*\<^sup>* newLifecycle"

definition active_jobs :: "lifecycle \<Rightarrow> nat set" where
  "active_jobs l = {i. lc_jobs l i \<in> {JobAdded, JobQueued, JobInside}}"

definition life_inv :: "lifecycle \<Rightarrow> bool" where
  "life_inv l \<longleftrightarrow> finite (active_jobs l) \<and> card (active_jobs l) = lc_tasks l \<and> (lc_closed l \<longleftrightarrow> lc_release l \<noteq> Open) \<and>
     (lc_release l = Released \<longrightarrow> lc_tasks l = 0)"

lemma active_update [simp]: "active_jobs (l\<lparr>lc_tasks := n\<rparr>) = active_jobs l" "active_jobs (l\<lparr>lc_closed := b\<rparr>) = active_jobs l"
  "active_jobs (l\<lparr>lc_release := r\<rparr>) = active_jobs l"
  by (simp_all add: active_jobs_def)

lemma life_step_inv:
  assumes "life_step l l'" "life_inv l"
  shows "life_inv l'"
  using assms(1)
proof cases
  case (adds i)
  then have "i \<notin> active_jobs l" by (simp add: active_jobs_def)
  then have "card (insert i (active_jobs l)) = Suc (lc_tasks l)" using assms(2) by (simp add: life_inv_def)
  moreover have "active_jobs l' = insert i (active_jobs l)" using adds(1) by (auto simp: active_jobs_def)
  ultimately have "active_jobs l' = insert i (active_jobs l)" "card (insert i (active_jobs l)) = Suc (lc_tasks l)" by blast+
  then show ?thesis using adds assms(2) by (auto simp: life_inv_def)
next
  case (refuses i)
  then have "active_jobs l' = active_jobs l" by (auto simp: active_jobs_def)
  then show ?thesis using refuses assms(2) by (simp add: life_inv_def)
next
  case (accepted i)
  then have "active_jobs l' = active_jobs l" by (auto simp: active_jobs_def)
  then show ?thesis using accepted assms(2) by (simp add: life_inv_def)
next
  case (rejected i)
  then have "i \<in> active_jobs l" by (simp add: active_jobs_def)
  moreover have "active_jobs l' = active_jobs l - {i}" using rejected(1) by (auto simp: active_jobs_def)
  ultimately show ?thesis using rejected(1) assms(2) by (auto simp: life_inv_def)
next
  case (enters i)
  then have "active_jobs l' = active_jobs l" by (auto simp: active_jobs_def)
  then show ?thesis using enters assms(2) by (simp add: life_inv_def)
next
  case (leaves i)
  then have "i \<in> active_jobs l" by (simp add: active_jobs_def)
  moreover have "active_jobs l' = active_jobs l - {i}" using leaves(1) by (auto simp: active_jobs_def)
  ultimately show ?thesis using leaves(1) assms(2) by (auto simp: life_inv_def)
qed (use assms(2) in \<open>simp_all add: life_inv_def\<close>)

lemma life_reach_inv: "life_reach l \<Longrightarrow> life_inv l"
  unfolding life_reach_def
proof (induction rule: rtranclp_induct)
  case base
  show ?case by (simp add: life_inv_def newLifecycle_def active_jobs_def)
qed (rule life_step_inv)

text \<open>\<open>Speak\<close> forwards the provider's stream; both ends are unbuffered, a cancellation ends it between two chunks or with one in hand.\<close>

datatype forward_end = Complete | Canceled

record 'c forwarding =
  fw_in :: "'c list"
  fw_held :: "'c option"
  fw_out :: "'c list"
  fw_end :: "forward_end option"

inductive forward_step :: "'c forwarding \<Rightarrow> 'c forwarding \<Rightarrow> bool" where
  receives: "fw_end w = None \<Longrightarrow> fw_held w = None \<Longrightarrow> fw_in w = c # cs \<Longrightarrow> forward_step w (w\<lparr>fw_in := cs, fw_held := Some c\<rparr>)"
| delivers: "fw_end w = None \<Longrightarrow> fw_held w = Some c \<Longrightarrow> forward_step w (w\<lparr>fw_held := None, fw_out := fw_out w @ [c]\<rparr>)"
| ends: "fw_end w = None \<Longrightarrow> fw_held w = None \<Longrightarrow> fw_in w = [] \<Longrightarrow> forward_step w (w\<lparr>fw_end := Some Complete\<rparr>)"
| cancels: "fw_end w = None \<Longrightarrow> forward_step w (w\<lparr>fw_end := Some Canceled\<rparr>)"

definition forward_start :: "'c list \<Rightarrow> 'c forwarding" where
  "forward_start cs = \<lparr>fw_in = cs, fw_held = None, fw_out = [], fw_end = None\<rparr>"

lemma forward_keeps:
  "forward_step\<^sup>*\<^sup>* (forward_start cs) w \<Longrightarrow>
   fw_out w @ (case fw_held w of None \<Rightarrow> [] | Some c \<Rightarrow> [c]) @ fw_in w = cs \<and> (fw_end w = Some Complete \<longrightarrow> fw_out w = cs)"
proof (induction rule: rtranclp_induct)
  case base
  show ?case by (simp add: forward_start_def)
next
  case (step w w')
  from step.hyps(2) show ?case using step.IH by cases auto
qed

section \<open>Properties\<close>


text \<open>A bundle with a hub: models between English and Italian and from English to German.\<close>

definition demo_bundle :: Config where
  "demo_bundle = DefaultConfig\<lparr>cg_Pairs := [\<lparr>tp_From = str ''it'', tp_To = str ''en''\<rparr>, \<lparr>tp_From = str ''en'', tp_To = str ''de''\<rparr>]\<rparr>"

definition demo_talk :: Session where
  "demo_talk = demo_session\<lparr>s_SourceLang := str ''it-IT'', s_Langs := [str ''de-CH'', str ''it'']\<rparr>"

definition demo_models :: "nat warmable" where
  "demo_models = \<lparr>wa_supports = mt_supports (newTranslator demo_bundle),
     wa_translate = (\<lambda>s t. if mt_supports (newTranslator demo_bundle) (SegLang s) t then Inr (SegText s @ t) else Inl 1),
     wa_warm = (\<lambda>f t. if mt_supports (newTranslator demo_bundle) f t then None else Some 1)\<rparr>"

lemma demo_pairs_ok: "list_all pair_ok (cg_Pairs demo_bundle)"
proof -
  have "base_language ascii_tables (str ''it'') = Some (str ''it'')" "base_language ascii_tables (str ''en'') = Some (str ''en'')"
    "base_language ascii_tables (str ''de'') = Some (str ''de'')" "str ''it'' \<noteq> str ''en''" "str ''en'' \<noteq> str ''de''" by code_simp+
  then show ?thesis
    using base_language_ok [OF ascii_tables_ok, of "str ''it''"] base_language_ok [OF ascii_tables_ok, of "str ''en''"]
      base_language_ok [OF ascii_tables_ok, of "str ''de''"]
    by (simp add: demo_bundle_def pair_ok_def)
qed

lemma demo_source: "s_SourceLang demo_talk \<noteq> LangAuto"
  by code_simp


text \<open>C30: once the warm-up of an admitted session has succeeded, every model a translation of its source asks for is
  installed and already loaded, on a direct route and on both legs of a bridged one, and there are at most two.\<close>

theorem translation_finds_its_models_loaded:
  assumes "\<And>f t. wa_supports inner f t = wa_supports inner (Base f) (Base t)"
    and "s_SourceLang s \<noteq> LangAuto" and "target \<in> set (s_Langs s)" and "pivot_Supports u inner hub (SegLang seg) target"
    and "Base (SegLang seg) = Base (s_SourceLang s)"
    and "\<And>r. r \<in> set (mtWarmTasks s) \<Longrightarrow> fst (pivot_Warm u inner hub (fst r) (snd r)) = None"
  shows "list_all (\<lambda>(g, t). wa_supports inner (SegLang g) t \<and> basePair (SegLang g) t \<in> warmed_models u inner hub s)
           (snd (pivot_Translate u inner hub seg target)) \<and>
         length (snd (pivot_Translate u inner hub seg target)) \<le> 2"
  using warm_covers_translation [OF assms(1,2,3,5,6)] translate_uses_supported [OF assms(4)] translate_calls
  by (auto simp: list_all_iff)

definition demo_words :: Segment where
  "demo_words = \<lparr>SegText = str ''ciao'', SegLang = str ''it'', SpanFrom = 0, SpanTo = second\<rparr>"

theorem translation_finds_its_models_loaded_witness:
  "fst (pivot_Translate ascii_tables demo_models English demo_words (str ''de-CH'')) = Inr (str ''ciaoende-CH'') \<and>
   length (snd (pivot_Translate ascii_tables demo_models English demo_words (str ''de-CH''))) \<le> 2"
proof -
  have b: "wa_supports demo_models f t = wa_supports demo_models (Base f) (Base t)" for f t
    using supports_by_base [of f "Base f" t "Base t"] by (simp add: demo_models_def)
  have p: "str ''de-CH'' \<in> set (s_Langs demo_talk)" "pivot_Supports ascii_tables demo_models English (SegLang demo_words) (str ''de-CH'')"
    "Base (SegLang demo_words) = Base (s_SourceLang demo_talk)" by code_simp+
  have "list_all (\<lambda>r. fst (pivot_Warm ascii_tables demo_models English (fst r) (snd r)) = None) (mtWarmTasks demo_talk)" by code_simp
  then have w: "r \<in> set (mtWarmTasks demo_talk) \<Longrightarrow> fst (pivot_Warm ascii_tables demo_models English (fst r) (snd r)) = None" for r
    by (simp add: list_all_iff)
  have "length (snd (pivot_Translate ascii_tables demo_models English demo_words (str ''de-CH''))) \<le> 2"
    using translation_finds_its_models_loaded [OF b demo_source p w] by blast
  moreover have "fst (pivot_Translate ascii_tables demo_models English demo_words (str ''de-CH'')) = Inr (str ''ciaoende-CH'')" by code_simp
  ultimately show ?thesis by blast
qed

text \<open>When the release of a bounded provider has returned, no call is waiting in the pool or running inside the
  provider, under every interleaving, and none will ever be again.\<close>

lemma release_waits_for_every_call:
  assumes "life_reach l" and "lc_release l = Released" and "life_step\<^sup>*\<^sup>* l l'"
  shows "lc_jobs l' i \<notin> {JobAdded, JobQueued, JobInside}"
proof -
  have "lc_release l' = Released" using assms(3,2)
  proof (induction rule: rtranclp_induct)
    case (step y z)
    from step.hyps(2) show ?case using step.IH step.prems by cases auto
  qed
  moreover have "life_reach l'" using assms(1,3) unfolding life_reach_def by (rule rtranclp_trans)
  then have "life_inv l'" by (rule life_reach_inv)
  ultimately have "finite (active_jobs l')" "card (active_jobs l') = 0" by (auto simp: life_inv_def)
  then have "active_jobs l' = {}" by simp
  then show ?thesis by (auto simp: active_jobs_def)
qed

lemma release_waits_for_every_call_witness:
  "\<exists>l. life_reach l \<and> lc_release l = Released \<and> lc_jobs l 0 = JobDone \<and> lc_jobs l 1 \<notin> {JobAdded, JobQueued, JobInside}"
proof -
  let ?l0 = newLifecycle
  let ?l1 = "job_to 0 JobAdded (?l0\<lparr>lc_tasks := Suc (lc_tasks ?l0)\<rparr>)"
  let ?l2 = "job_to 0 JobQueued ?l1"
  let ?l3 = "?l2\<lparr>lc_closed := True, lc_release := Marked\<rparr>"
  let ?l4 = "job_to 0 JobInside ?l3"
  let ?l5 = "?l4\<lparr>lc_release := NextClosed\<rparr>"
  let ?l6 = "job_to 0 JobDone (?l5\<lparr>lc_tasks := lc_tasks ?l5 - 1\<rparr>)"
  let ?l7 = "?l6\<lparr>lc_release := Released\<rparr>"
  have "life_step ?l0 ?l1" by (rule life_step.adds) (simp_all add: newLifecycle_def)
  moreover have "life_step ?l1 ?l2" by (rule life_step.accepted) simp
  moreover have "life_step ?l2 ?l3" by (rule life_step.marks) (simp add: newLifecycle_def)
  moreover have "life_step ?l3 ?l4" by (rule life_step.enters) simp
  moreover have "life_step ?l4 ?l5" by (rule life_step.closes_next) simp
  moreover have "life_step ?l5 ?l6" by (rule life_step.leaves) simp
  moreover have "life_step ?l6 ?l7" by (rule life_step.drained) (simp_all add: newLifecycle_def)
  ultimately have r: "life_reach ?l7" unfolding life_reach_def by (meson rtranclp.rtrancl_into_rtrancl rtranclp.rtrancl_refl)
  have "lc_jobs ?l7 1 \<notin> {JobAdded, JobQueued, JobInside}" by (rule release_waits_for_every_call [OF r]) simp_all
  then show ?thesis using r by (intro exI [of _ ?l7]) simp
qed

end
