(* ===== verification/Wav.thy ===== *)
theory Wav
  imports Pcm Floats "HOL-Library.Sublist"
begin

text \<open>
  \<^verbatim>\<open>internal/speechengine/wav.go\<close> and \<^verbatim>\<open>internal/media/ingest/file/\<close>: the WAV container the engine writes for whisper and
  reads from piper, the resampler between their rates, the inspection of a WAV source and the reader that plays it.
  Fields of 16 and 32 bits are naturals below their width; writing one wraps. \<open>math.Sin\<close> and \<open>math.Cos\<close> are arguments.
\<close>

section \<open>Bytes\<close>

definition ascii :: "gostr \<Rightarrow> byte list" where "ascii s = map word_of_int s"

definition get16 :: "byte list \<Rightarrow> nat \<Rightarrow> nat" where
  "get16 bs i = unat (bs ! i) + 256 * unat (bs ! (i + 1))"

definition get32 :: "byte list \<Rightarrow> nat \<Rightarrow> nat" where
  "get32 bs i = get16 bs i + 65536 * get16 bs (i + 2)"

definition put16 :: "nat \<Rightarrow> byte list" where
  "put16 n = [word_of_nat n, word_of_nat (n div 256)]"

definition put32 :: "nat \<Rightarrow> byte list" where
  "put32 n = put16 n @ put16 (n div 65536)"

definition subslice :: "byte list \<Rightarrow> nat \<Rightarrow> nat \<Rightarrow> byte list" where
  "subslice bs a b = take (b - a) (drop a bs)"

section \<open>The engine's container\<close>

datatype wav_error =
    IncompleteWAV | BadSignature | SizeMismatch nat nat | TooLarge | TruncatedHeader | MissingPadding | DuplicateFmt
  | ShortFmt | WantPCM | DuplicateData | EmptyData | MissingChunks | OddData | WavIO

definition checkRIFFEnvelope :: "byte list \<Rightarrow> nat \<Rightarrow> wav_error option" where
  "checkRIFFEnvelope header totalSize =
     (if subslice header 0 4 \<noteq> ascii (str ''RIFF'') \<or> subslice header 8 12 \<noteq> ascii (str ''WAVE'') then Some BadSignature
      else
        let wantSize = get32 header 4 + 8
        in if wantSize > totalSize then Some IncompleteWAV
           else if wantSize \<noteq> totalSize then Some (SizeMismatch wantSize totalSize) else None)"

definition validatePCM16WAVEnvelope :: "byte list \<Rightarrow> wav_error option" where
  "validatePCM16WAVEnvelope raw =
     (if length raw < 12 then Some IncompleteWAV else checkRIFFEnvelope (take 12 raw) (length raw))"

definition readWAVChunk :: "byte list \<Rightarrow> nat \<Rightarrow> wav_error + byte list \<times> byte list \<times> nat" where
  "readWAVChunk raw offset =
     (if length raw - offset < 8 then Inl TruncatedHeader
      else
        let chunkSize = get32 raw (offset + 4);
            start = offset + 8;
            end_at = start + chunkSize;
            next_at = end_at + chunkSize mod 2
        in if chunkSize > length raw - start then Inl IncompleteWAV
           else if next_at > length raw then Inl MissingPadding
           else Inr (subslice raw offset (offset + 4), subslice raw start end_at, next_at))"

definition parsePCM16WAVFormat :: "byte list \<Rightarrow> wav_error + nat" where
  "parsePCM16WAVFormat chunk =
     (if length chunk < 16 then Inl ShortFmt
      else
        let format = get16 chunk 0; channels = get16 chunk 2; sampleRate = get32 chunk 4; byteRate = get32 chunk 8;
            blockAlign = get16 chunk 12; bits = get16 chunk 14
        in if format \<noteq> 1 \<or> channels \<noteq> 1 \<or> bits \<noteq> 16 \<or> blockAlign \<noteq> 2 \<or> sampleRate = 0 \<or> sampleRate > 384000 \<or>
              byteRate \<noteq> sampleRate * 2 then Inl WantPCM
           else Inr sampleRate)"

text \<open>A nil slice of data is \<open>None\<close>.\<close>

record pcm16WAVChunks =
  wc_data :: "byte list option"
  wc_rate :: nat
  wc_formatSeen :: bool

definition add_chunk :: "byte list \<Rightarrow> byte list \<Rightarrow> pcm16WAVChunks \<Rightarrow> wav_error + pcm16WAVChunks" where
  "add_chunk chunkID chunk c =
     (if chunkID = ascii (str ''fmt '') then
        if wc_formatSeen c then Inl DuplicateFmt
        else case parsePCM16WAVFormat chunk of
          Inl e \<Rightarrow> Inl e
        | Inr rate \<Rightarrow> Inr (c\<lparr>wc_rate := rate, wc_formatSeen := True\<rparr>)
      else if chunkID = ascii (str ''data'') then
        if wc_data c \<noteq> None then Inl DuplicateData
        else if chunk = [] then Inl EmptyData
        else Inr (c\<lparr>wc_data := Some chunk\<rparr>)
      else Inr c)"

definition chunks_result :: "pcm16WAVChunks \<Rightarrow> wav_error + byte list \<times> nat" where
  "chunks_result c =
     (case wc_data c of
        None \<Rightarrow> Inl MissingChunks
      | Some data \<Rightarrow> if \<not> wc_formatSeen c then Inl MissingChunks else Inr (data, wc_rate c))"

lemma readWAVChunk_moves: "readWAVChunk raw offset = Inr (cid, chunk, next_at) \<Longrightarrow> offset + 8 \<le> next_at \<and> next_at \<le> length raw"
  by (auto simp: readWAVChunk_def Let_def split: if_splits)

function scan_chunks :: "byte list \<Rightarrow> nat \<Rightarrow> pcm16WAVChunks \<Rightarrow> wav_error + byte list \<times> nat" where
  "scan_chunks raw offset c =
     (if offset < length raw then
        case readWAVChunk raw offset of
          Inl e \<Rightarrow> Inl e
        | Inr (chunkID, chunk, next_at) \<Rightarrow>
            (case add_chunk chunkID chunk c of Inl e \<Rightarrow> Inl e | Inr c' \<Rightarrow> scan_chunks raw next_at c')
      else chunks_result c)"
  by pat_completeness auto
termination
  by (relation "measure (\<lambda>(raw, offset, c). length raw - offset)") (auto dest: readWAVChunk_moves)

declare scan_chunks.simps [simp del]

definition scanPCM16WAVChunks :: "byte list \<Rightarrow> wav_error + byte list \<times> nat" where
  "scanPCM16WAVChunks raw = scan_chunks raw 12 \<lparr>wc_data = None, wc_rate = 0, wc_formatSeen = False\<rparr>"

definition bytesToInt16 :: "byte list \<Rightarrow> sample list" where
  "bytesToInt16 b = map (\<lambda>i. le16 (b ! (i * 2)) (b ! (i * 2 + 1))) [0..<length b div 2]"

definition int16ToBytes :: "sample list \<Rightarrow> byte list" where
  "int16ToBytes s = concat (map le_bytes16 s)"

definition decodePCM16WAV :: "byte list \<Rightarrow> wav_error + sample list \<times> nat" where
  "decodePCM16WAV raw =
     (case validatePCM16WAVEnvelope raw of
        Some e \<Rightarrow> Inl e
      | None \<Rightarrow> (case scanPCM16WAVChunks raw of
          Inl e \<Rightarrow> Inl e
        | Inr (data, rate) \<Rightarrow> if odd (length data) then Inl OddData else Inr (bytesToInt16 data, rate)))"

definition encodeWAV :: "sample list \<Rightarrow> nat \<Rightarrow> byte list" where
  "encodeWAV pcm rate =
     (let size = length pcm * 2
      in ascii (str ''RIFF'') @ put32 (36 + size) @ ascii (str ''WAVE'') @ ascii (str ''fmt '') @ put32 16 @ put16 1 @ put16 1 @
         put32 rate @ put32 (rate * 2) @ put16 2 @ put16 16 @ ascii (str ''data'') @ put32 size @ concat (map le_bytes16 pcm))"

text \<open>
  Another process may still be writing the file. \<open>wf_size\<close> is what \<open>Stat\<close> finds, \<open>wf_header\<close> and \<open>wf_rest\<close> what the two
  reads return; a missing file is \<open>None\<close>.
\<close>

definition ttsWAVMaxBytes :: nat where "ttsWAVMaxBytes = 67108864"

record wav_file =
  wf_size :: nat
  wf_header :: "byte list"
  wf_rest :: "byte list"

definition validatePCM16WAVFile :: "wav_file \<Rightarrow> wav_error option" where
  "validatePCM16WAVFile f =
     (if wf_size f < 12 then Some IncompleteWAV
      else if wf_size f > ttsWAVMaxBytes then Some TooLarge
      else if length (wf_header f) < 12 then Some IncompleteWAV
      else checkRIFFEnvelope (take 12 (wf_header f)) (wf_size f))"

definition readPCM16WAV :: "wav_file option \<Rightarrow> wav_error + sample list \<times> nat" where
  "readPCM16WAV f =
     (case f of
        None \<Rightarrow> Inl IncompleteWAV
      | Some w \<Rightarrow> (case validatePCM16WAVFile w of Some e \<Rightarrow> Inl e | None \<Rightarrow> decodePCM16WAV (wf_rest w)))"

text \<open>The polls with whether each came after the deadline; \<open>None\<close> is still polling when they are used up.\<close>

fun waitForPCM16WAV :: "(wav_file option \<times> bool) list \<Rightarrow> (wav_error + sample list \<times> nat) option" where
  "waitForPCM16WAV [] = None"
| "waitForPCM16WAV ((f, late) # polls) =
     (case readPCM16WAV f of
        Inr r \<Rightarrow> Some (Inr r)
      | Inl e \<Rightarrow> if e \<noteq> IncompleteWAV then Some (Inl e) else if late then Some (Inl IncompleteWAV) else waitForPCM16WAV polls)"

section \<open>The resampler\<close>

text \<open>What the floating point unit does to each result, and the functions of \<open>math\<close>.\<close>

record fpu =
  fp_rnd :: "rat \<Rightarrow> rat"
  fp_sin :: "rat \<Rightarrow> rat"
  fp_cos :: "rat \<Rightarrow> rat"
  fp_pi :: rat

definition resampleTaps :: nat where "resampleTaps = 63"
definition resampleCenter :: nat where "resampleCenter = (resampleTaps - 1) div 2"
definition resampleCutoff :: rat where "resampleCutoff = 45 / 100"

definition sinc_tap :: "fpu \<Rightarrow> rat \<Rightarrow> rat \<Rightarrow> nat \<Rightarrow> rat" where
  "sinc_tap p cutoff shift tap =
     (let r = fp_rnd p;
          offset = r (of_int (int tap - int resampleCenter) - shift);
          value0 = (if offset \<noteq> 0
                    then r (fp_sin p (r (r (2 * fp_pi p * cutoff) * offset)) / r (fp_pi p * offset))
                    else r (2 * cutoff));
          angle = r (r (2 * fp_pi p * offset) / of_nat (resampleTaps + 1))
      in r (value0 * r (r (42 / 100 + r (1 / 2 * fp_cos p angle)) + r (8 / 100 * fp_cos p (r (2 * angle))))))"

definition fillSincRow :: "fpu \<Rightarrow> rat \<Rightarrow> rat \<Rightarrow> rat list" where
  "fillSincRow p cutoff shift =
     (let row = map (sinc_tap p cutoff shift) [0..<resampleTaps];
          tot = fold (\<lambda>v s. fp_rnd p (s + v)) row 0
      in map (\<lambda>v. fp_rnd p (v / tot)) row)"

fun gcd_loop :: "nat \<Rightarrow> nat \<Rightarrow> nat" where
  "gcd_loop a b = (if b \<noteq> 0 then gcd_loop b (a mod b) else a)"

declare gcd_loop.simps [simp del]

record resampleKernel =
  rk_rows :: "rat list"
  rk_step :: nat
  rk_phases :: nat

definition newResampleKernel :: "fpu \<Rightarrow> nat \<Rightarrow> nat \<Rightarrow> resampleKernel" where
  "newResampleKernel p from_rate to_rate =
     (let divisor = gcd_loop from_rate to_rate;
          phases = to_rate div divisor;
          cutoff = fp_rnd p (resampleCutoff * min 1 (fp_rnd p (of_nat to_rate / of_nat from_rate)))
      in \<lparr>rk_rows = concat (map (\<lambda>phase. fillSincRow p cutoff (fp_rnd p (of_nat phase / of_nat phases))) [0..<phases]),
          rk_step = from_rate div divisor, rk_phases = phases\<rparr>)"

text \<open>\<open>math.Round\<close> rounds half away from zero.\<close>

definition math_Round :: "rat \<Rightarrow> int" where
  "math_Round x = (if 0 \<le> x then \<lfloor>x + 1 / 2\<rfloor> else - \<lfloor>1 / 2 - x\<rfloor>)"

definition clampSample :: "rat \<Rightarrow> sample" where
  "clampSample value =
     (let rounded = math_Round value
      in if rounded \<ge> 32767 then 32767 else if rounded \<le> - 32768 then - 32768 else word_of_int rounded)"

text \<open>A slice and an index of Go are checked: out of range is the panic \<open>None\<close>.\<close>

definition kernel_row :: "resampleKernel \<Rightarrow> nat \<Rightarrow> rat list option" where
  "kernel_row k phase = slice (rk_rows k) (phase * resampleTaps) ((phase + 1) * resampleTaps)"

definition held_index :: "nat \<Rightarrow> nat \<Rightarrow> nat \<Rightarrow> int" where
  "held_index n base tap = min (max (int base + int tap - int resampleCenter) 0) (int n - 1)"

fun convolve :: "fpu \<Rightarrow> sample list \<Rightarrow> nat \<Rightarrow> nat \<Rightarrow> rat list \<Rightarrow> rat \<Rightarrow> rat option" where
  "convolve p inp base tap [] sum_so_far = Some sum_so_far"
| "convolve p inp base tap (weight # ws) sum_so_far =
     (let i = held_index (length inp) base tap
      in if i < 0 then None
         else case index inp (nat i) of
           None \<Rightarrow> None
         | Some s \<Rightarrow> convolve p inp base (Suc tap) ws (fp_rnd p (sum_so_far + fp_rnd p (of_int (sint s) * weight))))"

definition kernel_at :: "fpu \<Rightarrow> resampleKernel \<Rightarrow> sample list \<Rightarrow> nat \<Rightarrow> nat \<Rightarrow> sample option" where
  "kernel_at p k inp base phase =
     (case kernel_row k phase of None \<Rightarrow> None | Some row \<Rightarrow> map_option clampSample (convolve p inp base 0 row 0))"

fun resample_loop :: "fpu \<Rightarrow> resampleKernel \<Rightarrow> sample list \<Rightarrow> nat \<Rightarrow> nat \<Rightarrow> nat \<Rightarrow> sample list option" where
  "resample_loop p k inp 0 base phase = Some []"
| "resample_loop p k inp (Suc n) base phase =
     (case kernel_at p k inp base phase of
        None \<Rightarrow> None
      | Some s \<Rightarrow>
          let phase1 = phase + rk_step k
          in map_option (\<lambda>out. s # out) (resample_loop p k inp n (base + phase1 div rk_phases k) (phase1 mod rk_phases k)))"

definition resamplePCM :: "fpu \<Rightarrow> sample list \<Rightarrow> nat \<Rightarrow> nat \<Rightarrow> sample list option" where
  "resamplePCM p inp from_rate to_rate =
     (if from_rate = to_rate \<or> inp = [] then Some inp
      else resample_loop p (newResampleKernel p from_rate to_rate) inp (length inp * to_rate div from_rate) 0 0)"

section \<open>The file source\<close>

definition maxRIFFFileBytes :: nat where "maxRIFFFileBytes = 4294967303"
definition maxRIFFChunks :: nat where "maxRIFFChunks = 4096"

datatype source_error =
    NotWAVE | OverLimit | ReadFailed | InvalidRIFFSize | TruncatedRIFF | TooManyChunks | TruncatedChunkHeader | TruncatedChunk gostr
  | SourceDuplicateFmt | SourceShortFmt | NeedPCM | InvalidLayout | SourceDuplicateData | SourceEmptyData | UnalignedData | MissingChunk

text \<open>Reading at an offset fails where the file ends before the last byte; a file may be shorter than \<open>Stat\<close> said.\<close>

definition readAt :: "byte list \<Rightarrow> nat \<Rightarrow> nat \<Rightarrow> byte list option" where
  "readAt file n off = (if off + n \<le> length file then Some (subslice file off (off + n)) else None)"

record wavSpec =
  ws_dataOffset :: nat
  ws_dataBytes :: nat

record wavChunk =
  ck_id :: "byte list"
  ck_bodyOffset :: nat
  ck_bodyBytes :: nat
  ck_nextOffset :: nat

record wavInspection =
  wi_offset :: nat
  wi_chunks :: nat
  wi_spec :: wavSpec
  wi_formatSeen :: bool
  wi_dataSeen :: bool

definition inspectRIFFHeader :: "byte list \<Rightarrow> nat \<Rightarrow> source_error + nat" where
  "inspectRIFFHeader file fileSize =
     (if fileSize < 12 then Inl NotWAVE
      else if fileSize > maxRIFFFileBytes then Inl OverLimit
      else case readAt file 12 0 of
        None \<Rightarrow> Inl ReadFailed
      | Some header \<Rightarrow>
          if subslice header 0 4 \<noteq> ascii (str ''RIFF'') \<or> subslice header 8 12 \<noteq> ascii (str ''WAVE'') then Inl NotWAVE
          else
            let riffEnd = get32 header 4 + 8
            in if riffEnd < 12 then Inl InvalidRIFFSize
               else if riffEnd > fileSize then Inl TruncatedRIFF else Inr riffEnd)"

definition inspectChunk :: "byte list \<Rightarrow> nat \<Rightarrow> nat \<Rightarrow> source_error + wavChunk" where
  "inspectChunk file offset riffEnd =
     (if riffEnd - offset < 8 then Inl TruncatedChunkHeader
      else case readAt file 8 offset of
        None \<Rightarrow> Inl ReadFailed
      | Some header \<Rightarrow>
          let bodyBytes = get32 header 4;
              bodyOffset = offset + 8;
              bodyEnd = bodyOffset + bodyBytes;
              paddedEnd = bodyEnd + bodyBytes mod 2
          in if bodyEnd < bodyOffset \<or> paddedEnd > riffEnd then Inl (TruncatedChunk (map uint (subslice header 0 4)))
             else Inr \<lparr>ck_id = subslice header 0 4, ck_bodyOffset = bodyOffset, ck_bodyBytes = bodyBytes, ck_nextOffset = paddedEnd\<rparr>)"

definition inspectFormat :: "byte list \<Rightarrow> nat \<Rightarrow> nat \<Rightarrow> source_error option" where
  "inspectFormat file offset body =
     (if body < 16 then Some SourceShortFmt
      else case readAt file 16 offset of
        None \<Rightarrow> Some ReadFailed
      | Some format \<Rightarrow>
          if get16 format 0 \<noteq> 1 \<or> get16 format 14 \<noteq> 16 \<or> get16 format 2 \<noteq> 1 \<or> int (get32 format 4) \<noteq> SampleRate then Some NeedPCM
          else if int (get32 format 8) \<noteq> SampleRate * 2 \<or> get16 format 12 \<noteq> 2 then Some InvalidLayout else None)"

definition consumeData :: "wavChunk \<Rightarrow> wavInspection \<Rightarrow> source_error + wavInspection" where
  "consumeData chunk s =
     (if wi_dataSeen s then Inl SourceDuplicateData
      else if ck_bodyBytes chunk = 0 then Inl SourceEmptyData
      else if ck_bodyBytes chunk mod 2 \<noteq> 0 then Inl UnalignedData
      else Inr (s\<lparr>wi_spec := \<lparr>ws_dataOffset = ck_bodyOffset chunk, ws_dataBytes = ck_bodyBytes chunk\<rparr>, wi_dataSeen := True\<rparr>))"

definition consumeNext :: "byte list \<Rightarrow> nat \<Rightarrow> wavInspection \<Rightarrow> source_error + wavInspection" where
  "consumeNext file riffEnd s =
     (if wi_chunks s \<ge> maxRIFFChunks then Inl TooManyChunks
      else case inspectChunk file (wi_offset s) riffEnd of
        Inl e \<Rightarrow> Inl e
      | Inr chunk \<Rightarrow>
          let s1 = s\<lparr>wi_chunks := Suc (wi_chunks s), wi_offset := ck_nextOffset chunk\<rparr>
          in if ck_id chunk = ascii (str ''fmt '') then
               (if wi_formatSeen s1 then Inl SourceDuplicateFmt
                else case inspectFormat file (ck_bodyOffset chunk) (ck_bodyBytes chunk) of
                  Some e \<Rightarrow> Inl e
                | None \<Rightarrow> Inr (s1\<lparr>wi_formatSeen := True\<rparr>))
             else if ck_id chunk = ascii (str ''data'') then consumeData chunk s1
             else Inr s1)"

lemma consumeNext_moves: "consumeNext file riffEnd s = Inr s' \<Longrightarrow> wi_offset s + 8 \<le> wi_offset s' \<and> wi_offset s' \<le> riffEnd"
  by (auto simp: consumeNext_def inspectChunk_def consumeData_def Let_def split: if_splits option.splits sum.splits)

function inspect_loop :: "byte list \<Rightarrow> nat \<Rightarrow> wavInspection \<Rightarrow> source_error + wavInspection" where
  "inspect_loop file riffEnd s =
     (if wi_offset s < riffEnd then
        case consumeNext file riffEnd s of Inl e \<Rightarrow> Inl e | Inr s' \<Rightarrow> inspect_loop file riffEnd s'
      else Inr s)"
  by pat_completeness auto
termination
  by (relation "measure (\<lambda>(file, riffEnd, s). riffEnd - wi_offset s)") (auto dest: consumeNext_moves)

declare inspect_loop.simps [simp del]

definition inspectWAV :: "byte list \<Rightarrow> nat \<Rightarrow> source_error + wavSpec" where
  "inspectWAV file fileSize =
     (case inspectRIFFHeader file fileSize of
        Inl e \<Rightarrow> Inl e
      | Inr riffEnd \<Rightarrow>
          (case inspect_loop file riffEnd \<lparr>wi_offset = 12, wi_chunks = 0, wi_spec = \<lparr>ws_dataOffset = 0, ws_dataBytes = 0\<rparr>,
               wi_formatSeen = False, wi_dataSeen = False\<rparr> of
             Inl e \<Rightarrow> Inl e
           | Inr s \<Rightarrow> if \<not> wi_formatSeen s \<or> \<not> wi_dataSeen s then Inl MissingChunk else Inr (wi_spec s)))"

text \<open>Playing the source at the pace of the clock. What a call finds of its context and its clock are arguments.\<close>

datatype play_end = PlayEOF | PlayCanceled | PlayRead

record file_frames =
  fr_dataOffset :: nat
  fr_dataBytes :: nat
  fr_pos :: nat
  fr_pts :: duration
  fr_closed :: bool
  fr_loop :: bool
  fr_quantum :: nat

definition newFrames :: "wavSpec \<Rightarrow> bool \<Rightarrow> nat \<Rightarrow> file_frames" where
  "newFrames spec loop quantum =
     \<lparr>fr_dataOffset = ws_dataOffset spec, fr_dataBytes = ws_dataBytes spec, fr_pos = 0, fr_pts = 0, fr_closed = False,
      fr_loop = loop, fr_quantum = quantum\<rparr>"

record play_call =
  pc_ctx :: bool
  pc_paced :: bool

text \<open>How long \<open>pace\<close> waits at a given time since the start; the wait ends early only by cancellation.\<close>

definition pace_wait :: "duration \<Rightarrow> file_frames \<Rightarrow> duration" where
  "pace_wait since_start f = max 0 (fr_pts f - since_start)"

definition frames_Next :: "byte list \<Rightarrow> play_call \<Rightarrow> file_frames \<Rightarrow> (play_end + sample list \<times> duration) \<times> file_frames" where
  "frames_Next file call f =
     (if fr_closed f then (Inl PlayEOF, f)
      else if \<not> pc_ctx call then (Inl PlayCanceled, f\<lparr>fr_closed := True\<rparr>)
      else if fr_pos f \<ge> fr_dataBytes f \<and> \<not> fr_loop f then (Inl PlayEOF, f\<lparr>fr_closed := True\<rparr>)
      else
        let f1 = (if fr_pos f \<ge> fr_dataBytes f then f\<lparr>fr_pos := 0\<rparr> else f)
        in if \<not> pc_paced call then (Inl PlayCanceled, f1\<lparr>fr_closed := True\<rparr>)
           else
             let samples = min (fr_quantum f1) ((fr_dataBytes f1 - fr_pos f1) div 2)
             in case readAt file (samples * 2) (fr_dataOffset f1 + fr_pos f1) of
                  None \<Rightarrow> (Inl PlayRead, f1\<lparr>fr_closed := True\<rparr>)
                | Some raw \<Rightarrow>
                    (Inr (fst (DecodeS16LE (replicate samples 0) raw), fr_pts f1),
                     f1\<lparr>fr_pts := fr_pts f1 + go_div (wrap64 (int samples * second)) SampleRate, fr_pos := fr_pos f1 + samples * 2\<rparr>))"

fun play_run :: "byte list \<Rightarrow> nat \<Rightarrow> file_frames \<Rightarrow> (play_end + sample list \<times> duration) list" where
  "play_run file 0 f = []"
| "play_run file (Suc n) f = (case frames_Next file \<lparr>pc_ctx = True, pc_paced = True\<rparr> f of (r, f') \<Rightarrow> r # play_run file n f')"

text \<open>The query of a file URL: \<open>loop\<close> alone, once, spelled out.\<close>

datatype loop_error = UnsupportedParameter gostr | LoopValue

definition parseLoop :: "(gostr \<times> gostr list) list \<Rightarrow> loop_error + bool" where
  "parseLoop query =
     (case find (\<lambda>kv. fst kv \<noteq> str ''loop'') query of
        Some kv \<Rightarrow> Inl (UnsupportedParameter (fst kv))
      | None \<Rightarrow> (case map_of query (str ''loop'') of
          None \<Rightarrow> Inr False
        | Some values \<Rightarrow>
            if length values \<noteq> 1 \<or> hd values \<noteq> str ''true'' \<and> hd values \<noteq> str ''false'' then Inl LoopValue
            else Inr (hd values = str ''true'')))"

section \<open>Fields\<close>

lemma unat_byte [simp]: "unat (word_of_nat n :: byte) = n mod 256"
  by (simp add: unat_of_nat)

lemma length_put [simp]: "length (put16 n) = 2" "length (put32 n) = 4"
  by (simp_all add: put16_def put32_def)

lemma length_ascii [simp]: "length (ascii s) = length s"
  by (simp add: ascii_def)

lemma get16_put16: "get16 (put16 n) 0 = n mod 65536"
  using mod_mult2_eq [of n 256 256] by (simp add: get16_def put16_def)

lemma get16_append: "i + 2 \<le> length a \<Longrightarrow> get16 (a @ b) i = get16 a i"
  by (simp add: get16_def nth_append)

lemma get16_skip: "get16 (a @ b) (length a + i) = get16 b i"
  by (simp add: get16_def nth_append)

lemma get32_put32: "get32 (put32 n @ b) 0 = n mod 4294967296"
proof -
  have "get32 (put32 n @ b) 0 = get16 (put16 n) 0 + 65536 * get16 (put16 (n div 65536)) 0"
    using get16_append [of 0 "put16 n" "put16 (n div 65536) @ b"] get16_skip [of "put16 n" "put16 (n div 65536) @ b" 0]
      get16_append [of 0 "put16 (n div 65536)" b]
    by (simp add: get32_def put32_def numeral_2_eq_2)
  then show ?thesis using mod_mult2_eq [of n 65536 65536] by (simp add: get16_put16)
qed

lemma get32_skip: "get32 (a @ b) (length a + i) = get32 b i"
  using get16_skip [of a b i] get16_skip [of a b "i + 2"] by (simp add: get32_def add.assoc)

lemma get32_append: "i + 4 \<le> length a \<Longrightarrow> get32 (a @ b) i = get32 a i"
  by (simp add: get32_def get16_append)

lemma subslice_skip: "subslice (a @ b) (length a + i) (length a + j) = subslice b i j"
  by (simp add: subslice_def)

lemma subslice_take: "j \<le> length a \<Longrightarrow> subslice (a @ b) i j = subslice a i j"
  by (simp add: subslice_def)

lemma subslice_all: "length a = n \<Longrightarrow> subslice (a @ b) 0 n = a"
  by (simp add: subslice_def)

lemma subslice_subslice: "b \<le> d - c \<Longrightarrow> subslice (subslice bs c d) a b = subslice bs (c + a) (c + b)"
  by (simp add: subslice_def drop_take min_def add.commute)

lemma length_subslice: "b \<le> length bs \<Longrightarrow> length (subslice bs a b) = b - a"
  by (simp add: subslice_def)

lemma get16_subslice: "i + 2 \<le> b - a \<Longrightarrow> b \<le> length bs \<Longrightarrow> get16 (subslice bs a b) i = get16 bs (a + i)"
  by (simp add: get16_def subslice_def add.assoc)

lemma get32_subslice: "i + 4 \<le> b - a \<Longrightarrow> b \<le> length bs \<Longrightarrow> get32 (subslice bs a b) i = get32 bs (a + i)"
  by (simp add: get32_def get16_subslice add.assoc)

lemma get_bounds: "get16 bs i < 65536" "get32 bs i < 4294967296"
proof -
  have u: "unat w < 256" for w :: byte by (rule order_less_le_trans [OF unsigned_less]) simp
  have b: "get16 bs i < 65536" for i using u [of "bs ! i"] u [of "bs ! (i + 1)"] by (simp add: get16_def)
  show "get16 bs i < 65536" by (rule b)
  show "get32 bs i < 4294967296" using b [of i] b [of "i + 2"] by (simp add: get32_def)
qed

lemma decode_bytes: "bytesToInt16 (concat (map le_bytes16 pcm)) = pcm"
proof -
  have "(concat (map le_bytes16 pcm)) ! (i * 2) = ucast (pcm ! i) \<and> (concat (map le_bytes16 pcm)) ! (i * 2 + 1) = ucast (drop_bit 8 (pcm ! i))"
    if "i < length pcm" for i using encode_spec_nth [of i pcm] that by (simp add: encode_spec_def mult.commute)
  then show ?thesis using length_encode_spec [of pcm] by (auto simp: bytesToInt16_def encode_spec_def le16_le_bytes16 intro!: nth_equalityI)
qed

section \<open>The container reads back\<close>

lemma readWAVChunk_at:
  assumes "raw = pre @ cid @ put32 n @ body @ rest" "length cid = 4" "length body = n" "even n" "n < 4294967296"
  shows "readWAVChunk raw (length pre) = Inr (cid, body, length pre + 8 + n)"
proof -
  have "subslice raw (length pre + 0) (length pre + 4) = cid" unfolding assms(1) subslice_skip by (rule subslice_all) (rule assms(2))
  moreover have "get32 raw (length pre + 4) = n"
    using get32_skip [of "pre @ cid" "put32 n @ body @ rest" 0] get32_put32 [of n "body @ rest"] assms(2,5) by (simp add: assms(1))
  moreover have "subslice raw (length pre + 8) (length pre + 8 + n) = body"
    using subslice_skip [of "pre @ cid @ put32 n" "body @ rest" 0 n] subslice_all [of body n rest] assms(2,3) by (simp add: assms(1))
  moreover have "length raw - length pre = 8 + n + length rest" using assms(1-3) by simp
  ultimately show ?thesis using assms(1-4) by (simp add: readWAVChunk_def Let_def even_iff_mod_2_eq_zero)
qed

definition fmt_body :: "nat \<Rightarrow> byte list" where
  "fmt_body rate = put16 1 @ put16 1 @ put32 rate @ put32 (rate * 2) @ put16 2 @ put16 16"

lemma fmt_fields:
  assumes "rate * 2 < 4294967296"
  shows "get16 (fmt_body rate) 0 = 1" "get16 (fmt_body rate) 2 = 1" "get32 (fmt_body rate) 4 = rate"
    "get32 (fmt_body rate) 8 = rate * 2" "get16 (fmt_body rate) 12 = 2" "get16 (fmt_body rate) 14 = 16" "length (fmt_body rate) = 16"
proof -
  have at16: "get16 (a @ put16 n @ b) (length a) = n mod 65536" for a b n
    using get16_skip [of a "put16 n @ b" 0] get16_append [of 0 "put16 n" b] by (simp add: get16_put16)
  have at32: "get32 (a @ put32 n @ b) (length a) = n mod 4294967296" for a b n
    using get32_skip [of a "put32 n @ b" 0] by (simp add: get32_put32)
  show "get16 (fmt_body rate) 0 = 1" using at16 [of "[]" 1] by (simp add: fmt_body_def)
  show "get16 (fmt_body rate) 2 = 1" using at16 [of "put16 1" 1] by (simp add: fmt_body_def)
  show "get32 (fmt_body rate) 4 = rate" using at32 [of "put16 1 @ put16 1" rate] assms by (simp add: fmt_body_def)
  show "get32 (fmt_body rate) 8 = rate * 2" using at32 [of "put16 1 @ put16 1 @ put32 rate" "rate * 2"] assms by (simp add: fmt_body_def)
  show "get16 (fmt_body rate) 12 = 2" using at16 [of "put16 1 @ put16 1 @ put32 rate @ put32 (rate * 2)" 2] by (simp add: fmt_body_def)
  show "get16 (fmt_body rate) 14 = 16" using at16 [of "put16 1 @ put16 1 @ put32 rate @ put32 (rate * 2) @ put16 2" 16 "[]"] by (simp add: fmt_body_def)
  show "length (fmt_body rate) = 16" by (simp add: fmt_body_def)
qed

lemma parse_fmt: "0 < rate \<Longrightarrow> rate \<le> 384000 \<Longrightarrow> parsePCM16WAVFormat (fmt_body rate) = Inr rate"
  by (simp add: parsePCM16WAVFormat_def fmt_fields)

lemma ascii_tags: "ascii (str ''fmt '') \<noteq> ascii (str ''data'')" "length (str ''fmt '') = 4" "length (str ''data'') = 4"
    "length (str ''RIFF'') = 4" "length (str ''WAVE'') = 4"
  by code_simp+

lemma length_pcm: "length (concat (map le_bytes16 pcm)) = 2 * length pcm"
  using length_encode_spec [of pcm] by (simp add: encode_spec_def)

lemma encode_layout:
  "encodeWAV pcm rate = (ascii (str ''RIFF'') @ put32 (36 + length pcm * 2) @ ascii (str ''WAVE'')) @
     ascii (str ''fmt '') @ put32 16 @ fmt_body rate @ ascii (str ''data'') @ put32 (length pcm * 2) @ concat (map le_bytes16 pcm)"
  by (simp add: encodeWAV_def Let_def fmt_body_def)

lemma encode_envelope:
  assumes "36 + length pcm * 2 < 4294967296"
  shows "length (encodeWAV pcm rate) = 44 + length pcm * 2" "get32 (encodeWAV pcm rate) 4 = 36 + length pcm * 2"
    "subslice (encodeWAV pcm rate) 0 4 = ascii (str ''RIFF'')" "subslice (encodeWAV pcm rate) 8 12 = ascii (str ''WAVE'')"
proof -
  let ?r = "ascii (str ''RIFF'')" and ?n = "put32 (36 + length pcm * 2)" and ?w = "ascii (str ''WAVE'')"
  obtain rest where e: "encodeWAV pcm rate = ?r @ ?n @ ?w @ rest" unfolding encode_layout by (metis append.assoc)
  show "length (encodeWAV pcm rate) = 44 + length pcm * 2" by (simp add: encode_layout ascii_tags length_pcm fmt_body_def)
  show "get32 (encodeWAV pcm rate) 4 = 36 + length pcm * 2"
    using get32_skip [of ?r "?n @ ?w @ rest" 0] get32_put32 [of "36 + length pcm * 2" "?w @ rest"] assms by (simp add: e ascii_tags)
  show "subslice (encodeWAV pcm rate) 0 4 = ?r" unfolding e by (rule subslice_all) (simp add: ascii_tags)
  show "subslice (encodeWAV pcm rate) 8 12 = ?w"
    using subslice_skip [of "?r @ ?n" "?w @ rest" 0 4] subslice_all [of ?w 4 rest] by (simp add: e ascii_tags)
qed

lemma take_fields: "12 \<le> length raw \<Longrightarrow> get32 (take 12 raw) 4 = get32 raw 4 \<and> subslice (take 12 raw) 0 4 = subslice raw 0 4 \<and>
    subslice (take 12 raw) 8 12 = subslice raw 8 12"
  by (simp add: get32_def get16_def subslice_def drop_take)

lemma envelope_eq:
  "validatePCM16WAVEnvelope raw = (if length raw < 12 then Some IncompleteWAV else checkRIFFEnvelope raw (length raw))"
  using take_fields [of raw] by (simp add: validatePCM16WAVEnvelope_def checkRIFFEnvelope_def)

lemma encode_chunks:
  "readWAVChunk (encodeWAV pcm rate) 12 = Inr (ascii (str ''fmt ''), fmt_body rate, 36)"
  "36 + length pcm * 2 < 4294967296 \<Longrightarrow>
   readWAVChunk (encodeWAV pcm rate) 36 = Inr (ascii (str ''data''), concat (map le_bytes16 pcm), 44 + length pcm * 2)"
proof -
  let ?data = "concat (map le_bytes16 pcm)"
  let ?head = "ascii (str ''RIFF'') @ put32 (36 + length pcm * 2) @ ascii (str ''WAVE'')"
  let ?fmt = "ascii (str ''fmt '') @ put32 16 @ fmt_body rate"
  have h: "length ?head = 12" "length (?head @ ?fmt) = 36" by (simp_all add: ascii_tags fmt_body_def)
  have "readWAVChunk (encodeWAV pcm rate) (length ?head) = Inr (ascii (str ''fmt ''), fmt_body rate, length ?head + 8 + 16)"
    by (rule readWAVChunk_at [where rest = "ascii (str ''data'') @ put32 (length pcm * 2) @ ?data"])
      (simp_all add: encode_layout ascii_tags fmt_body_def)
  then show "readWAVChunk (encodeWAV pcm rate) 12 = Inr (ascii (str ''fmt ''), fmt_body rate, 36)" unfolding h(1) by simp
  assume n: "36 + length pcm * 2 < 4294967296"
  have "readWAVChunk (encodeWAV pcm rate) (length (?head @ ?fmt)) = Inr (ascii (str ''data''), ?data, length (?head @ ?fmt) + 8 + length pcm * 2)"
    by (rule readWAVChunk_at [where rest = "[]"]) (use n in \<open>simp_all add: encode_layout ascii_tags length_pcm\<close>)
  then show "readWAVChunk (encodeWAV pcm rate) 36 = Inr (ascii (str ''data''), ?data, 44 + length pcm * 2)" unfolding h(2) by simp
qed

lemma decode_encode:
  assumes "pcm \<noteq> []" "0 < rate" "rate \<le> 384000" "36 + length pcm * 2 < 4294967296"
  shows "decodePCM16WAV (encodeWAV pcm rate) = Inr (pcm, rate)"
proof -
  let ?raw = "encodeWAV pcm rate" and ?data = "concat (map le_bytes16 pcm)"
  have e: "validatePCM16WAVEnvelope ?raw = None" using encode_envelope [OF assms(4)] by (simp add: envelope_eq checkRIFFEnvelope_def)
  note c = encode_chunks(1) [of pcm rate] encode_chunks(2) [OF assms(4), of rate]
  have n: "length ?raw = 44 + length pcm * 2" by (rule encode_envelope [OF assms(4)])
  have d: "?data \<noteq> []" using assms(1) length_pcm [of pcm] by fastforce
  have "scan_chunks ?raw (44 + length pcm * 2) c = chunks_result c" for c using n by (simp add: scan_chunks.simps)
  then have "scan_chunks ?raw 36 \<lparr>wc_data = None, wc_rate = rate, wc_formatSeen = True\<rparr> = Inr (?data, rate)"
    using n d ascii_tags(1) [symmetric] by (simp add: scan_chunks.simps [of _ 36] c add_chunk_def chunks_result_def)
  then have "scanPCM16WAVChunks ?raw = Inr (?data, rate)"
    using n by (simp add: scanPCM16WAVChunks_def scan_chunks.simps [of _ 12] c add_chunk_def parse_fmt [OF assms(2,3)])
  then show ?thesis using e length_pcm [of pcm] by (simp add: decodePCM16WAV_def decode_bytes)
qed

section \<open>Two readers of one container\<close>

definition same_parse :: "byte list \<Rightarrow> wavInspection \<Rightarrow> pcm16WAVChunks \<Rightarrow> bool" where
  "same_parse file s c \<longleftrightarrow> wc_formatSeen c = wi_formatSeen s \<and> (wi_formatSeen s \<longrightarrow> wc_rate c = 16000) \<and>
     (if wi_dataSeen s then wc_data c = Some (subslice file (ws_dataOffset (wi_spec s)) (ws_dataOffset (wi_spec s) + ws_dataBytes (wi_spec s))) \<and>
        even (ws_dataBytes (wi_spec s)) \<and> 0 < ws_dataBytes (wi_spec s) \<and> ws_dataOffset (wi_spec s) + ws_dataBytes (wi_spec s) \<le> length file
      else wc_data c = None)"

lemma inspectChunk_same:
  assumes "inspectChunk file offset (length file) = Inr chunk" "offset < length file"
  shows "readWAVChunk file offset = Inr (ck_id chunk, subslice file (ck_bodyOffset chunk) (ck_bodyOffset chunk + ck_bodyBytes chunk), ck_nextOffset chunk)
    \<and> ck_bodyOffset chunk + ck_bodyBytes chunk \<le> length file"
proof -
  have n: "offset + 8 \<le> length file" using assms by (auto simp: inspectChunk_def split: if_splits)
  have h: "get32 (subslice file offset (offset + 8)) 4 = get32 file (offset + 4)" "subslice (subslice file offset (offset + 8)) 0 4 = subslice file offset (offset + 4)"
    using get32_subslice [of 4 "offset + 8" offset "file"] subslice_subslice [of 4 "offset + 8" offset "file" 0] n by simp_all
  then show ?thesis using assms(1) n
    by (auto simp: inspectChunk_def readAt_def Let_def readWAVChunk_def split: if_splits)
qed

lemma inspectFormat_same:
  assumes "inspectFormat file off n = None" "off + n \<le> length file"
  shows "parsePCM16WAVFormat (subslice file off (off + n)) = Inr 16000"
proof -
  have n: "16 \<le> n" and r: "readAt file 16 off = Some (subslice file off (off + 16))"
    using assms by (auto simp: inspectFormat_def readAt_def split: if_splits)
  have g: "get16 (subslice file off (off + m)) i = get16 file (off + i)" "get32 (subslice file off (off + m)) j = get32 file (off + j)"
    if "m = 16 \<or> m = n" "i + 2 \<le> 16" "j + 4 \<le> 16" for i j m
    using get16_subslice [of i "off + m" off "file"] get32_subslice [of j "off + m" off "file"] that n assms(2) by auto
  have f: "get16 file off = 1" "get16 file (off + 14) = 16" "get16 file (off + 2) = 1" "get32 file (off + 4) = 16000"
    "get32 file (off + 8) = 32000" "get16 file (off + 12) = 2"
    using assms(1) n r g(1) [of 16 0 0] g(1) [of 16 14 0] g(1) [of 16 2 0] g(2) [of 16 0 4] g(2) [of 16 0 8] g(1) [of 16 12 0]
    by (auto simp: inspectFormat_def split: if_splits)
  have "length (subslice file off (off + n)) = n" using length_subslice [OF assms(2)] by simp
  then show ?thesis using n f g(1) [of n 0 0] g(1) [of n 14 0] g(1) [of n 2 0] g(2) [of n 0 4] g(2) [of n 0 8] g(1) [of n 12 0]
    by (simp add: parsePCM16WAVFormat_def)
qed

lemma consumeNext_same:
  assumes "consumeNext file (length file) s = Inr s'" "wi_offset s < length file" "same_parse file s c"
  obtains cid body c' where "readWAVChunk file (wi_offset s) = Inr (cid, body, wi_offset s')" "add_chunk cid body c = Inr c'" "same_parse file s' c'"
proof -
  obtain chunk where k: "inspectChunk file (wi_offset s) (length file) = Inr chunk"
    using assms(1) by (auto simp: consumeNext_def split: if_splits sum.splits)
  let ?body = "subslice file (ck_bodyOffset chunk) (ck_bodyOffset chunk + ck_bodyBytes chunk)"
  note r = inspectChunk_same [OF k assms(2)]
  have n: "length ?body = ck_bodyBytes chunk" using length_subslice r by simp
  show thesis
  proof (cases "ck_id chunk = ascii (str ''fmt '')")
    case True
    then have f: "\<not> wi_formatSeen s" "inspectFormat file (ck_bodyOffset chunk) (ck_bodyBytes chunk) = None"
      "s' = s\<lparr>wi_chunks := Suc (wi_chunks s), wi_offset := ck_nextOffset chunk, wi_formatSeen := True\<rparr>"
      using assms(1) k by (auto simp: consumeNext_def Let_def split: if_splits option.splits)
    have "add_chunk (ck_id chunk) ?body c = Inr (c\<lparr>wc_rate := 16000, wc_formatSeen := True\<rparr>)"
      using True f(1) assms(3) inspectFormat_same [OF f(2)] r by (simp add: add_chunk_def same_parse_def)
    moreover have "same_parse file s' (c\<lparr>wc_rate := 16000, wc_formatSeen := True\<rparr>)" using assms(3) f(3) by (simp add: same_parse_def)
    ultimately show thesis using that r f(3) by simp
  next
    case fmt: False
    show thesis
    proof (cases "ck_id chunk = ascii (str ''data'')")
      case True
      then have d: "\<not> wi_dataSeen s" "0 < ck_bodyBytes chunk" "even (ck_bodyBytes chunk)"
        "s' = s\<lparr>wi_chunks := Suc (wi_chunks s), wi_offset := ck_nextOffset chunk,
           wi_spec := \<lparr>ws_dataOffset = ck_bodyOffset chunk, ws_dataBytes = ck_bodyBytes chunk\<rparr>, wi_dataSeen := True\<rparr>"
        using assms(1) k fmt by (auto simp: consumeNext_def consumeData_def Let_def even_iff_mod_2_eq_zero split: if_splits)
      have "?body \<noteq> []" using n d(2) by auto
      then have "add_chunk (ck_id chunk) ?body c = Inr (c\<lparr>wc_data := Some ?body\<rparr>)"
        using True fmt d(1) assms(3) by (simp add: add_chunk_def same_parse_def)
      moreover have "same_parse file s' (c\<lparr>wc_data := Some ?body\<rparr>)" using assms(3) d r by (simp add: same_parse_def)
      ultimately show thesis using that r d(4) by simp
    next
      case False
      then have s': "s' = s\<lparr>wi_chunks := Suc (wi_chunks s), wi_offset := ck_nextOffset chunk\<rparr>"
        using assms(1) k fmt by (auto simp: consumeNext_def Let_def split: if_splits)
      have "add_chunk (ck_id chunk) ?body c = Inr c" using False fmt by (simp add: add_chunk_def)
      moreover have "same_parse file s' c" using assms(3) s' by (simp add: same_parse_def)
      ultimately show thesis using that r s' by simp
    qed
  qed
qed

lemma inspect_same:
  "inspect_loop file (length file) s = Inr s' \<Longrightarrow> same_parse file s c \<Longrightarrow>
   \<exists>c'. same_parse file s' c' \<and> scan_chunks file (wi_offset s) c = chunks_result c'"
proof (induction "length file - wi_offset s" arbitrary: s c rule: less_induct)
  case less
  show ?case
  proof (cases "wi_offset s < length file")
    case True
    then obtain s1 where s1: "consumeNext file (length file) s = Inr s1" "inspect_loop file (length file) s1 = Inr s'"
      using less.prems(1) by (auto simp: inspect_loop.simps [of _ _ s] split: sum.splits)
    from s1(1) True less.prems(2) obtain cid body c' where c': "readWAVChunk file (wi_offset s) = Inr (cid, body, wi_offset s1)"
      "add_chunk cid body c = Inr c'" "same_parse file s1 c'" by (rule consumeNext_same)
    have "length file - wi_offset s1 < length file - wi_offset s" using consumeNext_moves [OF s1(1)] True by linarith
    from less.hyps [OF this s1(2) c'(3)] show ?thesis using True c' by (simp add: scan_chunks.simps [of _ "wi_offset s"])
  next
    case False
    then have "s' = s" using less.prems(1) by (simp add: inspect_loop.simps [of _ _ s])
    then show ?thesis using less.prems(2) False by (auto simp: scan_chunks.simps [of _ "wi_offset s"])
  qed
qed

lemma inspected_decodes:
  assumes "inspectWAV file (length file) = Inr spec" "get32 file 4 + 8 = length file"
  shows "decodePCM16WAV file = Inr (bytesToInt16 (subslice file (ws_dataOffset spec) (ws_dataOffset spec + ws_dataBytes spec)), 16000)"
    "even (ws_dataBytes spec)" "0 < ws_dataBytes spec" "ws_dataOffset spec + ws_dataBytes spec \<le> length file"
proof -
  let ?s0 = "\<lparr>wi_offset = 12, wi_chunks = 0, wi_spec = \<lparr>ws_dataOffset = 0, ws_dataBytes = 0\<rparr>, wi_formatSeen = False, wi_dataSeen = False\<rparr>"
  let ?c0 = "\<lparr>wc_data = None, wc_rate = 0, wc_formatSeen = False\<rparr>"
  obtain e s where e: "inspectRIFFHeader file (length file) = Inr e" "inspect_loop file e ?s0 = Inr s" "wi_formatSeen s" "wi_dataSeen s" "spec = wi_spec s"
    using assms(1) by (auto simp: inspectWAV_def split: sum.splits if_splits)
  have n: "12 \<le> length file" using e(1) by (auto simp: inspectRIFFHeader_def split: if_splits)
  have "subslice file 0 12 = take 12 file" by (simp add: subslice_def)
  then have h: "e = length file" "subslice file 0 4 = ascii (str ''RIFF'')" "subslice file 8 12 = ascii (str ''WAVE'')"
    using e(1) n take_fields [OF n] assms(2) by (auto simp: inspectRIFFHeader_def readAt_def Let_def split: if_splits)
  have v: "validatePCM16WAVEnvelope file = None" using n h assms(2) by (simp add: envelope_eq checkRIFFEnvelope_def)
  have "same_parse file ?s0 ?c0" by (simp add: same_parse_def)
  from inspect_same [OF e(2) [unfolded h(1)] this] obtain c' where c': "same_parse file s c'" "scan_chunks file 12 ?c0 = chunks_result c'" by auto
  then have r: "scanPCM16WAVChunks file = Inr (subslice file (ws_dataOffset spec) (ws_dataOffset spec + ws_dataBytes spec), 16000)"
    using e(3-5) by (simp add: scanPCM16WAVChunks_def chunks_result_def same_parse_def)
  show d: "even (ws_dataBytes spec)" "0 < ws_dataBytes spec" "ws_dataOffset spec + ws_dataBytes spec \<le> length file"
    using c'(1) e(4,5) by (simp_all add: same_parse_def)
  show "decodePCM16WAV file = Inr (bytesToInt16 (subslice file (ws_dataOffset spec) (ws_dataOffset spec + ws_dataBytes spec)), 16000)"
    using v r d length_subslice [OF d(3)] by (simp add: decodePCM16WAV_def)
qed

lemma inspectChunk_read:
  assumes "readWAVChunk file offset = Inr (cid, body, next_at)" "offset < length file"
  shows "inspectChunk file offset (length file) = Inr \<lparr>ck_id = cid, ck_bodyOffset = offset + 8, ck_bodyBytes = length body, ck_nextOffset = next_at\<rparr>"
proof -
  have n: "offset + 8 \<le> length file" using readWAVChunk_moves [OF assms(1)] by linarith
  have h: "get32 (subslice file offset (offset + 8)) 4 = get32 file (offset + 4)" "subslice (subslice file offset (offset + 8)) 0 4 = subslice file offset (offset + 4)"
    using get32_subslice [of 4 "offset + 8" offset "file"] subslice_subslice [of 4 "offset + 8" offset "file" 0] n by simp_all
  have c: "cid = subslice file offset (offset + 4)" "body = subslice file (offset + 8) (offset + 8 + get32 file (offset + 4))"
    "next_at = offset + 8 + get32 file (offset + 4) + get32 file (offset + 4) mod 2" "next_at \<le> length file"
    using assms(1) by (auto simp: readWAVChunk_def Let_def split: if_splits)
  have "offset + 8 + get32 file (offset + 4) \<le> length file" using c(3,4) by linarith
  then have "length body = get32 file (offset + 4)" using length_subslice c(2) by simp
  then show ?thesis using n h c by (simp add: inspectChunk_def readAt_def Let_def)
qed

lemma encoded_inspects:
  assumes "pcm \<noteq> []" "36 + length pcm * 2 < 4294967296"
  shows "inspectWAV (encodeWAV pcm 16000) (length (encodeWAV pcm 16000)) = Inr \<lparr>ws_dataOffset = 44, ws_dataBytes = 2 * length pcm\<rparr>"
proof -
  let ?raw = "encodeWAV pcm 16000"
  note e = encode_envelope [OF assms(2), of 16000]
  have "subslice ?raw 0 12 = take 12 ?raw" by (simp add: subslice_def)
  then have "inspectRIFFHeader ?raw (length ?raw) = Inr (length ?raw)"
    using e take_fields [of ?raw] assms(2) by (simp add: inspectRIFFHeader_def readAt_def maxRIFFFileBytes_def)
  moreover have "inspectFormat ?raw 20 16 = None"
  proof -
    let ?pre = "ascii (str ''RIFF'') @ put32 (36 + length pcm * 2) @ ascii (str ''WAVE'') @ ascii (str ''fmt '') @ put32 16"
    let ?rest = "ascii (str ''data'') @ put32 (length pcm * 2) @ concat (map le_bytes16 pcm)"
    have "subslice ?raw 20 36 = fmt_body 16000"
      using subslice_skip [of ?pre "fmt_body 16000 @ ?rest" 0 16] subslice_all [of "fmt_body 16000" 16 ?rest]
      by (simp add: encode_layout ascii_tags fmt_fields)
    then show ?thesis using e(1) by (simp add: inspectFormat_def readAt_def fmt_fields)
  qed
  ultimately show ?thesis
    using inspectChunk_read [OF encode_chunks(1) [of pcm 16000]] inspectChunk_read [OF encode_chunks(2) [OF assms(2), of 16000]] e(1) assms(1)
      ascii_tags(1) [symmetric]
    by (simp add: inspectWAV_def inspect_loop.simps consumeNext_def consumeData_def maxRIFFChunks_def fmt_fields length_pcm)
qed

section \<open>Playing\<close>

definition payload_of :: "byte list \<Rightarrow> wavSpec \<Rightarrow> sample list" where
  "payload_of file spec = bytesToInt16 (subslice file (ws_dataOffset spec) (ws_dataOffset spec + ws_dataBytes spec))"

definition play_ok :: "byte list \<Rightarrow> wavSpec \<Rightarrow> nat \<Rightarrow> bool" where
  "play_ok file spec quantum \<longleftrightarrow> even (ws_dataBytes spec) \<and> 0 < ws_dataBytes spec \<and>
     ws_dataOffset spec + ws_dataBytes spec \<le> length file \<and> 0 < quantum \<and> int quantum \<le> max_samples"

definition heard :: "('e + sample list \<times> duration) list \<Rightarrow> sample list list" where
  "heard rs = concat (map (\<lambda>r. case r of Inl _ \<Rightarrow> [] | Inr (d, _) \<Rightarrow> [d]) rs)"

lemma heard_steps [simp]: "heard [] = []" "heard (Inl e # rs) = heard rs" "heard (Inr (d, t) # rs) = d # heard rs"
  by (simp_all add: heard_def)

lemma closed_is_silent: "fr_closed f \<Longrightarrow> heard (play_run file n f) = []"
  by (induction n) (simp_all add: frames_Next_def)

text \<open>Each frame starts where the one before it ended.\<close>

fun gapless :: "duration \<Rightarrow> ('e + sample list \<times> duration) list \<Rightarrow> bool" where
  "gapless t [] = True"
| "gapless t (Inl e # rs) = gapless t rs"
| "gapless t (Inr (d, u) # rs) = (u = t \<and> gapless (t + int (length d) * 62500) rs)"

lemma closed_is_gapless: "fr_closed f \<Longrightarrow> gapless t (play_run file n f)"
  by (induction n) (simp_all add: frames_Next_def)

lemma decode_slice:
  assumes "b \<le> length bs" "a \<le> b"
  shows "fst (DecodeS16LE (replicate ((b - a) div 2) 0) (subslice bs a b)) = bytesToInt16 (subslice bs a b)"
  using length_subslice [OF assms(1), of a] by (auto simp: DecodeS16LE_eq Let_def bytesToInt16_def intro!: nth_equalityI)

lemma bytesToInt16_take_drop:
  assumes "i \<le> j" "2 * j \<le> length bs"
  shows "bytesToInt16 (subslice bs (2 * i) (2 * j)) = take (j - i) (drop i (bytesToInt16 bs))"
proof (rule nth_equalityI)
  have n: "length (subslice bs (2 * i) (2 * j)) = 2 * (j - i)" using length_subslice [OF assms(2)] by (simp add: diff_mult_distrib2)
  then show l: "length (bytesToInt16 (subslice bs (2 * i) (2 * j))) = length (take (j - i) (drop i (bytesToInt16 bs)))"
    using assms by (simp add: bytesToInt16_def)
  fix x assume "x < length (bytesToInt16 (subslice bs (2 * i) (2 * j)))"
  then have x: "x < j - i" using n by (simp add: bytesToInt16_def)
  then have s: "subslice bs (2 * i) (2 * j) ! (x * 2) = bs ! ((i + x) * 2)" "subslice bs (2 * i) (2 * j) ! (x * 2 + 1) = bs ! ((i + x) * 2 + 1)"
    using assms by (simp_all add: subslice_def algebra_simps)
  then show "bytesToInt16 (subslice bs (2 * i) (2 * j)) ! x = take (j - i) (drop i (bytesToInt16 bs)) ! x"
  proof -
    have "i + x < length bs div 2" using x assms by linarith
    moreover have "x < length (subslice bs (2 * i) (2 * j)) div 2" using x n by simp
    ultimately show ?thesis using s x by (simp add: bytesToInt16_def add.commute)
  qed
qed

lemma payload_length: "play_ok file spec q \<Longrightarrow> length (payload_of file spec) = ws_dataBytes spec div 2"
  by (simp add: payload_of_def bytesToInt16_def length_subslice play_ok_def)

definition frames_at :: "wavSpec \<Rightarrow> bool \<Rightarrow> nat \<Rightarrow> nat \<Rightarrow> duration \<Rightarrow> file_frames" where
  "frames_at spec lp quantum p pts = (newFrames spec lp quantum)\<lparr>fr_pos := 2 * p, fr_pts := pts\<rparr>"

lemma Next_frame:
  assumes "play_ok file spec quantum" "p < length (payload_of file spec)" "k = min quantum (length (payload_of file spec) - p)"
  shows "frames_Next file \<lparr>pc_ctx = True, pc_paced = True\<rparr> (frames_at spec lp quantum p pts) =
    (Inr (take k (drop p (payload_of file spec)), pts), frames_at spec lp quantum (p + k) (pts + int k * 62500))"
proof -
  let ?n = "length (payload_of file spec)" and ?off = "ws_dataOffset spec" and ?b = "ws_dataBytes spec"
  let ?part = "subslice file (?off + 2 * p) (?off + 2 * p + k * 2)"
  have b: "?b = 2 * ?n" "?off + ?b \<le> length file" "0 < quantum" "int quantum \<le> max_samples"
    using assms(1) payload_length [OF assms(1)] by (auto simp: play_ok_def)
  have k: "p + k \<le> ?n" "(?b - 2 * p) div 2 = ?n - p" "k \<le> quantum" using assms(2,3) b(1) by auto
  have r: "readAt file (k * 2) (?off + 2 * p) = Some ?part" using k b by (simp add: readAt_def)
  have "subslice (subslice file ?off (?off + ?b)) (2 * p) (2 * (p + k)) = ?part"
    using subslice_subslice [of "2 * (p + k)" "?off + ?b" ?off "file" "2 * p"] k b by (simp add: add.assoc mult.commute)
  moreover have l: "length (subslice file ?off (?off + ?b)) = ?b" using length_subslice [OF b(2), of ?off] by (simp only: add_diff_cancel_left')
  have "2 * (p + k) \<le> 2 * ?n" using k(1) by simp
  then have "2 * (p + k) \<le> ?b" by (simp only: b(1))
  then have "2 * (p + k) \<le> length (subslice file ?off (?off + ?b))" by (simp only: l)
  from bytesToInt16_take_drop [OF _ this, of p]
  have "bytesToInt16 (subslice (subslice file ?off (?off + ?b)) (2 * p) (2 * (p + k))) = take k (drop p (payload_of file spec))"
    by (simp add: payload_of_def)
  moreover have "?off + 2 * p + k * 2 \<le> length file" using k b by linarith
  then have "fst (DecodeS16LE (replicate k 0) ?part) = bytesToInt16 ?part"
    using decode_slice [of "?off + 2 * p + k * 2" "file" "?off + 2 * p"] by simp
  ultimately have d: "fst (DecodeS16LE (replicate k 0) ?part) = take k (drop p (payload_of file spec))" by simp
  have "go_div (wrap64 (int k * second)) SampleRate = durationFor (int k)" by (simp add: durationFor_def)
  also have "\<dots> = int k * 62500" by (rule durationFor_exact) (use k(3) b(4) in simp_all)
  finally have t: "go_div (wrap64 (int k * second)) SampleRate = int k * 62500" .
  have "\<not> fr_pos (frames_at spec lp quantum p pts) \<ge> fr_dataBytes (frames_at spec lp quantum p pts)"
    using assms(2) b(1) by (simp add: frames_at_def newFrames_def)
  moreover have "min quantum ((?b - 2 * p) div 2) = k" using k(2) assms(3) by simp
  ultimately show ?thesis
    using r d t by (simp add: frames_Next_def Let_def frames_at_def newFrames_def add.commute mult.commute)
qed

lemma Next_wraps:
  assumes "play_ok file spec quantum" "p = length (payload_of file spec)"
  shows "frames_Next file \<lparr>pc_ctx = True, pc_paced = True\<rparr> (frames_at spec True quantum p pts) =
    frames_Next file \<lparr>pc_ctx = True, pc_paced = True\<rparr> (frames_at spec True quantum 0 pts)"
proof -
  have "ws_dataBytes spec = 2 * p" "0 < p" using assms payload_length [OF assms(1)] by (auto simp: play_ok_def)
  then show ?thesis by (simp add: frames_Next_def Let_def frames_at_def newFrames_def)
qed

lemma play_prefix:
  assumes "play_ok file spec quantum"
  shows "p \<le> length (payload_of file spec) \<Longrightarrow>
    \<exists>m. prefix (concat (heard (play_run file n (frames_at spec lp quantum p pts))))
          (drop p (payload_of file spec) @ (if lp then concat (replicate m (payload_of file spec)) else []))"
proof (induction n arbitrary: p pts)
  case (Suc n)
  let ?x = "payload_of file spec"
  have x: "0 < length ?x" using assms payload_length [OF assms] by (auto simp: play_ok_def)
  have go: "\<exists>m. prefix (concat (heard (play_run file (Suc n) (frames_at spec lp quantum p pts))))
          (drop p ?x @ (if lp then concat (replicate m ?x) else []))" if p: "p < length ?x" for p
  proof -
    define k where "k = min quantum (length ?x - p)"
    let ?Z = "\<lambda>m. if lp then concat (replicate m ?x) else []"
    have "p + k \<le> length ?x" using p by (simp add: k_def)
    from Suc.IH [OF this, of "pts + int k * 62500"] obtain m where
      m: "prefix (concat (heard (play_run file n (frames_at spec lp quantum (p + k) (pts + int k * 62500))))) (drop (p + k) ?x @ ?Z m)" by blast
    have "drop p ?x = take k (drop p ?x) @ drop (p + k) ?x" by (metis append_take_drop_id drop_drop add.commute)
    then have "drop p ?x @ ?Z m = take k (drop p ?x) @ drop (p + k) ?x @ ?Z m" by (metis append.assoc)
    moreover have "concat (heard (play_run file (Suc n) (frames_at spec lp quantum p pts))) =
        take k (drop p ?x) @ concat (heard (play_run file n (frames_at spec lp quantum (p + k) (pts + int k * 62500))))"
      using Next_frame [OF assms p k_def, of lp pts] by (simp)
    ultimately show ?thesis using m by (intro exI [of _ m]) (simp only: same_prefix_prefix)
  qed
  show ?case
  proof (cases "p < length ?x")
    case False
    then have p: "p = length ?x" using Suc.prems by simp
    show ?thesis
    proof (cases lp)
      case True
      then have "play_run file (Suc n) (frames_at spec lp quantum p pts) = play_run file (Suc n) (frames_at spec lp quantum 0 pts)"
        using Next_wraps [OF assms p, of pts] by simp
      moreover obtain m where "prefix (concat (heard (play_run file (Suc n) (frames_at spec lp quantum 0 pts))))
          (drop 0 ?x @ (if lp then concat (replicate m ?x) else []))" using go [OF x] by blast
      ultimately show ?thesis using p True by (intro exI [of _ "Suc m"]) simp
    next
      case False
      have e: "frames_Next file \<lparr>pc_ctx = True, pc_paced = True\<rparr> (frames_at spec False quantum p pts) =
          (Inl PlayEOF, (frames_at spec False quantum p pts)\<lparr>fr_closed := True\<rparr>)"
        using p assms payload_length [OF assms] by (auto simp: frames_Next_def frames_at_def newFrames_def play_ok_def)
      have "heard (play_run file (Suc n) (frames_at spec False quantum p pts)) = []" by (simp add: e closed_is_silent)
      then show ?thesis using False by simp
    qed
  qed (rule go)
qed simp

lemma play_gapless:
  assumes "play_ok file spec quantum"
  shows "p \<le> length (payload_of file spec) \<Longrightarrow> gapless pts (play_run file n (frames_at spec lp quantum p pts))"
proof (induction n arbitrary: p pts)
  case (Suc n)
  let ?x = "payload_of file spec"
  have x: "0 < length ?x" using assms payload_length [OF assms] by (auto simp: play_ok_def)
  have go: "gapless pts (play_run file (Suc n) (frames_at spec lp quantum p pts))" if p: "p < length ?x" for p
  proof -
    define k where "k = min quantum (length ?x - p)"
    have k: "p + k \<le> length ?x" using p by (simp add: k_def)
    have "gapless (pts + int k * 62500) (play_run file n (frames_at spec lp quantum (p + k) (pts + int k * 62500)))" by (rule Suc.IH [OF k])
    moreover have "length (take k (drop p ?x)) = k" using k by simp
    ultimately show ?thesis using Next_frame [OF assms p k_def, of lp pts] by simp
  qed
  show ?case
  proof (cases "p < length ?x")
    case False
    then have p: "p = length ?x" using Suc.prems by simp
    show ?thesis
    proof (cases lp)
      case True
      then show ?thesis using Next_wraps [OF assms p, of pts] go [OF x] by simp
    next
      case False
      have "frames_Next file \<lparr>pc_ctx = True, pc_paced = True\<rparr> (frames_at spec False quantum p pts) =
          (Inl PlayEOF, (frames_at spec False quantum p pts)\<lparr>fr_closed := True\<rparr>)"
        using p assms payload_length [OF assms] by (auto simp: frames_Next_def frames_at_def newFrames_def play_ok_def)
      then show ?thesis using False by (simp add: closed_is_gapless)
    qed
  qed (rule go)
qed simp

section \<open>Resampling\<close>

lemma gcd_loop_gcd: "gcd_loop a b = gcd a b"
proof (induction a b rule: gcd_loop.induct)
  case (1 a b)
  then show ?case
    by (cases "b = 0") (simp add: gcd_loop.simps [of a 0], simp add: gcd_loop.simps [of a b] gcd_red_nat [of a b])
qed

text \<open>What an output sample is: the taps around its instant, in order, each product and sum rounded.\<close>

definition weighted_sum :: "fpu \<Rightarrow> sample list \<Rightarrow> nat \<Rightarrow> rat list \<Rightarrow> rat" where
  "weighted_sum p inp base row =
     fold (\<lambda>(tap, w) s. fp_rnd p (s + fp_rnd p (of_int (sint (inp ! nat (held_index (length inp) base tap))) * w))) (enumerate 0 row) 0"

lemma held_in_range: "inp \<noteq> [] \<Longrightarrow> 0 \<le> held_index (length inp) base tap \<and> nat (held_index (length inp) base tap) < length inp"
  by (cases inp) (auto simp: held_index_def)

lemma convolve_fold:
  "inp \<noteq> [] \<Longrightarrow> convolve p inp base tap row s =
     Some (fold (\<lambda>(tap, w) s. fp_rnd p (s + fp_rnd p (of_int (sint (inp ! nat (held_index (length inp) base tap))) * w))) (enumerate tap row) s)"
proof (induction row arbitrary: tap s)
  case (Cons w ws)
  then show ?case using held_in_range [of inp base tap] by (simp add: index_def Let_def)
qed simp

lemma length_sinc_row [simp]: "length (fillSincRow p cutoff shift) = resampleTaps"
  by (simp add: fillSincRow_def Let_def)

lemma slice_concat:
  assumes "\<And>i. length (f i) = n"
  shows "i < m \<Longrightarrow> slice (concat (map f [0..<m])) (i * n) ((i + 1) * n) = Some (f i)"
proof -
  assume i: "i < m"
  have "[0..<m] = [0..<i] @ i # [Suc i..<m]" using i by (metis le_add_diff_inverse less_imp_le_nat upt_add_eq_append upt_conv_Cons zero_le)
  then have c: "concat (map f [0..<m]) = concat (map f [0..<i]) @ f i @ concat (map f [Suc i..<m])" by simp
  have "length (concat (map f [0..<i])) = i * n" using assms by (induction i) simp_all
  then show ?thesis using assms [of i] by (simp add: slice_def c)
qed

lemma resample_loop_exact:
  assumes "inp \<noteq> []" "0 < rk_phases k" "\<And>phase. phase < rk_phases k \<Longrightarrow> kernel_row k phase = Some (row phase)"
  shows "base * rk_phases k + phase = i * rk_step k \<Longrightarrow> phase < rk_phases k \<Longrightarrow>
    resample_loop p k inp n base phase =
      Some (map (\<lambda>j. clampSample (weighted_sum p inp (j * rk_step k div rk_phases k) (row (j * rk_step k mod rk_phases k)))) [i..<i + n])"
proof (induction n arbitrary: i base phase)
  case (Suc n)
  have at: "i * rk_step k div rk_phases k = base" "i * rk_step k mod rk_phases k = phase"
    using Suc.prems by (simp_all flip: Suc.prems(1))
  have "(base + (phase + rk_step k) div rk_phases k) * rk_phases k + (phase + rk_step k) mod rk_phases k = Suc i * rk_step k"
    using Suc.prems(1) div_mult_mod_eq [of "phase + rk_step k" "rk_phases k"] by (simp add: distrib_right)
  moreover have "(phase + rk_step k) mod rk_phases k < rk_phases k" using assms(2) by simp
  moreover have "kernel_at p k inp base phase = Some (clampSample (weighted_sum p inp base (row phase)))"
    using assms(3) [OF Suc.prems(2)] by (simp add: kernel_at_def convolve_fold [OF assms(1)] weighted_sum_def)
  ultimately show ?case using Suc.IH [of "base + (phase + rk_step k) div rk_phases k" "(phase + rk_step k) mod rk_phases k" "Suc i"] at
    by (simp add: Let_def upt_conv_Cons del: upt_Suc)
qed simp

lemma resample_exact:
  assumes "inp \<noteq> []" "0 < from_rate" "0 < to_rate" "from_rate \<noteq> to_rate"
  defines "g \<equiv> gcd from_rate to_rate"
  shows "resamplePCM p inp from_rate to_rate = Some (map (\<lambda>i. clampSample (weighted_sum p inp (i * from_rate div to_rate)
     (fillSincRow p (fp_rnd p (resampleCutoff * min 1 (fp_rnd p (of_nat to_rate / of_nat from_rate))))
       (fp_rnd p (of_nat (i * from_rate mod to_rate div g) / of_nat (to_rate div g)))))) [0..<length inp * to_rate div from_rate])"
proof -
  let ?k = "newResampleKernel p from_rate to_rate"
  let ?row = "\<lambda>phase. fillSincRow p (fp_rnd p (resampleCutoff * min 1 (fp_rnd p (of_nat to_rate / of_nat from_rate))))
       (fp_rnd p (of_nat phase / of_nat (to_rate div g)))"
  have g: "0 < g" "to_rate = to_rate div g * g" "from_rate = from_rate div g * g" using assms by simp_all
  have k: "rk_step ?k = from_rate div g" "rk_phases ?k = to_rate div g"
    "rk_rows ?k = concat (map ?row [0..<to_rate div g])"
    by (simp_all add: newResampleKernel_def gcd_loop_gcd Let_def g_def)
  have ph: "0 < to_rate div g" using g(2) assms(3) by (metis mult_is_0 not_gr_zero)
  have r: "phase < rk_phases ?k \<Longrightarrow> kernel_row ?k phase = Some (?row phase)" for phase
    using slice_concat [of ?row resampleTaps phase "to_rate div g"] by (simp add: kernel_row_def k)
  have pos: "i * (from_rate div g) div (to_rate div g) = i * from_rate div to_rate"
    "i * (from_rate div g) mod (to_rate div g) = i * from_rate mod to_rate div g" for i
  proof -
    have e: "i * from_rate = i * (from_rate div g) * g" using g(3) by (metis mult.assoc)
    have "i * (from_rate div g) * g div (to_rate div g * g) = i * (from_rate div g) div (to_rate div g)" using g(1) by simp
    then show "i * (from_rate div g) div (to_rate div g) = i * from_rate div to_rate" using e g(2) by metis
    have "i * (from_rate div g) * g mod (to_rate div g * g) = i * (from_rate div g) mod (to_rate div g) * g" by (rule mod_mult_mult2)
    then have "i * from_rate mod to_rate = i * (from_rate div g) mod (to_rate div g) * g" using e g(2) by metis
    then show "i * (from_rate div g) mod (to_rate div g) = i * from_rate mod to_rate div g" using g(1) by simp
  qed
  have "resample_loop p ?k inp n 0 0 = Some (map (\<lambda>j. clampSample (weighted_sum p inp (j * rk_step ?k div rk_phases ?k) (?row (j * rk_step ?k mod rk_phases ?k)))) [0..<0 + n])" for n
    by (rule resample_loop_exact [OF assms(1)]) (use ph r k in simp_all)
  then show ?thesis using assms(1,4) by (simp add: resamplePCM_def k pos)
qed

lemma round_near: "\<bar>of_int (math_Round x) - x\<bar> \<le> 1 / 2"
proof -
  have f: "of_int \<lfloor>y\<rfloor> \<le> y" "y < of_int \<lfloor>y\<rfloor> + 1" for y :: rat
    using floor_correct [of y] by simp_all
  show ?thesis
  proof (cases "0 \<le> x")
    case True
    then have "math_Round x = \<lfloor>x + 1 / 2\<rfloor>" by (simp add: math_Round_def)
    then show ?thesis using f [of "x + 1 / 2"] unfolding abs_le_iff by linarith
  next
    case False
    then have "of_int (math_Round x) = - (of_int \<lfloor>1 / 2 - x\<rfloor> :: rat)" by (simp add: math_Round_def)
    then show ?thesis using f [of "1 / 2 - x"] unfolding abs_le_iff by linarith
  qed
qed

text \<open>In range a sample is the nearest code; beyond it is the last one, never a wrap.\<close>

lemma clamp_near:
  "sint (clampSample v) = max (- 32768) (min 32767 (math_Round v))"
proof -
  have "sint (word_of_int r :: sample) = r" if "- 32768 \<le> r" "r < 32768" for r
    using that by (simp add: int_word_sint)
  moreover have "sint (32767 :: sample) = 32767" "sint (- 32768 :: sample) = - 32768" by simp_all
  ultimately show ?thesis by (auto simp: clampSample_def Let_def max_def min_def)
qed

section \<open>Properties\<close>

text \<open>What the engine wraps for whisper reads back as the same samples and rate, up to the 32-bit size of the container.\<close>

lemma wav_round_trip:
  assumes "pcm \<noteq> []" and "0 < rate" and "rate \<le> 384000" and "36 + length pcm * 2 < 2 ^ 32"
  shows "decodePCM16WAV (encodeWAV pcm rate) = Inr (pcm, rate)"
  using decode_encode [OF assms(1-3)] assms(4) by simp

definition demo_pcm :: "sample list" where "demo_pcm = [1, - 2, 300]"

lemma wav_round_trip_witness: "decodePCM16WAV (encodeWAV demo_pcm 22050) = Inr (demo_pcm, 22050)"
  using wav_round_trip [of demo_pcm 22050] by (simp add: demo_pcm_def)

text \<open>C39: a file that the source inspector accepts and that its RIFF size covers is accepted by the engine's parser too,
  and both find the same samples at 16 kHz.\<close>

theorem two_readers_agree:
  assumes "inspectWAV file (length file) = Inr spec" and "get32 file 4 + 8 = length file"
  shows "decodePCM16WAV file = Inr (payload_of file spec, 16000) \<and>
    ws_dataOffset spec + ws_dataBytes spec \<le> length file \<and> length (payload_of file spec) * 2 = ws_dataBytes spec"
proof -
  have "length (payload_of file spec) * 2 = ws_dataBytes spec"
    using inspected_decodes(2,4) [OF assms] length_subslice [of "ws_dataOffset spec + ws_dataBytes spec" "file" "ws_dataOffset spec"]
    by (simp add: payload_of_def bytesToInt16_def)
  then show ?thesis using inspected_decodes [OF assms] by (simp add: payload_of_def)
qed

definition demo_wav :: "byte list" where "demo_wav = encodeWAV demo_pcm 16000"

definition demo_spec :: wavSpec where "demo_spec = \<lparr>ws_dataOffset = 44, ws_dataBytes = 6\<rparr>"

lemma demo_inspected: "inspectWAV demo_wav (length demo_wav) = Inr demo_spec" "get32 demo_wav 4 + 8 = length demo_wav"
proof -
  have "36 + length demo_pcm * 2 < 4294967296 - 8" "demo_pcm \<noteq> []" "2 * length demo_pcm = 6" by (simp_all add: demo_pcm_def)
  then show "inspectWAV demo_wav (length demo_wav) = Inr demo_spec" using encoded_inspects [of demo_pcm] by (simp add: demo_wav_def demo_spec_def)
  show "get32 demo_wav 4 + 8 = length demo_wav" using encode_envelope(1,2) [of demo_pcm 16000] by (simp add: demo_wav_def demo_pcm_def)
qed

lemma demo_payload: "payload_of demo_wav demo_spec = demo_pcm"
proof -
  have "decodePCM16WAV demo_wav = Inr (demo_pcm, 16000)" using decode_encode [of demo_pcm 16000] by (simp add: demo_wav_def demo_pcm_def)
  then show ?thesis using inspected_decodes(1) [OF demo_inspected] by (simp add: payload_of_def)
qed

theorem two_readers_agree_witness: "decodePCM16WAV demo_wav = Inr (payload_of demo_wav demo_spec, 16000) \<and> length (payload_of demo_wav demo_spec) = 3"
  using two_readers_agree [OF demo_inspected] by (simp add: demo_spec_def)

text \<open>Playing an accepted file delivers its samples in order and without a gap in their instants, whatever the
  quantum: the whole file at most, or the file over and over when it loops.\<close>

lemma file_plays_in_order:
  assumes "inspectWAV file (length file) = Inr spec" and "get32 file 4 + 8 = length file" and "0 < quantum" and "int quantum \<le> max_samples"
  shows "gapless 0 (play_run file n (newFrames spec lp quantum)) \<and>
    (\<exists>m. prefix (concat (heard (play_run file n (newFrames spec lp quantum))))
       (if lp then concat (replicate m (payload_of file spec)) else payload_of file spec))"
proof -
  have ok: "play_ok file spec quantum" using inspected_decodes(2-4) [OF assms(1,2)] assms(3,4) by (simp add: play_ok_def)
  have f: "newFrames spec lp quantum = frames_at spec lp quantum 0 0" by (simp add: frames_at_def newFrames_def)
  obtain m where "prefix (concat (heard (play_run file n (newFrames spec lp quantum))))
      (drop 0 (payload_of file spec) @ (if lp then concat (replicate m (payload_of file spec)) else []))"
    using play_prefix [OF ok, of 0 n lp 0] f by auto
  then have "\<exists>m. prefix (concat (heard (play_run file n (newFrames spec lp quantum))))
      (if lp then concat (replicate m (payload_of file spec)) else payload_of file spec)"
    by (cases lp) (auto intro: exI [of _ "Suc m"])
  then show ?thesis using play_gapless [OF ok, of 0 0 n lp] f by simp
qed

lemma file_plays_in_order_witness:
  "heard (play_run demo_wav 3 (newFrames demo_spec True 2)) = [[1, - 2], [300], [1, - 2]] \<and>
   gapless 0 (play_run demo_wav 3 (newFrames demo_spec True 2))"
proof -
  have ok: "play_ok demo_wav demo_spec 2"
    using inspected_decodes(2-4) [OF demo_inspected] by (simp add: play_ok_def max_samples_def)
  have f: "newFrames demo_spec True 2 = frames_at demo_spec True 2 0 0" by (simp add: frames_at_def newFrames_def)
  have s: "frames_Next demo_wav \<lparr>pc_ctx = True, pc_paced = True\<rparr> (frames_at demo_spec True 2 0 t) = (Inr ([1, - 2], t), frames_at demo_spec True 2 2 (t + 125000))"
    "frames_Next demo_wav \<lparr>pc_ctx = True, pc_paced = True\<rparr> (frames_at demo_spec True 2 2 t) = (Inr ([300], t), frames_at demo_spec True 2 3 (t + 62500))"
    "frames_Next demo_wav \<lparr>pc_ctx = True, pc_paced = True\<rparr> (frames_at demo_spec True 2 3 t) = frames_Next demo_wav \<lparr>pc_ctx = True, pc_paced = True\<rparr> (frames_at demo_spec True 2 0 t)"
    for t
    using Next_frame [OF ok, of 0 2 True t] Next_frame [OF ok, of 2 1 True t] Next_wraps [OF ok, of 3 t]
    by (simp_all add: demo_payload demo_pcm_def numeral_2_eq_2 numeral_3_eq_3)
  have "heard (play_run demo_wav (Suc (Suc (Suc 0))) (newFrames demo_spec True 2)) = [[1, - 2], [300], [1, - 2]]"
    by (simp add: f s)
  then have "heard (play_run demo_wav 3 (newFrames demo_spec True 2)) = [[1, - 2], [300], [1, - 2]]"
    by (simp only: numeral_3_eq_3)
  then show ?thesis using file_plays_in_order [OF demo_inspected, of 2 3 True] by (simp add: max_samples_def)
qed

text \<open>C40: the resampler never panics and never drifts: output sample \<open>i\<close> is the kernel of its exact fractional offset applied
  at its exact instant \<open>i * from / to\<close> of the input, for a take of any length.\<close>

theorem resampler_never_drifts:
  assumes "inp \<noteq> []" and "0 < from_rate" and "0 < to_rate" and "from_rate \<noteq> to_rate"
  shows "resamplePCM p inp from_rate to_rate = Some (map (\<lambda>i. clampSample (weighted_sum p inp (i * from_rate div to_rate)
     (fillSincRow p (fp_rnd p (resampleCutoff * min 1 (fp_rnd p (of_nat to_rate / of_nat from_rate))))
       (fp_rnd p (of_nat (i * from_rate mod to_rate div gcd from_rate to_rate) / of_nat (to_rate div gcd from_rate to_rate))))))
     [0..<length inp * to_rate div from_rate])"
  by (rule resample_exact [OF assms])

theorem resampler_never_drifts_witness: "\<forall>p. map_option length (resamplePCM p demo_pcm 24000 16000) = Some 2"
proof
  fix p show "map_option length (resamplePCM p demo_pcm 24000 16000) = Some 2"
    using resampler_never_drifts [of demo_pcm 24000 16000 p] by (simp add: demo_pcm_def)
qed

end
