(* ===== verification/Ingest.thy ===== *)
theory Ingest
  imports Wav
begin

text \<open>
  \<^verbatim>\<open>internal/media/ingest/stream/\<close>: the frames read from the pipe of an ffmpeg process, and the retry that absorbs the start-up
  failures of a capture device. The process, its exit and the clock are arguments; the reader of \<open>Next\<close>, \<open>Close\<close> and
  the cancellations are the steps of \<open>startup_step\<close>.
\<close>

section \<open>Frames of a pipe\<close>

datatype pipe_error = PipeEOF | PipeUnexpectedEOF | PipeFailed nat

text \<open>A truncated sample is joined with an error that is not the plain end of the pipe.\<close>

datatype read_error = NilError | ReadError pipe_error | Truncated | TruncatedAfter nat

datatype frame_error = FrameEOF | FrameCanceled | FrameClosedPipe | FrameRead read_error | FrameExited nat

text \<open>\<open>sf_pipe\<close> is what the pipe still holds, \<open>sf_pipe_end\<close> the error behind it.\<close>

record stream_frames =
  st_pipe :: "byte list"
  st_pipe_end :: pipe_error
  st_pending :: "read_error option"
  st_terminal :: "frame_error option"
  st_pts :: duration
  st_closed :: bool
  st_quantum :: nat

definition newFramesWithSamples :: "byte list \<Rightarrow> pipe_error \<Rightarrow> nat \<Rightarrow> stream_frames" where
  "newFramesWithSamples pipe e quantum =
     \<lparr>st_pipe = pipe, st_pipe_end = e, st_pending = None, st_terminal = None, st_pts = 0, st_closed = False, st_quantum = quantum\<rparr>"

text \<open>\<open>io.ReadFull\<close>: a short read that got something turns the plain end into an unexpected one.\<close>

definition ReadFull :: "nat \<Rightarrow> byte list \<Rightarrow> pipe_error \<Rightarrow> byte list \<times> pipe_error option \<times> byte list" where
  "ReadFull n pipe e =
     (if n \<le> length pipe then (take n pipe, None, drop n pipe)
      else (pipe, Some (if pipe \<noteq> [] \<and> e = PipeEOF then PipeUnexpectedEOF else e), []))"

definition end_with :: "frame_error \<Rightarrow> stream_frames \<Rightarrow> (frame_error + sample list \<times> duration) \<times> stream_frames" where
  "end_with e f = (Inl e, f\<lparr>st_terminal := Some e\<rparr>)"

text \<open>What a call meets: its context before and after the read, and the cached result of closing the source.\<close>

record next_call =
  nc_before :: bool
  nc_after :: bool
  nc_close :: "nat option"

definition plain_end :: "read_error \<Rightarrow> bool" where
  "plain_end e \<longleftrightarrow> e = ReadError PipeEOF \<or> e = ReadError PipeUnexpectedEOF"

definition frames_finish :: "next_call \<Rightarrow> bool \<Rightarrow> read_error \<Rightarrow> stream_frames \<Rightarrow> (frame_error + sample list \<times> duration) \<times> stream_frames" where
  "frames_finish call live e f0 =
     (let f = f0\<lparr>st_closed := True\<rparr>
      in if \<not> plain_end e then end_with (FrameRead e) f
         else if \<not> live then end_with FrameCanceled f
         else case nc_close call of Some x \<Rightarrow> end_with (FrameExited x) f | None \<Rightarrow> end_with FrameEOF f)"

definition deferReadError :: "nat \<Rightarrow> pipe_error option \<Rightarrow> stream_frames \<Rightarrow> nat \<times> stream_frames" where
  "deferReadError n e f =
     (n - n mod 2,
      if odd n then f\<lparr>st_pending := Some (case e of Some (PipeFailed x) \<Rightarrow> TruncatedAfter x | _ \<Rightarrow> Truncated)\<rparr>
      else case e of None \<Rightarrow> f | Some x \<Rightarrow> f\<lparr>st_pending := Some (ReadError x)\<rparr>)"

definition stream_Next :: "next_call \<Rightarrow> stream_frames \<Rightarrow> (frame_error + sample list \<times> duration) \<times> stream_frames" where
  "stream_Next call f =
     (case st_terminal f of
        Some e \<Rightarrow> (Inl e, f)
      | None \<Rightarrow> (case st_pending f of
          Some e \<Rightarrow> frames_finish call (nc_before call) e (f\<lparr>st_pending := None\<rparr>)
        | None \<Rightarrow>
            if \<not> nc_before call then end_with FrameCanceled (f\<lparr>st_closed := True\<rparr>)
            else if st_closed f then end_with FrameClosedPipe f
            else (case ReadFull (st_quantum f * 2) (st_pipe f) (st_pipe_end f) of (raw, e, rest) \<Rightarrow>
              let f1 = f\<lparr>st_pipe := rest\<rparr>
              in if \<not> nc_after call then end_with FrameCanceled (f1\<lparr>st_closed := True\<rparr>)
                 else if raw = [] then frames_finish call True (case e of None \<Rightarrow> NilError | Some x \<Rightarrow> ReadError x) f1
                 else (case deferReadError (length raw) e f1 of (usable, f2) \<Rightarrow>
                   if usable = 0 then
                     frames_finish call True (case st_pending f2 of None \<Rightarrow> NilError | Some x \<Rightarrow> x) (f2\<lparr>st_pending := None\<rparr>)
                   else
                     let decoded = DecodeS16LE (replicate (st_quantum f) 0) (take usable raw);
                         samples = snd decoded
                     in (Inr (take samples (fst decoded), st_pts f2),
                         f2\<lparr>st_pts := st_pts f2 + go_div (wrap64 (int samples * second)) SampleRate\<rparr>)))))"

fun stream_run :: "nat \<Rightarrow> stream_frames \<Rightarrow> (frame_error + sample list \<times> duration) list" where
  "stream_run 0 f = []"
| "stream_run (Suc n) f = (case stream_Next \<lparr>nc_before = True, nc_after = True, nc_close = None\<rparr> f of (r, f') \<Rightarrow> r # stream_run n f')"

section \<open>The retry of a device's start\<close>

definition deviceStartupMaxRetries :: nat where "deviceStartupMaxRetries = 4"
definition deviceStartupRetryBase :: duration where "deviceStartupRetryBase = 200 * millisecond"
definition deviceStartupRetryMax :: duration where "deviceStartupRetryMax = 1200 * millisecond"

definition deviceStartupRetryDelay :: "int \<Rightarrow> duration" where
  "deviceStartupRetryDelay retry = min (wrap64 (deviceStartupRetryBase * 2 ^ nat (max 0 (retry - 1)))) deviceStartupRetryMax"

text \<open>
  Attempts are numbered as they are opened. The reader is where \<open>Next\<close> stands, the closer where the one call that
  retires the frames stands. A failure is retryable or not; the first frame's deadline is a retryable one that only an
  undelivered source meets.
\<close>

datatype startup_error = StartClosed | StartNoProcess | StartCanceled | StartFailed bool | StartOpen

datatype reader_stage =
    ReadIdle
  | ReadLoop
  | ReadFrame nat
  | ReadFailing nat bool
  | ReadShut nat bool
  | ReadJudging bool
  | ReadWaiting
  | ReadOpening
  | ReadOpened nat

datatype closer_stage = CloseIdle | CloseCanceled | CloseTook "nat option" | CloseDone

record startup =
  su_opened :: nat
  su_shut :: "nat set"
  su_current :: "nat option"
  su_retries :: nat
  su_delivered :: bool
  su_closed :: bool
  su_ctx :: bool
  su_call :: bool
  su_terminal :: "startup_error option"
  su_reader :: reader_stage
  su_closer :: closer_stage

definition newStartupRetryFrames :: startup where
  "newStartupRetryFrames = \<lparr>su_opened = 1, su_shut = {}, su_current = Some 0, su_retries = 0, su_delivered = False, su_closed = False,
     su_ctx = True, su_call = True, su_terminal = None, su_reader = ReadIdle, su_closer = CloseIdle\<rparr>"

definition setTerminal :: "startup_error \<Rightarrow> startup \<Rightarrow> startup" where
  "setTerminal e s = s\<lparr>su_terminal := (case su_terminal s of None \<Rightarrow> Some e | Some e' \<Rightarrow> Some e'), su_reader := ReadIdle\<rparr>"

definition activeAttempt :: "startup \<Rightarrow> startup" where
  "activeAttempt s =
     (if su_terminal s \<noteq> None then s\<lparr>su_reader := ReadIdle\<rparr>
      else if su_closed s then s\<lparr>su_reader := ReadIdle\<rparr>
      else case su_current s of
        None \<Rightarrow> setTerminal StartNoProcess s
      | Some a \<Rightarrow> s\<lparr>su_reader := ReadFrame a\<rparr>)"

definition reserveRetry :: "nat \<Rightarrow> bool \<Rightarrow> startup \<Rightarrow> startup" where
  "reserveRetry maxRetries retryable s =
     (if su_closed s \<or> \<not> su_ctx s then setTerminal StartClosed s
      else if su_delivered s \<or> su_retries s \<ge> maxRetries \<or> \<not> retryable then setTerminal (StartFailed retryable) s
      else s\<lparr>su_retries := Suc (su_retries s), su_reader := ReadWaiting\<rparr>)"

definition judge_failure :: "nat \<Rightarrow> bool \<Rightarrow> startup \<Rightarrow> startup" where
  "judge_failure maxRetries retryable s =
     (if \<not> su_call s then setTerminal StartCanceled s else reserveRetry maxRetries retryable s)"

definition publish_attempt :: "nat \<Rightarrow> startup \<Rightarrow> startup" where
  "publish_attempt a s =
     (if su_closed s \<or> \<not> su_ctx s \<or> \<not> su_call s then setTerminal StartClosed (s\<lparr>su_shut := insert a (su_shut s)\<rparr>)
      else s\<lparr>su_current := Some a, su_reader := ReadLoop\<rparr>)"

inductive startup_step :: "nat \<Rightarrow> startup \<Rightarrow> startup \<Rightarrow> bool" for maxRetries where
  calls: "su_reader s = ReadIdle \<Longrightarrow> startup_step maxRetries s (s\<lparr>su_reader := ReadLoop, su_call := live\<rparr>)"
| looks: "su_reader s = ReadLoop \<Longrightarrow> startup_step maxRetries s (activeAttempt s)"
| frame: "su_reader s = ReadFrame a \<Longrightarrow> startup_step maxRetries s (s\<lparr>su_delivered := True, su_reader := ReadIdle\<rparr>)"
| fails: "su_reader s = ReadFrame a \<Longrightarrow> startup_step maxRetries s (s\<lparr>su_reader := ReadFailing a retryable\<rparr>)"
| shuts: "su_reader s = ReadFailing a r \<Longrightarrow> startup_step maxRetries s (s\<lparr>su_shut := insert a (su_shut s), su_reader := ReadShut a r\<rparr>)"
| clears: "su_reader s = ReadShut a r \<Longrightarrow>
    startup_step maxRetries s (s\<lparr>su_current := (if su_current s = Some a then None else su_current s), su_reader := ReadJudging r\<rparr>)"
| judges: "su_reader s = ReadJudging r \<Longrightarrow> startup_step maxRetries s (judge_failure maxRetries r s)"
| waited: "su_reader s = ReadWaiting \<Longrightarrow> startup_step maxRetries s (s\<lparr>su_reader := ReadOpening\<rparr>)"
| wait_ends: "su_reader s = ReadWaiting \<Longrightarrow> \<not> su_ctx s \<or> \<not> su_call s \<Longrightarrow> startup_step maxRetries s (setTerminal StartCanceled s)"
| open_fails: "su_reader s = ReadOpening \<Longrightarrow> startup_step maxRetries s (setTerminal StartOpen s)"
| opens: "su_reader s = ReadOpening \<Longrightarrow>
    startup_step maxRetries s (s\<lparr>su_opened := Suc (su_opened s), su_reader := ReadOpened (su_opened s)\<rparr>)"
| publishes: "su_reader s = ReadOpened a \<Longrightarrow> startup_step maxRetries s (publish_attempt a s)"
| call_canceled: "startup_step maxRetries s (s\<lparr>su_call := False\<rparr>)"
| parent_canceled: "startup_step maxRetries s (s\<lparr>su_ctx := False\<rparr>)"
| retires: "su_closer s = CloseIdle \<Longrightarrow> startup_step maxRetries s (s\<lparr>su_ctx := False, su_closer := CloseCanceled\<rparr>)"
| takes: "su_closer s = CloseCanceled \<Longrightarrow>
    startup_step maxRetries s (s\<lparr>su_closed := True, su_current := None, su_closer := CloseTook (su_current s)\<rparr>)"
| closed: "su_closer s = CloseTook a \<Longrightarrow>
    startup_step maxRetries s (s\<lparr>su_shut := su_shut s \<union> set_option a, su_closer := CloseDone\<rparr>)"

definition startup_reach :: "nat \<Rightarrow> startup \<Rightarrow> bool" where
  "startup_reach maxRetries = (startup_step maxRetries)\<^sup>*\<^sup>* newStartupRetryFrames"

section \<open>What a pipe delivers\<close>

lemma bytesToInt16_append:
  assumes "even (length a)"
  shows "bytesToInt16 (a @ b) = bytesToInt16 a @ bytesToInt16 b"
proof (rule nth_equalityI)
  obtain k where k: "length a = 2 * k" using assms by blast
  show "length (bytesToInt16 (a @ b)) = length (bytesToInt16 a @ bytesToInt16 b)" by (simp add: bytesToInt16_def k)
  fix i assume "i < length (bytesToInt16 (a @ b))"
  then have i: "i < k + length b div 2" by (simp add: bytesToInt16_def k)
  show "bytesToInt16 (a @ b) ! i = (bytesToInt16 a @ bytesToInt16 b) ! i"
  proof (cases "i < k")
    case True
    then show ?thesis using i by (simp add: bytesToInt16_def k nth_append)
  next
    case False
    then obtain j where j: "i = k + j" by (metis le_add_diff_inverse not_less)
    then have "j < length b div 2" using i by simp
    then show ?thesis using j by (simp add: bytesToInt16_def k nth_append algebra_simps)
  qed
qed

lemma bytesToInt16_even: "bytesToInt16 (take (length p - length p mod 2) p) = bytesToInt16 p"
proof -
  let ?n = "length p - length p mod 2"
  have e: "length p mod 2 \<le> length p" "even ?n" by simp_all
  have "length (take ?n p) = ?n" by (simp add: min_absorb2)
  then have "even (length (take ?n p))" using e(2) by (simp only:)
  from bytesToInt16_append [OF this, of "drop ?n p"]
  have "bytesToInt16 p = bytesToInt16 (take ?n p) @ bytesToInt16 (drop ?n p)" by (simp only: append_take_drop_id)
  moreover have "length (drop ?n p) < 2" using e(1) by simp
  then have "bytesToInt16 (drop ?n p) = []" by (simp add: bytesToInt16_def)
  ultimately show ?thesis by simp
qed

lemma decode_short:
  assumes "length raw \<le> 2 * q" "DecodeS16LE (replicate q 0) raw = (d, n)"
  shows "n = length raw div 2" "take n d = bytesToInt16 raw"
proof -
  have m: "min (length raw div 2) q = length raw div 2" using assms(1) by simp
  show n: "n = length raw div 2" using assms(2) m by (auto simp: DecodeS16LE_eq Let_def)
  have "d = map (\<lambda>i. le16 (raw ! (i * 2)) (raw ! (i * 2 + 1))) [0..<length raw div 2] @ drop (length raw div 2) (replicate q 0)"
    using assms(2) m by (auto simp: DecodeS16LE_eq Let_def)
  then show "take n d = bytesToInt16 raw" by (simp add: n bytesToInt16_def)
qed

lemma done_is_silent: "st_terminal f = Some e \<Longrightarrow> stream_run n f = replicate n (Inl e)"
  by (induction n) (simp_all add: stream_Next_def)

lemma heard_failures [simp]: "heard (replicate n (Inl e)) = []" "gapless t (replicate n (Inl e))"
  by (induction n) simp_all

abbreviation good_call :: next_call where
  "good_call \<equiv> \<lparr>nc_before = True, nc_after = True, nc_close = None\<rparr>"

lemma finish_ends:
  "\<exists>e f'. frames_finish good_call True x f = (Inl e, f') \<and> st_terminal f' = Some e \<and> (e = FrameEOF \<longleftrightarrow> plain_end x)"
  by (auto simp: frames_finish_def end_with_def plain_end_def Let_def)

text \<open>A run whose next call fails ends there, with the plain end exactly after a plain error.\<close>

lemma run_ends:
  assumes "stream_Next good_call f = frames_finish good_call True x f1"
  shows "heard (stream_run n f) = []" "gapless t (stream_run n f)" "Inl FrameEOF \<in> set (stream_run n f) \<Longrightarrow> plain_end x"
proof -
  obtain e f' where e: "frames_finish good_call True x f1 = (Inl e, f')" "st_terminal f' = Some e" "e = FrameEOF \<longleftrightarrow> plain_end x"
    using finish_ends by metis
  have "stream_run n f = replicate n (Inl e)"
    using assms e(1) done_is_silent [OF e(2)] by (cases n) simp_all
  then show "heard (stream_run n f) = []" "gapless t (stream_run n f)" "Inl FrameEOF \<in> set (stream_run n f) \<Longrightarrow> plain_end x"
    using e(3) by (simp_all split: if_splits)
qed

definition stream_open :: "stream_frames \<Rightarrow> bool" where
  "stream_open f \<longleftrightarrow> st_terminal f = None \<and> st_pending f = None \<and> \<not> st_closed f \<and> 0 < st_quantum f \<and> int (st_quantum f) \<le> max_samples"

lemma stream_full:
  assumes "stream_open f" "2 * st_quantum f \<le> length (st_pipe f)"
  shows "stream_Next good_call f = (Inr (bytesToInt16 (take (2 * st_quantum f) (st_pipe f)), st_pts f),
    f\<lparr>st_pipe := drop (2 * st_quantum f) (st_pipe f), st_pts := st_pts f + int (st_quantum f) * 62500\<rparr>)"
proof -
  let ?q = "st_quantum f" and ?raw = "take (2 * st_quantum f) (st_pipe f)"
  have l: "length ?raw = 2 * ?q" "?raw \<noteq> []" using assms by (auto simp: stream_open_def)
  obtain d n where d: "DecodeS16LE (replicate ?q 0) ?raw = (d, n)" by (rule prod.exhaust)
  have n: "n = ?q" "take n d = bytesToInt16 ?raw" using decode_short [OF _ d] l(1) by simp_all
  have "go_div (wrap64 (int ?q * second)) SampleRate = durationFor (int ?q)" by (simp add: durationFor_def)
  also have "\<dots> = int ?q * 62500" by (rule durationFor_exact) (use assms(1) in \<open>simp_all add: stream_open_def\<close>)
  finally have t: "go_div (wrap64 (int ?q * second)) SampleRate = int ?q * 62500" .
  have r: "ReadFull (?q * 2) (st_pipe f) (st_pipe_end f) = (?raw, None, drop (2 * ?q) (st_pipe f))"
    using assms(2) by (simp add: ReadFull_def mult.commute)
  have "deferReadError (2 * ?q) None g = (2 * ?q, g)" for g by (simp add: deferReadError_def)
  then show ?thesis using assms(1) r l d n t by (simp add: stream_Next_def stream_open_def Let_def)
qed

lemma stream_short:
  assumes "stream_open f" "length (st_pipe f) < 2 * st_quantum f"
  shows "(\<exists>x f1. stream_Next good_call f = frames_finish good_call True x f1 \<and> bytesToInt16 (st_pipe f) = [] \<and> (plain_end x \<longrightarrow> st_pipe f = [])) \<or>
    (\<exists>x f1. stream_Next good_call f = (Inr (bytesToInt16 (st_pipe f), st_pts f), f1) \<and> st_terminal f1 = None \<and> st_pending f1 = Some x \<and>
       (plain_end x \<longrightarrow> even (length (st_pipe f))))"
proof (cases "length (st_pipe f) < 2")
  case True
  show ?thesis
  proof (cases "st_pipe f = []")
    case empty: True
    then have "ReadFull (st_quantum f * 2) (st_pipe f) (st_pipe_end f) = ([], Some (st_pipe_end f), [])"
      using assms by (simp add: ReadFull_def stream_open_def)
    then show ?thesis using assms(1) empty by (intro disjI1) (auto simp: stream_Next_def stream_open_def bytesToInt16_def Let_def)
  next
    case False
    then have l: "length (st_pipe f) = 1" using True by (cases "st_pipe f") auto
    obtain e where r: "ReadFull (st_quantum f * 2) (st_pipe f) (st_pipe_end f) = (st_pipe f, Some e, [])"
      using assms l by (simp add: ReadFull_def mult.commute)
    have "deferReadError 1 (Some e) g = (0, g\<lparr>st_pending := Some (case e of PipeFailed x \<Rightarrow> TruncatedAfter x | _ \<Rightarrow> Truncated)\<rparr>)" for g
      by (simp add: deferReadError_def)
    moreover have "\<not> plain_end (case e of PipeFailed x \<Rightarrow> TruncatedAfter x | _ \<Rightarrow> Truncated)" by (simp add: plain_end_def split: pipe_error.split)
    ultimately show ?thesis using assms(1) r l False
      by (intro disjI1) (auto simp: stream_Next_def stream_open_def bytesToInt16_def Let_def)
  qed
next
  case False
  let ?p = "st_pipe f" and ?n = "length (st_pipe f) - length (st_pipe f) mod 2"
  have ne: "?p \<noteq> []" "?n \<noteq> 0" using False by auto
  obtain e where r: "ReadFull (st_quantum f * 2) ?p (st_pipe_end f) = (?p, Some e, [])"
    using assms by (simp add: ReadFull_def mult.commute)
  define x where "x = (if odd (length ?p) then (case e of PipeFailed y \<Rightarrow> TruncatedAfter y | _ \<Rightarrow> Truncated) else ReadError e)"
  have x: "deferReadError (length ?p) (Some e) g = (?n, g\<lparr>st_pending := Some x\<rparr>)" for g by (simp add: x_def deferReadError_def)
  have "plain_end x \<Longrightarrow> even (length ?p)" by (auto simp: x_def plain_end_def split: if_splits pipe_error.splits)
  note x = x this
  obtain d m where d: "DecodeS16LE (replicate (st_quantum f) 0) (take ?n ?p) = (d, m)" by (rule prod.exhaust)
  have "length (take ?n ?p) \<le> 2 * st_quantum f" using assms(2) by simp
  from decode_short(2) [OF this d] have "take m d = bytesToInt16 ?p" by (simp add: bytesToInt16_even)
  then show ?thesis using assms(1) r ne x d
    by (intro disjI2) (simp add: stream_Next_def stream_open_def Let_def)
qed

lemma stream_in_order:
  assumes "stream_open f"
  shows "prefix (concat (heard (stream_run n f))) (bytesToInt16 (st_pipe f)) \<and> gapless (st_pts f) (stream_run n f) \<and>
    (Inl FrameEOF \<in> set (stream_run n f) \<longrightarrow> concat (heard (stream_run n f)) = bytesToInt16 (st_pipe f) \<and> even (length (st_pipe f)))"
  using assms
proof (induction n arbitrary: f)
  case (Suc n)
  let ?q = "st_quantum f" and ?p = "st_pipe f"
  show ?case
  proof (cases "2 * ?q \<le> length ?p")
    case True
    let ?g = "f\<lparr>st_pipe := drop (2 * ?q) ?p, st_pts := st_pts f + int ?q * 62500\<rparr>"
    note step = stream_full [OF Suc.prems True]
    have "stream_open ?g" using Suc.prems by (simp add: stream_open_def)
    note ih = Suc.IH [OF this]
    have l: "length (take (2 * ?q) ?p) = 2 * ?q" using True by simp
    then have s: "bytesToInt16 ?p = bytesToInt16 (take (2 * ?q) ?p) @ bytesToInt16 (drop (2 * ?q) ?p)"
      using bytesToInt16_append [of "take (2 * ?q) ?p" "drop (2 * ?q) ?p"] by simp
    have n: "length (bytesToInt16 (take (2 * ?q) ?p)) = ?q" using l by (simp add: bytesToInt16_def)
    have run: "stream_run (Suc n) f = Inr (bytesToInt16 (take (2 * ?q) ?p), st_pts f) # stream_run n ?g" by (simp add: step)
    have e: "even (length ?p) = even (length (drop (2 * ?q) ?p))" using True by simp
    define rs where "rs = stream_run n ?g"
    define y where "y = bytesToInt16 (drop (2 * ?q) ?p)"
    have "prefix (concat (heard rs)) y" "gapless (st_pts f + int ?q * 62500) rs"
      "Inl FrameEOF \<in> set rs \<Longrightarrow> concat (heard rs) = y \<and> even (length ?p)"
      using ih unfolding rs_def y_def e by simp_all
    then show ?thesis unfolding run s rs_def [symmetric] y_def [symmetric] by (simp add: n)
  next
    case False
    then consider (fails) x f1 where "stream_Next good_call f = frames_finish good_call True x f1" "bytesToInt16 ?p = []" "plain_end x \<longrightarrow> ?p = []"
      | (tail) x f1 where "stream_Next good_call f = (Inr (bytesToInt16 ?p, st_pts f), f1)" "st_terminal f1 = None" "st_pending f1 = Some x"
          "plain_end x \<longrightarrow> even (length ?p)" using stream_short [OF Suc.prems] by fastforce
    then show ?thesis
    proof cases
      case fails
      note r = run_ends [OF fails(1), where n = "Suc n"]
      have "heard (stream_run (Suc n) f) = []" "gapless (st_pts f) (stream_run (Suc n) f)" by (rule r(1)) (rule r(2))
      moreover have "Inl FrameEOF \<in> set (stream_run (Suc n) f) \<Longrightarrow> even (length ?p)" using r(3) fails(3) by auto
      ultimately show ?thesis using fails(2) by (simp del: stream_run.simps)
    next
      case tail
      have "stream_Next good_call f1 = frames_finish good_call True x (f1\<lparr>st_pending := None\<rparr>)" using tail(2,3) by (simp add: stream_Next_def)
      note r = run_ends [OF this, where n = n]
      have run: "stream_run (Suc n) f = Inr (bytesToInt16 ?p, st_pts f) # stream_run n f1" by (simp add: tail(1))
      have "gapless t (stream_run n f1)" for t by (rule r(2))
      moreover have "Inl FrameEOF \<in> set (stream_run n f1) \<longrightarrow> even (length ?p)" using r(3) tail(4) by blast
      ultimately show ?thesis unfolding run using r(1) by simp
    qed
  qed
qed simp

section \<open>Attempts\<close>

fun reader_has :: "reader_stage \<Rightarrow> nat set" where
  "reader_has (ReadOpened a) = {a}"
| "reader_has _ = {}"

fun closer_has :: "closer_stage \<Rightarrow> nat set" where
  "closer_has (CloseTook a) = set_option a"
| "closer_has _ = {}"

fun closing :: "closer_stage \<Rightarrow> bool" where
  "closing CloseIdle = False"
| "closing CloseCanceled = False"
| "closing _ = True"

fun retry_stage :: "reader_stage \<Rightarrow> bool" where
  "retry_stage ReadWaiting = True"
| "retry_stage ReadOpening = True"
| "retry_stage (ReadOpened _) = True"
| "retry_stage _ = False"

fun owed_open :: "reader_stage \<Rightarrow> nat" where
  "owed_open ReadWaiting = 1"
| "owed_open ReadOpening = 1"
| "owed_open _ = 0"

fun reader_ok :: "reader_stage \<Rightarrow> nat option \<Rightarrow> nat set \<Rightarrow> bool" where
  "reader_ok (ReadFrame a) c shut = (c = None \<or> c = Some a)"
| "reader_ok (ReadFailing a _) c shut = (c = None \<or> c = Some a)"
| "reader_ok (ReadShut a _) c shut = ((c = None \<or> c = Some a) \<and> a \<in> shut)"
| "reader_ok (ReadJudging _) c shut = (c = None)"
| "reader_ok ReadWaiting c shut = (c = None)"
| "reader_ok ReadOpening c shut = (c = None)"
| "reader_ok (ReadOpened _) c shut = (c = None)"
| "reader_ok _ c shut = True"

lemma reader_ok_none: "reader_ok r c shut \<Longrightarrow> reader_ok r None (insert a shut)" "reader_ok r c shut \<Longrightarrow> reader_ok r None shut"
  "reader_ok r c shut \<Longrightarrow> shut \<subseteq> shut' \<Longrightarrow> reader_ok r c shut'"
  by (cases r; auto)+

text \<open>Every attempt is shut or someone will shut it; a retry owns no published attempt and nothing was delivered before it.\<close>

definition startup_inv :: "nat \<Rightarrow> startup \<Rightarrow> bool" where
  "startup_inv maxRetries s \<longleftrightarrow>
     {0..<su_opened s} \<subseteq> su_shut s \<union> set_option (su_current s) \<union> reader_has (su_reader s) \<union> closer_has (su_closer s) \<and>
     reader_ok (su_reader s) (su_current s) (su_shut s) \<and> (su_closed s \<longrightarrow> su_current s = None) \<and>
     (closing (su_closer s) \<longrightarrow> su_closed s) \<and> su_opened s + owed_open (su_reader s) \<le> Suc (su_retries s) \<and>
     su_retries s \<le> maxRetries \<and> (retry_stage (su_reader s) \<longrightarrow> \<not> su_delivered s)"

lemmas startup_defs = startup_inv_def

lemma setTerminal_inv:
  assumes "startup_inv m s" "reader_has (su_reader s) \<subseteq> su_shut s"
  shows "startup_inv m (setTerminal e s)"
  using assms by (auto simp: startup_inv_def setTerminal_def)

lemma startup_step_inv:
  assumes "startup_step m s s'" "startup_inv m s"
  shows "startup_inv m s'"
  using assms(1)
proof cases
  case (calls live)
  then show ?thesis using assms(2) by (simp add: startup_defs)
next
  case looks
  then show ?thesis using assms(2) setTerminal_inv [OF assms(2)]
    by (auto simp: activeAttempt_def startup_defs split: option.splits)
next
  case (frame a)
  then show ?thesis using assms(2) by (simp add: startup_defs)
next
  case (fails a r)
  then show ?thesis using assms(2) by (simp add: startup_defs)
next
  case (shuts a r)
  then show ?thesis using assms(2) by (auto simp: startup_defs)
next
  case (clears a r)
  then show ?thesis using assms(2) by (auto simp: startup_defs)
next
  case (judges r)
  then show ?thesis using assms(2) setTerminal_inv [OF assms(2)]
    by (auto simp: judge_failure_def reserveRetry_def startup_defs)
next
  case waited
  then show ?thesis using assms(2) by (auto simp: startup_defs)
next
  case wait_ends
  then show ?thesis using setTerminal_inv [OF assms(2)] by simp
next
  case open_fails
  then show ?thesis using setTerminal_inv [OF assms(2)] by simp
next
  case opens
  have c: "su_current s = None" "{0..<su_opened s} \<subseteq> su_shut s \<union> closer_has (su_closer s)"
    using assms(2) opens(2) by (auto simp: startup_defs)
  have "{0..<Suc (su_opened s)} = insert (su_opened s) {0..<su_opened s}" by auto
  then have "{0..<Suc (su_opened s)} \<subseteq> su_shut s \<union> {su_opened s} \<union> closer_has (su_closer s)" using c(2) by blast
  then show ?thesis using opens assms(2) c(1) by (simp add: startup_defs)
next
  case (publishes a)
  have i: "startup_inv m (s\<lparr>su_shut := insert a (su_shut s)\<rparr>)" using assms(2) publishes(2) by (auto simp: startup_defs)
  have "reader_has (su_reader (s\<lparr>su_shut := insert a (su_shut s)\<rparr>)) \<subseteq> su_shut (s\<lparr>su_shut := insert a (su_shut s)\<rparr>)"
    using publishes(2) by simp
  from setTerminal_inv [OF i this]
  show ?thesis using publishes assms(2) by (auto simp: publish_attempt_def startup_defs split: option.splits)
next
  case call_canceled
  then show ?thesis using assms(2) by (simp add: startup_defs)
next
  case parent_canceled
  then show ?thesis using assms(2) by (simp add: startup_defs)
next
  case retires
  then show ?thesis using assms(2) by (simp add: startup_defs)
next
  case takes
  then show ?thesis using assms(2) by (auto simp: startup_defs intro: reader_ok_none)
next
  case (closed a)
  then show ?thesis using assms(2) by (auto simp: startup_defs intro: reader_ok_none)
qed

lemma startup_reach_inv: "startup_reach m s \<Longrightarrow> startup_inv m s"
  unfolding startup_reach_def
proof (induction rule: rtranclp_induct)
  case base
  show ?case by (auto simp: newStartupRetryFrames_def startup_defs)
qed (rule startup_step_inv)

section \<open>Properties\<close>

text \<open>Reading a pipe delivers its samples in order without a gap in their instants, and an end of file is reported
  only after every byte was delivered: a pipe that ends inside a sample is an error.\<close>

lemma pipe_is_delivered_in_order:
  assumes "0 < quantum" and "int quantum \<le> max_samples"
  shows "prefix (concat (heard (stream_run n (newFramesWithSamples pipe e quantum)))) (bytesToInt16 pipe) \<and>
    gapless 0 (stream_run n (newFramesWithSamples pipe e quantum)) \<and>
    (Inl FrameEOF \<in> set (stream_run n (newFramesWithSamples pipe e quantum)) \<longrightarrow>
       concat (heard (stream_run n (newFramesWithSamples pipe e quantum))) = bytesToInt16 pipe \<and> even (length pipe))"
  using stream_in_order [of "newFramesWithSamples pipe e quantum" n] assms by (simp add: stream_open_def newFramesWithSamples_def)

lemma pipe_is_delivered_in_order_witness:
  "stream_run 3 (newFramesWithSamples [1, 0, 2, 0, 3] PipeEOF 2) = [Inr ([1, 2], 0), Inl (FrameRead Truncated), Inl (FrameRead Truncated)] \<and>
   gapless 0 (stream_run 3 (newFramesWithSamples [1, 0, 2, 0, 3] PipeEOF 2))"
proof -
  have "stream_run 3 (newFramesWithSamples [1, 0, 2, 0, 3] PipeEOF 2) = [Inr ([1, 2], 0), Inl (FrameRead Truncated), Inl (FrameRead Truncated)]"
    by code_simp
  then show ?thesis using pipe_is_delivered_in_order [of 2 3 "[1, 0, 2, 0, 3]" PipeEOF] by (simp add: max_samples_def)
qed

text \<open>C32: however reads, failures, cancellations and \<open>Close\<close> interleave, a device is opened at most once more than the
  retries allow, never again once it has delivered a frame, and when \<open>Close\<close> and \<open>Next\<close> have returned every
  process that was opened has been closed.\<close>

theorem startup_leaks_no_process:
  assumes "startup_reach maxRetries s"
  shows "su_opened s \<le> Suc maxRetries \<and>
    (startup_step maxRetries s s' \<and> su_delivered s \<longrightarrow> su_opened s' = su_opened s) \<and>
    (su_closer s = CloseDone \<and> su_reader s = ReadIdle \<longrightarrow> {0..<su_opened s} \<subseteq> su_shut s)"
proof (intro conjI impI)
  note i = startup_reach_inv [OF assms]
  show "su_opened s \<le> Suc maxRetries" using i by (auto simp: startup_defs)
  show "su_opened s' = su_opened s" if d: "startup_step maxRetries s s' \<and> su_delivered s"
  proof -
    have "startup_step maxRetries s s'" using d by blast
    then show ?thesis
    proof cases
      case opens
      then show ?thesis using i d by (simp add: startup_defs)
    qed (simp_all add: activeAttempt_def setTerminal_def judge_failure_def reserveRetry_def publish_attempt_def split: option.splits)
  qed
  show "{0..<su_opened s} \<subseteq> su_shut s" if "su_closer s = CloseDone \<and> su_reader s = ReadIdle" using i that by (auto simp: startup_defs)
qed

theorem startup_leaks_no_process_witness:
  "\<exists>s. startup_reach 4 s \<and> su_opened s = 2 \<and> su_shut s = {0, 1} \<and> su_opened s \<le> Suc 4"
proof -
  let ?s0 = newStartupRetryFrames
  let ?s1 = "?s0\<lparr>su_reader := ReadLoop, su_call := True\<rparr>"
  let ?s2 = "?s1\<lparr>su_reader := ReadFrame 0\<rparr>"
  let ?s3 = "?s2\<lparr>su_reader := ReadFailing 0 True\<rparr>"
  let ?s4 = "?s3\<lparr>su_shut := {0}, su_reader := ReadShut 0 True\<rparr>"
  let ?s5 = "?s4\<lparr>su_current := None, su_reader := ReadJudging True\<rparr>"
  let ?s6 = "?s5\<lparr>su_retries := 1, su_reader := ReadWaiting\<rparr>"
  let ?s7 = "?s6\<lparr>su_reader := ReadOpening\<rparr>"
  let ?s8 = "?s7\<lparr>su_opened := 2, su_reader := ReadOpened 1\<rparr>"
  let ?s9 = "?s8\<lparr>su_ctx := False, su_closer := CloseCanceled\<rparr>"
  let ?s10 = "?s9\<lparr>su_shut := {0, 1}, su_terminal := Some StartClosed, su_reader := ReadIdle\<rparr>"
  have "startup_step 4 ?s0 ?s1" using startup_step.calls [of ?s0 4 True] by (simp add: newStartupRetryFrames_def)
  moreover have "startup_step 4 ?s1 ?s2" using startup_step.looks [of ?s1 4] by (simp add: newStartupRetryFrames_def activeAttempt_def)
  moreover have "startup_step 4 ?s2 ?s3" using startup_step.fails [of ?s2 0 4 True] by (simp add: newStartupRetryFrames_def)
  moreover have "startup_step 4 ?s3 ?s4" using startup_step.shuts [of ?s3 0 True 4] by (simp add: newStartupRetryFrames_def)
  moreover have "startup_step 4 ?s4 ?s5" using startup_step.clears [of ?s4 0 True 4] by (simp add: newStartupRetryFrames_def)
  moreover have "startup_step 4 ?s5 ?s6"
    using startup_step.judges [of ?s5 True 4] by (simp add: newStartupRetryFrames_def judge_failure_def reserveRetry_def)
  moreover have "startup_step 4 ?s6 ?s7" using startup_step.waited [of ?s6 4] by (simp add: newStartupRetryFrames_def)
  moreover have "startup_step 4 ?s7 ?s8" using startup_step.opens [of ?s7 4] by (simp add: newStartupRetryFrames_def numeral_2_eq_2)
  moreover have "startup_step 4 ?s8 ?s9" using startup_step.retires [of ?s8 4] by (simp add: newStartupRetryFrames_def)
  moreover have "startup_step 4 ?s9 ?s10"
    using startup_step.publishes [of ?s9 1 4] by (simp add: newStartupRetryFrames_def publish_attempt_def setTerminal_def insert_commute)
  ultimately have r: "startup_reach 4 ?s10" unfolding startup_reach_def by (meson rtranclp.rtrancl_into_rtrancl rtranclp.rtrancl_refl)
  have "su_opened ?s10 \<le> Suc 4" using startup_leaks_no_process [OF r] by blast
  moreover have "su_opened ?s10 = 2" "su_shut ?s10 = {0, 1}" by simp_all
  ultimately show ?thesis using r by blast
qed

text \<open>The delays double from a fifth of a second and stay at their cap.\<close>

lemma startup_delays:
  "map deviceStartupRetryDelay [1, 2, 3, 4] = map (\<lambda>ms. ms * millisecond) [200, 400, 800, 1200]"
  by code_simp

end
