(* ===== verification/Spec2Isabelle.thy ===== *)
theory Spec2Isabelle
  imports Prelude Floats Fmt Pcm Playout Track VoiceQueue Lang Commit Lane Session Status Store Runtime Vtt Hls Dispatch Mixer DeviceUrl FfArgs Outputs OutputRuns Feeder Whisper Engine NativeStt Helpers DaemonConfig Routing Wav Ingest
begin

text \<open>
  Prukka dubs live audio. A session names a source and target languages. Its lane feeds the source to a
  recognizer, cuts the partial transcripts into clauses, translates each clause for every target and
  speaks it; captions and voice takes are placed on per-language timelines from which the sinks pull
  windows. The daemon keeps the sessions in a store, runs one lane per session and serves captions, an HLS
  tree and encoded audio. This library models that path; the theories follow it from the samples up.

  \<^item> \<open>Prelude\<close>: machine types, strings as runes, generic lemmas, the collections \<open>go_simps\<close> and
    \<open>inv_intros\<close>. \<open>Floats\<close>: \<open>float64\<close> as rationals with the rounding an argument. \<open>Fmt\<close>: \<open>strconv\<close>
    and \<open>fmt\<close> for integers.
  \<^item> \<open>Pcm\<close> (\<^verbatim>\<open>internal/core/pipeline/pcm.go\<close>, \<^verbatim>\<open>media.go\<close>): conversions between samples and durations with
    their 64-bit wrap, peaks, the packed encoder and its bytewise reference. Products are exact up to
    \<open>max_samples\<close> samples and \<open>max_span\<close> nanoseconds, 160 hours.
  \<^item> \<open>Playout\<close> (\<^verbatim>\<open>playout.go\<close>): the consumer group, and the locale \<open>playout_cursor\<close>, the contract of a
    sink's cursor. It is interpreted on the voice queue and on the mixer.
  \<^item> \<open>Track\<close> (\<^verbatim>\<open>track.go\<close>): the timeline with its floor, fence and trimming. \<open>at_time\<close> is its abstract view,
    a function from instants to samples; \<open>Append_keeps\<close>, \<open>Append_places\<close> and \<open>Window_final\<close> are its laws.
  \<^item> \<open>VoiceQueue\<close> (\<^verbatim>\<open>voicequeue.go\<close>): the queue of a call; \<open>pending\<close> is what a cursor is still owed.
    \<open>Mixer\<close> (\<^verbatim>\<open>mix.go\<close>): the ducked mix of bed and voice, its cursors and their registration. A pull
    composes both tracks: it reserves on the voice what it renders.
  \<^item> \<open>Lang\<close> (\<^verbatim>\<open>internal/core/lang.go\<close>, \<^verbatim>\<open>core/lang/\<close>): tags and the registry.
  \<^item> \<open>Commit\<close> (\<^verbatim>\<open>internal/core/realtime/commit.go\<close>): partials to clauses. Every index is checked, an index
    out of range is the panic \<open>None\<close>; \<open>committer_inv\<close> excludes it.
  \<^item> \<open>Lane\<close> (\<^verbatim>\<open>lane.go\<close>, \<^verbatim>\<open>speak.go\<close>, \<^verbatim>\<open>ports.go\<close>): consuming the transcript, the fan-out to the targets, and
    the two goroutines of a target as the step relation \<open>target_step\<close>. The locale \<open>voice_sink\<close> is what a
    target needs of its sink, interpreted on \<open>Track\<close> and \<open>VoiceQueue\<close>.
  \<^item> \<open>Session\<close>, \<open>Status\<close>, \<open>Store\<close>, \<open>Runtime\<close> (\<^verbatim>\<open>internal/core/session/\<close>): the definition of a session and its
    flags, the published failure text, the registry with subscriptions and generations, and the goroutines
    of the lanes as \<open>rt_step\<close>. \<open>Runtime\<close> runs its commands on the store of \<open>Store\<close>.
  \<^item> \<open>Vtt\<close> and \<open>Hls\<close> (\<^verbatim>\<open>internal/media/egress/vtt\<close>, \<^verbatim>\<open>hls\<close>): layout, document and registry of captions; the
    overlay timers, the subtitle rendition, path resolution and the tree on disk.
  \<^item> \<open>DeviceUrl\<close> (\<^verbatim>\<open>internal/media/deviceurl\<close>) and \<open>FfArgs\<close> (\<^verbatim>\<open>internal/media/ffmpeg\<close>): device targets and
    the argument vectors of the processes.
  \<^item> \<open>Outputs\<close>, \<open>OutputRuns\<close> and \<open>Feeder\<close> (\<^verbatim>\<open>internal/media/egress/audio\<close>): the registry of the live outputs,
    its goroutines as \<open>out_step\<close> with who holds \<open>startMu\<close>, and the feed of one encoder with its recovery. The
    feed is proved against \<open>playout_cursor\<close>.
  \<^item> \<open>Whisper\<close> and \<open>Engine\<close> (\<^verbatim>\<open>internal/speechengine/whisper.go\<close>, \<^verbatim>\<open>stt.go\<close>): the process that turns PCM into
    transcript lines. \<open>Whisper\<close> is its boundary with whisper-server, \<open>Engine\<close> the byte decoder, the endpointer and the
    reader and worker as \<open>stt_step\<close>.
  \<^item> \<open>NativeStt\<close> (\<^verbatim>\<open>internal/providers/native/stt.go\<close>, \<^verbatim>\<open>internal/nativewire\<close>): the daemon's end of that pipe, its source
    timeline and the checks of every line. It is composed with the engine's step relation: no line the engine can write
    breaks a session with a pinned language.
  \<^item> \<open>Helpers\<close> (\<^verbatim>\<open>process.go\<close>, \<^verbatim>\<open>mt.go\<close>, \<^verbatim>\<open>tts.go\<close>): the turns of translation and speech over a shared helper process as
    \<open>helper_step\<close>, and the cache of helpers as \<open>cache_step\<close>.
  \<^item> \<open>DaemonConfig\<close> (\<^verbatim>\<open>internal/core/config\<close>, \<^verbatim>\<open>control/settings.go\<close>): the configuration, its layers, its validation with the
    normal form \<open>config_ok\<close>, and the holder whose writers and operator are \<open>holder_step\<close>.
  \<^item> \<open>Routing\<close> (\<^verbatim>\<open>internal/providers/pivot\<close>, \<^verbatim>\<open>bounded\<close>, \<^verbatim>\<open>internal/lane\<close>): admission, routes through English and their
    warm-up, and the lifetime of a bounded provider as \<open>life_step\<close>. It composes \<open>DaemonConfig\<close> with \<open>Helpers\<close>: what is admitted
    is what the translator of the same configuration supports.
  \<^item> \<open>Wav\<close> and \<open>Ingest\<close> (\<^verbatim>\<open>internal/speechengine/wav.go\<close>, \<^verbatim>\<open>internal/media/ingest\<close>): containers, the resampler, the file
    source, the frames of a pipe and the start of a capture device as \<open>startup_step\<close>.
  \<^item> \<open>Dispatch\<close> (\<^verbatim>\<open>internal/dispatch/dispatch.go\<close>): the worker pool as \<open>pool_step\<close>.

  Conventions. A raise is the left of a sum, a panic is \<open>None\<close>, a nil slice is kept apart where the code
  tests it. Instants and durations are integers of nanoseconds; words keep their width (samples, bytes, the
  retry count). A mutex makes its critical section one definition or one step; goroutines, channels and
  timers are step relations whose invariants are proved by rule induction over the reachable states. Maps
  whose order the code ranges over are association lists, and the order is never used by a property.

  The library of Go is modelled where the code relies on it (fields, cuts, trimming, \<open>Sprintf\<close> and \<open>Sscanf\<close>
  of integers, UTF-8 lengths). What cannot be read here is an argument: the Unicode tables (\<open>unicode\<close>, laws
  \<open>unicode_ok\<close>), \<open>ParseFloat\<close>, \<open>url.Parse\<close> and the file system (\<open>std\<close>), redaction (\<open>render\<close>), the rounding of
  \<open>float64\<close> (\<open>ieee\<close>, \<open>exact_on_integers\<close>), \<open>math.Pow\<close> and \<open>math.Exp\<close>, the translator, the synthesizer and the
  recognizer, YAML, \<open>math.Sin\<close> and \<open>math.Cos\<close>. Each hypothesis on them has an instance in a witness. No loop of the modelled code needs fuel:
  recursion is structural or has a measure, and the services that run for ever are step relations for which
  progress is a theorem (\<open>target_always_finishes\<close>, \<open>loop_waits_on_a_lane_that_moves\<close>, \<open>pool_never_stalls\<close>,
  \<open>every_call_returns\<close>). A loop over what the outside answers takes the answers as a list, and is still running
  when the list is used up.

  Findings. \<open>nextRetryCount\<close> falls from 255 to 0, so the backoff collapses after 256 failures; a caption of
  several cues burns in only its last one; segments from 100000 on are listed but never resolve; modes are
  validated but their normalised value is discarded; a push that precedes its session's first pair is lost when
  another session is dropped meanwhile; the bound on push targets is checked without reserving a place; a language
  that whisper detects and the registry does not know ends the session; the install of a pack hides an edit of the
  configuration file from the lanes; a regional voice blocks the install of its language; the pack of the only voice
  cannot be retired; settings saved again lose a nanosecond of a fractional delay.

  Not modelled: the lane's pumping of source audio and its telemetry, the helpers of translation and synthesis on the
  engine's side, the RPCs of the control plane beside the settings and the packs. Left out: the
  command line, generated code, installers, service managers, discovery and release tools, which are input
  and output around the parts above.
\<close>

end
